(* ===== verification/Prelude.thy ===== *)
theory Prelude
  imports Main "HOL-Library.Word"
begin

text \<open>
  The base of the development: the types of the kernel's data (machine integers at the width
  the i686 target gives them, addresses, byte memory), the result type of operations that can
  fail, the little-endian 32-bit loads and stores the compiler emits for \<open>uint32_t\<close> accesses,
  and the word and memory lemmas the component theories share.
\<close>

unbundle bit_operations_syntax

section \<open>Types\<close>

type_synonym u8 = "8 word"
type_synonym u16 = "16 word"
type_synonym u32 = "32 word"
type_synonym addr = "32 word"

text \<open>Memory as the kernel sees it: one byte per 32-bit virtual address.\<close>

type_synonym mem = "addr \<Rightarrow> u8"

text \<open>
  The ways an operation of the kernel ends without returning: a \<open>KPANIC\<close> (the message is
  its format string), a CPU divide fault, a load or store through a null pointer, an access
  outside the object, a read of an uninitialised variable, and a loop that never ends.
\<close>

datatype kerror =
    Panic string
  | DivideFault
  | NullDeref
  | OutOfBounds
  | Uninitialised
  | NoReturn

type_synonym 'a res = "kerror + 'a"

fun rbind :: "'a res \<Rightarrow> ('a \<Rightarrow> 'b res) \<Rightarrow> 'b res" where
  "rbind (Inl e) f = Inl e"
| "rbind (Inr x) f = f x"

lemma rbind_eq_Inr: "rbind r f = Inr y \<longleftrightarrow> (\<exists>x. r = Inr x \<and> f x = Inr y)"
  by (cases r) auto

lemma rbind_eq_Inl: "rbind r f = Inl e \<longleftrightarrow> r = Inl e \<or> (\<exists>x. r = Inr x \<and> f x = Inl e)"
  by (cases r) auto

text \<open>A function whose loop may not end has an optional result; no result is \<open>NoReturn\<close>.\<close>

definition run :: "'a res option \<Rightarrow> 'a res" where
  "run r = (case r of None \<Rightarrow> Inl NoReturn | Some x \<Rightarrow> x)"

lemma run_simps [simp]: "run None = Inl NoReturn" "run (Some x) = x"
  by (simp_all add: run_def)

named_theorems mem_frame \<open>what an operation leaves unchanged in memory\<close>
named_theorems heap_simps \<open>how the fields of a superblock change\<close>

section \<open>Machine integers\<close>

text \<open>\<open>CEILING\<close> of include/helpers.h, on \<open>uint32_t\<close> operands (division by a nonzero \<open>y\<close>).\<close>

definition CEILING :: "u32 \<Rightarrow> u32 \<Rightarrow> u32" where
  "CEILING x y = (x + y - 1) div y"

lemma unat_plus1: "unat (i + 1) = Suc (unat i)" if "i < n" for i n :: "'a::len word"
proof -
  have "unat n < 2 ^ LENGTH('a)" by (rule unsigned_less)
  then have "unat i + 1 < 2 ^ LENGTH('a)"
    using that unfolding word_less_nat_alt by linarith
  then show ?thesis by (simp add: unat_plus_if')
qed

lemma unat_diff: "unat (b - a) = unat b - unat a" if "a \<le> b" for a b :: "'a::len word"
  using that by (simp add: unat_sub_if' word_le_nat_alt)

lemma plus1_le_iff: "i + 1 \<le> x \<longleftrightarrow> i < x" if "i < n" for i n x :: "'a::len word"
  using that by (simp add: word_le_nat_alt word_less_nat_alt unat_plus1 [OF that] Suc_le_eq)

lemma unat_minus_one: "unat (i - 1) = unat i - 1" if "i \<noteq> 0" for i :: "'a::len word"
  using that by (simp add: unat_sub_if' Suc_le_eq unat_gt_0)

lemma unat_minus1: "unat (i - 1) < unat i" if "i \<noteq> 0" for i :: "'a::len word"
  using that by (simp add: unat_sub_if' Suc_le_eq unat_gt_0)

lemma unat_of_nat_less: "of_nat j < n" if "j < unat n" for n :: "'a::len word"
proof -
  have "unat n < 2 ^ LENGTH('a)" by (rule unsigned_less)
  with that have "j < 2 ^ LENGTH('a)" by linarith
  then show ?thesis using that by (simp add: word_less_nat_alt unat_of_nat)
qed

text \<open>The measure of a counting loop \<open>for (; i < n; i++)\<close>.\<close>

lemma loop_measure: "unat (n - (i + 1)) < unat (n - i)" if "i < n" for i n :: "'a::len word"
proof -
  have "unat (n - (i + 1)) = unat n - Suc (unat i)"
    using that by (simp add: unat_plus1 unat_diff word_le_nat_alt word_less_nat_alt)
  moreover have "unat (n - i) = unat n - unat i"
    using that by (simp add: unat_diff)
  ultimately show ?thesis using that by (simp add: word_less_nat_alt)
qed

lemma unat_add_small: "unat (a + b) = unat a + unat b"
  if "unat a + unat b < 2 ^ LENGTH('a)" for a b :: "'a::len word"
  using that by (simp add: unat_plus_if')

lemma unat_add_le: "unat (a + b) = unat a + unat b"
  if "unat a + unat b \<le> unat c" for a b c :: "'a::len word"
proof -
  have "unat c < 2 ^ LENGTH('a)" by (rule unsigned_less)
  with that show ?thesis by (intro unat_add_small) linarith
qed

lemma unat_mult_le: "unat (a * b) = unat a * unat b"
  if "unat a * unat b \<le> unat c" for a b c :: "'a::len word"
proof -
  have "unat c < 2 ^ LENGTH('a)" by (rule unsigned_less)
  with that have "unat a * unat b < 2 ^ LENGTH('a)" by linarith
  then show ?thesis by (simp add: unat_word_ariths)
qed

lemma unat32: "unat w < 4294967296" for w :: u32
proof -
  have "unat w < 2 ^ LENGTH(32)" by (rule unsigned_less)
  then show ?thesis by simp
qed

lemma unat_mult_small: "unat (a * b) = unat a * unat b"
  if "unat a * unat b < 2 ^ LENGTH('a)" for a b :: "'a::len word"
  using that by (simp add: unat_word_ariths)

lemma unat_CEILING:
  assumes "0 < unat y" and "unat x + unat y \<le> 2 ^ 32"
  shows "unat (CEILING x y) = (unat x + unat y - 1) div unat y"
proof -
  have "unat (x + y - 1) = unat x + unat y - 1"
  proof (cases "unat x + unat y < 2 ^ 32")
    case True
    then have "unat (x + y) = unat x + unat y" by (simp add: unat_plus_if')
    then show ?thesis using assms(1) by (simp add: unat_sub_if')
  next
    case False
    with assms(2) have eq: "unat x + unat y = 2 ^ 32" by simp
    then have "x + y = 0" by (simp add: word_arith_nat_add)
    with eq show ?thesis by (simp add: unsigned_minus_1_eq_mask mask_eq_exp_minus_1)
  qed
  then show ?thesis by (simp add: CEILING_def unat_div_distrib)
qed

section \<open>Spans of memory\<close>

text \<open>The \<open>n\<close> bytes from address \<open>b\<close> on. The subtraction wraps as the addresses do.\<close>

definition span :: "addr \<Rightarrow> u32 \<Rightarrow> addr set" where
  "span b n = {a. a - b < n}"

lemma in_span: "a \<in> span b n \<longleftrightarrow> a - b < n"
  by (simp add: span_def)

lemma span_offset [simp]: "b + i \<in> span b n \<longleftrightarrow> i < n"
  by (simp add: in_span)

lemma in_span_nat:
  assumes "unat b + unat n \<le> 2 ^ 32"
  shows "a \<in> span b n \<longleftrightarrow> unat b \<le> unat a \<and> unat a < unat b + unat n"
proof (cases "b \<le> a")
  case True
  then show ?thesis by (auto simp: in_span word_less_nat_alt unat_diff word_le_nat_alt)
next
  case False
  then have "unat (a - b) = unat a + 2 ^ 32 - unat b"
    by (simp add: unat_sub_if' word_le_nat_alt)
  then show ?thesis
    using False assms by (auto simp: in_span word_less_nat_alt word_le_nat_alt)
qed

lemma in_span_offset:
  assumes "unat i + unat n < 2 ^ 32"
  shows "a \<in> span (b + i) n \<longleftrightarrow> i \<le> a - b \<and> unat (a - b) < unat i + unat n"
proof -
  define d where "d = a - b"
  have eq: "a - (b + i) = d - i" by (simp add: d_def)
  show ?thesis
    unfolding in_span eq d_def [symmetric] using assms unat32 [of d]
    by (auto simp: word_less_nat_alt word_le_nat_alt unat_sub_if')
qed

section \<open>32-bit loads and stores\<close>

definition load32 :: "mem \<Rightarrow> addr \<Rightarrow> u32" where
  "load32 m a =
     ucast (m a) OR push_bit 8 (ucast (m (a + 1)))
       OR push_bit 16 (ucast (m (a + 2))) OR push_bit 24 (ucast (m (a + 3)))"

definition store32 :: "mem \<Rightarrow> addr \<Rightarrow> u32 \<Rightarrow> mem" where
  "store32 m a v =
     m(a := ucast v, a + 1 := ucast (drop_bit 8 v),
       a + 2 := ucast (drop_bit 16 v), a + 3 := ucast (drop_bit 24 v))"

lemma bytes_of_word:
  fixes v :: u32
  shows "ucast (ucast v :: u8) OR push_bit 8 (ucast (ucast (drop_bit 8 v) :: u8))
       OR push_bit 16 (ucast (ucast (drop_bit 16 v) :: u8))
       OR push_bit 24 (ucast (ucast (drop_bit 24 v) :: u8)) = v"
  (is "?l = v")
proof (rule bit_word_eqI)
  fix n assume "n < LENGTH(32)"
  then show "bit ?l n = bit v n"
    by (cases "n < 16"; cases "n < 24") (auto simp: bit_simps)
qed

lemma ucast_byte [simp]: "ucast (ucast c :: u32) = c" for c :: u8
  by (rule bit_word_eqI) (simp add: bit_simps)

lemma load32_store32_same [simp]: "load32 (store32 m a v) a = v"
  by (simp add: load32_def store32_def bytes_of_word)

lemma store32_outside [mem_frame]: "b \<notin> span a 4 \<Longrightarrow> store32 m a v b = m b"
  by (auto simp: store32_def in_span)

lemma load32_cong: "(\<And>b. b \<in> span a 4 \<Longrightarrow> m b = m' b) \<Longrightarrow> load32 m a = load32 m' a"
  by (simp add: load32_def in_span)

lemma load32_frame: "span a 4 \<inter> W = {} \<Longrightarrow> (\<And>b. b \<notin> W \<Longrightarrow> m' b = m b) \<Longrightarrow> load32 m' a = load32 m a"
  by (rule load32_cong) blast

lemma load32_bytes:
  "m a = ucast (load32 m a)" "m (a + 1) = ucast (drop_bit 8 (load32 m a))"
  "m (a + 2) = ucast (drop_bit 16 (load32 m a))" "m (a + 3) = ucast (drop_bit 24 (load32 m a))"
  by (rule bit_word_eqI, auto simp: load32_def bit_simps dest: bit_imp_le_length)+

lemma load32_eq_bytes:
  assumes "load32 m a = load32 m' a" "b \<in> span a 4"
  shows "m b = m' b"
proof -
  have "unat (b - a) < 4" using assms(2) by (simp add: in_span word_less_nat_alt)
  then have "b - a \<in> {0, 1, 2, 3}" by (auto simp: word_unat_eq_iff)
  then have "b \<in> {a, a + 1, a + 2, a + 3}" by (auto simp: algebra_simps)
  then show ?thesis
    using load32_bytes [of m a] load32_bytes [of m' a] assms(1) by auto
qed

end
