(* ===== verification/LibcString.thy ===== *)
theory LibcString
  imports Prelude
begin

text \<open>
  The kernel's own libc string functions (src/src/libc/string): \<open>memset\<close>, \<open>memcpy\<close>,
  \<open>memmove\<close>, \<open>memcmp\<close> and \<open>strlen\<close>, over byte memory, one recursive function per
  loop with the code's \<open>size_t\<close> counter. The lemmas give each loop a closed form; they are
  what the heap, the page allocator and the drivers use of these functions.
\<close>

section \<open>memset\<close>

function memset_loop :: "mem \<Rightarrow> addr \<Rightarrow> u8 \<Rightarrow> u32 \<Rightarrow> u32 \<Rightarrow> mem" where
  "memset_loop m b v i len = (if i < len then memset_loop (m(b + i := v)) b v (i + 1) len else m)"
  by pat_completeness auto
termination
  by (relation "measure (\<lambda>(m, b, v, i, len). unat (len - i))") (auto simp: loop_measure)

declare memset_loop.simps [simp del]

text \<open>The \<open>int\<close> value is truncated to a byte by the cast in the loop.\<close>

definition memset :: "mem \<Rightarrow> addr \<Rightarrow> u32 \<Rightarrow> u32 \<Rightarrow> mem" where
  "memset m buf val len = memset_loop m buf (ucast val) 0 len"

lemma memset_loop_eq:
  "memset_loop m b v i len = (\<lambda>a. if i \<le> a - b \<and> a - b < len then v else m a)"
proof (induction m b v i len rule: memset_loop.induct)
  case (1 m b v i len)
  show ?case
  proof (cases "i < len")
    case True
    have step: "(i + 1 \<le> x \<or> x = i) \<longleftrightarrow> i \<le> x" if "x < len" for x
      using True by (auto simp: plus1_le_iff)
    show ?thesis
      using 1 True step by (subst memset_loop.simps) (fastforce simp: fun_eq_iff)
  next
    case False
    then show ?thesis by (subst memset_loop.simps) (auto simp: fun_eq_iff)
  qed
qed

lemma memset_eq: "memset m b v len = (\<lambda>a. if a \<in> span b len then ucast v else m a)"
  by (simp add: memset_def memset_loop_eq in_span)

lemma memset_inside [simp]: "a \<in> span b len \<Longrightarrow> memset m b v len a = ucast v"
  by (simp add: memset_eq)

lemma memset_outside [mem_frame]: "a \<notin> span b len \<Longrightarrow> memset m b v len a = m a"
  by (simp add: memset_eq)

section \<open>memcpy\<close>

function memcpy_loop :: "mem \<Rightarrow> addr \<Rightarrow> addr \<Rightarrow> u32 \<Rightarrow> u32 \<Rightarrow> mem" where
  "memcpy_loop m d s i len =
     (if i < len then memcpy_loop (m(d + i := m (s + i))) d s (i + 1) len else m)"
  by pat_completeness auto
termination
  by (relation "measure (\<lambda>(m, d, s, i, len). unat (len - i))") (auto simp: loop_measure)

declare memcpy_loop.simps [simp del]

text \<open>The pair is the returned pointer and the memory.\<close>

definition memcpy :: "mem \<Rightarrow> addr \<Rightarrow> addr \<Rightarrow> u32 \<Rightarrow> addr \<times> mem" where
  "memcpy m dest src len =
     (if len = 0 then (0, m) else (dest, memcpy_loop m dest src 0 len))"

text \<open>
  The ascending copy is right unless a store hits a byte that is still to be read, that is,
  unless the destination starts inside the source.
\<close>

lemma memcpy_loop_eq:
  assumes "d = s \<or> len \<le> d - s"
  shows "memcpy_loop m d s i len =
    (\<lambda>a. if i \<le> a - d \<and> a - d < len then m (s + (a - d)) else m a)"
  using assms
proof (induction m d s i len rule: memcpy_loop.induct)
  case (1 m d s i len)
  show ?case
  proof (cases "i < len")
    case True
    have later: "s + k \<noteq> d + i" if "i < k" "k < len" for k
    proof
      assume "s + k = d + i"
      then have k: "d - s = k - i" by (simp add: algebra_simps)
      have "k - i < len"
        using that by (simp add: word_less_nat_alt unat_diff word_le_nat_alt)
      with 1(2) that k show False by auto
    qed
    have eq: "memcpy_loop m d s i len = memcpy_loop (m(d + i := m (s + i))) d s (i + 1) len"
      using True by (subst memcpy_loop.simps) simp
    show ?thesis
      unfolding eq 1(1) [OF True 1(2)] plus1_le_iff [OF True]
    proof (rule ext)
      fix a
      have *: "a = d + (a - d)" by simp
      show "(if i < a - d \<and> a - d < len then (m(d + i := m (s + i))) (s + (a - d))
             else (m(d + i := m (s + i))) a)
          = (if i \<le> a - d \<and> a - d < len then m (s + (a - d)) else m a)"
        using True later [of "a - d"]
        by (subst (3) *) (cases "a - d = i"; simp add: less_le)
    qed
  next
    case False
    then show ?thesis by (subst memcpy_loop.simps) (auto simp: fun_eq_iff)
  qed
qed

section \<open>memmove\<close>

function memmove_down :: "mem \<Rightarrow> addr \<Rightarrow> addr \<Rightarrow> u32 \<Rightarrow> mem" where
  "memmove_down m d s i =
     (if i \<noteq> 0 then memmove_down (m(d + (i - 1) := m (s + (i - 1)))) d s (i - 1) else m)"
  by pat_completeness auto
termination
  by (relation "measure (\<lambda>(m, d, s, i). unat i)") (auto simp: unat_minus1 simp del: One_nat_def)

declare memmove_down.simps [simp del]

definition memmove :: "mem \<Rightarrow> addr \<Rightarrow> addr \<Rightarrow> u32 \<Rightarrow> addr \<times> mem" where
  "memmove m dest src len =
     (dest, if dest < src then memcpy_loop m dest src 0 len else memmove_down m dest src len)"

lemma memmove_down_eq:
  assumes "d = s \<or> i \<le> s - d"
  shows "memmove_down m d s i = (\<lambda>a. if a - d < i then m (s + (a - d)) else m a)"
  using assms
proof (induction m d s i rule: memmove_down.induct)
  case (1 m d s i)
  show ?case
  proof (cases "i = 0")
    case True
    then show ?thesis by (subst memmove_down.simps) (auto simp: fun_eq_iff)
  next
    case False
    have less: "k < i \<longleftrightarrow> k < i - 1 \<or> k = i - 1" for k
      using False by (auto simp: word_less_nat_alt unat_minus_one word_unat_eq_iff)
    have later: "s + k \<noteq> d + (i - 1)" if "k < i - 1" for k
    proof
      assume "s + k = d + (i - 1)"
      then have k: "s - d = i - 1 - k" by (simp add: algebra_simps)
      have "i - 1 - k < i"
        using that False
        by (simp add: word_less_nat_alt unat_diff [of k] word_le_nat_alt unat_minus_one unat_gt_0)
      with 1(2) that k show False by auto
    qed
    have le: "d = s \<or> i - 1 \<le> s - d"
      using 1(2) unat_minus1 [OF False] by (auto simp: word_le_nat_alt)
    have eq: "memmove_down m d s i = memmove_down (m(d + (i - 1) := m (s + (i - 1)))) d s (i - 1)"
      using False by (subst memmove_down.simps) simp
    show ?thesis
      unfolding eq 1(1) [OF False le]
    proof (rule ext)
      fix a
      have *: "a = d + (i - 1) \<longleftrightarrow> a - d = i - 1"
        by (metis add_diff_cancel_left' diff_add_cancel add.commute)
      show "(if a - d < i - 1 then (m(d + (i - 1) := m (s + (i - 1)))) (s + (a - d))
             else (m(d + (i - 1) := m (s + (i - 1)))) a)
          = (if a - d < i then m (s + (a - d)) else m a)"
        using later [of "a - d"] less [of "a - d"]
        by (cases "a - d = i - 1") (simp_all add: *)
    qed
  qed
qed

section \<open>memcmp\<close>

function memcmp_loop :: "mem \<Rightarrow> addr \<Rightarrow> addr \<Rightarrow> u32 \<Rightarrow> u32 \<Rightarrow> int" where
  "memcmp_loop m a b i len =
     (if i < len then
        (if m (a + i) < m (b + i) then -1
         else if m (b + i) < m (a + i) then 1
         else memcmp_loop m a b (i + 1) len)
      else 0)"
  by pat_completeness auto
termination
  by (relation "measure (\<lambda>(m, a, b, i, len). unat (len - i))") (auto simp: loop_measure)

declare memcmp_loop.simps [simp del]

definition memcmp :: "mem \<Rightarrow> addr \<Rightarrow> addr \<Rightarrow> u32 \<Rightarrow> int" where
  "memcmp m first second len = memcmp_loop m first second 0 len"

text \<open>The loop stops at the first offset whose bytes differ.\<close>

lemma memcmp_loop_spec:
  "memcmp_loop m a b i len = 0 \<and> (\<forall>j. i \<le> j \<and> j < len \<longrightarrow> m (a + j) = m (b + j))
   \<or> (\<exists>j. i \<le> j \<and> j < len \<and> (\<forall>k. i \<le> k \<and> k < j \<longrightarrow> m (a + k) = m (b + k)) \<and>
        m (a + j) \<noteq> m (b + j) \<and>
        memcmp_loop m a b i len = (if m (a + j) < m (b + j) then -1 else 1))"
proof (induction m a b i len rule: memcmp_loop.induct)
  case (1 m a b i len)
  show ?case
  proof (cases "i < len \<and> m (a + i) = m (b + i)")
    case True
    then have eq: "memcmp_loop m a b i len = memcmp_loop m a b (i + 1) len"
      by (subst memcmp_loop.simps) simp
    have le: "i \<le> j \<longleftrightarrow> i = j \<or> i + 1 \<le> j" for j
      using True by (auto simp: plus1_le_iff)
    show ?thesis
      using 1 True unfolding eq by (auto simp: le)
  next
    case False
    then show ?thesis
      by (subst (1 2) memcmp_loop.simps) (auto intro!: exI [of _ i])
  qed
qed

section \<open>strlen\<close>

text \<open>On memory without a zero byte the loop never ends, hence the optional result.\<close>

partial_function (option) strlen_loop :: "mem \<Rightarrow> addr \<Rightarrow> u32 \<Rightarrow> u32 option" where
  "strlen_loop m s result =
     (if m (s + result) \<noteq> 0 then strlen_loop m s (result + 1) else Some result)"

declare strlen_loop.simps [code]

definition strlen :: "mem \<Rightarrow> addr \<Rightarrow> u32 option" where
  "strlen m s = strlen_loop m s 0"

lemma strlen_loop_steps:
  assumes "m (s + of_nat n) = 0" and "\<forall>j. i \<le> j \<and> j < n \<longrightarrow> m (s + of_nat j) \<noteq> 0" and "i \<le> n"
  shows "strlen_loop m s (of_nat i) = Some (of_nat n)"
  using assms(3,2)
proof (induction i rule: inc_induct)
  case base
  then show ?case using assms(1) by (simp add: strlen_loop.simps)
next
  case (step i)
  then have "strlen_loop m s (of_nat i) = strlen_loop m s (of_nat (Suc i))"
    by (subst strlen_loop.simps) (simp add: add.commute)
  with step show ?case by simp
qed

lemma strlen_eq:
  assumes "m (s + n) = 0" and "\<And>j. j < n \<Longrightarrow> m (s + j) \<noteq> 0"
  shows "strlen m s = Some n"
proof -
  have "m (s + of_nat j) \<noteq> 0" if "j < unat n" for j
    using assms(2) [of "of_nat j"] that by (simp add: unat_of_nat_less)
  then show ?thesis
    using strlen_loop_steps [of m s "unat n" 0] assms(1) by (simp add: strlen_def)
qed

lemma strlen_loop_ends_at_zero: "strlen_loop m s r = Some n \<Longrightarrow> m (s + n) = 0"
  by (rule strlen_loop.raw_induct [of "\<lambda>m s r n. m (s + n) = 0"]) (auto split: if_splits)

section \<open>What the kernel relies on\<close>

text \<open>A concrete memory for the witnesses: the bytes 1, 2, 3, ... from address 256 on.\<close>

definition demo_bytes :: mem where
  "demo_bytes = (\<lambda>a. if 256 \<le> a \<and> a < 264 then ucast (a - 255) else 0)"

text \<open>
  C33: \<open>memmove\<close> copies \<open>len\<close> bytes for any placement of source and destination that does not
  wrap around the address space, also when they overlap: every destination byte is the byte
  the source held before the call, no other byte changes, and the destination is returned.
\<close>

theorem memmove_correct:
  assumes "unat dest + unat len \<le> 2 ^ 32" "unat src + unat len \<le> 2 ^ 32"
  shows "memmove m dest src len =
    (dest, \<lambda>a. if a \<in> span dest len then m (src + (a - dest)) else m a)"
proof (cases "dest < src")
  case True
  then have "unat (dest - src) = unat dest + 2 ^ 32 - unat src"
    by (simp add: unat_sub_if' word_less_nat_alt)
  then have "len \<le> dest - src" using assms True by (simp add: word_le_nat_alt word_less_nat_alt)
  then show ?thesis
    using True memcpy_loop_eq [of dest src len m 0] by (simp add: memmove_def in_span)
next
  case False
  have "dest = src \<or> len \<le> src - dest"
  proof (cases "dest = src")
    case ne: False
    then have "src < dest" using False by simp
    then have "unat (src - dest) = unat src + 2 ^ 32 - unat dest"
      by (simp add: unat_sub_if' word_less_nat_alt)
    then have "len \<le> src - dest"
      using assms \<open>src < dest\<close> by (simp add: word_le_nat_alt word_less_nat_alt)
    then show ?thesis by simp
  qed simp
  then show ?thesis
    using False memmove_down_eq [of dest src len m] by (simp add: memmove_def in_span)
qed

theorem memmove_correct_witness:
  "memmove demo_bytes 258 256 6 =
    (258, \<lambda>a. if a \<in> span 258 6 then demo_bytes (256 + (a - 258)) else demo_bytes a)"
  by (rule memmove_correct) simp_all

text \<open>
  \<open>memcpy\<close> copies \<open>len\<close> bytes between objects that do not overlap (or when the destination
  starts below the source) and changes nothing else. It returns the destination, except that
  a call with length zero returns null, where the C standard promises the destination.
\<close>

lemma memcpy_correct:
  assumes "dest = src \<or> len \<le> dest - src"
  shows "memcpy m dest src len =
    (if len = 0 then 0 else dest, \<lambda>a. if a \<in> span dest len then m (src + (a - dest)) else m a)"
  using memcpy_loop_eq [OF assms, of m 0] by (auto simp: memcpy_def in_span)

lemma at_first_difference:
  fixes j len :: "'a :: linorder"
  assumes "j < len" "\<forall>k. k < j \<longrightarrow> f k = g k" "f j \<noteq> g j" "\<And>x y. R x y \<Longrightarrow> x \<noteq> y"
  shows "(\<exists>l. l < len \<and> {k. k < l \<and> f k \<noteq> g k} = {} \<and> R (f l) (g l)) \<longleftrightarrow> R (f j) (g j)"
proof
  assume "\<exists>l. l < len \<and> {k. k < l \<and> f k \<noteq> g k} = {} \<and> R (f l) (g l)"
  then obtain l where l: "{k. k < l \<and> f k \<noteq> g k} = {}" "R (f l) (g l)" by blast
  then have "l = j" using assms(2,3) assms(4) [OF l(2)] by (cases l j rule: linorder_cases) blast+
  then show "R (f j) (g j)" using l by simp
next
  assume "R (f j) (g j)"
  then show "\<exists>l. l < len \<and> {k. k < l \<and> f k \<noteq> g k} = {} \<and> R (f l) (g l)" using assms(1,2) by blast
qed

text \<open>
  The result of \<open>memcmp\<close> is the sign of the first difference: zero exactly when the two
  objects agree on all \<open>len\<close> bytes, negative exactly when at the first offset where they
  differ the first object has the smaller (unsigned) byte, and positive exactly when it has the
  larger one.
\<close>

lemma memcmp_correct:
  "(memcmp m a b len = 0 \<longleftrightarrow> {j. j < len \<and> m (a + j) \<noteq> m (b + j)} = {})
   \<and> (memcmp m a b len < 0 \<longleftrightarrow>
        (\<exists>j. j < len \<and> {k. k < j \<and> m (a + k) \<noteq> m (b + k)} = {} \<and> m (a + j) < m (b + j)))
   \<and> (memcmp m a b len > 0 \<longleftrightarrow>
        (\<exists>j. j < len \<and> {k. k < j \<and> m (a + k) \<noteq> m (b + k)} = {} \<and> m (b + j) < m (a + j)))"
proof -
  consider (same) "memcmp m a b len = 0" "\<forall>j. j < len \<longrightarrow> m (a + j) = m (b + j)"
    | (diff) j where "j < len" "\<forall>k. k < j \<longrightarrow> m (a + k) = m (b + k)" "m (a + j) \<noteq> m (b + j)"
        "memcmp m a b len = (if m (a + j) < m (b + j) then -1 else 1)"
    using memcmp_loop_spec [of m a b 0 len] by (auto simp: memcmp_def)
  then show ?thesis
  proof cases
    case same
    then have none: "{j. j < len \<and> m (a + j) \<noteq> m (b + j)} = {}" by blast
    have lt: "(\<exists>j. j < len \<and> {k. k < j \<and> m (a + k) \<noteq> m (b + k)} = {} \<and> m (a + j) < m (b + j)) = False"
      using same(2) less_irrefl by metis
    have gt: "(\<exists>j. j < len \<and> {k. k < j \<and> m (a + k) \<noteq> m (b + k)} = {} \<and> m (b + j) < m (a + j)) = False"
      using same(2) less_irrefl by metis
    show ?thesis unfolding lt gt none same(1) by (simp only: simp_thms less_irrefl)
  next
    case (diff j)
    have at_j: "j \<in> {j. j < len \<and> m (a + j) \<noteq> m (b + j)}" using diff by blast
    note lt = at_first_difference [OF diff(1,2,3), of "(<)"]
    note gt = at_first_difference [OF diff(1,2,3), of "\<lambda>x y. y < x"]
    show ?thesis
      using lt gt diff(3,4) at_j by (cases "m (a + j) < m (b + j)") auto
  qed
qed

text \<open>
  \<open>strlen\<close> returns \<open>n\<close> exactly when the byte at offset \<open>n\<close> is the first zero byte, so it
  returns on every memory that has a zero byte, and on no other.
\<close>

lemma strlen_correct:
  "strlen m s = Some n \<longleftrightarrow> m (s + n) = 0 \<and> {j. j < n \<and> m (s + j) = 0} = {}"
proof
  assume zero: "m (s + n) = 0 \<and> {j. j < n \<and> m (s + j) = 0} = {}"
  then show "strlen m s = Some n" by (intro strlen_eq) blast+
next
  assume some: "strlen m s = Some n"
  then have zero: "m (s + n) = 0" using strlen_loop_ends_at_zero by (simp add: strlen_def)
  have "\<exists>j. j \<le> n \<and> m (s + j) = 0 \<and> {k. k < j \<and> m (s + k) = 0} = {}"
  proof -
    obtain j where j: "m (s + j) = 0" "\<forall>k. m (s + k) = 0 \<longrightarrow> unat j \<le> unat k"
      using zero exists_least_iff [of "\<lambda>l. \<exists>k. unat k = l \<and> m (s + k) = 0"]
      by (metis linorder_not_less)
    then show ?thesis
      using zero by (intro exI [of _ j]) (auto simp: word_le_nat_alt word_less_nat_alt not_less [symmetric])
  qed
  then obtain j where j: "m (s + j) = 0" "{k. k < j \<and> m (s + k) = 0} = {}" by blast
  then have "strlen m s = Some j" by (intro strlen_eq) blast+
  then show "m (s + n) = 0 \<and> {j. j < n \<and> m (s + j) = 0} = {}" using some j by simp
qed

end
