(* ===== verification/BitmapRuns.thy ===== *)
theory BitmapRuns
  imports Prelude
begin

text \<open>
  The specification level of the bitmap heap. A bitmap is a function from block numbers to
  identifiers, 0 for a free block. The allocations it records are its runs: the maximal
  stretches of equal nonzero identifiers behind the reserved prefix. The lemmas say what
  writing an identifier over a free stretch, and clearing a run, does to the set of runs:
  this is the abstract contract of allocation and deallocation.
\<close>

section \<open>Free stretches and runs\<close>

definition free_at :: "(nat \<Rightarrow> u8) \<Rightarrow> nat \<Rightarrow> nat \<Rightarrow> bool" where
  "free_at f k n \<longleftrightarrow> (\<forall>j < n. f (k + j) = 0)"

definition is_run :: "(nat \<Rightarrow> u8) \<Rightarrow> nat \<Rightarrow> u8 \<Rightarrow> nat \<Rightarrow> nat \<Rightarrow> bool" where
  "is_run f N c i n \<longleftrightarrow>
     c \<noteq> 0 \<and> 0 < n \<and> i + n \<le> N \<and> (\<forall>j. i \<le> j \<and> j < i + n \<longrightarrow> f j = c) \<and>
     f (i - 1) \<noteq> c \<and> (i + n < N \<longrightarrow> f (i + n) \<noteq> c)"

definition runs :: "(nat \<Rightarrow> u8) \<Rightarrow> nat \<Rightarrow> nat \<Rightarrow> (nat \<times> nat) set" where
  "runs f R N = {(i, n). R \<le> i \<and> is_run f N (f i) i n}"

definition fill :: "(nat \<Rightarrow> u8) \<Rightarrow> nat \<Rightarrow> nat \<Rightarrow> u8 \<Rightarrow> nat \<Rightarrow> u8" where
  "fill f k n c = (\<lambda>j. if k \<le> j \<and> j < k + n then c else f j)"

definition used_blocks :: "(nat \<Rightarrow> u8) \<Rightarrow> nat \<Rightarrow> nat" where
  "used_blocks f N = card {j. j < N \<and> f j \<noteq> 0}"

lemma is_run_id: "is_run f N c i n \<Longrightarrow> f i = c"
  by (auto simp: is_run_def)

lemma in_runs: "(i, n) \<in> runs f R N \<longleftrightarrow> R \<le> i \<and> (\<exists>c. is_run f N c i n)"
  unfolding runs_def using is_run_id by blast

lemma is_run_cell: "is_run f N c i n \<Longrightarrow> i \<le> j \<Longrightarrow> j < i + n \<Longrightarrow> f j = c"
  by (simp add: is_run_def)

lemma is_run_nonempty: "is_run f N c i n \<Longrightarrow> 0 < n" "is_run f N c i n \<Longrightarrow> c \<noteq> 0"
  by (simp_all add: is_run_def)

lemma meeting_point:
  assumes "\<not> (i + l \<le> k \<or> k + n \<le> i)" "0 < l" "0 < (n::nat)"
  obtains x where "i \<le> x" "x < i + l" "k \<le> x" "x < k + n"
  using assms by (auto intro: that [of "max i k"])

lemma free_at_iff: "free_at f k n \<longleftrightarrow> (\<forall>j. k \<le> j \<and> j < k + n \<longrightarrow> f j = 0)"
  unfolding free_at_def by (metis add_less_cancel_left le_add1 le_add_diff_inverse)

section \<open>Runs never overlap\<close>

lemma runs_meet_id: "is_run f N c i n \<Longrightarrow> is_run f N d k l \<Longrightarrow> i \<le> x \<Longrightarrow> x < i + n \<Longrightarrow>
    k \<le> x \<Longrightarrow> x < k + l \<Longrightarrow> c = d"
  by (auto simp: is_run_def)

lemma run_start_le:
  assumes "is_run f N c i n" "is_run f N c k l" "i \<le> x" "x < i + n" "k \<le> x" "x < k + l"
  shows "i \<le> k"
proof (rule ccontr)
  assume "\<not> i \<le> k"
  then have "k \<le> i - 1" "i - 1 < k + l" using assms(3,6) by auto
  then have "f (i - 1) = c" using assms(2) by (auto simp: is_run_def)
  then show False using assms(1) by (simp add: is_run_def)
qed

lemma run_end_le:
  assumes "is_run f N c i n" "is_run f N c i l"
  shows "n \<le> l"
proof (rule ccontr)
  assume "\<not> n \<le> l"
  then have "i + l < i + n" "i + l < N" using assms(1) by (auto simp: is_run_def)
  then have "f (i + l) = c" "f (i + l) \<noteq> c" using assms by (auto simp: is_run_def)
  then show False by simp
qed

lemma runs_equal_or_disjoint:
  assumes "(i, n) \<in> runs f R N" "(k, l) \<in> runs f R N" "(i, n) \<noteq> (k, l)"
  shows "i + n \<le> k \<or> k + l \<le> i"
proof (rule ccontr)
  obtain c d where c: "is_run f N c i n" and d: "is_run f N d k l"
    using assms by (auto simp: in_runs)
  assume "\<not> ?thesis"
  then obtain x where x: "i \<le> x" "x < i + n" "k \<le> x" "x < k + l"
    using meeting_point is_run_nonempty [OF c] is_run_nonempty [OF d] by metis
  then have "c = d" using runs_meet_id c d by blast
  then have "i = k" using run_start_le [OF c _ x] run_start_le [OF _ c x(3,4) x(1,2)] d by simp
  then have "n = l" using run_end_le c d \<open>c = d\<close> by (simp add: le_antisym)
  then show False using assms(3) \<open>i = k\<close> by simp
qed

section \<open>Claiming a free stretch\<close>

lemma fill_is_run:
  assumes "c \<noteq> 0" "f (k - 1) \<noteq> c" "k + n < N \<longrightarrow> f (k + n) \<noteq> c" "0 < n" "0 < k" "k + n \<le> N"
  shows "is_run (fill f k n c) N c k n"
  using assms by (auto simp: is_run_def fill_def)

lemma run_survives_fill:
  assumes "is_run f N d i l" "i + l \<le> k \<or> k + n \<le> i" "0 < i"
    and "f (k - 1) \<noteq> c" "k + n < N \<longrightarrow> f (k + n) \<noteq> c"
  shows "is_run (fill f k n c) N d i l"
proof -
  have *: "f (i + l - 1) = d" "f i = d" "0 < l" "i < N" using assms(1) by (auto simp: is_run_def)
  have "fill f k n c (i - 1) \<noteq> d"
    using assms * by (cases "i = k + n") (auto simp: is_run_def fill_def)
  moreover have "i + l < N \<longrightarrow> fill f k n c (i + l) \<noteq> d"
    using assms * by (cases "i + l = k") (auto simp: is_run_def fill_def)
  ultimately show ?thesis using assms(1,2) by (auto simp: is_run_def fill_def)
qed

lemma runs_fill:
  assumes free: "free_at f k n" and c: "c \<noteq> 0" "f (k - 1) \<noteq> c" "k + n < N \<longrightarrow> f (k + n) \<noteq> c"
    and k: "0 < n" "0 < R" "R \<le> k" "k + n \<le> N"
  shows "runs (fill f k n c) R N = insert (k, n) (runs f R N)"
proof (intro equalityI subsetI)
  fix r assume r: "r \<in> insert (k, n) (runs f R N)"
  have new: "is_run (fill f k n c) N c k n" using c k by (intro fill_is_run) auto
  show "r \<in> runs (fill f k n c) R N"
  proof (cases "r = (k, n)")
    case True
    then show ?thesis using new k by (auto simp: in_runs)
  next
    case False
    with r obtain i l d where il: "r = (i, l)" "R \<le> i" "is_run f N d i l"
      by (cases r) (auto simp: in_runs)
    have "i + l \<le> k \<or> k + n \<le> i"
    proof (rule ccontr)
      assume "\<not> ?thesis"
      then obtain x where x: "i \<le> x" "x < i + l" "k \<le> x" "x < k + n"
        using meeting_point is_run_nonempty [OF il(3)] k(1) by metis
      then have "f x = d" "f x = 0" using is_run_cell [OF il(3)] free by (auto simp: free_at_iff)
      then show False using is_run_nonempty [OF il(3)] by simp
    qed
    then show ?thesis
      using il run_survives_fill [OF il(3) _ _ c(2,3)] k by (auto simp: in_runs)
  qed
next
  fix r assume "r \<in> runs (fill f k n c) R N"
  then obtain i l d where il: "r = (i, l)" "R \<le> i" "is_run (fill f k n c) N d i l"
    by (cases r) (auto simp: in_runs)
  have new: "is_run (fill f k n c) N c k n" using c k by (intro fill_is_run) auto
  show "r \<in> insert (k, n) (runs f R N)"
  proof (cases "r = (k, n)")
    case False
    then have dj: "i + l \<le> k \<or> k + n \<le> i"
      using runs_equal_or_disjoint [of i l "fill f k n c" R N k n] il new k by (auto simp: in_runs)
    have f_eq: "f j = (if k \<le> j \<and> j < k + n then 0 else fill f k n c j)" for j
      using free by (auto simp: fill_def free_at_iff)
    have "is_run f N d i l"
      using il(3) dj by (auto simp: is_run_def f_eq)
    with il show ?thesis by (auto simp: in_runs)
  qed simp
qed

section \<open>Clearing a run\<close>

lemma runs_clear:
  assumes kn: "(k, n) \<in> runs f R N" and R: "0 < R"
  shows "runs (fill f k n 0) R N = runs f R N - {(k, n)}"
proof (intro equalityI subsetI)
  obtain c where c: "is_run f N c k n" and "R \<le> k" using kn by (auto simp: in_runs)
  fix r assume "r \<in> runs (fill f k n 0) R N"
  then obtain i l d where il: "r = (i, l)" "R \<le> i" "is_run (fill f k n 0) N d i l"
    by (cases r) (auto simp: in_runs)
  have dj: "i + l \<le> k \<or> k + n \<le> i"
  proof (rule ccontr)
    assume "\<not> ?thesis"
    then obtain x where x: "i \<le> x" "x < i + l" "k \<le> x" "x < k + n"
      using meeting_point is_run_nonempty [OF il(3)] is_run_nonempty [OF c] by metis
    then have "fill f k n 0 x = d" "fill f k n 0 x = 0"
      using is_run_cell [OF il(3), of x] by (auto simp: fill_def)
    then show False using is_run_nonempty [OF il(3)] by simp
  qed
  have cells: "\<forall>j. i \<le> j \<and> j < i + l \<longrightarrow> f j = d"
    using il(3) dj by (auto simp: is_run_def fill_def)
  have "f (i - 1) \<noteq> d"
  proof (cases "i = k + n")
    case True
    then have "f i \<noteq> c" "f (i - 1) = c" using c il(3) by (auto simp: is_run_def)
    then show ?thesis using cells il(3) by (auto simp: is_run_def)
  next
    case False
    then have "\<not> (k \<le> i - 1 \<and> i - 1 < k + n)"
      using il(2) R dj is_run_nonempty [OF il(3)] by linarith
    then show ?thesis using il(3) by (simp only: is_run_def fill_def if_False simp_thms)
  qed
  moreover have "i + l < N \<longrightarrow> f (i + l) \<noteq> d"
  proof (cases "i + l = k")
    case True
    have "f (i + l - 1) = d" using cells is_run_nonempty [OF il(3)] by simp
    moreover have "f (i + l) = c" "f (i + l - 1) \<noteq> c" using c True by (simp_all add: is_run_def)
    ultimately show ?thesis by simp
  next
    case False
    then have "\<not> (k \<le> i + l \<and> i + l < k + n)" using dj by linarith
    then show ?thesis using il(3) by (simp only: is_run_def fill_def if_False simp_thms) blast
  qed
  ultimately have "is_run f N d i l" using il(3) cells by (auto simp: is_run_def)
  then show "r \<in> runs f R N - {(k, n)}"
    using il dj c by (auto simp: in_runs is_run_def)
next
  fix r assume "r \<in> runs f R N - {(k, n)}"
  then obtain i l d where il: "r = (i, l)" "R \<le> i" "is_run f N d i l" "(i, l) \<noteq> (k, n)"
    by (cases r) (auto simp: in_runs)
  then have dj: "i + l \<le> k \<or> k + n \<le> i"
    using runs_equal_or_disjoint [of i l f R N k n] kn by (auto simp: in_runs)
  have "is_run (fill f k n 0) N d i l"
    using il(3) dj by (auto simp: is_run_def fill_def)
  with il show "r \<in> runs (fill f k n 0) R N" by (auto simp: in_runs)
qed

section \<open>Counting used blocks\<close>

lemma used_blocks_le: "used_blocks f N \<le> N"
  unfolding used_blocks_def by (rule order_trans [OF card_mono [of "{..<N}"]]) auto

lemma used_blocks_fill:
  assumes "free_at f k n" "c \<noteq> 0" "k + n \<le> N"
  shows "used_blocks (fill f k n c) N = used_blocks f N + n"
proof -
  have "{j. j < N \<and> fill f k n c j \<noteq> 0} = {j. j < N \<and> f j \<noteq> 0} \<union> {k ..< k + n}"
    using assms by (auto simp: fill_def free_at_iff)
  moreover have "{j. j < N \<and> f j \<noteq> 0} \<inter> {k ..< k + n} = {}"
    using assms by (auto simp: free_at_iff)
  ultimately show ?thesis by (simp add: used_blocks_def card_Un_disjoint)
qed

lemma used_blocks_clear:
  assumes "is_run f N c k n"
  shows "used_blocks f N = used_blocks (fill f k n 0) N + n"
proof -
  have "{j. j < N \<and> f j \<noteq> 0} = {j. j < N \<and> fill f k n 0 j \<noteq> 0} \<union> {k ..< k + n}"
    using assms by (auto simp: fill_def is_run_def)
  moreover have "{j. j < N \<and> fill f k n 0 j \<noteq> 0} \<inter> {k ..< k + n} = {}"
    by (auto simp: fill_def)
  ultimately show ?thesis by (simp add: used_blocks_def card_Un_disjoint)
qed

text \<open>A free stretch fits beside the used blocks.\<close>

lemma used_blocks_free:
  assumes "free_at f k n" "k + n \<le> N"
  shows "used_blocks f N + n \<le> N"
proof -
  have "used_blocks (fill f k n 1) N = used_blocks f N + n"
    using assms by (intro used_blocks_fill) auto
  then show ?thesis using used_blocks_le [of "fill f k n 1" N] by simp
qed

lemma used_blocks_cong: "(\<And>j. j < N \<Longrightarrow> f j = g j) \<Longrightarrow> used_blocks f N = used_blocks g N"
  unfolding used_blocks_def by (metis (no_types, lifting))

lemma runs_cong:
  assumes "\<And>j. j < N \<Longrightarrow> f j = g j"
  shows "runs f R N = runs g R N"
proof -
  have "is_run f N c i n = is_run g N c i n" for c i n
    using assms by (cases "i = 0") (auto simp: is_run_def)
  then show ?thesis by (auto simp: in_runs set_eq_iff)
qed

end
