(* ===== verification/Heap.thy ===== *)
theory Heap
  imports LibcString BitmapRuns
begin

text \<open>
  The kernel heap, src/src/kernel/mm/heap.c: a linked list of superblocks, each a 20-byte
  header followed by a byte-per-block bitmap and the blocks themselves, all in byte memory.
  The first section translates the file; the next ones relate a superblock's bytes to the
  bitmaps of BitmapRuns, state the heap invariant, and prove that allocation claims a
  fresh run of blocks, that deallocation returns it, and that neither touches any byte outside
  the headers and bitmaps.
\<close>

section \<open>The code\<close>

record memheap =
  head :: addr

definition FREE :: u8 where
  "FREE = 0"

text \<open>\<open>sizeof(memblock_t)\<close>: five 32-bit fields.\<close>

definition sizeof_memblock :: u32 where
  "sizeof_memblock = 20"

definition sb_next :: "mem \<Rightarrow> addr \<Rightarrow> addr" where
  "sb_next m sb = load32 m sb"

definition sb_total_size :: "mem \<Rightarrow> addr \<Rightarrow> u32" where
  "sb_total_size m sb = load32 m (sb + 4)"

definition sb_used :: "mem \<Rightarrow> addr \<Rightarrow> u32" where
  "sb_used m sb = load32 m (sb + 8)"

definition sb_block_size :: "mem \<Rightarrow> addr \<Rightarrow> u32" where
  "sb_block_size m sb = load32 m (sb + 12)"

definition memheap_init :: "memheap \<Rightarrow> memheap" where
  "memheap_init heap = heap\<lparr>head := 0\<rparr>"

definition memblock_get_bitmap :: "addr \<Rightarrow> addr" where
  "memblock_get_bitmap sblock = sblock + sizeof_memblock"

text \<open>The callers check the divide fault of a zero block size where they reach it.\<close>

definition memblock_get_block_count :: "mem \<Rightarrow> addr \<Rightarrow> u32" where
  "memblock_get_block_count m sblock = sb_total_size m sblock div sb_block_size m sblock"

definition id_rank :: "u8 \<Rightarrow> u8 \<Rightarrow> u8 \<Rightarrow> nat" where
  "id_rank z x y =
     (if z \<noteq> x \<and> z \<noteq> y then 0 else if z + 1 \<noteq> x \<and> z + 1 \<noteq> y then 1 else 2)"

function generate_identifier_loop :: "u8 \<Rightarrow> u8 \<Rightarrow> u8 \<Rightarrow> u8" where
  "generate_identifier_loop z x y =
     (if z = x \<or> z = y then generate_identifier_loop (z + 1) x y else z)"
  by pat_completeness auto
termination
  by (relation "measure (\<lambda>(z, x, y). id_rank z x y)") (auto simp: id_rank_def)

declare generate_identifier_loop.simps [simp del]

definition generate_identifier :: "u8 \<Rightarrow> u8 \<Rightarrow> u8" where
  "generate_identifier x y = generate_identifier_loop 1 x y"

definition memheap_add_block ::
    "memheap \<Rightarrow> mem \<Rightarrow> addr \<Rightarrow> u32 \<Rightarrow> u32 \<Rightarrow> (memheap \<times> mem) res" where
  "memheap_add_block heap m address sz block_size =
     (let sblock = address;
          m = store32 m (sblock + 4) (sz - sizeof_memblock);
          m = store32 m (sblock + 12) block_size;
          m = store32 m sblock (head heap);
          heap = heap\<lparr>head := sblock\<rparr>
      in if sb_block_size m sblock = 0 then Inl DivideFault
      else
        (let block_count = sb_total_size m sblock div sb_block_size m sblock;
             bitmap = memblock_get_bitmap sblock;
             m = memset m bitmap (ucast FREE) block_count;
             block_count = CEILING block_count block_size;
             m = memset m bitmap (if FREE = 0 then 1 else 0) block_count;
             m = store32 m (sblock + 8) block_count
         in Inr (heap, m)))"

text \<open>
  The loop that counts free blocks at offset \<open>i\<close>. Its guard reads the bitmap before the
  bounds check, so it may read the byte behind the bitmap.
\<close>

function count_free :: "mem \<Rightarrow> addr \<Rightarrow> u32 \<Rightarrow> u32 \<Rightarrow> u32 \<Rightarrow> u32 \<Rightarrow> u32" where
  "count_free m bitmap i n blocks_needed block_count =
     (if m (bitmap + (i + n)) = FREE \<and> n < blocks_needed \<and> i + n < block_count
      then count_free m bitmap i (n + 1) blocks_needed block_count else n)"
  by pat_completeness auto
termination
  by (relation "measure (\<lambda>(m, b, i, n, needed, count). unat (needed - n))")
    (auto simp: loop_measure)

declare count_free.simps [simp del]

lemma count_free_bounds:
  assumes "i < count" "n \<le> needed" "unat i + unat n \<le> unat count"
  shows "n \<le> count_free m b i n needed count \<and> count_free m b i n needed count \<le> needed \<and>
    unat i + unat (count_free m b i n needed count) \<le> unat count"
  using assms
proof (induction m b i n needed count rule: count_free.induct)
  case (1 m b i n needed count)
  show ?case
  proof (cases "m (b + (i + n)) = FREE \<and> n < needed \<and> i + n < count")
    case True
    have sum: "unat (i + n) = unat i + unat n"
      using 1(4) by (rule unat_add_le)
    then have le: "unat i + unat (n + 1) \<le> unat count" "n + 1 \<le> needed"
      using True by (auto simp: unat_plus1 word_less_nat_alt word_le_nat_alt)
    have "n \<le> n + 1" using True by (auto simp: unat_plus1 word_le_nat_alt)
    then show ?thesis
      using 1(1) [OF True 1(2) le(2,1)] True by (subst (1 2 3) count_free.simps) auto
  next
    case False
    then show ?thesis using 1(2-) by (subst (1 2 3) count_free.simps) auto
  qed
qed

text \<open>
  The scan for \<open>blocks_needed\<close> contiguous free blocks: \<open>i += (n - 1)\<close> and then the loop's
  own \<open>i++\<close> skip a stretch that is too short.
\<close>

function find_free :: "mem \<Rightarrow> addr \<Rightarrow> u32 \<Rightarrow> u32 \<Rightarrow> u32 \<Rightarrow> (u32 \<times> u32) option" where
  "find_free m bitmap i blocks_needed block_count =
     (if i < block_count then
        (if m (bitmap + i) = FREE then
           (let n = count_free m bitmap i 0 blocks_needed block_count
            in if n = blocks_needed then Some (i, n)
               else find_free m bitmap (i + (n - 1) + 1) blocks_needed block_count)
         else find_free m bitmap (i + 1) blocks_needed block_count)
      else None)"
  by pat_completeness auto

lemma count_free_progress:
  assumes "i < count" "m (b + i) = FREE" "count_free m b i 0 needed count \<noteq> needed"
  defines "n \<equiv> count_free m b i 0 needed count"
  shows "0 < unat n" "unat (i + (n - 1) + 1) = unat i + unat n" "unat i + unat n \<le> unat count"
proof -
  have "needed \<noteq> 0"
  proof
    assume "needed = 0"
    then have "count_free m b i 0 needed count = 0" by (subst count_free.simps) simp
    with assms(3) \<open>needed = 0\<close> show False by simp
  qed
  then have "0 < needed" by (simp add: word_neq_0_conv)
  then have "n = count_free m b i 1 needed count"
    unfolding n_def using assms(1,2) by (subst count_free.simps) simp
  moreover have "unat i + unat (1 :: u32) \<le> unat count" "1 \<le> needed"
    using assms(1) \<open>0 < needed\<close> by (auto simp: word_less_nat_alt word_le_nat_alt)
  ultimately have n: "1 \<le> n" "unat i + unat n \<le> unat count"
    using count_free_bounds [OF assms(1), of 1 needed m b] by auto
  then show "0 < unat n" "unat i + unat n \<le> unat count" by (auto simp: word_le_nat_alt)
  show "unat (i + (n - 1) + 1) = unat i + unat n"
    using n(2) by (simp add: unat_add_le)
qed

termination find_free
proof (relation "measure (\<lambda>(m, b, i, needed, count). unat (count - i))", goal_cases)
  case 1
  show ?case by simp
next
  case (2 m b i needed count n)
  then show ?case
    using count_free_progress [of i count m b needed]
    by (simp add: unat_diff word_le_nat_alt word_less_nat_alt)
next
  case (3 m b i needed count)
  then show ?case by (simp add: loop_measure)
qed

declare find_free.simps [simp del]

definition alloc_here :: "mem \<Rightarrow> addr \<Rightarrow> u32 \<Rightarrow> u32 \<Rightarrow> addr \<times> mem" where
  "alloc_here m sblock i n =
     (let bitmap = memblock_get_bitmap sblock;
          ident = generate_identifier (m (bitmap + (i - 1))) (m (bitmap + (i + n)));
          m = memset m (bitmap + i) (ucast ident) n;
          m = store32 m (sblock + 8) (sb_used m sblock + n)
      in (i * sb_block_size m sblock + (sblock + sizeof_memblock), m))"

partial_function (option) memheap_alloc_loop ::
    "mem \<Rightarrow> addr \<Rightarrow> u32 \<Rightarrow> (addr \<times> mem) res option" where
  "memheap_alloc_loop m sblock sz =
     (if sblock = 0 then Some (Inr (0, m))
      else if sz \<le> sb_total_size m sblock - sb_used m sblock * sb_block_size m sblock then
        (if sb_block_size m sblock = 0 then Some (Inl DivideFault)
         else
           (let block_count = memblock_get_block_count m sblock;
                blocks_needed = CEILING sz (sb_block_size m sblock);
                bitmap = memblock_get_bitmap sblock
            in case find_free m bitmap 0 blocks_needed block_count of
                 Some (i, n) \<Rightarrow> Some (Inr (alloc_here m sblock i n))
               | None \<Rightarrow> memheap_alloc_loop m (sb_next m sblock) sz))
      else memheap_alloc_loop m (sb_next m sblock) sz)"

declare memheap_alloc_loop.simps [code]

definition memheap_alloc :: "memheap \<Rightarrow> mem \<Rightarrow> u32 \<Rightarrow> (addr \<times> mem) res" where
  "memheap_alloc heap m sz = run (memheap_alloc_loop m (head heap) sz)"

text \<open>The loop that frees blocks; it too reads the bitmap before the bounds check.\<close>

function free_blocks :: "mem \<Rightarrow> addr \<Rightarrow> u32 \<Rightarrow> u8 \<Rightarrow> u32 \<Rightarrow> u32 \<times> mem" where
  "free_blocks m bitmap block_offset ident block_count =
     (if m (bitmap + block_offset) = ident \<and> block_offset < block_count
      then free_blocks (m(bitmap + block_offset := 0)) bitmap (block_offset + 1) ident block_count
      else (block_offset, m))"
  by pat_completeness auto
termination
  by (relation "measure (\<lambda>(m, b, off, ident, count). unat (count - off))") (auto simp: loop_measure)

declare free_blocks.simps [simp del]

definition free_here :: "mem \<Rightarrow> addr \<Rightarrow> addr \<Rightarrow> mem" where
  "free_here m sblock ptr =
     (let block_start = (ptr - (sblock + sizeof_memblock)) div sb_block_size m sblock;
          bitmap = memblock_get_bitmap sblock;
          ident = m (bitmap + block_start);
          block_count = memblock_get_block_count m sblock;
          (block_offset, m) = free_blocks m bitmap block_start ident block_count
      in store32 m (sblock + 8) (sb_used m sblock - (block_offset - block_start)))"

partial_function (option) memheap_free_loop :: "mem \<Rightarrow> addr \<Rightarrow> addr \<Rightarrow> mem res option" where
  "memheap_free_loop m sblock ptr =
     (if sblock = 0 then Some (Inr m)
      else if ptr > sblock \<and> ptr < sblock + sizeof_memblock + sb_total_size m sblock then
        (if sb_block_size m sblock = 0 then Some (Inl DivideFault)
         else
           (let m = free_here m sblock ptr
            in memheap_free_loop m (sb_next m sblock) ptr))
      else memheap_free_loop m (sb_next m sblock) ptr)"

declare memheap_free_loop.simps [code]

definition memheap_free :: "memheap \<Rightarrow> mem \<Rightarrow> addr \<Rightarrow> mem res" where
  "memheap_free heap m ptr = run (memheap_free_loop m (head heap) ptr)"

section \<open>The scans, at the level of bitmaps\<close>

definition bytes_at :: "mem \<Rightarrow> addr \<Rightarrow> nat \<Rightarrow> u8" where
  "bytes_at m b j = m (b + of_nat j)"

lemma bytes_at_word: "m (b + w) = bytes_at m b (unat w)"
  by (simp add: bytes_at_def)

lemma generate_identifier_distinct:
  "generate_identifier x y \<noteq> x" "generate_identifier x y \<noteq> y" "generate_identifier x y \<noteq> 0"
proof -
  have loop: "generate_identifier_loop z x y \<noteq> x \<and> generate_identifier_loop z x y \<noteq> y" for z
    by (induction z x y rule: generate_identifier_loop.induct)
      (subst (1 2) generate_identifier_loop.simps, auto)
  have "generate_identifier x y \<in> {1, 2, 3}"
    unfolding generate_identifier_def
    by (subst generate_identifier_loop.simps, subst generate_identifier_loop.simps,
        subst generate_identifier_loop.simps, subst generate_identifier_loop.simps) auto
  then show "generate_identifier x y \<noteq> 0" by auto
  show "generate_identifier x y \<noteq> x" "generate_identifier x y \<noteq> y"
    using loop by (simp_all add: generate_identifier_def)
qed

lemma count_free_spec:
  assumes "i < count" "n \<le> needed" "unat i + unat n \<le> unat count"
    and "free_at (bytes_at m b) (unat i) (unat n)"
  shows "free_at (bytes_at m b) (unat i) (unat (count_free m b i n needed count)) \<and>
    (count_free m b i n needed count = needed \<or>
     unat i + unat (count_free m b i n needed count) = unat count \<or>
     bytes_at m b (unat i + unat (count_free m b i n needed count)) \<noteq> 0)"
  using assms
proof (induction m b i n needed count rule: count_free.induct)
  case (1 m b i n needed count)
  have sum: "unat (i + n) = unat i + unat n"
    using 1(4) by (rule unat_add_le)
  show ?case
  proof (cases "m (b + (i + n)) = FREE \<and> n < needed \<and> i + n < count")
    case True
    have le: "unat i + unat (n + 1) \<le> unat count" "n + 1 \<le> needed"
      using True sum by (auto simp: unat_plus1 word_less_nat_alt word_le_nat_alt)
    have "unat (n + 1) = Suc (unat n)" using True unat_plus1 by blast
    moreover have "bytes_at m b (unat i + unat n) = 0"
      using True sum by (simp add: bytes_at_word FREE_def)
    ultimately have "free_at (bytes_at m b) (unat i) (unat (n + 1))"
      using 1(5) by (auto simp: free_at_def less_Suc_eq)
    then show ?thesis
      using 1(1) [OF True 1(2) le(2,1)] True by (subst (1 2 3 4) count_free.simps) simp
  next
    case False
    then have "n = needed \<or> unat i + unat n = unat count \<or> bytes_at m b (unat i + unat n) \<noteq> 0"
      using 1(3,4) sum by (auto simp: bytes_at_word FREE_def word_less_nat_alt word_le_nat_alt word_unat_eq_iff)
    moreover have "count_free m b i n needed count = n"
      using False by (subst count_free.simps) (simp only: if_False)
    ultimately show ?thesis using 1(5) by simp
  qed
qed

text \<open>A count that falls short leaves no room in the cells it went over.\<close>

lemma count_free_short:
  assumes short: "i < count" "m (b + i) = FREE" "count_free m b i 0 needed count \<noteq> needed"
    and n: "n = count_free m b i 0 needed count"
    and k: "unat i \<le> k" "k < unat i + unat n" "k + unat needed \<le> unat count"
  shows "\<not> free_at (bytes_at m b) k (unat needed)"
proof -
  have spec: "unat i + unat n = unat count \<or> bytes_at m b (unat i + unat n) \<noteq> 0" "n \<le> needed"
    using count_free_spec [OF short(1), of 0 needed m b] count_free_bounds [OF short(1), of 0 needed m b] short
    by (auto simp: n word_less_nat_alt free_at_def)
  have lt: "unat n < unat needed" using spec(2) short(3) by (auto simp: n word_le_nat_alt word_unat_eq_iff)
  then have "bytes_at m b (unat i + unat n) \<noteq> 0" using spec(1) k by linarith
  then show ?thesis using lt k by (auto simp: free_at_iff intro!: exI [of _ "unat i + unat n"])
qed

lemma find_free_spec:
  assumes "0 < needed"
  shows "case find_free m b i needed count of
      None \<Rightarrow> \<forall>k \<ge> unat i. k + unat needed \<le> unat count \<longrightarrow> \<not> free_at (bytes_at m b) k (unat needed)
    | Some (k, n) \<Rightarrow> n = needed \<and> i \<le> k \<and> unat k + unat needed \<le> unat count \<and>
        free_at (bytes_at m b) (unat k) (unat needed) \<and>
        (\<forall>l. unat i \<le> l \<and> l < unat k \<longrightarrow> \<not> free_at (bytes_at m b) l (unat needed))"
  using assms
proof (induction m b i needed count rule: find_free.induct)
  case (1 m b i needed count)
  let ?f = "bytes_at m b" and ?need = "unat needed"
  have need: "0 < ?need" using 1(3) by (simp add: word_less_nat_alt)
  consider (out) "\<not> i < count" | (taken) "i < count" "m (b + i) \<noteq> FREE"
    | (fits) "i < count" "m (b + i) = FREE" "count_free m b i 0 needed count = needed"
    | (short) "i < count" "m (b + i) = FREE" "count_free m b i 0 needed count \<noteq> needed"
    by blast
  then show ?case
  proof cases
    case out
    then show ?thesis
      using need by (subst find_free.simps) (auto simp: word_less_nat_alt)
  next
    case taken
    then have "?f (unat i) \<noteq> 0" by (simp add: bytes_at_word FREE_def)
    then have no: "\<not> free_at ?f (unat i) ?need"
      using need by (auto simp: free_at_def)
    have "unat (i + 1) = Suc (unat i)" using taken(1) by (rule unat_plus1)
    moreover have "find_free m b i needed count = find_free m b (i + 1) needed count"
      using taken by (subst find_free.simps) simp
    ultimately show ?thesis
      using 1(2) [OF taken 1(3)] no
      by (auto split: option.splits simp: word_le_nat_alt Suc_le_eq dest: le_neq_implies_less)
  next
    case fits
    then show ?thesis
      using count_free_spec [OF fits(1), of 0 needed m b] count_free_bounds [OF fits(1), of 0 needed m b]
      by (subst find_free.simps) (auto simp: word_less_nat_alt free_at_def)
  next
    case short
    define n where "n = count_free m b i 0 needed count"
    note prog = count_free_progress [OF short, folded n_def]
    note no = count_free_short [OF short n_def]
    have eq: "find_free m b i needed count = find_free m b (i + (n - 1) + 1) needed count"
      using short by (subst find_free.simps) (simp add: n_def)
    have IH: "case find_free m b (i + (n - 1) + 1) needed count of
        None \<Rightarrow> \<forall>k \<ge> unat i + unat n. k + ?need \<le> unat count \<longrightarrow> \<not> free_at ?f k ?need
      | Some (k, n') \<Rightarrow> n' = needed \<and> unat i + unat n \<le> unat k \<and> unat k + ?need \<le> unat count \<and>
          free_at ?f (unat k) ?need \<and> (\<forall>l. unat i + unat n \<le> l \<and> l < unat k \<longrightarrow> \<not> free_at ?f l ?need)"
      using 1(1) [OF short(1,2) n_def short(3) [folded n_def] 1(3)]
      unfolding word_le_nat_alt prog(2) .
    show ?thesis
    proof (cases "find_free m b (i + (n - 1) + 1) needed count")
      case None
      with IH no show ?thesis unfolding eq by (auto simp: not_le [symmetric])
    next
      case (Some r)
      obtain k n' where r: "r = (k, n')" by (cases r)
      have "\<not> free_at ?f l ?need" if "unat i \<le> l" "l < unat k" for l
      proof (cases "l < unat i + unat n")
        case True
        then show ?thesis using no [OF that(1)] that IH Some r by auto
      next
        case False
        then show ?thesis using that IH Some r by auto
      qed
      then show ?thesis using IH Some r unfolding eq by (auto simp: word_le_nat_alt)
    qed
  qed
qed

section \<open>Superblocks\<close>

definition sb_bitmap :: "mem \<Rightarrow> addr \<Rightarrow> nat \<Rightarrow> u8" where
  "sb_bitmap m sb = bytes_at m (sb + sizeof_memblock)"

definition nblocks :: "mem \<Rightarrow> addr \<Rightarrow> nat" where
  "nblocks m sb = unat (sb_total_size m sb) div unat (sb_block_size m sb)"

definition nreserved :: "mem \<Rightarrow> addr \<Rightarrow> nat" where
  "nreserved m sb = (nblocks m sb + unat (sb_block_size m sb) - 1) div unat (sb_block_size m sb)"

text \<open>The bytes of a superblock, and those of them the heap writes: header and bitmap.\<close>

definition region :: "mem \<Rightarrow> addr \<Rightarrow> addr set" where
  "region m sb = {a. unat sb \<le> unat a \<and> unat a < unat sb + 20 + unat (sb_total_size m sb)}"

definition metadata :: "mem \<Rightarrow> addr \<Rightarrow> addr set" where
  "metadata m sb = {a. unat sb \<le> unat a \<and> unat a < unat sb + 20 + nblocks m sb}"

definition sb_runs :: "mem \<Rightarrow> addr \<Rightarrow> (nat \<times> nat) set" where
  "sb_runs m sb = runs (sb_bitmap m sb) (nreserved m sb) (nblocks m sb)"

definition sb_ok :: "mem \<Rightarrow> addr \<Rightarrow> bool" where
  "sb_ok m sb \<longleftrightarrow>
     sb \<noteq> 0 \<and> sb_block_size m sb \<noteq> 0 \<and>
     unat sb + 20 + unat (sb_total_size m sb) \<le> 2 ^ 32 \<and>
     unat (sb_total_size m sb) + unat (sb_block_size m sb) \<le> 2 ^ 32 \<and>
     (\<forall>j < nreserved m sb. sb_bitmap m sb j = 1) \<and>
     unat (sb_used m sb) = used_blocks (sb_bitmap m sb) (nblocks m sb)"

lemma sb_okD:
  assumes "sb_ok m sb"
  shows "sb \<noteq> 0" "sb_block_size m sb \<noteq> 0" "0 < unat (sb_block_size m sb)"
    "unat sb + 20 + unat (sb_total_size m sb) \<le> 2 ^ 32"
    "unat (sb_total_size m sb) + unat (sb_block_size m sb) \<le> 2 ^ 32"
    "j < nreserved m sb \<Longrightarrow> sb_bitmap m sb j = 1"
    "unat (sb_used m sb) = used_blocks (sb_bitmap m sb) (nblocks m sb)"
  using assms by (auto simp: sb_ok_def unat_gt_0)

lemma nblocks_mult_le: "nblocks m sb * unat (sb_block_size m sb) \<le> unat (sb_total_size m sb)"
  by (simp add: nblocks_def)

lemma nblocks_le: "nblocks m sb \<le> unat (sb_total_size m sb)"
  by (simp add: nblocks_def)

lemma unat_block_count: "unat (memblock_get_block_count m sb) = nblocks m sb"
  by (simp add: memblock_get_block_count_def nblocks_def unat_div_distrib)

text \<open>The reserved blocks hold the whole bitmap.\<close>

lemma reserved_covers_bitmap:
  assumes "0 < unat (sb_block_size m sb)"
  shows "nblocks m sb \<le> nreserved m sb * unat (sb_block_size m sb)"
proof -
  let ?N = "nblocks m sb" and ?B = "unat (sb_block_size m sb)"
  have "?N + ?B - 1 < (nreserved m sb + 1) * ?B"
    unfolding nreserved_def using assms
    by (metis Suc_eq_plus1 dividend_less_div_times mult.commute mult_Suc)
  then show ?thesis using assms by simp
qed

lemma nreserved_le:
  assumes "0 < unat (sb_block_size m sb)"
  shows "nreserved m sb \<le> nblocks m sb"
proof -
  have "nblocks m sb \<le> nblocks m sb * unat (sb_block_size m sb)" using assms by simp
  then have "nblocks m sb + unat (sb_block_size m sb) - 1 < Suc (nblocks m sb) * unat (sb_block_size m sb)"
    using assms unfolding mult_Suc by linarith
  then show ?thesis unfolding nreserved_def using less_mult_imp_div_less less_Suc_eq_le by blast
qed

lemma nreserved_pos: "0 < nblocks m sb \<Longrightarrow> 0 < unat (sb_block_size m sb) \<Longrightarrow> 0 < nreserved m sb"
  using reserved_covers_bitmap [of m sb] by (cases "nreserved m sb") auto

lemma load32_header [simp]:
  "load32 (store32 m (sb + 8) v) sb = load32 m sb"
  "load32 (store32 m (sb + 8) v) (sb + 4) = load32 m (sb + 4)"
  "load32 (store32 m (sb + 8) v) (sb + 12) = load32 m (sb + 12)"
  by (simp_all add: load32_def store32_def)

lemma unat_sb_offset:
  fixes sb :: addr
  assumes "unat sb + n < 2 ^ 32"
  shows "unat (sb + of_nat n) = unat sb + n"
  using assms by (simp add: unat_plus_if' unat_of_nat)

text \<open>
  Every update of the heap has the same shape: it rewrites bytes of one bitmap and then the
  \<open>used\<close> field of the same header.
\<close>

lemma header_kept:
  assumes ok: "unat sb + 20 + unat (sb_total_size m sb) \<le> 2 ^ 32" and c: "unat c \<le> 16"
    and out: "\<forall>a. unat a < unat sb + 20 \<longrightarrow> m1 a = m a"
  shows "load32 m1 (sb + c) = load32 m (sb + c)"
proof (rule load32_cong)
  have hdr: "m1 (sb + d) = m (sb + d)" if "unat d < 20" for d
    using that ok out by (simp add: unat_add_small)
  fix b assume "b \<in> span (sb + c) 4"
  then have lt: "b - (sb + c) < 4" by (simp add: in_span)
  then have "unat (c + (b - (sb + c))) < 20"
    using c by (subst unat_add_small) (auto simp: word_less_nat_alt)
  from hdr [OF this] show "m1 b = m b" by simp
qed

lemma used_kept:
  assumes "unat sb + 20 + unat (sb_total_size m sb) \<le> 2 ^ 32"
    and "\<forall>a. unat a < unat sb + 20 \<longrightarrow> m1 a = m a"
  shows "sb_used m1 sb = sb_used m sb"
  using header_kept [OF assms(1) _ assms(2), of 8] by (simp add: sb_used_def)

lemma bitmap_update:
  assumes ok: "unat sb + 20 + unat (sb_total_size m sb) \<le> 2 ^ 32"
    and out: "\<forall>a. unat a < unat sb + 20 \<or> unat sb + 20 + nblocks m sb \<le> unat a \<longrightarrow> m1 a = m a"
  shows "sb_next (store32 m1 (sb + 8) u) sb = sb_next m sb"
    "sb_total_size (store32 m1 (sb + 8) u) sb = sb_total_size m sb"
    "sb_block_size (store32 m1 (sb + 8) u) sb = sb_block_size m sb"
    "sb_used (store32 m1 (sb + 8) u) sb = u"
    "j < nblocks m sb \<Longrightarrow> sb_bitmap (store32 m1 (sb + 8) u) sb j = sb_bitmap m1 sb j"
    "a \<notin> metadata m sb \<Longrightarrow> store32 m1 (sb + 8) u a = m a"
    "unat a < unat sb + 20 \<Longrightarrow> a \<notin> span (sb + 8) 4 \<Longrightarrow> store32 m1 (sb + 8) u a = m a"
proof -
  have "\<forall>a. unat a < unat sb + 20 \<longrightarrow> m1 a = m a" using out by blast
  note fld = header_kept [OF ok _ this]
  show "sb_next (store32 m1 (sb + 8) u) sb = sb_next m sb"
    using fld [of 0] by (simp add: sb_next_def)
  show "sb_total_size (store32 m1 (sb + 8) u) sb = sb_total_size m sb"
    using fld [of 4] by (simp add: sb_total_size_def)
  show "sb_block_size (store32 m1 (sb + 8) u) sb = sb_block_size m sb"
    using fld [of 12] by (simp add: sb_block_size_def)
  show "sb_used (store32 m1 (sb + 8) u) sb = u" by (simp add: sb_used_def)
  have used: "b \<in> span (sb + 8) 4 \<longleftrightarrow> unat sb + 8 \<le> unat b \<and> unat b < unat sb + 12" for b
    using ok by (subst in_span_nat) (auto simp: unat_add_small)
  have off: "unat (sb + 20 + of_nat j) = unat sb + 20 + j" if "j < nblocks m sb" for j
  proof -
    have "unat sb + 20 + j < 2 ^ 32" using that ok nblocks_le [of m sb] by linarith
    then show ?thesis
      using unat_sb_offset [of sb "20 + j"] by (simp add: add.assoc)
  qed
  show "sb_bitmap (store32 m1 (sb + 8) u) sb j = sb_bitmap m1 sb j" if "j < nblocks m sb"
    unfolding sb_bitmap_def bytes_at_def sizeof_memblock_def
    by (rule store32_outside) (simp add: used off that)
  show "store32 m1 (sb + 8) u a = m a" if "unat a < unat sb + 20" "a \<notin> span (sb + 8) 4"
    using that out store32_outside by metis
  show "store32 m1 (sb + 8) u a = m a" if "a \<notin> metadata m sb"
  proof -
    have "a \<notin> span (sb + 8) 4" using that by (auto simp: used metadata_def)
    then have "store32 m1 (sb + 8) u a = m1 a" by (rule store32_outside)
    also have "m1 a = m a" using that out by (auto simp: metadata_def not_less)
    finally show ?thesis .
  qed
qed

section \<open>Allocating and freeing inside one superblock\<close>

definition sb_step :: "mem \<Rightarrow> mem \<Rightarrow> addr \<Rightarrow> bool" where
  "sb_step m m' sb \<longleftrightarrow>
     sb_next m' sb = sb_next m sb \<and> sb_total_size m' sb = sb_total_size m sb \<and>
     sb_block_size m' sb = sb_block_size m sb \<and> (\<forall>a. a \<notin> metadata m sb \<longrightarrow> m' a = m a) \<and>
     (\<forall>a. unat a < unat sb + 20 \<and> a \<notin> span (sb + 8) 4 \<longrightarrow> m' a = m a)"

lemma sb_step_counts:
  "sb_step m m' sb \<Longrightarrow> nblocks m' sb = nblocks m sb"
  "sb_step m m' sb \<Longrightarrow> nreserved m' sb = nreserved m sb"
  "sb_step m m' sb \<Longrightarrow> metadata m' sb = metadata m sb"
  "sb_step m m' sb \<Longrightarrow> region m' sb = region m sb"
  by (simp_all add: sb_step_def nblocks_def nreserved_def metadata_def region_def)

text \<open>A step that rewrites bitmap and \<open>used\<close> consistently keeps the superblock well formed.\<close>

lemma sb_step_ok:
  assumes "sb_ok m sb" "sb_step m m' sb"
    and "\<And>j. j < nblocks m sb \<Longrightarrow> sb_bitmap m' sb j = f j"
    and "\<And>j. j < nreserved m sb \<Longrightarrow> sb_bitmap m' sb j = 1"
    and "unat (sb_used m' sb) = used_blocks f (nblocks m sb)"
  shows "sb_ok m' sb" "sb_runs m' sb = runs f (nreserved m sb) (nblocks m sb)"
proof -
  note counts = sb_step_counts [OF assms(2)]
  have "used_blocks (sb_bitmap m' sb) (nblocks m sb) = used_blocks f (nblocks m sb)"
    by (rule used_blocks_cong) (rule assms(3))
  then show "sb_ok m' sb"
    using assms(1,4,5) assms(2) [unfolded sb_step_def] unfolding sb_ok_def counts by simp
  have "runs (sb_bitmap m' sb) (nreserved m sb) (nblocks m sb) = runs f (nreserved m sb) (nblocks m sb)"
    by (rule runs_cong) (rule assms(3))
  then show "sb_runs m' sb = runs f (nreserved m sb) (nblocks m sb)"
    unfolding sb_runs_def counts .
qed

lemma unat_bitmap_addr:
  assumes "sb_ok m sb" "j < nblocks m sb"
  shows "unat (sb + sizeof_memblock + of_nat j) = unat sb + 20 + j"
proof -
  have "unat sb + (20 + j) < 2 ^ 32"
    using sb_okD(4) [OF assms(1)] nblocks_le [of m sb] assms(2) by linarith
  then show ?thesis
    using unat_sb_offset [of sb "20 + j"] by (simp add: sizeof_memblock_def add.assoc)
qed

lemma reserved_lt_free:
  assumes "sb_ok m sb" "sb_bitmap m sb k = 0"
  shows "nreserved m sb \<le> k"
  using sb_okD(6) [OF assms(1), of k] assms(2) by (cases "k < nreserved m sb") auto

lemma memset_bitmap:
  assumes ok: "sb_ok m sb" and fit: "unat i + unat n \<le> nblocks m sb" and n: "0 < unat n"
  shows "unat a < unat sb + 20 \<or> unat sb + 20 + nblocks m sb \<le> unat a \<Longrightarrow>
      memset m (sb + sizeof_memblock + i) v n a = m a"
    and "j < nblocks m sb \<Longrightarrow>
      sb_bitmap (memset m (sb + sizeof_memblock + i) v n) sb j =
      fill (sb_bitmap m sb) (unat i) (unat n) (ucast v) j"
proof -
  have start: "unat (sb + sizeof_memblock + i) = unat sb + 20 + unat i"
    using unat_bitmap_addr [OF ok, of "unat i"] fit n by simp
  have "unat (sb + sizeof_memblock + i) + unat n \<le> 2 ^ 32"
    unfolding start using fit sb_okD(4) [OF ok] nblocks_le [of m sb] by linarith
  then have span: "b \<in> span (sb + sizeof_memblock + i) n \<longleftrightarrow>
      unat sb + 20 + unat i \<le> unat b \<and> unat b < unat sb + 20 + unat i + unat n" for b
    by (simp add: in_span_nat start)
  show "memset m (sb + sizeof_memblock + i) v n a = m a"
    if "unat a < unat sb + 20 \<or> unat sb + 20 + nblocks m sb \<le> unat a"
    using that fit by (intro memset_outside) (auto simp: span)
  show "sb_bitmap (memset m (sb + sizeof_memblock + i) v n) sb j =
      fill (sb_bitmap m sb) (unat i) (unat n) (ucast v) j" if "j < nblocks m sb"
    using unat_bitmap_addr [OF ok that]
    by (auto simp: sb_bitmap_def bytes_at_def fill_def memset_eq span)
qed

lemma alloc_here_spec:
  assumes ok: "sb_ok m sb" and fit: "unat i + unat n \<le> nblocks m sb" and n: "0 < unat n"
    and free: "free_at (sb_bitmap m sb) (unat i) (unat n)"
    and call: "alloc_here m sb i n = (p, m')"
  shows "p = i * sb_block_size m sb + (sb + sizeof_memblock)" "sb_step m m' sb" "sb_ok m' sb"
    "sb_runs m' sb = insert (unat i, unat n) (sb_runs m sb)"
    "sb_used m' sb = sb_used m sb + n"
    "\<exists>c. \<forall>j < nblocks m sb. sb_bitmap m' sb j = fill (sb_bitmap m sb) (unat i) (unat n) c j"
proof -
  let ?f = "sb_bitmap m sb" and ?N = "nblocks m sb" and ?R = "nreserved m sb"
  define c where "c = generate_identifier (m (sb + sizeof_memblock + (i - 1))) (m (sb + sizeof_memblock + (i + n)))"
  define m1 where "m1 = memset m (sb + sizeof_memblock + i) (ucast c) n"
  have fi: "?f (unat i) = 0" using free n by (auto simp: free_at_def)
  have R: "?R \<le> unat i" using reserved_lt_free [OF ok fi] .
  have "0 < ?N" using fit n by linarith
  then have R0: "0 < ?R" using nreserved_pos sb_okD(3) [OF ok] by blast
  have i1: "unat (i - 1) = unat i - 1" using R R0 by (intro unat_minus_one) auto
  have "?N < 2 ^ 32" using unat_block_count [of m sb] unat32 [of "memblock_get_block_count m sb"] by simp
  then have "unat (i + n) = unat i + unat n" using fit by (intro unat_add_small) simp
  then have c: "c \<noteq> 0" "?f (unat i - 1) \<noteq> c" "?f (unat i + unat n) \<noteq> c"
    using generate_identifier_distinct i1 unfolding c_def sb_bitmap_def
    by (metis bytes_at_word)+
  have m': "m' = store32 m1 (sb + 8) (sb_used m1 sb + n)"
    and p: "p = i * sb_block_size m' sb + (sb + sizeof_memblock)"
    using call by (auto simp: alloc_here_def Let_def memblock_get_bitmap_def c_def m1_def)
  have out: "\<forall>a. unat a < unat sb + 20 \<or> unat sb + 20 + ?N \<le> unat a \<longrightarrow> m1 a = m a"
    unfolding m1_def using memset_bitmap(1) [OF ok fit n] by blast
  note upd = bitmap_update [OF sb_okD(4) [OF ok] out, where u = "sb_used m1 sb + n", folded m']
  have hdr: "\<forall>a. unat a < unat sb + 20 \<longrightarrow> m1 a = m a" using out by blast
  show step: "sb_step m m' sb" unfolding sb_step_def using upd by blast
  show "p = i * sb_block_size m sb + (sb + sizeof_memblock)" unfolding p upd(3) ..
  show used: "sb_used m' sb = sb_used m sb + n"
    unfolding upd(4) used_kept [OF sb_okD(4) [OF ok] hdr] ..
  have bits: "sb_bitmap m' sb j = fill ?f (unat i) (unat n) c j" if "j < ?N" for j
    using upd(5) [OF that] memset_bitmap(2) [OF ok fit n that] by (simp add: m1_def)
  then show "\<exists>c. \<forall>j < ?N. sb_bitmap m' sb j = fill ?f (unat i) (unat n) c j" by blast
  have RN: "?R \<le> ?N" using R fit by linarith
  have res: "sb_bitmap m' sb j = 1" if "j < ?R" for j
    using bits [of j] that RN R sb_okD(6) [OF ok that] by (simp add: fill_def)
  have "unat (sb_used m' sb) = used_blocks ?f ?N + unat n"
    using used used_blocks_free [OF free fit] sb_okD(7) [OF ok] \<open>?N < 2 ^ 32\<close>
    by (simp add: unat_add_small)
  also have "\<dots> = used_blocks (fill ?f (unat i) (unat n) c) ?N"
    using used_blocks_fill [OF free c(1) fit] by simp
  finally have u: "unat (sb_used m' sb) = used_blocks (fill ?f (unat i) (unat n) c) ?N" .
  show "sb_ok m' sb" using sb_step_ok(1) [OF ok step bits res u] by blast
  have "sb_runs m' sb = runs (fill ?f (unat i) (unat n) c) ?R ?N"
    using sb_step_ok(2) [OF ok step bits res u] by blast
  then show "sb_runs m' sb = insert (unat i, unat n) (sb_runs m sb)"
    using runs_fill [OF free c(1,2) _ n R0 R fit] c(3) by (simp add: sb_runs_def)
qed

lemma free_blocks_spec:
  assumes "off \<le> count" "free_blocks m b off ident count = (off', m')"
  shows "off \<le> off'" "off' \<le> count"
    "\<forall>j. unat off \<le> j \<and> j < unat off' \<longrightarrow> bytes_at m b j = ident"
    "off' = count \<or> bytes_at m b (unat off') \<noteq> ident"
    "\<forall>a. m' a = (if off \<le> a - b \<and> a - b < off' then 0 else m a)"
proof -
  have "off \<le> off' \<and> off' \<le> count \<and>
    (\<forall>j. unat off \<le> j \<and> j < unat off' \<longrightarrow> bytes_at m b j = ident) \<and>
    (off' = count \<or> bytes_at m b (unat off') \<noteq> ident) \<and>
    (\<forall>a. m' a = (if off \<le> a - b \<and> a - b < off' then 0 else m a))"
    using assms
  proof (induction m b off ident count rule: free_blocks.induct)
    case (1 m b off ident count)
    show ?case
    proof (cases "m (b + off) = ident \<and> off < count")
      case False
      then have "free_blocks m b off ident count = (off, m)"
        by (subst free_blocks.simps) (simp only: if_False)
      then have "off' = off" "m' = m" using 1(3) by simp_all
      then show ?thesis using False 1(2) by (auto simp: bytes_at_word)
    next
      case True
      define m2 where "m2 = m(b + off := 0)"
      have rec: "free_blocks m2 b (off + 1) ident count = (off', m')"
        using 1(3) True unfolding m2_def by (subst (asm) free_blocks.simps) simp
      have le: "off + 1 \<le> count" using True by (auto simp: plus1_le_iff)
      have suc: "unat (off + 1) = Suc (unat off)" using True unat_plus1 by blast
      note IH = 1(1) [OF True, folded m2_def, OF le rec]
      have lt: "off < off'" using IH True by (auto simp: plus1_le_iff)
      have same: "bytes_at m2 b j = bytes_at m b j" if "Suc (unat off) \<le> j" "j < 2 ^ 32" for j
      proof -
        have "(of_nat j :: u32) \<noteq> off" using that by (auto simp: unat_of_nat)
        then show ?thesis by (simp add: bytes_at_def m2_def)
      qed
      have cells: "bytes_at m b j = ident" if "unat off \<le> j" "j < unat off'" for j
      proof (cases "j = unat off")
        case True
        then show ?thesis using \<open>m (b + off) = ident \<and> off < count\<close> by (simp add: bytes_at_def)
      next
        case False
        then show ?thesis using IH same [of j] that suc unat32 [of off'] by auto
      qed
      have stop: "off' = count \<or> bytes_at m b (unat off') \<noteq> ident"
        using IH same [of "unat off'"] lt unat32 [of off'] by (auto simp: word_less_nat_alt)
      have "m' a = (if off \<le> a - b \<and> a - b < off' then 0 else m a)" for a
      proof -
        have "a = b + off \<longleftrightarrow> a - b = off" by (auto simp: algebra_simps)
        then show ?thesis
          using IH lt True by (auto simp: plus1_le_iff less_le m2_def)
      qed
      then show ?thesis using IH lt cells stop by auto
    qed
  qed
  then show "off \<le> off'" "off' \<le> count"
    "\<forall>j. unat off \<le> j \<and> j < unat off' \<longrightarrow> bytes_at m b j = ident"
    "off' = count \<or> bytes_at m b (unat off') \<noteq> ident"
    "\<forall>a. m' a = (if off \<le> a - b \<and> a - b < off' then 0 else m a)" by blast+
qed

text \<open>The pointer to block \<open>k\<close> of a superblock.\<close>

definition block_ptr :: "mem \<Rightarrow> addr \<Rightarrow> nat \<Rightarrow> addr" where
  "block_ptr m sb k = of_nat k * sb_block_size m sb + (sb + sizeof_memblock)"

lemma block_ptr_start:
  assumes ok: "sb_ok m sb" and k: "k \<le> nblocks m sb"
  shows "unat (of_nat k * sb_block_size m sb) = k * unat (sb_block_size m sb)"
    "(block_ptr m sb k - (sb + sizeof_memblock)) div sb_block_size m sb = of_nat k"
proof -
  have le: "k * unat (sb_block_size m sb) \<le> unat (sb_total_size m sb)"
    using nblocks_mult_le [of m sb] mult_le_mono1 [OF k] by (rule le_trans [rotated])
  have k32: "unat (of_nat k :: u32) = k"
    using k nblocks_le [of m sb] unat32 [of "sb_total_size m sb"] by (simp add: unat_of_nat)
  show *: "unat (of_nat k * sb_block_size m sb) = k * unat (sb_block_size m sb)"
    using unat_mult_le [of "of_nat k" "sb_block_size m sb" "sb_total_size m sb"] le by (simp add: k32)
  have "unat (of_nat k * sb_block_size m sb div sb_block_size m sb) = k"
    unfolding unat_div_distrib * using sb_okD(3) [OF ok] by simp
  then show "(block_ptr m sb k - (sb + sizeof_memblock)) div sb_block_size m sb = of_nat k"
    by (metis block_ptr_def add_diff_cancel_right' of_nat_unat ucast_id)
qed

text \<open>Freeing from the first cell of a run clears exactly the run.\<close>

lemma free_blocks_run:
  assumes run: "is_run (bytes_at m b) (unat count) c k l"
  shows "free_blocks m b (of_nat k) c count = (of_nat (k + l), memset m (b + of_nat k) 0 (of_nat l))"
proof -
  let ?f = "bytes_at m b"
  have kl: "k + l \<le> unat count" "0 < l" using run by (auto simp: is_run_def)
  have k32: "unat (of_nat k :: u32) = k" "unat (of_nat l :: u32) = l" "unat (of_nat (k + l) :: u32) = k + l"
    using kl unat32 [of count] by (simp_all add: unat_of_nat del: of_nat_add)
  have le: "of_nat k \<le> count" using kl by (simp add: word_le_nat_alt k32)
  obtain off m1 where fb: "free_blocks m b (of_nat k) c count = (off, m1)"
    by (cases "free_blocks m b (of_nat k) c count")
  note fbs = free_blocks_spec [OF le fb]
  have cells: "?f j = c" if "k \<le> j" "j < unat off" for j
    using fbs(3) that by (simp add: k32)
  have "unat off = k + l"
  proof (rule antisym)
    show "unat off \<le> k + l"
    proof (rule ccontr)
      assume "\<not> ?thesis"
      moreover from this have "k + l < unat count" using fbs(2) by (simp add: word_le_nat_alt)
      ultimately show False using cells [of "k + l"] run by (auto simp: is_run_def)
    qed
    show "k + l \<le> unat off"
    proof (rule ccontr)
      assume "\<not> ?thesis"
      then have "?f (unat off) = c" "off \<noteq> count"
        using fbs(1) k32 kl is_run_cell [OF run] by (auto simp: word_le_nat_alt)
      then show False using fbs(4) by simp
    qed
  qed
  then have off: "off = of_nat (k + l)" using k32(3) by (simp only: word_unat_eq_iff)
  have "m1 a = memset m (b + of_nat k) 0 (of_nat l) a" for a
  proof -
    have "of_nat k \<le> a - b \<and> a - b < off \<longleftrightarrow> a \<in> span (b + of_nat k) (of_nat l)"
      using kl unat32 [of count] k32
      by (subst in_span_offset) (simp_all add: off word_less_nat_alt del: of_nat_add)
    then show ?thesis using fbs(5) by (simp add: memset_eq)
  qed
  then show ?thesis using fb off by auto
qed

lemma free_here_spec:
  assumes ok: "sb_ok m sb" and run: "(k, l) \<in> sb_runs m sb"
  shows "sb_step m (free_here m sb (block_ptr m sb k)) sb"
    "sb_ok (free_here m sb (block_ptr m sb k)) sb"
    "sb_runs (free_here m sb (block_ptr m sb k)) sb = sb_runs m sb - {(k, l)}"
    "sb_used (free_here m sb (block_ptr m sb k)) sb = sb_used m sb - of_nat l"
    "\<forall>j < nblocks m sb.
      sb_bitmap (free_here m sb (block_ptr m sb k)) sb j = fill (sb_bitmap m sb) k l 0 j"
proof -
  let ?f = "sb_bitmap m sb" and ?N = "nblocks m sb" and ?R = "nreserved m sb"
  let ?b = "sb + sizeof_memblock" and ?count = "memblock_get_block_count m sb"
  obtain c where R: "?R \<le> k" and c: "is_run ?f ?N c k l" using run by (auto simp: sb_runs_def in_runs)
  have kl: "k + l \<le> ?N" "0 < l" "c \<noteq> 0" using c by (auto simp: is_run_def)
  have count: "unat ?count = ?N" by (rule unat_block_count)
  have k32: "unat (of_nat k :: u32) = k"
    using kl count unat32 [of ?count] by (simp add: unat_of_nat)
  have start: "(block_ptr m sb k - ?b) div sb_block_size m sb = of_nat k"
    using block_ptr_start(2) [OF ok] kl by simp
  have id_k: "m (?b + of_nat k) = c"
    using is_run_id [OF c] by (simp add: sb_bitmap_def bytes_at_def)
  have l32: "unat (of_nat l :: u32) = l"
    using kl count unat32 [of ?count] by (simp add: unat_of_nat)
  define m1 where "m1 = memset m (?b + of_nat k) 0 (of_nat l)"
  have fb: "free_blocks m ?b (of_nat k) c ?count = (of_nat (k + l), m1)"
    unfolding m1_def by (rule free_blocks_run) (use c in \<open>simp add: count sb_bitmap_def\<close>)
  have m': "free_here m sb (block_ptr m sb k) = store32 m1 (sb + 8) (sb_used m1 sb - of_nat l)"
    by (simp add: free_here_def memblock_get_bitmap_def start id_k fb Let_def)
  have fit: "unat (of_nat k :: u32) + unat (of_nat l :: u32) \<le> ?N" "0 < unat (of_nat l :: u32)"
    using kl by (simp_all add: k32 l32)
  have out: "\<forall>a. unat a < unat sb + 20 \<or> unat sb + 20 + ?N \<le> unat a \<longrightarrow> m1 a = m a"
    unfolding m1_def using memset_bitmap(1) [OF ok fit] by blast
  then have hdr: "\<forall>a. unat a < unat sb + 20 \<longrightarrow> m1 a = m a" by blast
  note upd = bitmap_update [OF sb_okD(4) [OF ok] out,
      where u = "sb_used m1 sb - of_nat l", folded m']
  let ?m' = "free_here m sb (block_ptr m sb k)"
  show step: "sb_step m ?m' sb" unfolding sb_step_def using upd by blast
  show used: "sb_used ?m' sb = sb_used m sb - of_nat l"
    unfolding upd(4) used_kept [OF sb_okD(4) [OF ok] hdr] ..
  have bits: "sb_bitmap ?m' sb j = fill ?f k l 0 j" if "j < ?N" for j
    using upd(5) [OF that] memset_bitmap(2) [OF ok fit that, of 0] unfolding m1_def by (simp add: k32 l32)
  then show "\<forall>j < ?N. sb_bitmap ?m' sb j = fill ?f k l 0 j" by blast
  have res: "sb_bitmap ?m' sb j = 1" if "j < ?R" for j
    using bits [of j] that kl R sb_okD(6) [OF ok that] by (simp add: fill_def)
  have "l \<le> unat (sb_used m sb)"
    using used_blocks_clear [OF c] sb_okD(7) [OF ok] by simp
  then have "unat (sb_used ?m' sb) = unat (sb_used m sb) - l"
    using used by (simp add: unat_diff word_le_nat_alt l32)
  then have u: "unat (sb_used ?m' sb) = used_blocks (fill ?f k l 0) ?N"
    using used_blocks_clear [OF c] sb_okD(7) [OF ok] by simp
  show "sb_ok ?m' sb" using sb_step_ok(1) [OF ok step bits res u] by blast
  have "0 < ?R" using nreserved_pos sb_okD(3) [OF ok] kl by simp
  then show "sb_runs ?m' sb = sb_runs m sb - {(k, l)}"
    using sb_step_ok(2) [OF ok step bits res u] runs_clear run by (simp add: sb_runs_def)
qed

section \<open>The heap invariant\<close>

fun chain :: "mem \<Rightarrow> addr \<Rightarrow> addr list \<Rightarrow> bool" where
  "chain m p [] \<longleftrightarrow> p = 0"
| "chain m p (sb # sbs) \<longleftrightarrow> p = sb \<and> sb \<noteq> 0 \<and> chain m (sb_next m sb) sbs"

definition heap_ok :: "memheap \<Rightarrow> mem \<Rightarrow> addr list \<Rightarrow> bool" where
  "heap_ok h m sbs \<longleftrightarrow>
     chain m (head h) sbs \<and> distinct sbs \<and> (\<forall>sb \<in> set sbs. sb_ok m sb) \<and>
     (\<forall>sb \<in> set sbs. \<forall>sb' \<in> set sbs. sb \<noteq> sb' \<longrightarrow> region m sb \<inter> region m sb' = {})"

text \<open>The live allocations: superblock, first block and number of blocks.\<close>

definition heap_live :: "mem \<Rightarrow> addr list \<Rightarrow> (addr \<times> nat \<times> nat) set" where
  "heap_live m sbs = {(sb, k, n). sb \<in> set sbs \<and> (k, n) \<in> sb_runs m sb}"

text \<open>The bytes the heap may write, and the bytes an allocation owns.\<close>

definition heap_metadata :: "mem \<Rightarrow> addr list \<Rightarrow> addr set" where
  "heap_metadata m sbs = (\<Union>sb \<in> set sbs. metadata m sb)"

definition payload :: "mem \<Rightarrow> addr \<times> nat \<times> nat \<Rightarrow> addr set" where
  "payload m = (\<lambda>(sb, k, n). {a. unat (block_ptr m sb k) \<le> unat a \<and>
     unat a < unat (block_ptr m sb k) + n * unat (sb_block_size m sb)})"

lemma heap_okD:
  assumes "heap_ok h m sbs"
  shows "chain m (head h) sbs" "distinct sbs" "sb \<in> set sbs \<Longrightarrow> sb_ok m sb"
    "sb \<in> set sbs \<Longrightarrow> sb' \<in> set sbs \<Longrightarrow> sb \<noteq> sb' \<Longrightarrow> region m sb \<inter> region m sb' = {}"
  using assms by (auto simp: heap_ok_def)

lemma metadata_region: "metadata m sb \<subseteq> region m sb"
  using nblocks_le [of m sb] by (auto simp: metadata_def region_def)

text \<open>A superblock depends on the bytes of its header and bitmap only.\<close>

lemma sb_kept:
  assumes ok: "sb_ok m sb" and same: "\<forall>a \<in> metadata m sb. m' a = m a"
  shows "sb_next m' sb = sb_next m sb" "sb_total_size m' sb = sb_total_size m sb"
    "sb_block_size m' sb = sb_block_size m sb" "sb_used m' sb = sb_used m sb"
    "region m' sb = region m sb" "metadata m' sb = metadata m sb"
    "sb_ok m' sb" "sb_runs m' sb = sb_runs m sb"
proof -
  have hdr: "m' a = m a" if "unat sb \<le> unat a" "unat a < unat sb + 20" for a
    using same that by (simp add: metadata_def)
  have fld: "load32 m' (sb + c) = load32 m (sb + c)" if "unat c \<le> 16" for c
  proof (rule load32_cong)
    fix b assume "b \<in> span (sb + c) 4"
    then have lt: "unat (b - (sb + c)) < 4" by (simp add: in_span word_less_nat_alt)
    have "unat (sb + c) = unat sb + unat c"
      using that sb_okD(4) [OF ok] by (intro unat_add_small) simp
    moreover have "unat ((sb + c) + (b - (sb + c))) = unat (sb + c) + unat (b - (sb + c))"
      using lt calculation that sb_okD(4) [OF ok] by (intro unat_add_small) simp
    ultimately show "m' b = m b" using lt that by (intro hdr) auto
  qed
  show n: "sb_next m' sb = sb_next m sb" using fld [of 0] by (simp add: sb_next_def)
  show t: "sb_total_size m' sb = sb_total_size m sb" using fld [of 4] by (simp add: sb_total_size_def)
  show bs: "sb_block_size m' sb = sb_block_size m sb" using fld [of 12] by (simp add: sb_block_size_def)
  show u: "sb_used m' sb = sb_used m sb" using fld [of 8] by (simp add: sb_used_def)
  then have N: "nblocks m' sb = nblocks m sb" "nreserved m' sb = nreserved m sb"
    using t bs by (simp_all add: nblocks_def nreserved_def)
  then show "region m' sb = region m sb" "metadata m' sb = metadata m sb"
    using t by (simp_all add: region_def metadata_def)
  have bits: "sb_bitmap m' sb j = sb_bitmap m sb j" if "j < nblocks m sb" for j
    using unat_bitmap_addr [OF ok that] that nblocks_le [of m sb]
    by (auto intro!: bspec [OF same] simp: sb_bitmap_def bytes_at_def metadata_def)
  have "sb_bitmap m sb j = sb_bitmap m' sb j" if "j < nreserved m sb" for j
  proof -
    have "nreserved m sb \<le> nblocks m sb" using nreserved_le sb_okD(3) [OF ok] by blast
    then show ?thesis using bits that by simp
  qed
  then show "sb_ok m' sb"
    using ok n t bs u N used_blocks_cong [OF bits] unfolding sb_ok_def by auto
  show "sb_runs m' sb = sb_runs m sb"
    using runs_cong [OF bits] by (simp add: sb_runs_def N)
qed

lemma sb_untouched:
  assumes ok: "sb_ok m sb" and same: "\<forall>a \<in> region m sb. m' a = m a"
  shows "sb_next m' sb = sb_next m sb" "sb_total_size m' sb = sb_total_size m sb"
    "sb_block_size m' sb = sb_block_size m sb" "sb_used m' sb = sb_used m sb"
    "region m' sb = region m sb" "metadata m' sb = metadata m sb"
    "sb_ok m' sb" "sb_runs m' sb = sb_runs m sb"
proof -
  have "\<forall>a \<in> metadata m sb. m' a = m a" using same metadata_region [of m sb] by blast
  note kept = sb_kept [OF ok this]
  show "sb_next m' sb = sb_next m sb" "sb_total_size m' sb = sb_total_size m sb"
    "sb_block_size m' sb = sb_block_size m sb" "sb_used m' sb = sb_used m sb"
    "region m' sb = region m sb" "metadata m' sb = metadata m sb"
    "sb_ok m' sb" "sb_runs m' sb = sb_runs m sb" by (fact kept)+
qed

lemma chain_cong:
  "(\<And>sb. sb \<in> set sbs \<Longrightarrow> sb_next m' sb = sb_next m sb) \<Longrightarrow> chain m' p sbs = chain m p sbs"
  by (induction sbs arbitrary: p) auto

text \<open>A step inside one superblock leaves the rest of the heap alone.\<close>

lemma heap_step:
  assumes ok: "heap_ok h m sbs" and sb: "sb \<in> set sbs" and step: "sb_step m m' sb" and ok': "sb_ok m' sb"
  shows "heap_ok h m' sbs"
    "heap_live m' sbs = {(x, k, n) \<in> heap_live m sbs. x \<noteq> sb} \<union> {sb} \<times> sb_runs m' sb"
    "heap_metadata m' sbs = heap_metadata m sbs"
    "a \<notin> heap_metadata m sbs \<Longrightarrow> m' a = m a"
    "x \<in> set sbs \<Longrightarrow> sb_total_size m' x = sb_total_size m x \<and> sb_block_size m' x = sb_block_size m x"
proof -
  have same: "\<forall>a \<in> region m x. m' a = m a" if "x \<in> set sbs" "x \<noteq> sb" for x
    using step heap_okD(4) [OF ok that(1) sb that(2)] metadata_region [of m sb]
    by (auto simp: sb_step_def)
  note other = sb_untouched [OF heap_okD(3) [OF ok] same]
  have nxt: "sb_next m' x = sb_next m x" if "x \<in> set sbs" for x
    using other(1) [OF that that] step by (cases "x = sb") (auto simp: sb_step_def)
  show "sb_total_size m' x = sb_total_size m x \<and> sb_block_size m' x = sb_block_size m x"
    if "x \<in> set sbs" using other(2,3) [OF that that] step by (cases "x = sb") (auto simp: sb_step_def)
  have reg: "region m' x = region m x" if "x \<in> set sbs" for x
    using other(5) [OF that that] sb_step_counts(4) [OF step] by (cases "x = sb") auto
  have met: "metadata m' x = metadata m x" if "x \<in> set sbs" for x
    using other(6) [OF that that] sb_step_counts(3) [OF step] by (cases "x = sb") auto
  have oks: "sb_ok m' x" if "x \<in> set sbs" for x
    using other(7) [OF that that] ok' by (cases "x = sb") auto
  show "heap_ok h m' sbs"
    using ok nxt reg oks chain_cong [of sbs m' m] unfolding heap_ok_def by auto
  show "heap_live m' sbs = {(x, k, n) \<in> heap_live m sbs. x \<noteq> sb} \<union> {sb} \<times> sb_runs m' sb"
    using other(8) sb by (auto simp: heap_live_def)
  show "heap_metadata m' sbs = heap_metadata m sbs"
    using met by (simp add: heap_metadata_def)
  show "m' a = m a" if "a \<notin> heap_metadata m sbs"
    using that step sb by (auto simp: sb_step_def heap_metadata_def)
qed

text \<open>So does the whole heap: a client that stores outside the bookkeeping changes nothing.\<close>

lemma heap_kept:
  assumes ok: "heap_ok h m sbs" and same: "\<forall>a \<in> heap_metadata m sbs. m' a = m a"
  shows "heap_ok h m' sbs" "heap_live m' sbs = heap_live m sbs"
    "heap_metadata m' sbs = heap_metadata m sbs"
    "x \<in> heap_live m sbs \<Longrightarrow> payload m' x = payload m x"
    "sb \<in> set sbs \<Longrightarrow> region m' sb = region m sb"
    "sb \<in> set sbs \<Longrightarrow> block_ptr m' sb k = block_ptr m sb k"
proof -
  have same': "\<forall>a \<in> metadata m sb. m' a = m a" if "sb \<in> set sbs" for sb
    using same that by (auto simp: heap_metadata_def)
  note kept = sb_kept [OF heap_okD(3) [OF ok] same']
  show "heap_ok h m' sbs"
    using ok kept(5,7) chain_cong [of sbs m' m] kept(1) unfolding heap_ok_def by auto
  show "heap_live m' sbs = heap_live m sbs" "heap_metadata m' sbs = heap_metadata m sbs"
    using kept(6,8) by (auto simp: heap_live_def heap_metadata_def)
  show "region m' sb = region m sb" if "sb \<in> set sbs" using kept(5) that by blast
  show ptr: "block_ptr m' sb k = block_ptr m sb k" if "sb \<in> set sbs" for sb k
    using kept(3) that by (simp add: block_ptr_def)
  show "payload m' x = payload m x" if "x \<in> heap_live m sbs"
    using that kept(3) ptr by (auto simp: payload_def heap_live_def)
qed

section \<open>Allocation is first fit\<close>

definition blocks_for :: "mem \<Rightarrow> addr \<Rightarrow> u32 \<Rightarrow> nat" where
  "blocks_for m sb sz =
     (unat sz + unat (sb_block_size m sb) - 1) div unat (sb_block_size m sb)"

definition room_at :: "mem \<Rightarrow> addr \<Rightarrow> u32 \<Rightarrow> nat \<Rightarrow> bool" where
  "room_at m sb sz k \<longleftrightarrow>
     k + blocks_for m sb sz \<le> nblocks m sb \<and> free_at (sb_bitmap m sb) k (blocks_for m sb sz)"

definition has_room :: "u32 \<Rightarrow> mem \<Rightarrow> addr \<Rightarrow> bool" where
  "has_room sz m sb \<longleftrightarrow> (\<exists>k. room_at m sb sz k)"

definition first_room :: "u32 \<Rightarrow> mem \<Rightarrow> addr \<Rightarrow> nat" where
  "first_room sz m sb = (LEAST k. room_at m sb sz k)"

lemma has_room_untouched:
  assumes ok: "sb_ok m sb" and same: "\<forall>a \<in> region m sb. m' a = m a"
  shows "has_room sz m' sb = has_room sz m sb"
proof -
  note un = sb_untouched [OF assms]
  have N: "nblocks m' sb = nblocks m sb" "blocks_for m' sb sz = blocks_for m sb sz"
    using un(2,3) by (simp_all add: nblocks_def blocks_for_def)
  have bits: "sb_bitmap m' sb j = sb_bitmap m sb j" if "j < nblocks m sb" for j
    using unat_bitmap_addr [OF ok that] that nblocks_le [of m sb]
    by (auto intro!: bspec [OF same] simp: sb_bitmap_def bytes_at_def region_def)
  have "room_at m' sb sz k = room_at m sb sz k" for k
    using bits by (auto simp: room_at_def N free_at_def)
  then show ?thesis by (simp add: has_room_def)
qed

lemma first_room: "has_room sz m sb \<Longrightarrow> room_at m sb sz (first_room sz m sb)"
  unfolding has_room_def first_room_def by (rule LeastI_ex)

lemma blocks_for_bounds:
  assumes "0 < unat (sb_block_size m sb)" "0 < sz"
  shows "0 < blocks_for m sb sz" "unat sz \<le> blocks_for m sb sz * unat (sb_block_size m sb)"
proof -
  let ?B = "unat (sb_block_size m sb)"
  have "unat sz + ?B - 1 < ?B + ((unat sz + ?B - 1) div ?B) * ?B"
    using assms(1) by (metis add.commute dividend_less_div_times)
  then show le: "unat sz \<le> blocks_for m sb sz * ?B"
    using assms(1) unfolding blocks_for_def by linarith
  show "0 < blocks_for m sb sz"
    using le assms(2) by (cases "blocks_for m sb sz") (auto simp: word_less_nat_alt)
qed

text \<open>The test on the total free space lets through every superblock that has room.\<close>

lemma free_space_test:
  assumes ok: "sb_ok m sb" and sz: "0 < sz"
  shows "unat (sb_used m sb * sb_block_size m sb) = unat (sb_used m sb) * unat (sb_block_size m sb)"
    "sz \<le> sb_total_size m sb - sb_used m sb * sb_block_size m sb \<Longrightarrow> sz \<le> sb_total_size m sb"
    "has_room sz m sb \<Longrightarrow> sz \<le> sb_total_size m sb - sb_used m sb * sb_block_size m sb"
proof -
  let ?B = "unat (sb_block_size m sb)" and ?T = "unat (sb_total_size m sb)"
  let ?U = "unat (sb_used m sb)"
  have U: "?U * ?B \<le> nblocks m sb * ?B"
    using sb_okD(7) [OF ok] used_blocks_le by simp
  then have UT: "?U * ?B \<le> ?T" using nblocks_mult_le [of m sb] by linarith
  then show UB: "unat (sb_used m sb * sb_block_size m sb) = ?U * ?B" by (rule unat_mult_le)
  have diff: "unat (sb_total_size m sb - sb_used m sb * sb_block_size m sb) = ?T - ?U * ?B"
    using UT UB by (simp add: unat_diff word_le_nat_alt)
  show "sz \<le> sb_total_size m sb"
    if "sz \<le> sb_total_size m sb - sb_used m sb * sb_block_size m sb"
    using that diff by (simp add: word_le_nat_alt)
  assume "has_room sz m sb"
  then obtain k where "k + blocks_for m sb sz \<le> nblocks m sb"
    "free_at (sb_bitmap m sb) k (blocks_for m sb sz)" by (auto simp: has_room_def room_at_def)
  then have "?U + blocks_for m sb sz \<le> nblocks m sb"
    using used_blocks_free sb_okD(7) [OF ok] by simp
  then have "(?U + blocks_for m sb sz) * ?B \<le> nblocks m sb * ?B" by (rule mult_le_mono1)
  then have "?U * ?B + unat sz \<le> ?T"
    using blocks_for_bounds(2) [OF sb_okD(3) [OF ok] sz] nblocks_mult_le [of m sb]
    by (simp add: add_mult_distrib)
  then show "sz \<le> sb_total_size m sb - sb_used m sb * sb_block_size m sb"
    using diff by (simp add: word_le_nat_alt)
qed

lemma alloc_loop_step:
  assumes ok: "sb_ok m sb" and sz: "0 < sz"
  shows "has_room sz m sb \<Longrightarrow> memheap_alloc_loop m sb sz =
      Some (Inr (alloc_here m sb (of_nat (first_room sz m sb)) (of_nat (blocks_for m sb sz))))"
    "\<not> has_room sz m sb \<Longrightarrow> memheap_alloc_loop m sb sz = memheap_alloc_loop m (sb_next m sb) sz"
proof -
  let ?test = "sz \<le> sb_total_size m sb - sb_used m sb * sb_block_size m sb"
  let ?need = "CEILING sz (sb_block_size m sb)"
  let ?find = "find_free m (sb + sizeof_memblock) 0 ?need (memblock_get_block_count m sb)"
  have need: "unat ?need = blocks_for m sb sz" if ?test
  proof -
    have "unat sz + unat (sb_block_size m sb) \<le> 2 ^ 32"
      using free_space_test(2) [OF ok sz that] sb_okD(5) [OF ok] by (simp add: word_le_nat_alt)
    then show ?thesis
      using sb_okD(3) [OF ok] by (simp add: unat_CEILING blocks_for_def)
  qed
  have need_pos: "0 < ?need" if ?test
    using need [OF that] blocks_for_bounds(1) [OF sb_okD(3) [OF ok] sz] by (simp add: word_less_nat_alt)
  note spec = find_free_spec [OF need_pos, where m = m and b = "sb + sizeof_memblock"
      and i = 0 and count = "memblock_get_block_count m sb"]
  have none: "?find = None \<longleftrightarrow> \<not> has_room sz m sb" if ?test
    using spec [OF that] need [OF that]
    by (auto simp: unat_block_count has_room_def room_at_def sb_bitmap_def split: option.splits)
  have some: "k = of_nat (first_room sz m sb) \<and> n = of_nat (blocks_for m sb sz)"
    if "?find = Some (k, n)" ?test for k n
  proof -
    have "room_at m sb sz (unat k)" "\<forall>l < unat k. \<not> room_at m sb sz l" "n = ?need"
      using spec [OF that(2)] that(1) need [OF that(2)]
      by (auto simp: unat_block_count room_at_def sb_bitmap_def)
    then have "first_room sz m sb = unat k" "n = ?need"
      unfolding first_room_def by (auto intro!: Least_equality simp: not_less [symmetric])
    then show ?thesis using need [OF that(2)] by (metis of_nat_unat ucast_id)
  qed
  have unf: "memheap_alloc_loop m sb sz =
      (if ?test then case ?find of Some (i, n) \<Rightarrow> Some (Inr (alloc_here m sb i n))
         | None \<Rightarrow> memheap_alloc_loop m (sb_next m sb) sz
       else memheap_alloc_loop m (sb_next m sb) sz)"
    using sb_okD(1,2) [OF ok]
    by (subst memheap_alloc_loop.simps) (simp add: Let_def memblock_get_bitmap_def)
  show "memheap_alloc_loop m sb sz =
      Some (Inr (alloc_here m sb (of_nat (first_room sz m sb)) (of_nat (blocks_for m sb sz))))"
    if room: "has_room sz m sb"
  proof -
    have t: ?test using free_space_test(3) [OF ok sz room] .
    with none room obtain k n where "?find = Some (k, n)" by auto
    then show ?thesis unfolding unf using some t by simp
  qed
  show "memheap_alloc_loop m sb sz = memheap_alloc_loop m (sb_next m sb) sz"
    if "\<not> has_room sz m sb"
    unfolding unf using none that by simp
qed

lemma alloc_loop_chain:
  assumes "chain m p sbs" "\<forall>sb \<in> set sbs. sb_ok m sb" "0 < sz"
  shows "memheap_alloc_loop m p sz =
    Some (Inr (case find (has_room sz m) sbs of
        None \<Rightarrow> (0, m)
      | Some sb \<Rightarrow> alloc_here m sb (of_nat (first_room sz m sb)) (of_nat (blocks_for m sb sz))))"
  using assms(1,2)
proof (induction sbs arbitrary: p)
  case Nil
  then show ?case by (simp add: memheap_alloc_loop.simps)
next
  case (Cons sb sbs)
  then show ?case
    using alloc_loop_step [of m sb sz] assms(3) by (cases "has_room sz m sb") auto
qed

lemma memheap_alloc_first_fit:
  assumes "heap_ok h m sbs" "0 < sz"
  shows "memheap_alloc h m sz =
    Inr (case find (has_room sz m) sbs of
        None \<Rightarrow> (0, m)
      | Some sb \<Rightarrow> alloc_here m sb (of_nat (first_room sz m sb)) (of_nat (blocks_for m sb sz)))"
  using alloc_loop_chain [OF heap_okD(1) [OF assms(1)] _ assms(2)] heap_okD(3) [OF assms(1)]
  by (simp add: memheap_alloc_def)

section \<open>Allocations own disjoint memory\<close>

lemma block_ptr_unat:
  assumes "sb_ok m sb" "k < nblocks m sb"
  shows "unat (block_ptr m sb k) = unat sb + 20 + k * unat (sb_block_size m sb)"
proof -
  let ?B = "unat (sb_block_size m sb)"
  have "Suc k * ?B \<le> nblocks m sb * ?B" using assms(2) by (intro mult_le_mono1) simp
  then have "k * ?B + ?B \<le> unat (sb_total_size m sb)"
    using nblocks_mult_le [of m sb] by simp
  then have lt: "unat sb + 20 + k * ?B < 2 ^ 32"
    using sb_okD(3,4) [OF assms(1)] by linarith
  then have "unat (sb + sizeof_memblock) = unat sb + 20"
    by (simp add: sizeof_memblock_def unat_add_small)
  then show ?thesis
    using block_ptr_start(1) [OF assms(1), of k] assms(2) lt
    by (simp add: block_ptr_def unat_add_small)
qed

lemma payload_iff:
  assumes "sb_ok m sb" "(k, n) \<in> sb_runs m sb"
  shows "a \<in> payload m (sb, k, n) \<longleftrightarrow>
    unat sb + 20 + k * unat (sb_block_size m sb) \<le> unat a \<and>
    unat a < unat sb + 20 + (k + n) * unat (sb_block_size m sb)"
proof -
  have "k < nblocks m sb" using assms(2) by (auto simp: sb_runs_def in_runs is_run_def)
  then show ?thesis
    using block_ptr_unat [OF assms(1)] by (simp add: payload_def algebra_simps)
qed

lemma payload_inside:
  assumes "sb_ok m sb" "(k, n) \<in> sb_runs m sb"
  shows "payload m (sb, k, n) \<subseteq> region m sb" "payload m (sb, k, n) \<inter> metadata m sb = {}"
proof -
  let ?B = "unat (sb_block_size m sb)"
  have kn: "nreserved m sb \<le> k" "k + n \<le> nblocks m sb"
    using assms(2) by (auto simp: sb_runs_def in_runs is_run_def)
  have "(k + n) * ?B \<le> nblocks m sb * ?B" using kn(2) by (rule mult_le_mono1)
  then have hi: "(k + n) * ?B \<le> unat (sb_total_size m sb)"
    using nblocks_mult_le by (rule le_trans)
  have "nreserved m sb * ?B \<le> k * ?B" using kn(1) by (rule mult_le_mono1)
  then have lo: "nblocks m sb \<le> k * ?B"
    using reserved_covers_bitmap [OF sb_okD(3) [OF assms(1)]] by (rule le_trans [rotated])
  show "payload m (sb, k, n) \<subseteq> region m sb" "payload m (sb, k, n) \<inter> metadata m sb = {}"
    using payload_iff [OF assms] hi lo unfolding region_def metadata_def
    by (auto simp del: mult_le_cancel2)
qed

lemma live_payloads:
  assumes ok: "heap_ok h m sbs" and x: "x \<in> heap_live m sbs"
  shows "y \<in> heap_live m sbs \<Longrightarrow> x \<noteq> y \<Longrightarrow> payload m x \<inter> payload m y = {}"
    "payload m x \<inter> heap_metadata m sbs = {}"
proof -
  obtain sb k n where x_eq: "x = (sb, k, n)" "sb \<in> set sbs" "(k, n) \<in> sb_runs m sb"
    using x by (auto simp: heap_live_def)
  note ok_x = heap_okD(3) [OF ok x_eq(2)]
  note in_x = payload_inside [OF ok_x x_eq(3)]
  show "payload m x \<inter> payload m y = {}" if y: "y \<in> heap_live m sbs" and xy: "x \<noteq> y"
  proof -
    obtain sb' l i where y_eq: "y = (sb', l, i)" "sb' \<in> set sbs" "(l, i) \<in> sb_runs m sb'"
      using y by (auto simp: heap_live_def)
    note ok_y = heap_okD(3) [OF ok y_eq(2)]
    show ?thesis
    proof (cases "sb = sb'")
      case True
      then have "k + n \<le> l \<or> l + i \<le> k"
        using runs_equal_or_disjoint x_eq y_eq xy by (auto simp: sb_runs_def)
      then have sep: "(k + n) * unat (sb_block_size m sb) \<le> l * unat (sb_block_size m sb) \<or>
          (l + i) * unat (sb_block_size m sb) \<le> k * unat (sb_block_size m sb)"
        using mult_le_mono1 by blast
      have False if "a \<in> payload m (sb, k, n)" "a \<in> payload m (sb, l, i)" for a
      proof -
        have "unat sb + 20 + k * unat (sb_block_size m sb) \<le> unat a"
          "unat a < unat sb + 20 + (k + n) * unat (sb_block_size m sb)"
          using that(1) payload_iff [OF ok_x x_eq(3)] by blast+
        moreover have "unat sb + 20 + l * unat (sb_block_size m sb) \<le> unat a"
          "unat a < unat sb + 20 + (l + i) * unat (sb_block_size m sb)"
          using that(2) payload_iff [OF ok_y [folded True] y_eq(3) [folded True]] by blast+
        ultimately show False using sep by (elim disjE; linarith)
      qed
      then show ?thesis unfolding x_eq y_eq True by blast
    next
      case False
      then show ?thesis
        using heap_okD(4) [OF ok x_eq(2) y_eq(2)] in_x(1) payload_inside(1) [OF ok_y y_eq(3)]
        unfolding x_eq y_eq by blast
    qed
  qed
  show "payload m x \<inter> heap_metadata m sbs = {}"
  proof -
    have "payload m (sb, k, n) \<inter> metadata m sb' = {}" if "sb' \<in> set sbs" for sb'
      using in_x metadata_region [of m sb'] heap_okD(4) [OF ok x_eq(2) that] by (cases "sb = sb'") auto
    then show ?thesis by (auto simp: x_eq heap_metadata_def)
  qed
qed

section \<open>Allocation and deallocation on the whole heap\<close>

lemma alloc_here_live:
  assumes ok: "heap_ok h m sbs" and sz: "0 < sz" and sb: "sb \<in> set sbs" and room: "has_room sz m sb"
    and call: "alloc_here m sb (of_nat (first_room sz m sb)) (of_nat (blocks_for m sb sz)) = (p, m')"
  defines "k \<equiv> first_room sz m sb" and "n \<equiv> blocks_for m sb sz"
  shows "p = block_ptr m sb k" "p \<noteq> 0" "heap_ok h m' sbs"
    "(sb, k, n) \<notin> heap_live m sbs" "heap_live m' sbs = insert (sb, k, n) (heap_live m sbs)"
    "heap_metadata m' sbs = heap_metadata m sbs"
    "a \<notin> heap_metadata m sbs \<Longrightarrow> m' a = m a"
    "sb_block_size m' sb = sb_block_size m sb" "block_ptr m' sb k = block_ptr m sb k"
    "unat sb + 20 \<le> unat p" "sb_total_size m' sb = sb_total_size m sb"
    "x \<in> set sbs \<Longrightarrow> sb_total_size m' x = sb_total_size m x \<and> sb_block_size m' x = sb_block_size m x"
proof -
  note sbok = heap_okD(3) [OF ok sb]
  have kn: "k + n \<le> nblocks m sb" "free_at (sb_bitmap m sb) k n"
    using first_room [OF room] by (auto simp: room_at_def k_def n_def)
  have n0: "0 < n" using blocks_for_bounds(1) [OF sb_okD(3) [OF sbok] sz] by (simp add: n_def)
  have "nblocks m sb < 2 ^ 32"
    using unat_block_count [of m sb] unat32 [of "memblock_get_block_count m sb"] by simp
  then have w: "unat (of_nat k :: u32) = k" "unat (of_nat n :: u32) = n"
    using kn by (simp_all add: unat_of_nat)
  have fit: "unat (of_nat k :: u32) + unat (of_nat n :: u32) \<le> nblocks m sb"
    "0 < unat (of_nat n :: u32)"
    "free_at (sb_bitmap m sb) (unat (of_nat k :: u32)) (unat (of_nat n :: u32))"
    using kn n0 w by simp_all
  note spec = alloc_here_spec [OF sbok fit call [folded k_def n_def]]
  show p: "p = block_ptr m sb k" using spec(1) by (simp add: block_ptr_def)
  have pu: "unat p = unat sb + 20 + k * unat (sb_block_size m sb)"
    using block_ptr_unat [OF sbok, of k] kn n0 p by simp
  then show "unat sb + 20 \<le> unat p" by simp
  show "p \<noteq> 0" using pu by auto
  show "sb_total_size m' sb = sb_total_size m sb" using spec(2) by (simp add: sb_step_def)
  show bs: "sb_block_size m' sb = sb_block_size m sb" using spec(2) by (simp add: sb_step_def)
  then show "block_ptr m' sb k = block_ptr m sb k" by (simp add: block_ptr_def)
  note step = heap_step [OF ok sb spec(2,3)]
  show "heap_ok h m' sbs" "heap_metadata m' sbs = heap_metadata m sbs" using step by blast+
  show "sb_total_size m' x = sb_total_size m x \<and> sb_block_size m' x = sb_block_size m x"
    if "x \<in> set sbs" using step(5) that .
  show "m' a = m a" if "a \<notin> heap_metadata m sbs" using step(4) that .
  show "(sb, k, n) \<notin> heap_live m sbs"
    using kn(2) n0 by (auto simp: heap_live_def sb_runs_def in_runs is_run_def free_at_def)
  show "heap_live m' sbs = insert (sb, k, n) (heap_live m sbs)"
    unfolding step(2) spec(4) w using sb by (auto simp: heap_live_def)
qed

lemma memheap_alloc_cases:
  assumes ok: "heap_ok h m sbs" and sz: "0 < sz"
  obtains (none) "memheap_alloc h m sz = Inr (0, m)" "\<forall>sb \<in> set sbs. \<not> has_room sz m sb"
  | (some) sb p m' where "sb \<in> set sbs" "has_room sz m sb"
      "memheap_alloc h m sz = Inr (p, m')"
      "alloc_here m sb (of_nat (first_room sz m sb)) (of_nat (blocks_for m sb sz)) = (p, m')"
proof (cases "find (has_room sz m) sbs")
  case None
  then have "memheap_alloc h m sz = Inr (0, m)" using memheap_alloc_first_fit [OF assms] by simp
  then show ?thesis using none None by (simp add: find_None_iff)
next
  case (Some sb)
  then have "sb \<in> set sbs" "has_room sz m sb" by (auto simp: find_Some_iff)
  then show ?thesis
    using memheap_alloc_first_fit [OF assms] Some some
    by (cases "alloc_here m sb (of_nat (first_room sz m sb)) (of_nat (blocks_for m sb sz))") auto
qed

lemma free_range_in_region:
  assumes "sb_ok m sb" "ptr > sb" "ptr < sb + sizeof_memblock + sb_total_size m sb"
  shows "ptr \<in> region m sb"
proof (cases "unat sb + 20 + unat (sb_total_size m sb) < 2 ^ 32")
  case True
  then have "unat (sb + sizeof_memblock + sb_total_size m sb) = unat sb + 20 + unat (sb_total_size m sb)"
    by (simp add: sizeof_memblock_def unat_add_small)
  then show ?thesis using assms(2,3) by (simp add: region_def word_less_nat_alt)
next
  case False
  then have eq: "unat sb + 20 + unat (sb_total_size m sb) = 2 ^ 32" using sb_okD(4) [OF assms(1)] by simp
  have "sb + sizeof_memblock + sb_total_size m sb = of_nat (unat sb + 20 + unat (sb_total_size m sb))"
    by (simp add: sizeof_memblock_def)
  also have "\<dots> = 0" unfolding eq by simp
  finally show ?thesis using assms(3) by simp
qed

lemma free_loop_skip:
  assumes "chain m p sbs" "\<forall>sb \<in> set sbs. sb_ok m sb \<and> ptr \<notin> region m sb"
  shows "memheap_free_loop m p ptr = Some (Inr m)"
  using assms
proof (induction sbs arbitrary: p)
  case Nil
  then show ?case by (simp add: memheap_free_loop.simps)
next
  case (Cons sb sbs)
  then have "\<not> (ptr > sb \<and> ptr < sb + sizeof_memblock + sb_total_size m sb)"
    using free_range_in_region by auto
  then show ?case
    using Cons by (subst memheap_free_loop.simps) auto
qed

text \<open>Superblocks that end at the top of the address space are skipped even when they are hit.\<close>

lemma free_loop_skip_top:
  assumes "chain m p sbs"
    and "\<forall>sb \<in> set sbs. sb_ok m sb \<and> (ptr \<notin> region m sb \<or> sb + sizeof_memblock + sb_total_size m sb = 0)"
  shows "memheap_free_loop m p ptr = Some (Inr m)"
  using assms
proof (induction sbs arbitrary: p)
  case Nil
  then show ?case by (simp add: memheap_free_loop.simps)
next
  case (Cons sb sbs)
  then have "\<not> (ptr > sb \<and> ptr < sb + sizeof_memblock + sb_total_size m sb)"
    using free_range_in_region by auto
  then show ?case
    using Cons by (subst memheap_free_loop.simps) auto
qed

lemma free_range_block:
  assumes ok: "sb_ok m sb" and run: "(k, n) \<in> sb_runs m sb"
  shows "block_ptr m sb k > sb"
    "unat sb + 20 + unat (sb_total_size m sb) < 2 ^ 32 \<Longrightarrow> block_ptr m sb k < sb + sizeof_memblock + sb_total_size m sb"
    "block_ptr m sb k \<in> region m sb"
proof -
  have k: "k < nblocks m sb" using run by (auto simp: sb_runs_def in_runs is_run_def)
  note pu = block_ptr_unat [OF ok k]
  then show "block_ptr m sb k > sb" by (simp add: word_less_nat_alt)
  have "0 < n" using run by (auto simp: sb_runs_def in_runs is_run_def)
  then have "block_ptr m sb k \<in> payload m (sb, k, n)"
    using payload_iff [OF ok run] pu sb_okD(3) [OF ok] by (simp add: algebra_simps)
  then show reg: "block_ptr m sb k \<in> region m sb" using payload_inside(1) [OF ok run] by blast
  assume "unat sb + 20 + unat (sb_total_size m sb) < 2 ^ 32"
  then have "unat (sb + sizeof_memblock + sb_total_size m sb) = unat sb + 20 + unat (sb_total_size m sb)"
    by (simp add: sizeof_memblock_def unat_add_small)
  then show "block_ptr m sb k < sb + sizeof_memblock + sb_total_size m sb"
    using reg by (simp add: region_def word_less_nat_alt)
qed

lemma free_loop_hit:
  assumes "chain m p (pre @ sb # post)" "heap_ok h m sbs" "set (pre @ sb # post) \<subseteq> set sbs"
    and "distinct (pre @ sb # post)" "(k, n) \<in> sb_runs m sb"
    and "unat sb + 20 + unat (sb_total_size m sb) < 2 ^ 32"
  shows "memheap_free_loop m p (block_ptr m sb k) = Some (Inr (free_here m sb (block_ptr m sb k)))"
  using assms
proof (induction pre arbitrary: p)
  case (Cons x pre)
  have "sb_ok m x" "sb_ok m sb" "region m x \<inter> region m sb = {}"
    using Cons.prems(3,4) heap_okD(3,4) [OF Cons.prems(2)] by auto
  then have "\<not> (block_ptr m sb k > x \<and> block_ptr m sb k < x + sizeof_memblock + sb_total_size m x)"
    using free_range_in_region free_range_block(3) [OF _ Cons.prems(5)] by blast
  then show ?case using Cons by (subst memheap_free_loop.simps) auto
next
  case Nil
  let ?m' = "free_here m sb (block_ptr m sb k)"
  have ok: "sb_ok m sb" and sb: "sb \<in> set sbs" using Nil.prems(3) heap_okD(3) [OF Nil.prems(2)] by auto
  note range = free_range_block(1) [OF ok Nil.prems(5)] free_range_block(2) [OF ok Nil.prems(5,6)]
    free_range_block(3) [OF ok Nil.prems(5)]
  note fh = free_here_spec [OF ok Nil.prems(5)]
  note step = heap_step [OF Nil.prems(2) sb fh(1,2)]
  have "memheap_free_loop m p (block_ptr m sb k) = memheap_free_loop ?m' (sb_next ?m' sb) (block_ptr m sb k)"
    using Nil.prems(1) range sb_okD(1,2) [OF ok] by (subst memheap_free_loop.simps) (auto simp: Let_def)
  also have "\<dots> = Some (Inr ?m')"
  proof (rule free_loop_skip)
    have same: "\<forall>a \<in> region m x. ?m' a = m a" if "x \<in> set post" for x
      using heap_okD(4) [OF Nil.prems(2), of x sb] fh(1) metadata_region [of m sb] that Nil.prems(3,4)
      by (auto simp: sb_step_def)
    have okx: "sb_ok m x" if "x \<in> set post" for x
      using that Nil.prems(3) heap_okD(3) [OF Nil.prems(2)] by auto
    note other = sb_untouched [OF okx same]
    show "chain ?m' (sb_next ?m' sb) post"
      using Nil.prems(1) fh(1) chain_cong [of post ?m' m] other(1) by (auto simp: sb_step_def)
    have "region m x \<inter> region m sb = {}" if "x \<in> set post" for x
      using heap_okD(4) [OF Nil.prems(2), of x sb] that Nil.prems(3,4) by auto
    then show "\<forall>x \<in> set post. sb_ok ?m' x \<and> block_ptr m sb k \<notin> region ?m' x"
      using other(5,7) range(3) by blast
  qed
  finally show ?case .
qed

lemma memheap_free_live:
  assumes ok: "heap_ok h m sbs" and live: "(sb, k, n) \<in> heap_live m sbs"
    and top: "unat sb + 20 + unat (sb_total_size m sb) < 2 ^ 32"
  shows "memheap_free h m (block_ptr m sb k) = Inr (free_here m sb (block_ptr m sb k))"
    "heap_ok h (free_here m sb (block_ptr m sb k)) sbs"
    "heap_live (free_here m sb (block_ptr m sb k)) sbs = heap_live m sbs - {(sb, k, n)}"
    "heap_metadata (free_here m sb (block_ptr m sb k)) sbs = heap_metadata m sbs"
    "a \<notin> heap_metadata m sbs \<Longrightarrow> free_here m sb (block_ptr m sb k) a = m a"
    "x \<in> set sbs \<Longrightarrow> sb_total_size (free_here m sb (block_ptr m sb k)) x = sb_total_size m x \<and>
      sb_block_size (free_here m sb (block_ptr m sb k)) x = sb_block_size m x"
proof -
  have sb: "sb \<in> set sbs" and run: "(k, n) \<in> sb_runs m sb" using live by (auto simp: heap_live_def)
  obtain pre post where split: "sbs = pre @ sb # post" using sb by (meson split_list)
  have "chain m (head h) (pre @ sb # post)" "distinct (pre @ sb # post)"
    using heap_okD(1,2) [OF ok] by (simp_all add: split)
  then have "memheap_free_loop m (head h) (block_ptr m sb k) = Some (Inr (free_here m sb (block_ptr m sb k)))"
    using free_loop_hit [OF _ ok _ _ run top, of "head h" pre post] by (simp add: split)
  then show "memheap_free h m (block_ptr m sb k) = Inr (free_here m sb (block_ptr m sb k))"
    by (simp add: memheap_free_def)
  note fh = free_here_spec [OF heap_okD(3) [OF ok sb] run]
  note step = heap_step [OF ok sb fh(1,2)]
  show "heap_ok h (free_here m sb (block_ptr m sb k)) sbs"
    "heap_metadata (free_here m sb (block_ptr m sb k)) sbs = heap_metadata m sbs" using step by blast+
  show "free_here m sb (block_ptr m sb k) a = m a" if "a \<notin> heap_metadata m sbs" using step(4) that .
  show "sb_total_size (free_here m sb (block_ptr m sb k)) x = sb_total_size m x \<and>
      sb_block_size (free_here m sb (block_ptr m sb k)) x = sb_block_size m x"
    if "x \<in> set sbs" using step(5) that .
  show "heap_live (free_here m sb (block_ptr m sb k)) sbs = heap_live m sbs - {(sb, k, n)}"
    unfolding step(2) fh(3) using sb by (auto simp: heap_live_def)
qed

text \<open>
  A superblock that ends at the top of the address space: the end that \<open>memheap_free\<close> computes
  wraps to zero, so that a pointer into it is not found and nothing happens.
\<close>

definition reaches_top :: "mem \<Rightarrow> addr \<Rightarrow> bool" where
  "reaches_top m sb \<longleftrightarrow> unat sb + 20 + unat (sb_total_size m sb) = 2 ^ 32"

lemma not_reaches_top: "sb_ok m sb \<Longrightarrow> \<not> reaches_top m sb \<longleftrightarrow> unat sb + 20 + unat (sb_total_size m sb) < 2 ^ 32"
  using sb_okD(4) [of m sb] by (auto simp: reaches_top_def)

lemma memheap_free_top:
  assumes ok: "heap_ok h m sbs" and live: "(sb, k, n) \<in> heap_live m sbs" and top: "reaches_top m sb"
  shows "memheap_free h m (block_ptr m sb k) = Inr m"
proof -
  have sb: "sb \<in> set sbs" and run: "(k, n) \<in> sb_runs m sb" using live by (auto simp: heap_live_def)
  note sbok = heap_okD(3) [OF ok sb]
  have "sb + sizeof_memblock + sb_total_size m sb = of_nat (unat sb + 20 + unat (sb_total_size m sb))"
    by (simp add: sizeof_memblock_def)
  then have wrap: "sb + sizeof_memblock + sb_total_size m sb = 0" using top unfolding reaches_top_def by simp
  have "block_ptr m sb k \<in> region m sb" by (rule free_range_block(3) [OF sbok run])
  then have "\<forall>x \<in> set sbs. sb_ok m x \<and> (block_ptr m sb k \<notin> region m x \<or> x + sizeof_memblock + sb_total_size m x = 0)"
    using heap_okD(3,4) [OF ok] sb wrap by blast
  then show ?thesis using free_loop_skip_top heap_okD(1) [OF ok] by (simp add: memheap_free_def)
qed

section \<open>Freeing undoes allocating\<close>

lemma alloc_free_restores:
  assumes ok: "sb_ok m sb" and room: "has_room sz m sb" and sz: "0 < sz"
    and call: "alloc_here m sb (of_nat (first_room sz m sb)) (of_nat (blocks_for m sb sz)) = (p, m')"
  shows "free_here m' sb (block_ptr m' sb (first_room sz m sb)) = m"
proof
  define k where "k = first_room sz m sb"
  define n where "n = blocks_for m sb sz"
  let ?m'' = "free_here m' sb (block_ptr m' sb k)"
  fix a
  have kn: "k + n \<le> nblocks m sb" "free_at (sb_bitmap m sb) k n"
    using first_room [OF room] by (auto simp: room_at_def k_def n_def)
  have n0: "0 < n" using blocks_for_bounds(1) [OF sb_okD(3) [OF ok] sz] by (simp add: n_def)
  have N: "nblocks m sb < 2 ^ 32"
    using unat_block_count [of m sb] unat32 [of "memblock_get_block_count m sb"] by simp
  then have w: "unat (of_nat k :: u32) = k" "unat (of_nat n :: u32) = n"
    using kn by (simp_all add: unat_of_nat)
  have fit: "unat (of_nat k :: u32) + unat (of_nat n :: u32) \<le> nblocks m sb"
    "0 < unat (of_nat n :: u32)"
    "free_at (sb_bitmap m sb) (unat (of_nat k :: u32)) (unat (of_nat n :: u32))"
    using kn n0 w by simp_all
  note al = alloc_here_spec [OF ok fit call [folded k_def n_def], unfolded w]
  have run: "(k, n) \<in> sb_runs m' sb" using al(4) by simp
  note fr = free_here_spec [OF al(3) run]
  note st = al(2) [unfolded sb_step_def] fr(1) [unfolded sb_step_def]
  have met: "metadata m' sb = metadata m sb" "nblocks m' sb = nblocks m sb"
    using sb_step_counts [OF al(2)] by simp_all
  have used: "sb_used ?m'' sb = sb_used m sb" using fr(4) al(5) by simp
  obtain c where c: "\<forall>j < nblocks m sb. sb_bitmap m' sb j = fill (sb_bitmap m sb) k n c j"
    using al(6) by blast
  have bits: "sb_bitmap ?m'' sb j = sb_bitmap m sb j" if "j < nblocks m sb" for j
    using fr(5) that met c kn(2) by (auto simp: fill_def free_at_iff)
  have "?m'' a = m a"
  proof (cases "a \<in> metadata m sb")
    case False
    then show ?thesis using st met by simp
  next
    case True
    show ?thesis
    proof (cases "unat a < unat sb + 20")
      case True
      then show ?thesis
        using st used load32_eq_bytes [of ?m'' "sb + 8" m a]
        by (cases "a \<in> span (sb + 8) 4") (auto simp: sb_used_def)
    next
      case False
      define j where "j = unat a - (unat sb + 20)"
      have j: "j < nblocks m sb" "unat a = unat sb + 20 + j"
        using True False by (auto simp: j_def metadata_def)
      then have "a = sb + sizeof_memblock + of_nat j"
        using unat_bitmap_addr [OF ok j(1)] by (simp add: word_unat_eq_iff)
      then show ?thesis using bits [OF j(1)] by (simp add: sb_bitmap_def bytes_at_def)
    qed
  qed
  then show "free_here m' sb (block_ptr m' sb (first_room sz m sb)) a = m a" by (simp add: k_def)
qed

section \<open>Adding a superblock\<close>

lemma load32_header2 [simp]:
  "load32 (store32 m sb v) (sb + 4) = load32 m (sb + 4)"
  "load32 (store32 m sb v) (sb + 12) = load32 m (sb + 12)"
  "load32 (store32 m (sb + 12) v) (sb + 4) = load32 m (sb + 4)"
  by (simp_all add: load32_def store32_def)

text \<open>The header and the bitmap of a fresh superblock, before the list sees it.\<close>

definition fresh_header :: "mem \<Rightarrow> addr \<Rightarrow> u32 \<Rightarrow> u32 \<Rightarrow> addr \<Rightarrow> mem" where
  "fresh_header m sb sz bs nxt = store32 (store32 (store32 m (sb + 4) (sz - 20)) (sb + 12) bs) sb nxt"

lemma fresh_header_fields:
  "sb_total_size (fresh_header m sb sz bs nxt) sb = sz - 20" "sb_block_size (fresh_header m sb sz bs nxt) sb = bs"
  "sb_next (fresh_header m sb sz bs nxt) sb = nxt"
  by (simp_all add: fresh_header_def sb_total_size_def sb_block_size_def sb_next_def)

lemma fresh_header_outside:
  assumes "unat sb + 20 < 2 ^ 32" "unat a < unat sb \<or> unat sb + 20 \<le> unat a"
  shows "fresh_header m sb sz bs nxt a = m a"
proof -
  have "a \<notin> span (sb + c) 4" if "unat c \<le> 12" for c
  proof -
    have "unat (sb + c) = unat sb + unat c" using that assms(1) by (intro unat_add_small) simp
    then have "a \<in> span (sb + c) 4 \<longleftrightarrow> unat sb + unat c \<le> unat a \<and> unat a < unat sb + unat c + 4"
      using that assms(1) by (subst in_span_nat) simp_all
    then show ?thesis using that assms(2) by linarith
  qed
  from this [of 4] this [of 12] this [of 0] show ?thesis by (simp add: fresh_header_def store32_outside)
qed

definition fresh_bitmap :: "mem \<Rightarrow> addr \<Rightarrow> u32 \<Rightarrow> u32 \<Rightarrow> mem" where
  "fresh_bitmap m sb N R = memset (memset m (sb + sizeof_memblock) (ucast FREE) N) (sb + sizeof_memblock) 1 R"

lemma fresh_bitmap_eq:
  assumes "unat sb + 20 + unat N \<le> 2 ^ 32" "unat sb + 20 < 2 ^ 32" "unat R \<le> unat N"
  shows "fresh_bitmap m sb N R a = (if unat sb + 20 \<le> unat a \<and> unat a < unat sb + 20 + unat R then 1
    else if unat sb + 20 \<le> unat a \<and> unat a < unat sb + 20 + unat N then 0 else m a)"
proof -
  have sb20: "unat (sb + sizeof_memblock) = unat sb + 20"
    using assms(2) by (simp add: sizeof_memblock_def unat_add_small)
  have "a \<in> span (sb + sizeof_memblock) n \<longleftrightarrow> unat sb + 20 \<le> unat a \<and> unat a < unat sb + 20 + unat n"
    if "unat n \<le> unat N" for n
    using that sb20 assms(1) in_span_nat [of "sb + sizeof_memblock" n a] by simp
  from this [of N] this [of R] show ?thesis using assms(3) by (simp add: fresh_bitmap_def memset_eq FREE_def)
qed

lemma memheap_add_block_eq:
  fixes h :: memheap and m :: mem and sb :: addr and sz :: u32
  assumes "bs \<noteq> 0"
  defines "m3 \<equiv> fresh_header m sb sz bs (head h)"
  defines "N \<equiv> memblock_get_block_count m3 sb"
  shows "memheap_add_block h m sb sz bs =
    Inr (h\<lparr>head := sb\<rparr>, store32 (fresh_bitmap m3 sb N (CEILING N bs)) (sb + 8) (CEILING N bs))"
  using assms(1) fresh_header_fields [of m sb sz bs "head h"]
  by (simp add: memheap_add_block_def Let_def fresh_header_def [symmetric] m3_def [symmetric] memblock_get_bitmap_def
      sizeof_memblock_def N_def fresh_bitmap_def FREE_def memblock_get_block_count_def)

text \<open>A fresh superblock is well formed and holds no allocation.\<close>

lemma fresh_superblock:
  fixes m :: mem and nxt :: addr
  assumes sb: "sb \<noteq> 0" and sz: "20 < unat sz" "unat sb + unat sz \<le> 2 ^ 32"
    and bs: "bs \<noteq> 0" "unat sz - 20 + unat bs \<le> 2 ^ 32"
  defines "m3 \<equiv> fresh_header m sb sz bs nxt"
  defines "N \<equiv> memblock_get_block_count m3 sb"
  defines "m' \<equiv> store32 (fresh_bitmap m3 sb N (CEILING N bs)) (sb + 8) (CEILING N bs)"
  shows "sb_ok m' sb" "sb_runs m' sb = {}" "sb_total_size m' sb = sz - 20" "sb_block_size m' sb = bs" "sb_next m' sb = nxt"
    "\<forall>j < nblocks m' sb. sb_bitmap m' sb j = (if j < nreserved m' sb then 1 else 0)"
    "region m' sb = {a. unat sb \<le> unat a \<and> unat a < unat sb + unat sz}"
    "\<forall>a. \<not> (unat sb \<le> unat a \<and> unat a < unat sb + unat sz) \<longrightarrow> m' a = m a"
proof -
  note hdr3 = fresh_header_fields [of m sb sz bs nxt, folded m3_def]
  have tot: "unat (sz - 20) = unat sz - 20" using sz(1) by (simp add: unat_diff word_le_nat_alt)
  have space: "unat sb + 20 + unat (sb_total_size m3 sb) \<le> 2 ^ 32" using sz hdr3 tot by simp
  have low: "unat sb + 20 < 2 ^ 32" using sz by simp
  define R where "R = CEILING N bs"
  have unatN: "unat N = nblocks m3 sb" by (simp add: N_def unat_block_count)
  have B: "0 < unat bs" using bs(1) by (simp add: unat_gt_0)
  have NB: "unat N + unat bs \<le> 2 ^ 32" using nblocks_le [of m3 sb] bs(2) hdr3 tot unatN by simp
  have unatR: "unat R = nreserved m3 sb" using unat_CEILING [OF B NB] unatN hdr3 by (simp add: R_def nreserved_def)
  have RN: "unat R \<le> unat N" using nreserved_le [of m3 sb] B hdr3 unatN unatR by simp
  have fit: "unat sb + 20 + unat N \<le> 2 ^ 32" using space nblocks_le [of m3 sb] unatN by simp
  note m4 = fresh_bitmap_eq [OF fit low RN, of m3]
  have out: "\<forall>a. unat a < unat sb + 20 \<or> unat sb + 20 + nblocks m3 sb \<le> unat a \<longrightarrow> fresh_bitmap m3 sb N R a = m3 a"
    using RN unatN by (simp add: m4)
  note upd = bitmap_update [OF space out, where u = R, folded m'_def [folded R_def]]
  have cnt: "nblocks m' sb = nblocks m3 sb" "nreserved m' sb = nreserved m3 sb"
    using upd(2,3) by (simp_all add: nblocks_def nreserved_def)
  have bits: "sb_bitmap m' sb j = (if j < unat R then 1 else 0)" if j: "j < nblocks m3 sb" for j
  proof -
    have "unat sb + (20 + j) < 2 ^ 32" using j space nblocks_le [of m3 sb] by linarith
    then have "unat (sb + sizeof_memblock + of_nat j) = unat sb + 20 + j"
      using unat_sb_offset [of sb "20 + j"] by (simp add: sizeof_memblock_def add.assoc)
    then show ?thesis
      using upd(5) [OF j] j RN unatN by (simp add: sb_bitmap_def bytes_at_def m4)
  qed
  then show "\<forall>j < nblocks m' sb. sb_bitmap m' sb j = (if j < nreserved m' sb then 1 else 0)" using cnt unatR by simp
  show fields: "sb_total_size m' sb = sz - 20" "sb_block_size m' sb = bs" "sb_next m' sb = nxt" using upd(1-3) hdr3 by simp_all
  show "region m' sb = {a. unat sb \<le> unat a \<and> unat a < unat sb + unat sz}"
    using fields tot sz by (simp add: region_def)
  show "\<forall>a. \<not> (unat sb \<le> unat a \<and> unat a < unat sb + unat sz) \<longrightarrow> m' a = m a"
  proof (intro allI impI)
    fix a :: addr assume a: "\<not> (unat sb \<le> unat a \<and> unat a < unat sb + unat sz)"
    then have "a \<notin> metadata m3 sb" using nblocks_le [of m3 sb] hdr3(1) tot sz by (auto simp: metadata_def)
    then show "m' a = m a" using upd(6) fresh_header_outside [OF low, of a m sz bs nxt] a sz by (auto simp: m3_def)
  qed
  have "used_blocks (sb_bitmap m' sb) (nblocks m3 sb) = card {..<unat R}"
    using bits RN unatN unfolding used_blocks_def by (intro arg_cong [of _ _ card]) (auto split: if_splits)
  then show "sb_ok m' sb"
    using sb bs(1,2) space upd(2-4) hdr3 tot cnt bits RN unatN unatR by (simp add: sb_ok_def)
  have "runs (sb_bitmap m' sb) (nreserved m3 sb) (nblocks m3 sb) = {}"
  proof (rule ccontr)
    assume "\<not> ?thesis"
    then obtain i l c where il: "nreserved m3 sb \<le> i" "is_run (sb_bitmap m' sb) (nblocks m3 sb) c i l"
      by (auto simp: in_runs)
    then have "i < nblocks m3 sb" by (auto simp: is_run_def)
    then show False
      using bits [of i] il(1) unatR is_run_id [OF il(2)] is_run_nonempty(2) [OF il(2)] by simp
  qed
  then show "sb_runs m' sb = {}" by (simp add: sb_runs_def cnt)
qed

lemma memheap_add_block_spec:
  assumes ok: "heap_ok h m sbs" and addr: "address \<noteq> 0"
    and sz: "20 < unat sz" "unat address + unat sz \<le> 2 ^ 32"
    and bs: "bs \<noteq> 0" "unat sz - 20 + unat bs \<le> 2 ^ 32"
    and fresh: "\<forall>sb \<in> set sbs. region m sb \<inter> {a. unat address \<le> unat a \<and> unat a < unat address + unat sz} = {}"
  obtains m' where "memheap_add_block h m address sz bs = Inr (h\<lparr>head := address\<rparr>, m')"
    "heap_ok (h\<lparr>head := address\<rparr>) m' (address # sbs)"
    "heap_live m' (address # sbs) = heap_live m sbs"
    "\<forall>a. \<not> (unat address \<le> unat a \<and> unat a < unat address + unat sz) \<longrightarrow> m' a = m a"
    "sb_total_size m' address = sz - 20" "sb_block_size m' address = bs"
    "\<forall>j < nblocks m' address. sb_bitmap m' address j = (if j < nreserved m' address then 1 else 0)"
    "region m' address = {a. unat address \<le> unat a \<and> unat a < unat address + unat sz}"
proof -
  note res = memheap_add_block_eq [OF bs(1), of h m address sz]
  note new = fresh_superblock [OF addr sz bs, of m "head h"]
  define m' where "m' = store32 (fresh_bitmap (fresh_header m address sz bs (head h)) address
      (memblock_get_block_count (fresh_header m address sz bs (head h)) address)
      (CEILING (memblock_get_block_count (fresh_header m address sz bs (head h)) address) bs)) (address + 8)
      (CEILING (memblock_get_block_count (fresh_header m address sz bs (head h)) address) bs)"
  note res = res [folded m'_def] and new = new [folded m'_def]
  have same: "\<forall>a \<in> region m x. m' a = m a" if "x \<in> set sbs" for x
    using fresh that new(8) by blast
  note other = sb_untouched [OF heap_okD(3) [OF ok] same]
  have notin: "address \<notin> set sbs"
  proof
    assume "address \<in> set sbs"
    then have "address \<in> region m address \<inter> {a. unat address \<le> unat a \<and> unat a < unat address + unat sz}"
      using sz by (simp add: region_def)
    then show False using fresh \<open>address \<in> set sbs\<close> by blast
  qed
  have "chain m' (head h) sbs"
    using heap_okD(1) [OF ok] chain_cong [of sbs m' m] other(1) by blast
  then have heap: "heap_ok (h\<lparr>head := address\<rparr>) m' (address # sbs)"
    using ok new(1,5) notin other(5,7) fresh new(7) addr unfolding heap_ok_def
    by (auto 0 3)
  have live: "heap_live m' (address # sbs) = heap_live m sbs"
    using new(2) other(8) by (auto simp: heap_live_def)
  show thesis using that [OF res heap live new(8,3,4,6,7)] .
qed

end
