(* ===== verification/HeapProps.thy ===== *)
theory HeapProps
  imports Heap
begin

text \<open>
  The promises of the kernel heap: the properties of \<open>memheap_add_block\<close>,
  \<open>memheap_alloc\<close> and \<open>memheap_free\<close>, each with a witness on a small concrete heap
  (one superblock of four 16-byte blocks at address 4096), and the runs of a heap
  together with a ledger of what its clients were given and still hold.
\<close>

section \<open>A concrete heap\<close>

definition demo_head :: memheap where
  "demo_head = \<lparr>head = 4096\<rparr>"

definition demo_mem :: mem where
  "demo_mem = (case memheap_add_block (memheap_init demo_head) (\<lambda>_. 0) 4096 84 16 of
     Inr (h, m) \<Rightarrow> m | Inl _ \<Rightarrow> (\<lambda>_. 0))"

lemma heap_ok_empty: "heap_ok (memheap_init h) m []"
  by (simp add: heap_ok_def memheap_init_def)

lemma demo_fields:
  "sb_total_size demo_mem 4096 = 64" "sb_block_size demo_mem 4096 = 16" "sb_used demo_mem 4096 = 1"
  "map (\<lambda>i. demo_mem (4116 + i)) [0, 1, 2, 3] = [1, 0, 0, 0]"
  by code_simp+

lemma demo_ok: "heap_ok demo_head demo_mem [4096]" "heap_live demo_mem [4096] = {}"
proof -
  have "\<exists>m'. memheap_add_block (memheap_init demo_head) (\<lambda>_. 0) 4096 84 16
      = Inr ((memheap_init demo_head)\<lparr>head := 4096\<rparr>, m')
    \<and> heap_ok ((memheap_init demo_head)\<lparr>head := 4096\<rparr>) m' [4096] \<and> heap_live m' [4096] = {}"
    by (rule memheap_add_block_spec [OF heap_ok_empty [of demo_head "\<lambda>_. 0"], of 4096 84 16])
      (auto simp: demo_head_def heap_live_def)
  then show "heap_ok demo_head demo_mem [4096]" "heap_live demo_mem [4096] = {}"
    by (auto simp: demo_mem_def memheap_init_def demo_head_def)
qed

text \<open>The same heap after an allocation of 20 bytes, which takes blocks 1 and 2.\<close>

definition demo_mem2 :: mem where
  "demo_mem2 = (case memheap_alloc demo_head demo_mem 20 of Inr (p, m) \<Rightarrow> m | Inl _ \<Rightarrow> (\<lambda>_. 0))"

lemma demo_alloc: "memheap_alloc demo_head demo_mem 20 = Inr (4132, demo_mem2)"
proof -
  have "(case memheap_alloc demo_head demo_mem 20 of Inr (p, m) \<Rightarrow> p = 4132 | Inl _ \<Rightarrow> False)"
    by code_simp
  then show ?thesis by (auto simp: demo_mem2_def split: sum.splits prod.splits)
qed

lemma demo_room: "room_at demo_mem 4096 20 1" "first_room 20 demo_mem 4096 = 1"
proof -
  have n: "blocks_for demo_mem 4096 20 = 2" "nblocks demo_mem 4096 = 4"
    by (simp_all add: blocks_for_def nblocks_def demo_fields)
  have bits: "sb_bitmap demo_mem 4096 0 = 1" "sb_bitmap demo_mem 4096 1 = 0" "sb_bitmap demo_mem 4096 2 = 0"
    using demo_fields(4) by (simp_all add: sb_bitmap_def bytes_at_def sizeof_memblock_def)
  show r: "room_at demo_mem 4096 20 1"
    using bits by (auto simp: room_at_def n free_at_def less_Suc_eq numeral_2_eq_2)
  have "\<not> room_at demo_mem 4096 20 0"
    using bits(1) by (auto simp: room_at_def n free_at_def intro!: exI [of _ 0])
  then show "first_room 20 demo_mem 4096 = 1"
    using r unfolding first_room_def by (intro Least_equality) (auto simp: not_less_eq_eq intro: Suc_leI gr0I)
qed

section \<open>Allocation\<close>

text \<open>
  C8: on a well-formed heap a successful allocation of a nonzero size returns the address of a
  fresh run of blocks that is large enough; the set of live allocations grows by exactly that
  run, the memory the run owns is disjoint from every other live allocation and from the heap's
  own headers and bitmaps, only heap bookkeeping bytes change, and the heap stays well formed.
\<close>

theorem alloc_correct:
  assumes "heap_ok h m sbs" "0 < sz" "memheap_alloc h m sz = Inr (p, m')" "p \<noteq> 0"
  shows "\<exists>sb k n. sb \<in> set sbs \<and> p = block_ptr m' sb k \<and>
    unat sz \<le> n * unat (sb_block_size m' sb) \<and>
    (sb, k, n) \<notin> heap_live m sbs \<and> heap_live m' sbs = insert (sb, k, n) (heap_live m sbs) \<and>
    (\<forall>x \<in> heap_live m sbs. payload m' (sb, k, n) \<inter> payload m' x = {}) \<and>
    payload m' (sb, k, n) \<inter> heap_metadata m' sbs = {} \<and>
    (\<forall>a. a \<notin> heap_metadata m sbs \<longrightarrow> m' a = m a) \<and> heap_ok h m' sbs"
proof (rule memheap_alloc_cases [OF assms(1,2)])
  assume "memheap_alloc h m sz = Inr (0, m)"
  then show ?thesis using assms(3,4) by simp
next
  fix sb q m2
  let ?k = "first_room sz m sb" and ?n = "blocks_for m sb sz"
  assume sb: "sb \<in> set sbs" "has_room sz m sb" and "memheap_alloc h m sz = Inr (q, m2)"
    and call: "alloc_here m sb (of_nat ?k) (of_nat ?n) = (q, m2)"
  then have q: "q = p" "m2 = m'" using assms(3) by simp_all
  note al = alloc_here_live [OF assms(1,2) sb call, unfolded q]
  have new: "(sb, ?k, ?n) \<in> heap_live m' sbs" using al(5) by simp
  have "unat sz \<le> ?n * unat (sb_block_size m' sb)"
    using blocks_for_bounds(2) [OF sb_okD(3) [OF heap_okD(3) [OF assms(1) sb(1)]] assms(2)] al(8) by simp
  moreover have "\<forall>x \<in> heap_live m sbs. payload m' (sb, ?k, ?n) \<inter> payload m' x = {}"
    using live_payloads(1) [OF al(3) new] al(4,5) by blast
  moreover have "payload m' (sb, ?k, ?n) \<inter> heap_metadata m' sbs = {}"
    by (rule live_payloads(2) [OF al(3) new])
  ultimately show ?thesis using al(1,3,4,5,7,9) sb(1) by metis
qed

theorem alloc_correct_witness:
  "\<exists>sb k n. sb \<in> set [4096] \<and> 4132 = block_ptr demo_mem2 sb k \<and>
    unat (20 :: u32) \<le> n * unat (sb_block_size demo_mem2 sb) \<and>
    (sb, k, n) \<notin> heap_live demo_mem [4096] \<and>
    heap_live demo_mem2 [4096] = insert (sb, k, n) (heap_live demo_mem [4096]) \<and>
    (\<forall>x \<in> heap_live demo_mem [4096]. payload demo_mem2 (sb, k, n) \<inter> payload demo_mem2 x = {}) \<and>
    payload demo_mem2 (sb, k, n) \<inter> heap_metadata demo_mem2 [4096] = {} \<and>
    (\<forall>a. a \<notin> heap_metadata demo_mem [4096] \<longrightarrow> demo_mem2 a = demo_mem a) \<and>
    heap_ok demo_head demo_mem2 [4096]"
  using alloc_correct [OF demo_ok(1) _ demo_alloc] by simp

text \<open>
  C17: allocation is first fit and total. On a well-formed heap every nonzero request returns;
  it returns null, leaving memory alone, exactly when no superblock has enough contiguous free
  blocks, and otherwise the lowest fitting offset of the first superblock in list order that
  has room.
\<close>

theorem alloc_first_fit:
  assumes "heap_ok h m sbs" "0 < sz"
  shows "\<exists>p m'. memheap_alloc h m sz = Inr (p, m') \<and>
    (p = 0 \<longleftrightarrow> (\<forall>sb \<in> set sbs. \<not> has_room sz m sb)) \<and> (p = 0 \<longrightarrow> m' = m) \<and>
    (\<forall>sb. find (has_room sz m) sbs = Some sb \<longrightarrow> p = block_ptr m sb (first_room sz m sb))"
proof (cases "find (has_room sz m) sbs")
  case None
  then have "memheap_alloc h m sz = Inr (0, m)" using memheap_alloc_first_fit [OF assms] by simp
  moreover have "\<forall>sb \<in> set sbs. \<not> has_room sz m sb" using None by (simp add: find_None_iff)
  ultimately show ?thesis using None by auto
next
  case (Some sb)
  then have sb: "sb \<in> set sbs" "has_room sz m sb" by (auto simp: find_Some_iff)
  obtain p m' where call:
    "alloc_here m sb (of_nat (first_room sz m sb)) (of_nat (blocks_for m sb sz)) = (p, m')"
    by (cases "alloc_here m sb (of_nat (first_room sz m sb)) (of_nat (blocks_for m sb sz))")
  show ?thesis
    using memheap_alloc_first_fit [OF assms] Some sb call alloc_here_live(1,2) [OF assms sb call] by auto
qed

theorem alloc_first_fit_witness:
  "\<exists>p m'. memheap_alloc demo_head demo_mem 20 = Inr (p, m') \<and>
    (p = 0 \<longleftrightarrow> (\<forall>sb \<in> set [4096]. \<not> has_room 20 demo_mem sb)) \<and> (p = 0 \<longrightarrow> m' = demo_mem) \<and>
    (\<forall>sb. find (has_room 20 demo_mem) [4096] = Some sb \<longrightarrow>
      p = block_ptr demo_mem sb (first_room 20 demo_mem sb))"
  using alloc_first_fit [OF demo_ok(1), of 20] by simp

section \<open>Deallocation\<close>

text \<open>
  C9: freeing the pointer of a live allocation returns. It removes exactly that allocation from the
  live set, except in a superblock that ends at the very top of the address space, where
  \<open>sblock + sizeof + total_size\<close> is computed as zero and nothing at all happens; it keeps the
  heap well formed and changes only bookkeeping bytes.
\<close>

theorem free_correct:
  assumes "heap_ok h m sbs" "(sb, k, n) \<in> heap_live m sbs"
  shows "\<exists>m'. memheap_free h m (block_ptr m sb k) = Inr m' \<and> heap_ok h m' sbs \<and>
    (if reaches_top m sb then m' = m else heap_live m' sbs = heap_live m sbs - {(sb, k, n)}) \<and>
    (\<forall>a. a \<notin> heap_metadata m sbs \<longrightarrow> m' a = m a)"
proof (cases "reaches_top m sb")
  case True
  then show ?thesis using memheap_free_top [OF assms] assms(1) by simp
next
  case False
  then have "unat sb + 20 + unat (sb_total_size m sb) < 2 ^ 32"
    using assms heap_okD(3) not_reaches_top by (auto simp: heap_live_def)
  from memheap_free_live [OF assms this] False show ?thesis by simp
qed

lemma free_keeps:
  assumes "heap_ok h m sbs" "(sb, k, n) \<in> heap_live m sbs" "memheap_free h m (block_ptr m sb k) = Inr m'" "a \<notin> heap_metadata m sbs"
  shows "m' a = m a"
proof (cases "reaches_top m sb")
  case True
  then show ?thesis using memheap_free_top [OF assms(1,2)] assms(3) by simp
next
  case False
  then have "unat sb + 20 + unat (sb_total_size m sb) < 2 ^ 32"
    using assms(1,2) heap_okD(3) not_reaches_top by (auto simp: heap_live_def)
  from memheap_free_live(1,5) [OF assms(1,2) this] assms(3,4) show ?thesis by simp
qed

lemma demo_live: "heap_live demo_mem2 [4096] = {(4096, 1, 2)}" "heap_ok demo_head demo_mem2 [4096]"
proof -
  have room: "has_room 20 demo_mem 4096" using demo_room(1) by (auto simp: has_room_def)
  have n: "blocks_for demo_mem 4096 20 = 2"
    by (simp add: blocks_for_def demo_fields)
  obtain p m' where call:
    "alloc_here demo_mem 4096 (of_nat (first_room 20 demo_mem 4096)) (of_nat (blocks_for demo_mem 4096 20)) = (p, m')"
    by (cases "alloc_here demo_mem 4096 (of_nat (first_room 20 demo_mem 4096)) (of_nat (blocks_for demo_mem 4096 20))")
  have "m' = demo_mem2"
    using memheap_alloc_first_fit [OF demo_ok(1), of 20] call room demo_alloc by simp
  then show "heap_live demo_mem2 [4096] = {(4096, 1, 2)}" "heap_ok demo_head demo_mem2 [4096]"
    using alloc_here_live(3,5) [OF demo_ok(1) _ _ room call] n demo_room(2) demo_ok(2) by simp_all
qed

lemma demo2_fields: "sb_total_size demo_mem2 4096 = 64" "sb_block_size demo_mem2 4096 = 16"
  by code_simp+

theorem free_correct_witness:
  "\<exists>m'. memheap_free demo_head demo_mem2 (block_ptr demo_mem2 4096 1) = Inr m' \<and>
    heap_ok demo_head m' [4096] \<and>
    heap_live m' [4096] = heap_live demo_mem2 [4096] - {(4096, 1, 2)} \<and>
    (\<forall>a. a \<notin> heap_metadata demo_mem2 [4096] \<longrightarrow> m' a = demo_mem2 a)"
  using free_correct [OF demo_live(2), of 4096 1 2] by (simp add: demo_live(1) demo2_fields reaches_top_def)

text \<open>
  C18: freeing what an allocation of a nonzero size has just returned restores every byte of
  memory, so that the two calls together are the identity on the heap; only in a superblock that
  ends at the top of the address space the call of \<open>memheap_free\<close> leaves the memory as the
  allocation made it.
\<close>

theorem alloc_free_identity:
  assumes "heap_ok h m sbs" "0 < sz" "memheap_alloc h m sz = Inr (p, m')" "p \<noteq> 0"
  shows "\<exists>sb \<in> set sbs. p \<in> region m sb \<and> memheap_free h m' p = Inr (if reaches_top m sb then m' else m)"
proof (rule memheap_alloc_cases [OF assms(1,2)])
  assume "memheap_alloc h m sz = Inr (0, m)"
  then show ?thesis using assms(3,4) by simp
next
  fix sb q m2
  let ?k = "first_room sz m sb" and ?n = "blocks_for m sb sz"
  assume sb: "sb \<in> set sbs" "has_room sz m sb" and "memheap_alloc h m sz = Inr (q, m2)"
    and call0: "alloc_here m sb (of_nat ?k) (of_nat ?n) = (q, m2)"
  then have call: "alloc_here m sb (of_nat ?k) (of_nat ?n) = (p, m')" using assms(3) by simp
  note al = alloc_here_live [OF assms(1,2) sb call]
  have live: "(sb, ?k, ?n) \<in> heap_live m' sbs" using al(5) by simp
  note ok' = heap_okD(3) [OF al(3) sb(1)]
  have top: "reaches_top m' sb = reaches_top m sb" and reg: "region m' sb = region m sb"
    by (simp_all add: reaches_top_def region_def al(11))
  have "p \<in> region m sb"
    using free_range_block(3) [OF ok', of ?k ?n] live al(1,9) by (simp add: reg heap_live_def)
  moreover have "memheap_free h m' p = Inr (if reaches_top m sb then m' else m)"
  proof (cases "reaches_top m sb")
    case True
    then show ?thesis using memheap_free_top [OF al(3) live] al(1,9) top by simp
  next
    case False
    then have "memheap_free h m' (block_ptr m' sb ?k) = Inr (free_here m' sb (block_ptr m' sb ?k))"
      using memheap_free_live(1) [OF al(3) live] not_reaches_top [OF ok'] top by simp
    then show ?thesis
      using False al(1,9) alloc_free_restores [OF heap_okD(3) [OF assms(1) sb(1)] sb(2) assms(2) call] by simp
  qed
  ultimately show ?thesis using sb(1) by blast
qed

theorem alloc_free_identity_witness: "memheap_free demo_head demo_mem2 4132 = Inr demo_mem"
  using alloc_free_identity [OF demo_ok(1) _ demo_alloc] by (simp add: demo_fields reaches_top_def)

section \<open>Adding memory\<close>

text \<open>
  Adding a fresh stretch of memory of more than a header's size puts a well-formed, empty
  superblock at the front of the list: the live allocations are unchanged, nothing outside the
  stretch is written, and as many leading blocks are reserved as the bitmap occupies.
\<close>

lemma add_block_correct:
  assumes "heap_ok h m sbs" "address \<noteq> 0" "20 < unat sz" "unat address + unat sz \<le> 2 ^ 32"
    and "bs \<noteq> 0" "unat sz - 20 + unat bs \<le> 2 ^ 32"
    and "\<forall>sb \<in> set sbs. region m sb \<inter> {a. unat address \<le> unat a \<and> unat a < unat address + unat sz} = {}"
  shows "\<exists>m'. memheap_add_block h m address sz bs = Inr (h\<lparr>head := address\<rparr>, m') \<and>
    heap_ok (h\<lparr>head := address\<rparr>) m' (address # sbs) \<and>
    heap_live m' (address # sbs) = heap_live m sbs \<and>
    region m' address = {a. unat address \<le> unat a \<and> unat a < unat address + unat sz} \<and>
    (\<forall>j < nblocks m' address. sb_bitmap m' address j = (if j < nreserved m' address then 1 else 0)) \<and>
    (\<forall>a. a \<notin> region m' address \<longrightarrow> m' a = m a)"
proof (rule memheap_add_block_spec [OF assms])
qed blast

section \<open>The heap and its clients\<close>

text \<open>
  The states that a heap and its clients can reach. Beside the heap the relation carries a ledger
  of the client's side: the pointers that \<open>memheap_alloc\<close> has returned, with the sizes asked for,
  until they are passed to \<open>memheap_free\<close>. It knows nothing of superblocks and identifiers. The
  heap starts empty, memory is added to it, allocations of nonzero sizes are made and freed, and
  the clients store into the objects they hold and anywhere outside the heap.
\<close>

definition object_bytes :: "addr \<times> u32 \<Rightarrow> addr set" where
  "object_bytes = (\<lambda>(p, sz). {a. unat p \<le> unat a \<and> unat a < unat p + unat sz})"

inductive heap_run :: "memheap \<Rightarrow> mem \<Rightarrow> addr list \<Rightarrow> (addr \<times> u32) list \<Rightarrow> bool" where
  run_init: "heap_run (memheap_init h) m [] []"
| run_add: "heap_run h m sbs held \<Longrightarrow> address \<noteq> 0 \<Longrightarrow> 20 < unat sz \<Longrightarrow> unat address + unat sz \<le> 2 ^ 32 \<Longrightarrow>
    bs \<noteq> 0 \<Longrightarrow> unat sz - 20 + unat bs \<le> 2 ^ 32 \<Longrightarrow>
    \<forall>sb \<in> set sbs. region m sb \<inter> {a. unat address \<le> unat a \<and> unat a < unat address + unat sz} = {} \<Longrightarrow>
    memheap_add_block h m address sz bs = Inr (h', m') \<Longrightarrow> heap_run h' m' (address # sbs) held"
| run_alloc: "heap_run h m sbs held \<Longrightarrow> 0 < sz \<Longrightarrow> memheap_alloc h m sz = Inr (p, m') \<Longrightarrow>
    heap_run h m' sbs (if p = 0 then held else (p, sz) # held)"
| run_free: "heap_run h m sbs (xs @ (p, sz) # ys) \<Longrightarrow> memheap_free h m p = Inr m' \<Longrightarrow> heap_run h m' sbs (xs @ ys)"
| run_store: "heap_run h m sbs held \<Longrightarrow> x \<in> set held \<Longrightarrow> a \<in> object_bytes x \<Longrightarrow> heap_run h (m(a := v)) sbs held"
| run_store_outside: "heap_run h m sbs held \<Longrightarrow> \<forall>sb \<in> set sbs. a \<notin> region m sb \<Longrightarrow> heap_run h (m(a := v)) sbs held"

inductive_cases heap_run_emptyE: "heap_run h m [] held"

text \<open>Every object of the ledger has a live allocation of its own that is large enough.\<close>

definition serves :: "mem \<Rightarrow> addr \<times> u32 \<Rightarrow> addr \<times> nat \<times> nat \<Rightarrow> bool" where
  "serves m = (\<lambda>(p, sz) (sb, k, n). p = block_ptr m sb k \<and> unat sz \<le> n * unat (sb_block_size m sb))"

definition ledger_ok :: "memheap \<Rightarrow> mem \<Rightarrow> addr list \<Rightarrow> (addr \<times> u32) list \<Rightarrow> bool" where
  "ledger_ok h m sbs held \<longleftrightarrow> heap_ok h m sbs \<and>
     (\<exists>as. list_all2 (serves m) held as \<and> distinct as \<and> set as \<subseteq> heap_live m sbs)"

lemma serves_bytes: "serves m x a \<Longrightarrow> object_bytes x \<subseteq> payload m a"
  by (auto simp: serves_def object_bytes_def payload_def)

lemma serves_kept:
  assumes "list_all2 (serves m) held as" "set as \<subseteq> heap_live m sbs"
    and "\<And>sb. sb \<in> set sbs \<Longrightarrow> sb_block_size m' sb = sb_block_size m sb"
  shows "list_all2 (serves m') held as"
  using assms(1)
proof (rule list.rel_mono_strong)
  fix x a assume "x \<in> set held" "a \<in> set as" "serves m x a"
  then show "serves m' x a" using assms(2,3) by (fastforce simp: serves_def block_ptr_def heap_live_def)
qed

lemma ledger_kept:
  assumes ok: "ledger_ok h m sbs held" and same: "\<forall>a \<in> heap_metadata m sbs. m' a = m a"
  shows "ledger_ok h m' sbs held"
proof -
  obtain as where as: "list_all2 (serves m) held as" "distinct as" "set as \<subseteq> heap_live m sbs" and hok: "heap_ok h m sbs"
    using ok by (auto simp: ledger_ok_def)
  note kept = heap_kept(1,2) [OF hok same]
  have "sb_block_size m' sb = sb_block_size m sb" if "sb \<in> set sbs" for sb
    by (rule sb_kept(3) [OF heap_okD(3) [OF hok that]]) (use same that in \<open>auto simp: heap_metadata_def\<close>)
  from serves_kept [OF as(1,3) this] show ?thesis using as kept unfolding ledger_ok_def by auto
qed

lemma ledger_bytes:
  assumes "ledger_ok h m sbs held" "x \<in> set held"
  obtains a where "a \<in> heap_live m sbs" "serves m x a" "object_bytes x \<subseteq> payload m a" "object_bytes x \<inter> heap_metadata m sbs = {}"
proof -
  obtain as where as: "list_all2 (serves m) held as" "set as \<subseteq> heap_live m sbs" and ok: "heap_ok h m sbs"
    using assms(1) by (auto simp: ledger_ok_def)
  obtain a where a: "a \<in> set as" "serves m x a" using as(1) assms(2) by (metis in_set_conv_nth list_all2_conv_all_nth)
  then show thesis using that [of a] serves_bytes [OF a(2)] live_payloads(2) [OF ok, of a] as(2) by blast
qed

lemma ledger_alloc:
  assumes ok: "ledger_ok h m sbs held" and sz: "0 < sz" and call: "memheap_alloc h m sz = Inr (p, m')"
  shows "ledger_ok h m' sbs (if p = 0 then held else (p, sz) # held)"
proof -
  obtain as where as: "list_all2 (serves m) held as" "distinct as" "set as \<subseteq> heap_live m sbs" and hok: "heap_ok h m sbs"
    using ok by (auto simp: ledger_ok_def)
  show ?thesis
  proof (rule memheap_alloc_cases [OF hok sz])
    assume "memheap_alloc h m sz = Inr (0, m)"
    then show ?thesis using ok call by simp
  next
    fix sb q m2
    let ?x = "(sb, first_room sz m sb, blocks_for m sb sz)"
    assume sb: "sb \<in> set sbs" "has_room sz m sb" and "memheap_alloc h m sz = Inr (q, m2)"
      and "alloc_here m sb (of_nat (first_room sz m sb)) (of_nat (blocks_for m sb sz)) = (q, m2)"
    then have "alloc_here m sb (of_nat (first_room sz m sb)) (of_nat (blocks_for m sb sz)) = (p, m')" using call by simp
    note al = alloc_here_live [OF hok sz sb this]
    have "serves m' (p, sz) ?x"
      using blocks_for_bounds(2) [OF sb_okD(3) [OF heap_okD(3) [OF hok sb(1)]] sz] al(1,8,9) by (simp add: serves_def)
    moreover have "list_all2 (serves m') held as" by (rule serves_kept [OF as(1,3)]) (use al(12) in blast)
    ultimately have "list_all2 (serves m') ((p, sz) # held) (?x # as)" "distinct (?x # as)" "set (?x # as) \<subseteq> heap_live m' sbs"
      using as al(4,5) by auto
    with al(3) have "ledger_ok h m' sbs ((p, sz) # held)" unfolding ledger_ok_def by blast
    then show ?thesis using al(2) by simp
  qed
qed

lemma ledger_free:
  assumes ok: "ledger_ok h m sbs (xs @ (p, sz) # ys)" and call: "memheap_free h m p = Inr m'"
  shows "ledger_ok h m' sbs (xs @ ys)"
proof -
  obtain as a bs where as: "list_all2 (serves m) xs as" "serves m (p, sz) a" "list_all2 (serves m) ys bs"
    and d: "distinct (as @ a # bs)" "set (as @ a # bs) \<subseteq> heap_live m sbs" and hok: "heap_ok h m sbs"
    using ok by (auto simp: ledger_ok_def list_all2_append1 list_all2_Cons1)
  obtain sb k n where a: "a = (sb, k, n)" by (cases a)
  have live: "(sb, k, n) \<in> heap_live m sbs" and p: "p = block_ptr m sb k" using d(2) as(2) by (auto simp: a serves_def)
  have rest: "list_all2 (serves m) (xs @ ys) (as @ bs)" "distinct (as @ bs)" "set (as @ bs) \<subseteq> heap_live m sbs - {a}"
    using as d by (auto simp: list_all2_appendI)
  show ?thesis
  proof (cases "reaches_top m sb")
    case True
    then have "m' = m" using memheap_free_top [OF hok live] call p by simp
    then show ?thesis using rest hok unfolding ledger_ok_def by blast
  next
    case False
    then have "unat sb + 20 + unat (sb_total_size m sb) < 2 ^ 32"
      using live heap_okD(3) [OF hok] not_reaches_top by (auto simp: heap_live_def)
    note fr = memheap_free_live [OF hok live this]
    have m': "m' = free_here m sb (block_ptr m sb k)" using fr(1) call p by simp
    have "list_all2 (serves m') (xs @ ys) (as @ bs)"
      by (rule serves_kept [OF rest(1)]) (use rest(3) fr(6) in \<open>auto simp: m'\<close>)
    then show ?thesis using rest fr(2,3) unfolding ledger_ok_def m' a by blast
  qed
qed

lemma ledger_add:
  assumes ok: "ledger_ok h m sbs held" and new: "address \<noteq> 0" "20 < unat sz" "unat address + unat sz \<le> 2 ^ 32"
    "bs \<noteq> 0" "unat sz - 20 + unat bs \<le> 2 ^ 32"
    and fresh: "\<forall>sb \<in> set sbs. region m sb \<inter> {a. unat address \<le> unat a \<and> unat a < unat address + unat sz} = {}"
    and call: "memheap_add_block h m address sz bs = Inr (h', m')"
  shows "ledger_ok h' m' (address # sbs) held"
proof -
  obtain as where as: "list_all2 (serves m) held as" "distinct as" "set as \<subseteq> heap_live m sbs" and hok: "heap_ok h m sbs"
    using ok by (auto simp: ledger_ok_def)
  obtain m1 where m1: "memheap_add_block h m address sz bs = Inr (h\<lparr>head := address\<rparr>, m1)"
    "heap_ok (h\<lparr>head := address\<rparr>) m1 (address # sbs)" "heap_live m1 (address # sbs) = heap_live m sbs"
    "\<forall>a. \<not> (unat address \<le> unat a \<and> unat a < unat address + unat sz) \<longrightarrow> m1 a = m a"
    by (rule memheap_add_block_spec [OF hok new fresh])
  have "sb_block_size m1 sb = sb_block_size m sb" if "sb \<in> set sbs" for sb
    by (rule sb_untouched(3) [OF heap_okD(3) [OF hok that]]) (use m1(4) fresh that in blast)
  from serves_kept [OF as(1,3) this] show ?thesis using as m1 call unfolding ledger_ok_def by auto
qed

lemma heap_run_ok: "heap_run h m sbs held \<Longrightarrow> ledger_ok h m sbs held"
proof (induction rule: heap_run.induct)
  case (run_init h m)
  then show ?case using heap_ok_empty by (simp add: ledger_ok_def)
next
  case (run_add h m sbs held address sz bs h' m')
  show ?case by (rule ledger_add [OF run_add.IH run_add.hyps(2-8)])
next
  case (run_alloc h m sbs held sz p m')
  show ?case by (rule ledger_alloc [OF run_alloc.IH run_alloc.hyps(2,3)])
next
  case (run_free h m sbs xs p sz ys m')
  show ?case by (rule ledger_free [OF run_free.IH run_free.hyps(2)])
next
  case (run_store h m sbs held x a v)
  have "a \<notin> heap_metadata m sbs"
    by (rule ledger_bytes [OF run_store.IH run_store.hyps(2)]) (use run_store.hyps(3) in blast)
  then show ?case by (intro ledger_kept [OF run_store.IH]) auto
next
  case (run_store_outside h m sbs held a v)
  then have "a \<notin> heap_metadata m sbs" using metadata_region by (auto simp: heap_metadata_def)
  then show ?case by (intro ledger_kept [OF run_store_outside.IH]) auto
qed

text \<open>What the next call does to a byte of an object that is held, and where the object lies.\<close>

lemma held_kept:
  assumes "ledger_ok h m sbs held" "x \<in> set held" "a \<in> object_bytes x"
  shows "0 < sz \<Longrightarrow> memheap_alloc h m sz = Inr (p, m') \<Longrightarrow> m' a = m a"
    "y \<in> set held \<Longrightarrow> memheap_free h m (fst y) = Inr m' \<Longrightarrow> m' a = m a"
proof -
  have ok: "heap_ok h m sbs" using assms(1) by (simp add: ledger_ok_def)
  have a: "a \<notin> heap_metadata m sbs" by (rule ledger_bytes [OF assms(1,2)]) (use assms(3) in blast)
  show "m' a = m a" if "0 < sz" "memheap_alloc h m sz = Inr (p, m')"
  proof (rule memheap_alloc_cases [OF ok that(1)])
    show "m' a = m a" if "memheap_alloc h m sz = Inr (0, m)" using that \<open>memheap_alloc h m sz = Inr (p, m')\<close> by simp
    show "m' a = m a" if "sb \<in> set sbs" "has_room sz m sb" "memheap_alloc h m sz = Inr (q, m2)"
      "alloc_here m sb (of_nat (first_room sz m sb)) (of_nat (blocks_for m sb sz)) = (q, m2)" for sb q m2
      using alloc_here_live(7) [OF ok \<open>0 < sz\<close> that(1,2,4) a] that(3) \<open>memheap_alloc h m sz = Inr (p, m')\<close> by simp
  qed
  show "m' a = m a" if y: "y \<in> set held" and call: "memheap_free h m (fst y) = Inr m'"
  proof -
    obtain z where z: "z \<in> heap_live m sbs" "serves m y z" by (rule ledger_bytes [OF assms(1) y])
    obtain sb k n where "z = (sb, k, n)" by (cases z)
    with z have "(sb, k, n) \<in> heap_live m sbs" "serves m y (sb, k, n)" by simp_all
    then show ?thesis using free_keeps [OF ok, of sb k n m' a] call a by (auto simp: serves_def split: prod.splits)
  qed
qed

lemma held_inside:
  assumes "ledger_ok h m sbs held" "x \<in> set held"
  shows "fst x \<noteq> 0" "unat (fst x) + unat (snd x) \<le> 2 ^ 32"
proof -
  have ok: "heap_ok h m sbs" using assms(1) by (simp add: ledger_ok_def)
  obtain z where z: "z \<in> heap_live m sbs" "serves m x z" by (rule ledger_bytes [OF assms])
  obtain sb k n where "z = (sb, k, n)" by (cases z)
  with z have a: "(sb, k, n) \<in> heap_live m sbs" "serves m x (sb, k, n)" by simp_all
  have sb: "sb \<in> set sbs" "(k, n) \<in> sb_runs m sb" using a(1) by (auto simp: heap_live_def)
  note sbok = heap_okD(3) [OF ok sb(1)]
  have p: "fst x = block_ptr m sb k" "unat (snd x) \<le> n * unat (sb_block_size m sb)"
    using a(2) by (auto simp: serves_def split: prod.splits)
  have k: "k < nblocks m sb" "k + n \<le> nblocks m sb" using sb(2) by (auto simp: sb_runs_def in_runs is_run_def)
  show "fst x \<noteq> 0" unfolding p(1) using block_ptr_unat [OF sbok k(1)] by fastforce
  have "(k + n) * unat (sb_block_size m sb) \<le> unat (sb_total_size m sb)"
    using mult_le_mono1 [OF k(2)] nblocks_mult_le by (rule le_trans)
  then show "unat (fst x) + unat (snd x) \<le> 2 ^ 32"
    unfolding p(1) using block_ptr_unat [OF sbok k(1)] sb_okD(4) [OF sbok] p(2) by (simp add: algebra_simps)
qed

lemma held_disjoint:
  assumes ok: "ledger_ok h m sbs held" and ij: "i < length held" "j < length held" "i \<noteq> j"
  shows "object_bytes (held ! i) \<inter> object_bytes (held ! j) = {}"
proof -
  obtain as where as: "list_all2 (serves m) held as" "distinct as" "set as \<subseteq> heap_live m sbs" and hok: "heap_ok h m sbs"
    using ok by (auto simp: ledger_ok_def)
  have n: "i < length as" "j < length as" "serves m (held ! i) (as ! i)" "serves m (held ! j) (as ! j)"
    using as(1) ij by (auto simp: list_all2_conv_all_nth)
  then have "as ! i \<noteq> as ! j" "as ! i \<in> heap_live m sbs" "as ! j \<in> heap_live m sbs"
    using as(2,3) ij(3) by (auto simp: nth_eq_iff_index_eq)
  then have "payload m (as ! i) \<inter> payload m (as ! j) = {}" using live_payloads(1) [OF hok] by blast
  then show ?thesis using serves_bytes [OF n(3)] serves_bytes [OF n(4)] by blast
qed

text \<open>
  C7: whatever nonzero sizes the clients of a heap have asked for, whatever they have freed, and
  however they store into what they hold, the objects they hold never overlap: each lies inside the address space, away from
  the headers and bitmaps of the heap, and shares no byte with any other. The heap is well formed,
  and neither the next allocation nor the next deallocation changes a byte of a held object.
\<close>

theorem reachable_allocations_disjoint:
  assumes "heap_run h m sbs held"
  shows "heap_ok h m sbs \<and>
    (\<forall>i < length held. \<forall>j < length held. i \<noteq> j \<longrightarrow> object_bytes (held ! i) \<inter> object_bytes (held ! j) = {}) \<and>
    (\<forall>x \<in> set held. fst x \<noteq> 0 \<and> unat (fst x) + unat (snd x) \<le> 2 ^ 32 \<and> object_bytes x \<inter> heap_metadata m sbs = {} \<and>
      (\<forall>a \<in> object_bytes x. (\<forall>sz p m'. 0 < sz \<longrightarrow> memheap_alloc h m sz = Inr (p, m') \<longrightarrow> m' a = m a) \<and>
        (\<forall>y \<in> set held. \<forall>m'. memheap_free h m (fst y) = Inr m' \<longrightarrow> m' a = m a)))"
proof -
  note ok = heap_run_ok [OF assms]
  have "heap_ok h m sbs" using ok by (simp add: ledger_ok_def)
  moreover have "\<forall>i < length held. \<forall>j < length held. i \<noteq> j \<longrightarrow> object_bytes (held ! i) \<inter> object_bytes (held ! j) = {}"
    by (intro allI impI) (rule held_disjoint [OF ok])
  moreover have "\<forall>x \<in> set held. object_bytes x \<inter> heap_metadata m sbs = {}"
    by (intro ballI) (rule ledger_bytes [OF ok])
  moreover have "\<forall>x \<in> set held. fst x \<noteq> 0 \<and> unat (fst x) + unat (snd x) \<le> 2 ^ 32"
    using held_inside [OF ok] by blast
  moreover have "\<forall>x \<in> set held. \<forall>a \<in> object_bytes x.
      (\<forall>sz p m'. 0 < sz \<longrightarrow> memheap_alloc h m sz = Inr (p, m') \<longrightarrow> m' a = m a) \<and>
      (\<forall>y \<in> set held. \<forall>m'. memheap_free h m (fst y) = Inr m' \<longrightarrow> m' a = m a)"
  proof (intro ballI conjI allI impI)
    fix x a assume x: "x \<in> set held" "a \<in> object_bytes x"
    show "m' a = m a" if "0 < sz" "memheap_alloc h m sz = Inr (p, m')" for sz p m' by (rule held_kept(1) [OF ok x that])
    show "m' a = m a" if "y \<in> set held" "memheap_free h m (fst y) = Inr m'" for y m' by (rule held_kept(2) [OF ok x that])
  qed
  ultimately show ?thesis by blast
qed

text \<open>An object of 20 bytes on the small heap.\<close>

lemma demo_run: "heap_run demo_head demo_mem2 [4096] [(4132, 20)]"
proof -
  have "heap_run demo_head demo_mem [4096] []"
  proof (rule run_add [OF run_init [of demo_head "\<lambda>_. 0"], of 4096 84 16])
    have "(case memheap_add_block (memheap_init demo_head) (\<lambda>_. 0) 4096 84 16 of
        Inr (h, m) \<Rightarrow> head h = 4096 | Inl _ \<Rightarrow> False)" by code_simp
    then show "memheap_add_block (memheap_init demo_head) (\<lambda>_. 0) 4096 84 16 = Inr (demo_head, demo_mem)"
      by (auto simp: demo_mem_def demo_head_def split: sum.splits prod.splits)
  qed simp_all
  from run_alloc [OF this _ demo_alloc] show ?thesis by simp
qed

text \<open>The rest of that heap, one block, as a second object.\<close>

definition demo_mem3 :: mem where
  "demo_mem3 = (case memheap_alloc demo_head demo_mem2 9 of Inr (p, m) \<Rightarrow> m | Inl _ \<Rightarrow> (\<lambda>_. 0))"

lemma demo_run2: "heap_run demo_head demo_mem3 [4096] [(4164, 9), (4132, 20)]"
proof -
  have "(case memheap_alloc demo_head demo_mem2 9 of Inr (p, m) \<Rightarrow> p = 4164 | Inl _ \<Rightarrow> False)" by code_simp
  then have "memheap_alloc demo_head demo_mem2 9 = Inr (4164, demo_mem3)"
    by (auto simp: demo_mem3_def split: sum.splits prod.splits)
  from run_alloc [OF demo_run _ this] show ?thesis by simp
qed

theorem reachable_allocations_disjoint_witness:
  "heap_ok demo_head demo_mem3 [4096] \<and> object_bytes (4164, 9) \<inter> object_bytes (4132, 20) = {} \<and>
    object_bytes (4132, 20) \<inter> heap_metadata demo_mem3 [4096] = {}"
  proof -
  note all = reachable_allocations_disjoint [OF demo_run2]
  from all have "object_bytes ([(4164, 9), (4132, 20)] ! 0) \<inter> object_bytes ([(4164, 9), (4132, 20)] ! 1) = {}"
    by (elim conjE) (erule allE [of _ 0], fastforce)
  then show ?thesis using all by simp
qed

section \<open>Requests outside the contract\<close>

text \<open>
  A request for zero bytes gets the address of a free block without claiming it. Freeing that
  address takes the free blocks that follow for the allocation and subtracts their number from
  \<open>used\<close>, which wraps below zero: afterwards the heap is no longer well formed.
\<close>

lemma zero_size_free_underflows:
  "(case memheap_alloc demo_head demo_mem 0 of Inr (p, m) \<Rightarrow>
      p = 4132 \<and> (case memheap_free demo_head m p of Inr m' \<Rightarrow> sb_used m' 4096 = - 2 | Inl _ \<Rightarrow> False)
    | Inl _ \<Rightarrow> False)"
  by code_simp

text \<open>
  A superblock that ends at the top of the address space never gets a block back: the range
  test compares with an end address that has wrapped to zero.
\<close>

lemma free_at_top_is_noop:
  assumes "sb + sizeof_memblock + sb_total_size m sb = 0" "sb \<noteq> 0" "sb_next m sb = 0"
  shows "memheap_free \<lparr>head = sb\<rparr> m ptr = Inr m"
  using assms by (simp add: memheap_free_def memheap_free_loop.simps)

end
