(* ===== verification/PageAlloc.thy ===== *)
theory PageAlloc
  imports LibcString
begin

text \<open>
  The allocator of 4 MiB pages, src/src/kernel/mm/alloc.c: a cursor into virtual memory, the
  page directory loaded at boot (x86/boot.asm) and a bitmap of physical frames. The first
  section translates the file; the others describe what the scans find, state the invariant
  (no two present pages share a frame, and the bitmap knows every mapped frame) and show that
  it is kept, that a new page is fresh and zeroed, and exactly when the allocator panics.
\<close>

section \<open>The code\<close>

definition PAGE_SIZE :: u32 where
  "PAGE_SIZE = 4 * 1024 * 1024"

definition NUM_FRAMES :: u32 where
  "NUM_FRAMES = 1024"

definition PRESENT :: u32 where
  "PRESENT = 1"

definition READ_WRITE :: u32 where
  "READ_WRITE = 2"

definition PAGE_MB :: u32 where
  "PAGE_MB = push_bit 7 1"

definition PAGE_ERR :: u32 where
  "PAGE_ERR = - 1"

record palloc =
  virtual_addr :: u32
  page_directory :: "u32 list"
  frame_bitmap :: "u32 list"

definition index_of :: "u32 \<Rightarrow> u32" where
  "index_of frame = frame div 32"

text \<open>The macro of include/helpers.h.\<close>

definition BITMAP_SET :: "u32 list \<Rightarrow> u32 \<Rightarrow> u32 list" where
  "BITMAP_SET arr idx =
     arr[unat (idx div 32) := (arr ! unat (idx div 32)) OR push_bit (unat (idx mod 32)) 1]"

function free_bit :: "u32 \<Rightarrow> u32 \<Rightarrow> u32 option" where
  "free_bit entry j =
     (if j < 32 then
        (let b = push_bit (unat j) 1
         in if entry AND b = 0 then Some j else free_bit entry (j + 1))
      else None)"
  by pat_completeness auto
termination
  by (relation "measure (\<lambda>(e, j). unat (32 - j))") (simp, simp only: in_measure prod.case loop_measure)

declare free_bit.simps [simp del]

function first_free_loop :: "u32 list \<Rightarrow> u32 \<Rightarrow> u32" where
  "first_free_loop bitmap i =
     (if i < index_of NUM_FRAMES then
        (if bitmap ! unat i \<noteq> 0xFFFFFFFF then
           (case free_bit (bitmap ! unat i) 0 of
              Some j \<Rightarrow> i * 32 + j
            | None \<Rightarrow> first_free_loop bitmap (i + 1))
         else first_free_loop bitmap (i + 1))
      else PAGE_ERR)"
  by pat_completeness auto
termination
  by (relation "measure (\<lambda>(b, i). unat (index_of NUM_FRAMES - i))") (auto simp: loop_measure)

declare first_free_loop.simps [simp del]

definition first_free_frame :: "u32 list \<Rightarrow> u32" where
  "first_free_frame bitmap = first_free_loop bitmap 0"

text \<open>The page directory is where the CPU finds it: CR3 plus the kernel's base.\<close>

definition alloc_init :: "u32 list \<Rightarrow> palloc \<Rightarrow> palloc" where
  "alloc_init cr3_directory s =
     (let s = s\<lparr>virtual_addr := PAGE_SIZE\<rparr>;
          s = s\<lparr>frame_bitmap := replicate (unat (index_of NUM_FRAMES)) 0\<rparr>;
          s = s\<lparr>frame_bitmap := BITMAP_SET (frame_bitmap s) 0\<rparr>;
          s = s\<lparr>frame_bitmap := BITMAP_SET (frame_bitmap s) 1\<rparr>
      in s\<lparr>page_directory := cr3_directory\<rparr>)"

text \<open>The body of the loop once a directory entry that is not present is found.\<close>

definition claim_frame :: "u32 \<Rightarrow> palloc \<Rightarrow> (bool \<times> palloc) res" where
  "claim_frame idx s =
     (let frame_idx = first_free_frame (frame_bitmap s)
      in if frame_idx = PAGE_ERR then Inl (Panic ''Could not find a free physical address!'')
      else
        (let s = s\<lparr>frame_bitmap := BITMAP_SET (frame_bitmap s) frame_idx\<rparr>;
             pde = (frame_idx * PAGE_SIZE) OR PAGE_MB OR PRESENT OR READ_WRITE
         in Inr (True, s\<lparr>page_directory := (page_directory s)[unat idx := pde]\<rparr>)))"

function probe :: "nat \<Rightarrow> palloc \<Rightarrow> (bool \<times> palloc) res" where
  "probe i s =
     (if i < 1024 then
        (let idx = (virtual_addr s div PAGE_SIZE) mod NUM_FRAMES
         in if (page_directory s ! unat idx) AND PRESENT = 0 then claim_frame idx s
            else probe (i + 1) (s\<lparr>virtual_addr := virtual_addr s + PAGE_SIZE\<rparr>))
      else Inr (False, s))"
  by pat_completeness auto
termination
  by (relation "measure (\<lambda>(i, s). 1024 - i)") auto

declare probe.simps [simp del]

definition alloc_block :: "palloc \<Rightarrow> mem \<Rightarrow> (u32 \<times> palloc \<times> mem) res" where
  "alloc_block s m =
     rbind (probe 0 s) (\<lambda>(found, s).
       if \<not> found then Inl (Panic ''Could not find a free virtual address!'')
       else
         (let retval = virtual_addr s;
              s = s\<lparr>virtual_addr := virtual_addr s + PAGE_SIZE\<rparr>
          in Inr (retval, s, memset m retval 0 PAGE_SIZE)))"

text \<open>The page directory of boot.asm once the identity mapping is removed.\<close>

definition bootstrap_page_directory :: "u32 list" where
  "bootstrap_page_directory = replicate 768 0 @ [0x83, 0x00400083] @ replicate 254 0"

section \<open>Frames\<close>

text \<open>Whether the bitmap marks a frame as taken, and the frame a directory entry maps.\<close>

definition frame_used :: "u32 list \<Rightarrow> nat \<Rightarrow> bool" where
  "frame_used bm f \<longleftrightarrow> bit (bm ! (f div 32)) (f mod 32)"

definition present :: "u32 list \<Rightarrow> nat \<Rightarrow> bool" where
  "present pd i \<longleftrightarrow> (pd ! i) AND PRESENT \<noteq> 0"

definition frame_of :: "u32 \<Rightarrow> nat" where
  "frame_of pde = unat (drop_bit 22 pde)"

lemma frame_of_less: "frame_of pde < 1024"
proof -
  have "unat pde < 1024 * 2 ^ 22" using unat32 [of pde] by simp
  then have "unat pde div 2 ^ 22 < 1024" by (rule less_mult_imp_div_less)
  then show ?thesis by (simp add: frame_of_def drop_bit_eq_div unat_div_distrib)
qed

lemma free_bit_spec:
  "case free_bit w j of
     None \<Rightarrow> \<forall>k. unat j \<le> k \<and> k < 32 \<longrightarrow> bit w k
   | Some k \<Rightarrow> j \<le> k \<and> unat k < 32 \<and> \<not> bit w (unat k) \<and> (\<forall>l. unat j \<le> l \<and> l < unat k \<longrightarrow> bit w l)"
proof (induction w j rule: free_bit.induct)
  case (1 w j)
  have and_bit: "w AND push_bit (unat j) 1 = 0 \<longleftrightarrow> \<not> bit w (unat j)"
    by (simp add: push_bit_of_1 and_exp_eq_0_iff_not_bit)
  show ?case
  proof (cases "j < 32 \<and> bit w (unat j)")
    case True
    then have suc: "unat (j + 1) = Suc (unat j)" using unat_plus1 by blast
    have eq: "free_bit w j = free_bit w (j + 1)"
      using True and_bit by (subst free_bit.simps) (simp add: Let_def)
    have "free_bit w j \<noteq> None \<Longrightarrow> j \<le> j + 1" using suc by (simp add: word_le_nat_alt)
    then show ?thesis
      using 1 True and_bit suc unfolding eq
      by (auto simp: Let_def split: option.splits dest: le_neq_implies_less)
  next
    case False
    then show ?thesis
      using and_bit by (subst free_bit.simps) (auto simp: Let_def word_less_nat_alt)
  qed
qed

text \<open>What the search from frame \<open>n\<close> on finds: no free frame, or the first one.\<close>

definition next_free :: "u32 list \<Rightarrow> nat \<Rightarrow> u32 \<Rightarrow> bool" where
  "next_free bm n r \<longleftrightarrow>
     (r = PAGE_ERR \<and> (\<forall>f. n \<le> f \<and> f < 1024 \<longrightarrow> frame_used bm f)) \<or>
     (n \<le> unat r \<and> unat r < 1024 \<and> \<not> frame_used bm (unat r) \<and> (\<forall>f. n \<le> f \<and> f < unat r \<longrightarrow> frame_used bm f))"

lemma frame_in_word: "k < 32 \<Longrightarrow> frame_used bm (32 * w + k) \<longleftrightarrow> bit (bm ! w) k"
  by (simp add: frame_used_def)

lemma next_free_skip:
  assumes "next_free bm (n + 32) r" "\<forall>k < 32. frame_used bm (n + k)"
  shows "next_free bm n r"
proof -
  have used: "frame_used bm f" if "n \<le> f" "f < n + 32" for f
    using assms(2) [rule_format, of "f - n"] that by simp
  have below: "frame_used bm f" if "n \<le> f" "\<not> n + 32 \<le> f" for f using used that by simp
  show ?thesis using assms(1) below unfolding next_free_def by (metis add_leD1)
qed

text \<open>A word that the loop skips is full; a bit that it finds is the first free one.\<close>

lemma full_word:
  assumes "w = 0xFFFFFFFF \<or> free_bit w 0 = None" "k < 32"
  shows "bit (w :: u32) k"
  using assms(1)
proof
  assume "w = 0xFFFFFFFF"
  then have "w = - 1" by simp
  then show ?thesis using assms(2) by (simp only: bit_minus_1_iff possible_bit_word) simp
next
  assume "free_bit w 0 = None"
  then show ?thesis using free_bit_spec [where w = w and j = 0] assms(2) by auto
qed

lemma found_word:
  assumes "free_bit (bm ! w) 0 = Some j" "w < 32"
  shows "next_free bm (32 * w) (of_nat w * 32 + j)"
proof -
  have jb: "unat j < 32" "\<not> bit (bm ! w) (unat j)" "\<forall>l. l < unat j \<longrightarrow> bit (bm ! w) l"
    using free_bit_spec [where w = "bm ! w" and j = 0] assms(1) by auto
  have "unat (of_nat w :: u32) = w" using assms(2) by (simp add: unat_of_nat)
  then have u: "unat (of_nat w * 32 + j) = 32 * w + unat j"
    using assms(2) jb(1) by (simp add: unat_add_small unat_mult_small)
  have "frame_used bm f" if "32 * w \<le> f" "f < 32 * w + unat j" for f
    using frame_in_word [of "f - 32 * w" bm w] that jb(1,3) by simp
  moreover have "\<not> frame_used bm (32 * w + unat j)" using frame_in_word jb(1,2) by simp
  ultimately show ?thesis using assms(2) jb(1) by (simp add: next_free_def u)
qed

lemma first_free_loop_spec: "i \<le> 32 \<Longrightarrow> next_free bm (32 * unat i) (first_free_loop bm i)"
proof (induction bm i rule: first_free_loop.induct)
  case (1 bm i)
  show ?case
  proof (cases "i < 32")
    case False
    then have "first_free_loop bm i = PAGE_ERR" "32 * unat i \<ge> 1024"
      by (simp_all add: first_free_loop.simps index_of_def NUM_FRAMES_def word_less_nat_alt)
    moreover have "\<not> (32 * unat i \<le> f \<and> f < 1024)" for f using calculation(2) by linarith
    ultimately show ?thesis unfolding next_free_def by blast
  next
    case True
    then have i: "i < index_of NUM_FRAMES" "unat i < 32" and suc: "unat (i + 1) = Suc (unat i)"
      using unat_plus1 [OF True] by (simp_all add: index_of_def NUM_FRAMES_def word_less_nat_alt)
    have le: "i + 1 \<le> 32" using suc i by (simp add: word_le_nat_alt)
    show ?thesis
    proof (cases "bm ! unat i \<noteq> 0xFFFFFFFF \<and> free_bit (bm ! unat i) 0 \<noteq> None")
      case True
      then obtain j where j: "free_bit (bm ! unat i) 0 = Some j" by auto
      have "first_free_loop bm i = i * 32 + j" using i True j by (subst first_free_loop.simps) simp
      then show ?thesis using found_word [OF j i(2)] by simp
    next
      case False
      have eq: "first_free_loop bm i = first_free_loop bm (i + 1)"
        using i False by (subst first_free_loop.simps) auto
      have "next_free bm (32 * unat (i + 1)) (first_free_loop bm (i + 1))"
        using 1(1,2) [OF i(1)] le False by (cases "bm ! unat i \<noteq> 0xFFFFFFFF") auto
      then have "next_free bm (32 * unat i + 32) (first_free_loop bm (i + 1))" unfolding suc by (simp add: add.commute)
      moreover have "\<forall>k < 32. frame_used bm (32 * unat i + k)"
        using full_word False by (simp add: frame_in_word)
      ultimately show ?thesis unfolding eq by (rule next_free_skip)
    qed
  qed
qed

text \<open>The first free frame, in the abstract: the least frame the bitmap does not mark.\<close>

lemma first_free_frame_cases:
  obtains (full) "first_free_frame bm = PAGE_ERR" "\<forall>f < 1024. frame_used bm f"
  | (free) "first_free_frame bm \<noteq> PAGE_ERR" "unat (first_free_frame bm) < 1024"
      "\<not> frame_used bm (unat (first_free_frame bm))"
      "\<forall>f < unat (first_free_frame bm). frame_used bm f"
proof -
  have "f \<noteq> PAGE_ERR" if "unat f < 1024" for f
    using that by (auto simp: PAGE_ERR_def unsigned_minus_1_eq_mask mask_eq_exp_minus_1)
  then show thesis
    using first_free_loop_spec [of 0 bm] that by (auto simp: first_free_frame_def next_free_def)
qed

lemma length_BITMAP_SET [simp]: "length (BITMAP_SET bm f) = length bm"
  by (simp add: BITMAP_SET_def)

lemma frame_used_BITMAP_SET:
  assumes "length bm = 32" "unat f < 1024"
  shows "frame_used (BITMAP_SET bm f) g \<longleftrightarrow> g = unat f \<or> frame_used bm g"
proof -
  let ?f = "unat f"
  have idx: "unat (f div 32) = ?f div 32" "unat (f mod 32) = ?f mod 32"
    by (simp_all add: unat_div_distrib unat_mod_distrib)
  have lt: "?f div 32 < length bm" using assms by (simp add: less_mult_imp_div_less)
  have "g = ?f \<longleftrightarrow> g div 32 = ?f div 32 \<and> g mod 32 = ?f mod 32"
    by (metis div_mult_mod_eq)
  then show ?thesis
    using lt by (auto simp: frame_used_def BITMAP_SET_def idx nth_list_update bit_simps)
qed

section \<open>The cursor\<close>

text \<open>The cursor is always the address of a page; there are 1024 of them, in a circle.\<close>

definition page :: "nat \<Rightarrow> u32" where
  "page q = of_nat q * PAGE_SIZE"

lemma page_Suc: "page q + PAGE_SIZE = page (Suc q)"
  by (simp add: page_def algebra_simps)

lemma unat_page: "unat (page q) = (q mod 1024) * 4194304"
proof -
  have "unat (page q) = (q * 4194304) mod 2 ^ 32"
    unfolding page_def PAGE_SIZE_def
    by (simp add: unat_word_ariths unat_of_nat mod_mult_left_eq)
  also have "\<dots> = (q mod 1024) * 4194304"
    using mod_mult_mult2 [of q 4194304 1024] by simp
  finally show ?thesis .
qed

lemma page_idx: "unat ((page q div PAGE_SIZE) mod NUM_FRAMES) = q mod 1024"
proof -
  have "unat (page q div PAGE_SIZE) = q mod 1024"
    by (simp add: unat_div_distrib unat_page PAGE_SIZE_def)
  then show ?thesis by (simp add: unat_mod_distrib NUM_FRAMES_def)
qed

lemma page_cong: "page q = page q' \<longleftrightarrow> q mod 1024 = q' mod 1024"
  by (simp add: word_unat_eq_iff unat_page)

lemma find_map: "find P (map f xs) = map_option f (find (P \<circ> f) xs)"
  by (induction xs) auto

text \<open>The loop visits the directory entries in a circle and stops at the first absent one.\<close>

lemma probe_find:
  assumes "virtual_addr s = page q" "i \<le> 1024"
  shows "probe i s =
    (case find (\<lambda>d. \<not> present (page_directory s) ((q + d) mod 1024)) [0..<1024 - i] of
       None \<Rightarrow> Inr (False, s\<lparr>virtual_addr := page (q + (1024 - i))\<rparr>)
     | Some d \<Rightarrow> claim_frame (page (q + d) div PAGE_SIZE mod NUM_FRAMES)
                  (s\<lparr>virtual_addr := page (q + d)\<rparr>))"
  using assms
proof (induction "1024 - i" arbitrary: i q s)
  case 0
  then show ?case by (simp add: probe.simps)
next
  case (Suc n)
  have lt: "i < 1024" using Suc(2) by simp
  let ?idx = "virtual_addr s div PAGE_SIZE mod NUM_FRAMES"
  have idx: "unat ?idx = q mod 1024" using Suc(3) by (simp add: page_idx)
  have upt: "[0..<1024 - i] = 0 # map Suc [0..<1024 - Suc i]"
  proof -
    have "1024 - i = Suc (1024 - Suc i)" using lt by simp
    then show ?thesis by (simp only: upt_conv_Cons map_Suc_upt zero_less_Suc)
  qed
  show ?case
  proof (cases "present (page_directory s) (q mod 1024)")
    case False
    have "claim_frame x (s\<lparr>virtual_addr := page q\<rparr>) = claim_frame x s" for x
      using Suc(3) by (cases s) simp
    with False show ?thesis
      using lt idx Suc(3) by (subst probe.simps) (simp add: upt Let_def present_def)
  next
    case True
    let ?s = "s\<lparr>virtual_addr := page (Suc q)\<rparr>"
    have "probe i s = probe (Suc i) ?s"
      using True lt idx Suc(3) by (subst probe.simps) (simp add: Let_def present_def page_Suc)
    also have "\<dots> = (case find (\<lambda>d. \<not> present (page_directory s) ((Suc q + d) mod 1024)) [0..<1024 - Suc i] of
       None \<Rightarrow> Inr (False, s\<lparr>virtual_addr := page (Suc q + (1024 - Suc i))\<rparr>)
     | Some d \<Rightarrow> claim_frame (page (Suc q + d) div PAGE_SIZE mod NUM_FRAMES)
                  (s\<lparr>virtual_addr := page (Suc q + d)\<rparr>))"
      using Suc(1) [of "Suc i" ?s "Suc q"] Suc(2) lt by (simp cong: option.case_cong)
    also have "Suc q + (1024 - Suc i) = q + (1024 - i)" using lt by simp
    finally show ?thesis
      using True unfolding upt
      by (simp add: find_map o_def option.case_eq_if map_option_case split: option.splits)
  qed
qed

section \<open>The invariant\<close>

definition palloc_ok :: "palloc \<Rightarrow> bool" where
  "palloc_ok s \<longleftrightarrow>
     length (page_directory s) = 1024 \<and> length (frame_bitmap s) = 32 \<and>
     virtual_addr s = page (unat (virtual_addr s) div 4194304) \<and>
     (\<forall>i < 1024. present (page_directory s) i \<longrightarrow>
        frame_used (frame_bitmap s) (frame_of (page_directory s ! i))) \<and>
     (\<forall>i < 1024. \<forall>j < 1024. present (page_directory s) i \<longrightarrow> present (page_directory s) j \<longrightarrow>
        frame_of (page_directory s ! i) = frame_of (page_directory s ! j) \<longrightarrow> i = j)"

lemma new_entry:
  assumes "unat f < 1024"
  defines "pde \<equiv> (f * PAGE_SIZE) OR PAGE_MB OR PRESENT OR READ_WRITE"
  shows "frame_of pde = unat f" "pde AND PRESENT \<noteq> 0" "pde AND 0xFFF = 0x83"
proof -
  have pde: "pde = push_bit 22 f OR 0x83"
    by (simp add: pde_def PAGE_SIZE_def PAGE_MB_def PRESENT_def READ_WRITE_def push_bit_eq_mult ac_simps)
  have "drop_bit 22 (push_bit 22 f) = f"
  proof (rule bit_word_eqI)
    fix n assume "n < LENGTH(32)"
    have "\<not> bit f n" if "10 \<le> n"
    proof -
      have "take_bit 10 (unat f) = unat f" using assms(1) by (simp add: take_bit_nat_eq_self)
      then have "\<not> bit (unat f) n" using that by (metis bit_take_bit_iff not_le)
      then show ?thesis by (auto simp: bit_unsigned_iff dest: bit_imp_possible_bit)
    qed
    then show "bit (drop_bit 22 (push_bit 22 f)) n = bit f n"
      by (cases "n < 10") (auto simp: bit_simps)
  qed
  then show "frame_of pde = unat f" by (simp add: frame_of_def pde)
  have low: "push_bit 22 f AND 0xFFF = 0"
  proof (rule bit_word_eqI)
    have "bit (mask 12 :: u32) n \<longleftrightarrow> n < 12 \<and> n < 32" for n by (auto simp only: bit_mask_iff possible_bit_word) simp_all
    then have "bit (0xFFF :: u32) n \<longleftrightarrow> n < 12 \<and> n < 32" for n by (simp add: mask_eq_exp_minus_1)
    then show "bit (push_bit 22 f AND 0xFFF) n = bit (0 :: u32) n" for n
      by (auto simp: bit_simps)
  qed
  then show "pde AND 0xFFF = 0x83" by (simp add: pde and.left_commute bit.conj_disj_distrib2)
  have "bit pde 0" by (simp add: pde bit_simps)
  then show "pde AND PRESENT \<noteq> 0" by (simp add: PRESENT_def and_one_eq bit_0 mod_2_eq_odd)
qed

text \<open>The entry the allocator takes: the first absent one from the cursor on, in a circle.\<close>

definition next_absent :: "palloc \<Rightarrow> nat option" where
  "next_absent s =
     find (\<lambda>d. \<not> present (page_directory s) ((unat (virtual_addr s) div 4194304 + d) mod 1024)) [0..<1024]"

lemma next_absent_None:
  "next_absent s = None \<longleftrightarrow> (\<forall>i < 1024. present (page_directory s) i)"
proof -
  let ?q = "unat (virtual_addr s) div 4194304"
  have "\<exists>d < 1024. i = (?q + d) mod 1024" if "i < 1024" for i
  proof (intro exI conjI)
    show "(i + (1024 - ?q mod 1024)) mod 1024 < 1024" by simp
    have "(?q + (i + (1024 - ?q mod 1024))) mod 1024 = (?q mod 1024 + (i + (1024 - ?q mod 1024))) mod 1024"
      by (simp only: mod_add_left_eq)
    also have "?q mod 1024 + (i + (1024 - ?q mod 1024)) = i + 1024"
      using mod_less_divisor [of 1024 ?q] by linarith
    finally show "i = (?q + (i + (1024 - ?q mod 1024)) mod 1024) mod 1024"
      using that by (simp add: mod_add_right_eq)
  qed
  then show ?thesis
    unfolding next_absent_def find_None_iff
    by (auto simp: Ball_def)
qed

lemma alloc_block_cases:
  assumes ok: "palloc_ok s"
  defines "q \<equiv> unat (virtual_addr s) div 4194304" and "f \<equiv> first_free_frame (frame_bitmap s)"
  obtains (no_page) "next_absent s = None"
      "alloc_block s m = Inl (Panic ''Could not find a free virtual address!'')"
  | (no_frame) d where "next_absent s = Some d" "f = PAGE_ERR"
      "alloc_block s m = Inl (Panic ''Could not find a free physical address!'')"
  | (page) d where "next_absent s = Some d" "f \<noteq> PAGE_ERR"
      "alloc_block s m = Inr (page (q + d),
         s\<lparr>virtual_addr := page (Suc (q + d)), frame_bitmap := BITMAP_SET (frame_bitmap s) f,
           page_directory := (page_directory s)[(q + d) mod 1024 :=
             (f * PAGE_SIZE) OR PAGE_MB OR PRESENT OR READ_WRITE]\<rparr>,
         memset m (page (q + d)) 0 PAGE_SIZE)"
proof (cases "next_absent s")
  case None
  then have "probe 0 s = Inr (False, s\<lparr>virtual_addr := page (q + 1024)\<rparr>)"
    using probe_find [of s q 0] ok by (simp add: palloc_ok_def q_def next_absent_def)
  then show thesis using no_page None by (simp add: alloc_block_def)
next
  case (Some d)
  then have probe: "probe 0 s = claim_frame (page (q + d) div PAGE_SIZE mod NUM_FRAMES) (s\<lparr>virtual_addr := page (q + d)\<rparr>)"
    using probe_find [of s q 0] ok by (simp add: palloc_ok_def q_def next_absent_def)
  show thesis
  proof (cases "f = PAGE_ERR")
    case True
    then show thesis using no_frame Some probe by (simp add: alloc_block_def claim_frame_def f_def)
  next
    case False
    then show thesis
      using page Some probe
      by (simp add: alloc_block_def claim_frame_def f_def Let_def page_idx page_Suc)
  qed
qed

section \<open>What the rest of the kernel relies on\<close>

text \<open>The allocator of the booted kernel: what \<open>alloc_init\<close> leaves on the directory of boot.asm.\<close>

definition booted :: palloc where
  "booted = alloc_init bootstrap_page_directory
     \<lparr>virtual_addr = 0, page_directory = [], frame_bitmap = []\<rparr>"

lemma frame_bits_booted: "frame_bitmap booted = 3 # replicate 31 0"
  by code_simp

lemma booted_facts:
  "palloc_ok booted" "i < 1024 \<Longrightarrow> present (page_directory booted) i \<longleftrightarrow> i = 768 \<or> i = 769"
  "virtual_addr booted = page 1"
proof -
  have dir: "page_directory booted = bootstrap_page_directory" by (simp add: booted_def alloc_init_def Let_def)
  have nth: "bootstrap_page_directory ! i = (if i = 768 then 0x83 else if i = 769 then 0x00400083 else 0)"
    if "i < 1024" for i
    using that by (auto simp: bootstrap_page_directory_def nth_append nth_Cons split: nat.split)
  then show pres: "present (page_directory booted) i \<longleftrightarrow> i = 768 \<or> i = 769" if "i < 1024" for i
    using that by (simp add: dir present_def PRESENT_def)
  have len: "length bootstrap_page_directory = 1024" by (simp add: bootstrap_page_directory_def)
  show va: "virtual_addr booted = page 1" by (simp add: booted_def alloc_init_def Let_def page_def)
  show "palloc_ok booted"
    using pres len by (auto simp: palloc_ok_def va unat_page frame_bits_booted dir nth frame_of_def frame_used_def)
qed

lemma booted_frames: "f < 1024 \<Longrightarrow> frame_used (frame_bitmap booted) f \<longleftrightarrow> f < 2"
proof -
  assume "f < 1024"
  have "bit (3 :: u32) k \<longleftrightarrow> k < 2" if "k < 32" for k
  proof -
    have "bit (mask 2 :: u32) k \<longleftrightarrow> k < 2" using that by (auto simp only: bit_mask_iff possible_bit_word) simp_all
    then show ?thesis by (simp add: mask_eq_exp_minus_1)
  qed
  then have *: "bit (3 :: u32) (f mod 32) \<longleftrightarrow> f mod 32 < 2" by simp
  show ?thesis
  proof (cases "f div 32 = 0")
    case True
    then show ?thesis using * by (simp add: frame_used_def frame_bits_booted div_eq_0_iff)
  next
    case False
    then have "(3 # replicate 31 (0 :: u32)) ! (f div 32) = 0"
      using \<open>f < 1024\<close> by (simp add: nth_Cons' less_mult_imp_div_less)
    then show ?thesis using False by (auto simp: frame_used_def frame_bits_booted div_eq_0_iff)
  qed
qed

text \<open>
  the booted page allocator satisfies the invariant: the kernel's two boot pages are present
  at directory entries 768 and 769, they have different frames, and both frames are marked.
\<close>

lemma alloc_init_ok:
  "palloc_ok booted \<and> {i. i < 1024 \<and> present (page_directory booted) i} = {768, 769}
    \<and> {f. f < 1024 \<and> frame_used (frame_bitmap booted) f} = {0, 1}"
  using booted_facts booted_frames by auto

text \<open>The effect of one successful call.\<close>

lemma alloc_block_page:
  assumes ok: "palloc_ok s" and absent: "next_absent s = Some d"
    and free: "first_free_frame (frame_bitmap s) \<noteq> PAGE_ERR"
  defines "q \<equiv> unat (virtual_addr s) div 4194304" and "f \<equiv> first_free_frame (frame_bitmap s)"
  defines "pde \<equiv> (f * PAGE_SIZE) OR PAGE_MB OR PRESENT OR READ_WRITE"
  defines "s' \<equiv> s\<lparr>virtual_addr := page (Suc (q + d)), frame_bitmap := BITMAP_SET (frame_bitmap s) f,
           page_directory := (page_directory s)[(q + d) mod 1024 := pde]\<rparr>"
  shows "palloc_ok s'" "\<not> present (page_directory s) ((q + d) mod 1024)"
    "present (page_directory s') ((q + d) mod 1024)" "\<not> frame_used (frame_bitmap s) (unat f)"
    "unat f < 1024" "frame_of pde = unat f" "pde AND 0xFFF = 0x83"
proof -
  let ?i = "(q + d) mod 1024"
  show abs: "\<not> present (page_directory s) ?i"
    using absent by (auto simp: next_absent_def find_Some_iff q_def)
  show ff: "unat f < 1024" and fu: "\<not> frame_used (frame_bitmap s) (unat f)"
    using first_free_frame_cases [of "frame_bitmap s"] free unfolding f_def by metis+
  show fo: "frame_of pde = unat f" and "pde AND 0xFFF = 0x83"
    using new_entry [OF ff] unfolding pde_def by simp_all
  have pd: "pde AND PRESENT \<noteq> 0" using new_entry(2) [OF ff] unfolding pde_def .
  have len: "length (page_directory s) = 1024" "length (frame_bitmap s) = 32"
    using ok by (simp_all add: palloc_ok_def)
  have dir: "page_directory s' ! j = (if j = ?i then pde else page_directory s ! j)" if "j < 1024" for j
    using len that by (simp add: s'_def)
  then have pres: "present (page_directory s') j \<longleftrightarrow> j = ?i \<or> present (page_directory s) j" if "j < 1024" for j
    using pd that by (simp add: present_def)
  then show "present (page_directory s') ?i" by simp
  have used: "frame_used (frame_bitmap s') g \<longleftrightarrow> g = unat f \<or> frame_used (frame_bitmap s) g" for g
    using frame_used_BITMAP_SET [OF len(2) ff] by (simp add: s'_def)
  have old: "frame_of (page_directory s ! j) \<noteq> unat f" if "j < 1024" "present (page_directory s) j" for j
    using ok fu that by (auto simp: palloc_ok_def)
  have va: "virtual_addr s' = page (unat (virtual_addr s') div 4194304)"
    by (simp add: s'_def unat_page page_cong)
  have "length (page_directory s') = 1024" "length (frame_bitmap s') = 32" using len by (simp_all add: s'_def)
  then show "palloc_ok s'"
    using ok va dir pres used old old [symmetric] fo unfolding palloc_ok_def by (auto split: if_splits)
qed

lemma page_span: "a \<in> span (page q) PAGE_SIZE \<longleftrightarrow> unat a div 4194304 = q mod 1024"
proof -
  have "unat (page q) + unat PAGE_SIZE \<le> 2 ^ 32"
    using mod_less_divisor [of 1024 q] by (simp add: unat_page PAGE_SIZE_def)
  then show ?thesis
    by (subst in_span_nat) (auto simp: unat_page PAGE_SIZE_def div_nat_eqI)
qed

text \<open>What a successful call does, for the clients of the allocator.\<close>

lemma alloc_block_new_page:
  assumes "palloc_ok s" "alloc_block s m = Inr (v, s', m')"
  defines "i \<equiv> unat v div 4194304"
  shows "palloc_ok s' \<and> unat v = i * 4194304 \<and> i < 1024 \<and>
    \<not> present (page_directory s) i \<and> present (page_directory s') i \<and>
    (page_directory s' ! i) AND 0xFFF = 0x83 \<and>
    (\<forall>j < 1024. present (page_directory s) j \<longrightarrow>
       frame_of (page_directory s ! j) \<noteq> frame_of (page_directory s' ! i)) \<and>
    (\<forall>j < 1024. j \<noteq> i \<longrightarrow> page_directory s' ! j = page_directory s ! j) \<and>
    (\<forall>a. m' a = (if unat a div 4194304 = i then 0 else m a))"
proof (rule alloc_block_cases [OF assms(1), of m])
  fix d
  let ?q = "unat (virtual_addr s) div 4194304" and ?f = "first_free_frame (frame_bitmap s)"
  let ?i = "(?q + d) mod 1024"
  assume d: "next_absent s = Some d" "?f \<noteq> PAGE_ERR"
    and "alloc_block s m = Inr (page (?q + d),
         s\<lparr>virtual_addr := page (Suc (?q + d)), frame_bitmap := BITMAP_SET (frame_bitmap s) ?f,
           page_directory := (page_directory s)[?i := (?f * PAGE_SIZE) OR PAGE_MB OR PRESENT OR READ_WRITE]\<rparr>,
         memset m (page (?q + d)) 0 PAGE_SIZE)"
  then have eqs: "v = page (?q + d)" "m' = memset m (page (?q + d)) 0 PAGE_SIZE"
    "s' = s\<lparr>virtual_addr := page (Suc (?q + d)), frame_bitmap := BITMAP_SET (frame_bitmap s) ?f,
       page_directory := (page_directory s)[?i := (?f * PAGE_SIZE) OR PAGE_MB OR PRESENT OR READ_WRITE]\<rparr>"
    using assms(2) by simp_all
  note pg = alloc_block_page [OF assms(1) d, folded eqs(3)]
  have i: "i = ?i" "unat v = i * 4194304" by (simp_all add: i_def eqs(1) unat_page)
  have len: "length (page_directory s) = 1024" using assms(1) by (simp add: palloc_ok_def)
  have new: "page_directory s' ! i = (?f * PAGE_SIZE) OR PAGE_MB OR PRESENT OR READ_WRITE"
    using len i by (simp add: eqs(3))
  have other: "\<forall>j < 1024. j \<noteq> i \<longrightarrow> page_directory s' ! j = page_directory s ! j"
    using len i by (simp add: eqs(3))
  have mem: "\<forall>a. m' a = (if unat a div 4194304 = i then 0 else m a)"
    by (simp add: eqs(2) memset_eq page_span i)
  have "\<forall>j < 1024. present (page_directory s) j \<longrightarrow>
       frame_of (page_directory s ! j) \<noteq> frame_of (page_directory s' ! i)"
    using assms(1) pg(4,6) unfolding palloc_ok_def new by auto
  moreover have "(page_directory s' ! i) AND 0xFFF = 0x83" unfolding new by (rule pg(7))
  ultimately show ?thesis using pg(1-3) i other mem by simp
qed (use assms(2) in auto)

text \<open>
  C13: a page the allocator returns is fresh. Its address is a multiple of the page size, its
  directory entry was absent and now maps a 4 MiB frame, present and writable, that no other
  present entry maps; every other entry is unchanged; the page reads as zeros and no byte
  outside it changes; and the invariant, in which no two pages share a frame, is kept.
\<close>

theorem alloc_block_fresh:
  assumes "palloc_ok s" "alloc_block s m = Inr (v, s', m')"
  defines "i \<equiv> unat v div 4194304"
  shows "palloc_ok s' \<and> unat v = i * 4194304 \<and> i < 1024 \<and>
    \<not> present (page_directory s) i \<and> present (page_directory s') i \<and>
    (page_directory s' ! i) AND 0xFFF = 0x83 \<and>
    (\<forall>j < 1024. present (page_directory s) j \<longrightarrow>
       frame_of (page_directory s ! j) \<noteq> frame_of (page_directory s' ! i)) \<and>
    (\<forall>j < 1024. j \<noteq> i \<longrightarrow> page_directory s' ! j = page_directory s ! j) \<and>
    (\<forall>a. m' a = (if unat a div 4194304 = i then 0 else m a))"
  using alloc_block_new_page [OF assms(1,2)] unfolding i_def .

text \<open>
  The allocator always returns or panics, and it panics exactly when it has to: with the
  message about virtual addresses when every directory entry is present, and otherwise with the
  message about physical addresses when every frame is marked.
\<close>

lemma alloc_block_panics:
  assumes "palloc_ok s"
  shows "alloc_block s m = Inl e \<longleftrightarrow>
    {i. i < 1024 \<and> \<not> present (page_directory s) i} = {} \<and>
      e = Panic ''Could not find a free virtual address!'' \<or>
    {i. i < 1024 \<and> \<not> present (page_directory s) i} \<noteq> {} \<and>
      {f. f < 1024 \<and> \<not> frame_used (frame_bitmap s) f} = {} \<and>
      e = Panic ''Could not find a free physical address!''"
proof -
  have dirs: "{i. i < 1024 \<and> \<not> present (page_directory s) i} = {} \<longleftrightarrow> next_absent s = None"
    by (auto simp: next_absent_None)
  have frames: "{f. f < 1024 \<and> \<not> frame_used (frame_bitmap s) f} = {} \<longleftrightarrow>
      first_free_frame (frame_bitmap s) = PAGE_ERR"
    by (rule first_free_frame_cases [of "frame_bitmap s"]) auto
  show ?thesis
    unfolding dirs frames by (rule alloc_block_cases [OF assms, of m]) auto
qed

section \<open>The addresses a booted kernel gets\<close>

text \<open>The pages after boot, in the order they are handed out: 768 and 769 are skipped.\<close>

definition slot :: "nat \<Rightarrow> nat" where
  "slot k = (if k < 767 then k + 1 else k + 3)"

definition after_boot :: "nat \<Rightarrow> palloc \<Rightarrow> bool" where
  "after_boot n s \<longleftrightarrow> palloc_ok s \<and> virtual_addr s = page (if n < 768 then n + 1 else n + 3) \<and>
     (\<forall>f < 1024. frame_used (frame_bitmap s) f \<longleftrightarrow> f < n + 2) \<and>
     (\<forall>i < 1024. present (page_directory s) i \<longleftrightarrow> i = 768 \<or> i = 769 \<or> (\<exists>k < n. i = slot k mod 1024))"

lemma slot_mod: "k < 1022 \<Longrightarrow> slot k mod 1024 = (if k = 1021 then 0 else slot k)"
  by (auto simp: slot_def)

lemma slot_taken:
  assumes "n < 1022" "i < 1024"
  shows "(\<exists>k < n. i = slot k mod 1024) \<longleftrightarrow> 0 < i \<and> (i < 768 \<and> i \<le> n \<or> 770 \<le> i \<and> i < n + 3)"
proof
  assume "\<exists>k < n. i = slot k mod 1024"
  then show "0 < i \<and> (i < 768 \<and> i \<le> n \<or> 770 \<le> i \<and> i < n + 3)"
    using assms by (auto simp: slot_mod) (auto simp: slot_def split: if_splits)
next
  assume r: "0 < i \<and> (i < 768 \<and> i \<le> n \<or> 770 \<le> i \<and> i < n + 3)"
  show "\<exists>k < n. i = slot k mod 1024"
    by (rule exI [of _ "if i < 768 then i - 1 else i - 3"]) (use r assms in \<open>auto simp: slot_mod slot_def\<close>)
qed

text \<open>The entry the next allocation takes: entry 0 wraps, and the two of the kernel image are jumped over.\<close>

lemma boot_next_absent:
  assumes boot: "after_boot n s" and n: "n < 1022"
  defines "q \<equiv> unat (virtual_addr s) div 4194304"
  obtains d where "next_absent s = Some d" "(q + d) mod 1024 = slot n mod 1024"
proof -
  define d where "d = (if n = 767 then 2 else 0 :: nat)"
  have dirs: "\<forall>i < 1024. present (page_directory s) i \<longleftrightarrow> i = 768 \<or> i = 769 \<or> (\<exists>k < n. i = slot k mod 1024)"
    and "virtual_addr s = page (if n < 768 then n + 1 else n + 3)" using boot by (auto simp: after_boot_def)
  then have q: "q = (if n < 768 then n + 1 else n + 3) mod 1024" by (simp add: q_def unat_page)
  have qd: "(q + d) mod 1024 = slot n mod 1024" using n by (simp add: q d_def slot_def mod_add_left_eq)
  have pres: "present (page_directory s) i \<longleftrightarrow> i = 768 \<or> i = 769 \<or> 0 < i \<and> (i < 768 \<and> i \<le> n \<or> 770 \<le> i \<and> i < n + 3)"
    if "i < 1024" for i
    using dirs slot_taken [OF n that] that by simp
  have "\<not> present (page_directory s) (slot n mod 1024)"
    using n by (subst pres, simp, unfold slot_mod [OF n]) (auto simp: slot_def)
  then have "\<not> present (page_directory s) ((q + d) mod 1024)" unfolding qd .
  moreover have "present (page_directory s) ((q + j) mod 1024)" if "j < d" for j
    using that by (subst pres) (auto simp: q d_def split: if_splits)
  moreover have "d < 1024" by (simp add: d_def)
  ultimately have "next_absent s = Some d"
    unfolding next_absent_def find_Some_iff q_def [symmetric] by (intro exI [of _ d]) simp
  then show thesis using qd by (rule that)
qed

lemma boot_next_frame:
  assumes "after_boot n s" "n < 1022"
  shows "unat (first_free_frame (frame_bitmap s)) = n + 2" "first_free_frame (frame_bitmap s) \<noteq> PAGE_ERR"
proof -
  have frames: "\<forall>f < 1024. frame_used (frame_bitmap s) f \<longleftrightarrow> f < n + 2" using assms(1) by (simp add: after_boot_def)
  then have "\<not> frame_used (frame_bitmap s) (n + 2)" "n + 2 < 1024" using assms(2) by auto
  then show "unat (first_free_frame (frame_bitmap s)) = n + 2" "first_free_frame (frame_bitmap s) \<noteq> PAGE_ERR"
    using first_free_frame_cases [of "frame_bitmap s"] frames assms(2)
    by (metis less_irrefl linorder_neqE_nat)+
qed

lemma after_boot_step:
  assumes "after_boot n s" "n < 1022"
  shows "\<exists>s'. alloc_block s m = Inr (page (slot n), s', memset m (page (slot n)) 0 PAGE_SIZE) \<and> after_boot (Suc n) s'"
proof -
  let ?q = "unat (virtual_addr s) div 4194304" and ?f = "first_free_frame (frame_bitmap s)"
  have ok: "palloc_ok s" and frames: "\<forall>f < 1024. frame_used (frame_bitmap s) f \<longleftrightarrow> f < n + 2"
    and dirs: "\<forall>i < 1024. present (page_directory s) i \<longleftrightarrow> i = 768 \<or> i = 769 \<or> (\<exists>k < n. i = slot k mod 1024)"
    using assms(1) by (auto simp: after_boot_def)
  note f = boot_next_frame [OF assms]
  obtain d where absent: "next_absent s = Some d" and qd: "(?q + d) mod 1024 = slot n mod 1024"
    by (rule boot_next_absent [OF assms])
  show ?thesis
  proof (rule alloc_block_cases [OF ok, of m])
    fix d'
    assume d': "next_absent s = Some d'" and res: "alloc_block s m = Inr (page (?q + d'),
         s\<lparr>virtual_addr := page (Suc (?q + d')), frame_bitmap := BITMAP_SET (frame_bitmap s) ?f,
           page_directory := (page_directory s)[(?q + d') mod 1024 :=
             (?f * PAGE_SIZE) OR PAGE_MB OR PRESENT OR READ_WRITE]\<rparr>,
         memset m (page (?q + d')) 0 PAGE_SIZE)"
    have dd: "d' = d" using d' absent by simp
    let ?s = "s\<lparr>virtual_addr := page (Suc (?q + d)), frame_bitmap := BITMAP_SET (frame_bitmap s) ?f,
           page_directory := (page_directory s)[(?q + d) mod 1024 :=
             (?f * PAGE_SIZE) OR PAGE_MB OR PRESENT OR READ_WRITE]\<rparr>"
    note pg = alloc_block_page [OF ok absent f(2)]
    have len: "length (page_directory s) = 1024" "length (frame_bitmap s) = 32"
      using ok by (simp_all add: palloc_ok_def)
    have "page (Suc (?q + d)) = page (if Suc n < 768 then Suc n + 1 else Suc n + 3)"
    proof -
      have "Suc (?q + d) mod 1024 = Suc (slot n) mod 1024" using qd by (metis mod_Suc_eq)
      moreover have "Suc (slot n) = (if Suc n < 768 then Suc n + 1 else Suc n + 3)" by (simp add: slot_def)
      ultimately show ?thesis unfolding page_cong by simp
    qed
    moreover have "\<forall>g < 1024. frame_used (frame_bitmap ?s) g \<longleftrightarrow> g < Suc n + 2"
      using frames frame_used_BITMAP_SET [OF len(2) pg(5)] f(1) by auto
    moreover have "present (page_directory ?s) i \<longleftrightarrow> i = slot n mod 1024 \<or> present (page_directory s) i"
      if "i < 1024" for i
    proof (cases "i = slot n mod 1024")
      case True
      then show ?thesis using pg(3) by (simp add: qd)
    next
      case False
      then show ?thesis by (simp add: qd present_def)
    qed
    ultimately have "after_boot (Suc n) ?s"
      using pg(1) dirs by (auto simp: after_boot_def less_Suc_eq)
    moreover have "page (?q + d) = page (slot n)" unfolding page_cong by (rule qd)
    ultimately show ?thesis using res unfolding dd by metis
  qed (use absent f in auto)
qed

fun alloc_blocks :: "nat \<Rightarrow> palloc \<Rightarrow> mem \<Rightarrow> (u32 list \<times> palloc \<times> mem) res" where
  "alloc_blocks 0 s m = Inr ([], s, m)"
| "alloc_blocks (Suc n) s m =
     rbind (alloc_blocks n s m) (\<lambda>(vs, s, m).
       rbind (alloc_block s m) (\<lambda>(v, s, m). Inr (vs @ [v], s, m)))"

lemma after_boot_run:
  "n \<le> 1022 \<Longrightarrow>
    \<exists>s' m'. alloc_blocks n booted m = Inr (map (page \<circ> slot) [0..<n], s', m') \<and> after_boot n s'"
proof (induction n)
  case 0
  then show ?case using booted_facts booted_frames by (simp add: after_boot_def numeral_2_eq_2)
next
  case (Suc n)
  then obtain s' m' where "alloc_blocks n booted m = Inr (map (page \<circ> slot) [0..<n], s', m')" "after_boot n s'"
    by auto
  then show ?case using after_boot_step [of n s' m'] Suc(2) by auto
qed

text \<open>
  C30: from boot the kernel gets exactly 1022 pages, in increasing order of address and skipping
  the two boot pages; the 1022nd has wrapped around the address space: it is page 0, so its
  address is null. The next call panics.
\<close>

theorem boot_pages:
  assumes "n \<le> 1022"
  shows "\<exists>s' m'. alloc_blocks n booted m = Inr (map (\<lambda>k. page (if k < 767 then k + 1 else k + 3)) [0..<n], s', m') \<and>
    (n = 1022 \<longrightarrow> page 1024 = 0 \<and> alloc_block s' m' = Inl (Panic ''Could not find a free virtual address!''))"
proof -
  obtain s' m' where r: "alloc_blocks n booted m = Inr (map (page \<circ> slot) [0..<n], s', m')" "after_boot n s'"
    using after_boot_run [OF assms] by blast
  have "alloc_block s' m' = Inl (Panic ''Could not find a free virtual address!'')" if "n = 1022"
  proof -
    have "\<exists>k < 1022. i = slot k mod 1024" if "i < 1024" "i \<noteq> 768" "i \<noteq> 769" for i
      by (rule exI [of _ "if i = 0 then 1021 else if i < 768 then i - 1 else i - 3"])
        (use that in \<open>auto simp: slot_mod slot_def\<close>)
    then have ok: "palloc_ok s'" and pres: "\<forall>i < 1024. present (page_directory s') i"
      using r(2) \<open>n = 1022\<close> by (auto simp: after_boot_def)
    then have "next_absent s' = None" by (simp add: next_absent_None)
    then show ?thesis by (rule_tac alloc_block_cases [OF ok, of m']) auto
  qed
  moreover have "page 1024 = 0" by (simp add: page_def PAGE_SIZE_def)
  ultimately show ?thesis using r(1) by (auto simp: slot_def comp_def)
qed

theorem boot_pages_witness:
  "\<exists>s' m'. alloc_blocks 1022 booted (\<lambda>_. 0) = Inr (map (\<lambda>k. page (if k < 767 then k + 1 else k + 3)) [0..<1022], s', m') \<and>
    page 1024 = 0 \<and> alloc_block s' m' = Inl (Panic ''Could not find a free virtual address!'')"
  using boot_pages [of 1022 "\<lambda>_. 0"] by simp

lemma booted_first:
  "\<exists>s'. alloc_block booted m = Inr (4194304, s', memset m 4194304 0 PAGE_SIZE) \<and> after_boot 1 s'"
proof -
  have "after_boot 0 booted"
    using booted_facts booted_frames by (simp add: after_boot_def numeral_2_eq_2)
  moreover have "page (slot 0) = 4194304" by (simp add: slot_def page_def PAGE_SIZE_def)
  ultimately show ?thesis using after_boot_step [of 0 booted m] by simp
qed

theorem alloc_block_fresh_witness:
  "\<exists>s' m'. alloc_block booted (\<lambda>_. 7) = Inr (4194304, s', m') \<and> palloc_ok s' \<and>
    \<not> present (page_directory booted) 1 \<and> present (page_directory s') 1 \<and>
    m' 4194304 = 0 \<and> m' 12 = 7"
proof -
  obtain s' m' where r: "alloc_block booted (\<lambda>_. 7) = Inr (4194304, s', m')"
    using booted_first by blast
  have i: "unat (4194304 :: u32) div 4194304 = 1" "unat (12 :: addr) div 4194304 = 0" by simp_all
  show ?thesis
    using alloc_block_fresh [OF booted_facts(1) r] r unfolding i by (intro exI [of _ s'] exI [of _ m']) auto
qed

end
