(* ===== verification/Allocator.thy ===== *)
theory Allocator
  imports Prelude
begin

text \<open>
  The contract of the kernel's allocator (include/kernel/mem.h) as its clients see it: the
  addresses it hands out own disjoint sets of bytes, which only their owner writes. The kernel's
  implementation provides it in KMem; the dynamic array, the task list and the thread stacks
  are verified against it.
\<close>

text \<open>A 32-bit store through a pointer, in a state whose memory \<open>update\<close> changes.\<close>

definition put32 :: "((mem \<Rightarrow> mem) \<Rightarrow> 's \<Rightarrow> 's) \<Rightarrow> 's \<Rightarrow> addr \<Rightarrow> u32 \<Rightarrow> 's" where
  "put32 update s a v = update (\<lambda>m. store32 m a v) s"

text \<open>What every operation leaves alone: the objects other than the given ones.\<close>

definition others_kept :: "mem \<Rightarrow> (addr \<times> addr set) set \<Rightarrow> mem \<Rightarrow> (addr \<times> addr set) set \<Rightarrow> addr set \<Rightarrow> bool" where
  "others_kept m own m' own' ps \<longleftrightarrow>
     (\<forall>q C. (q, C) \<in> own \<longrightarrow> q \<notin> ps \<longrightarrow> (q, C) \<in> own' \<and> (\<forall>a \<in> C. m' a = m a))"

lemma others_keptD:
  assumes "others_kept m own m' own' ps" "(q, C) \<in> own" "q \<notin> ps"
  shows "(q, C) \<in> own'" "a \<in> C \<Longrightarrow> m' a = m a"
  using assms by (auto simp: others_kept_def)

lemma others_kept_refl: "others_kept m own m own ps"
  by (simp add: others_kept_def)

lemma others_kept_mono: "others_kept m own m' own' ps \<Longrightarrow> ps \<subseteq> qs \<Longrightarrow> others_kept m own m' own' qs"
  by (fastforce simp: others_kept_def)

lemma others_kept_trans:
  "others_kept m own m' own' ps \<Longrightarrow> others_kept m' own' m'' own'' ps \<Longrightarrow> others_kept m own m'' own'' ps"
  by (fastforce simp: others_kept_def)

locale allocator =
  fixes malloc :: "'s \<Rightarrow> u32 \<Rightarrow> (addr \<times> 's) res"
    and mfree :: "'s \<Rightarrow> addr \<Rightarrow> 's res"
    and memory :: "'s \<Rightarrow> mem"
    and update :: "(mem \<Rightarrow> mem) \<Rightarrow> 's \<Rightarrow> 's"
    and inv :: "'s \<Rightarrow> bool"
    and owns :: "'s \<Rightarrow> (addr \<times> addr set) set"
  assumes malloc_fresh: "inv s \<Longrightarrow> 0 < n \<Longrightarrow> malloc s n = Inr (p, s') \<Longrightarrow>
      inv s' \<and> p \<noteq> 0 \<and> (\<exists>B. (p, B) \<notin> owns s \<and> owns s' = insert (p, B) (owns s) \<and> (\<forall>i < n. p + i \<in> B))"
    and malloc_frame: "inv s \<Longrightarrow> 0 < n \<Longrightarrow> malloc s n = Inr (p, s') \<Longrightarrow> (q, B) \<in> owns s \<Longrightarrow> a \<in> B \<Longrightarrow>
      memory s' a = memory s a"
    and mfree_owned: "inv s \<Longrightarrow> (p, B) \<in> owns s \<Longrightarrow>
      \<exists>s'. mfree s p = Inr s' \<and> inv s' \<and> owns s - {(p, B)} \<subseteq> owns s' \<and> owns s' \<subseteq> owns s \<and>
        (\<forall>q C a. (q, C) \<in> owns s \<longrightarrow> a \<in> C \<longrightarrow> memory s' a = memory s a)"
    and mfree_null: "mfree s 0 = Inr s"
    and update_owned: "inv s \<Longrightarrow> (p, B) \<in> owns s \<Longrightarrow> (\<And>a. a \<notin> B \<Longrightarrow> f (memory s) a = memory s a) \<Longrightarrow>
      inv (update f s) \<and> owns (update f s) = owns s"
    and update_memory: "memory (update f s) = f (memory s)"
    and owns_base: "inv s \<Longrightarrow> (p, B) \<in> owns s \<Longrightarrow> p \<in> B"
    and owns_disjoint: "inv s \<Longrightarrow> (p, B) \<in> owns s \<Longrightarrow> (q, C) \<in> owns s \<Longrightarrow> (p, B) \<noteq> (q, C) \<Longrightarrow> B \<inter> C = {}"
begin

text \<open>A fresh object does not overlap any object that is already owned.\<close>

lemma malloc_disjoint:
  assumes "inv s" "0 < n" "malloc s n = Inr (p, s')" "(q, C) \<in> owns s" "i < n"
  shows "p + i \<notin> C"
proof -
  obtain B where B: "(p, B) \<notin> owns s" "owns s' = insert (p, B) (owns s)" "\<forall>i < n. p + i \<in> B"
    using malloc_fresh [OF assms(1-3)] by blast
  have "inv s'" using malloc_fresh [OF assms(1-3)] by blast
  then have "B \<inter> C = {}" using owns_disjoint [of s' p B q C] B assms(4) by auto
  then show ?thesis using B(3) assms(5) by blast
qed

text \<open>An address has one owner.\<close>

lemma owns_unique:
  assumes "inv s" "(p, B) \<in> owns s" "(p, C) \<in> owns s"
  shows "B = C"
  using owns_disjoint [OF assms] owns_base [OF assms(1)] assms(2,3) by blast

text \<open>Another owner's bytes survive an update of an object.\<close>

lemma update_other:
  assumes "inv s" "(p, B) \<in> owns s" "(q, C) \<in> owns s" "p \<noteq> q"
    and "\<And>a. a \<notin> B \<Longrightarrow> f (memory s) a = memory s a" "b \<in> C"
  shows "memory (update f s) b = memory s b"
proof -
  have "b \<notin> B" using owns_disjoint [OF assms(1-3)] assms(4,6) by blast
  then show ?thesis using assms(5) by (simp add: update_memory)
qed

text \<open>
  Allocating, using and freeing an object leaves every object that was there before alone.
\<close>

lemma malloc_mfree:
  assumes "inv s" "0 < n" "malloc s n = Inr (p, s')"
  shows "\<exists>s''. mfree s' p = Inr s'' \<and> inv s'' \<and> owns s \<subseteq> owns s'' \<and>
    (\<forall>q C a. (q, C) \<in> owns s \<longrightarrow> a \<in> C \<longrightarrow> memory s'' a = memory s a)"
proof -
  obtain B where B: "inv s'" "(p, B) \<notin> owns s" "owns s' = insert (p, B) (owns s)"
    using malloc_fresh [OF assms] by blast
  then obtain s'' where "mfree s' p = Inr s''" "inv s''" "owns s' - {(p, B)} \<subseteq> owns s''"
    "\<forall>q C a. (q, C) \<in> owns s' \<longrightarrow> a \<in> C \<longrightarrow> memory s'' a = memory s' a"
    using mfree_owned [of s' p B] by auto
  then show ?thesis using B malloc_frame [OF assms] by auto
qed

text \<open>An update of one object keeps the others.\<close>

lemma update_kept:
  assumes "inv s" "(p, B) \<in> owns s" "\<And>a. a \<notin> B \<Longrightarrow> f (memory s) a = memory s a"
  shows "inv (update f s)" "owns (update f s) = owns s"
    "others_kept (memory s) (owns s) (memory (update f s)) (owns (update f s)) {p}"
proof -
  show "inv (update f s)" and eq: "owns (update f s) = owns s"
    using update_owned [OF assms(1,2), of f] assms(3) by blast+
  have "memory (update f s) a = memory s a" if "(q, C) \<in> owns s" "q \<noteq> p" "a \<in> C" for q C a
    by (rule update_other [OF assms(1,2) that(1)]) (use that assms(3) in auto)
  then show "others_kept (memory s) (owns s) (memory (update f s)) (owns (update f s)) {p}"
    by (simp add: others_kept_def eq)
qed

lemma put32_kept:
  assumes "inv s" "(p, B) \<in> owns s" "span a 4 \<subseteq> B"
  shows "inv (put32 update s a v)" "owns (put32 update s a v) = owns s"
    "memory (put32 update s a v) = store32 (memory s) a v"
    "others_kept (memory s) (owns s) (memory (put32 update s a v)) (owns (put32 update s a v)) {p}"
proof -
  have "store32 (memory s) a v b = memory s b" if "b \<notin> B" for b
    using assms(3) that by (intro store32_outside) blast
  note u = update_kept [OF assms(1,2), where f = "\<lambda>m. store32 m a v", OF this]
  show "inv (put32 update s a v)" "owns (put32 update s a v) = owns s"
    "others_kept (memory s) (owns s) (memory (put32 update s a v)) (owns (put32 update s a v)) {p}"
    using u by (simp_all add: put32_def)
  show "memory (put32 update s a v) = store32 (memory s) a v" by (simp add: put32_def update_memory)
qed

text \<open>A fresh object is none of the old ones.\<close>

lemma malloc_new:
  assumes "inv s" "0 < n" "malloc s n = Inr (p, s')"
  obtains B where "inv s'" "owns s' = insert (p, B) (owns s)" "p \<noteq> 0" "span p n \<subseteq> B"
    "\<And>q C. (q, C) \<in> owns s \<Longrightarrow> q \<noteq> p \<and> B \<inter> C = {}"
    "others_kept (memory s) (owns s) (memory s') (owns s') {}"
proof -
  obtain B where B: "inv s'" "p \<noteq> 0" "(p, B) \<notin> owns s" "owns s' = insert (p, B) (owns s)" "\<forall>i < n. p + i \<in> B"
    using malloc_fresh [OF assms] by blast
  have new: "B \<inter> C = {}" if "(q, C) \<in> owns s" for q C
    using owns_disjoint [OF B(1), of p B q C] B(3,4) that by auto
  have "q \<noteq> p" if "(q, C) \<in> owns s" for q C
    using new [OF that] owns_base [OF B(1)] B(4) that by blast
  moreover have "a \<in> B" if "a \<in> span p n" for a
    using B(5) [rule_format, of "a - p"] that by (simp add: in_span)
  moreover have "others_kept (memory s) (owns s) (memory s') (owns s') {}"
    using malloc_frame [OF assms] B(4) by (auto simp: others_kept_def)
  ultimately show thesis using B new by (intro that) blast+
qed

lemma mfree_kept:
  assumes "inv s" "(p, B) \<in> owns s"
  obtains s' where "mfree s p = Inr s'" "inv s'" "owns s' \<subseteq> owns s" "owns s - {(p, B)} \<subseteq> owns s'"
    "others_kept (memory s) (owns s) (memory s') (owns s') {p}"
proof -
  obtain s' where s': "mfree s p = Inr s'" "inv s'" "owns s - {(p, B)} \<subseteq> owns s'" "owns s' \<subseteq> owns s"
    "\<forall>q C a. (q, C) \<in> owns s \<longrightarrow> a \<in> C \<longrightarrow> memory s' a = memory s a"
    using mfree_owned [OF assms] by blast
  then have "others_kept (memory s) (owns s) (memory s') (owns s') {p}"
    by (auto simp: others_kept_def)
  then show thesis using s' that by blast
qed

end

text \<open>
  The contract extended with the memory that is mapped but not the heap's: the static data and
  the boot stack, and the pages a client takes from the page allocator for itself. No heap
  operation touches it, and writing to it leaves the heap as it is.
\<close>

locale paged = allocator malloc mfree memory update inv owns
  for malloc :: "'s \<Rightarrow> u32 \<Rightarrow> (addr \<times> 's) res" and mfree :: "'s \<Rightarrow> addr \<Rightarrow> 's res"
    and memory :: "'s \<Rightarrow> mem" and update :: "(mem \<Rightarrow> mem) \<Rightarrow> 's \<Rightarrow> 's"
    and inv :: "'s \<Rightarrow> bool" and owns :: "'s \<Rightarrow> (addr \<times> addr set) set" +
  fixes static :: "'s \<Rightarrow> addr set"
    and new_page :: "'s \<Rightarrow> (addr \<times> 's) res"
    and page_size :: u32
  assumes owned_not_static: "inv s \<Longrightarrow> (p, B) \<in> owns s \<Longrightarrow> B \<inter> static s = {}"
    and malloc_static: "inv s \<Longrightarrow> 0 < n \<Longrightarrow> malloc s n = Inr (p, s') \<Longrightarrow>
      static s' = static s \<and> (\<forall>a \<in> static s. memory s' a = memory s a)"
    and mfree_static: "inv s \<Longrightarrow> (p, B) \<in> owns s \<Longrightarrow> mfree s p = Inr s' \<Longrightarrow>
      static s' = static s \<and> (\<forall>a \<in> static s. memory s' a = memory s a)"
    and update_data: "inv s \<Longrightarrow> (\<And>a. a \<notin> static s \<Longrightarrow> a \<notin> \<Union> (snd ` owns s) \<Longrightarrow> f (memory s) a = memory s a) \<Longrightarrow>
      inv (update f s) \<and> owns (update f s) = owns s \<and> static (update f s) = static s"
    and new_page_fresh: "inv s \<Longrightarrow> new_page s = Inr (v, s') \<Longrightarrow>
      inv s' \<and> owns s' = owns s \<and> static s' = static s \<union> span v page_size \<and> span v page_size \<inter> static s = {} \<and>
        (\<forall>a. memory s' a = (if a \<in> span v page_size then 0 else memory s a))"
begin

text \<open>A page does not overlap an object, and taking it leaves the objects alone.\<close>

lemma new_page_kept:
  assumes "inv s" "new_page s = Inr (v, s')"
  shows "inv s'" "owns s' = owns s" "static s \<subseteq> static s'" "span v page_size \<subseteq> static s'"
    "others_kept (memory s) (owns s) (memory s') (owns s') {}"
    "a \<in> static s \<Longrightarrow> memory s' a = memory s a"
proof -
  note new = new_page_fresh [OF assms]
  show "inv s'" "owns s' = owns s" "static s \<subseteq> static s'" "span v page_size \<subseteq> static s'" using new by auto
  have "memory s' a = memory s a" if "(q, C) \<in> owns s" "a \<in> C" for q C a
    using new owned_not_static [of s' q C] that by auto
  then show "others_kept (memory s) (owns s) (memory s') (owns s') {}" using new by (simp add: others_kept_def)
  show "memory s' a = memory s a" if "a \<in> static s" using new that by auto
qed

lemma update_owned_static:
  assumes "inv s" "(p, B) \<in> owns s" "\<And>a. a \<notin> B \<Longrightarrow> f (memory s) a = memory s a"
  shows "static (update f s) = static s"
proof -
  have "f (memory s) a = memory s a" if "a \<notin> \<Union> (snd ` owns s)" for a
    using that assms(2) by (intro assms(3)) force
  then show ?thesis using update_data [OF assms(1), of f] by blast
qed

lemma static_kept:
  assumes "inv s" "\<And>a. a \<notin> static s \<Longrightarrow> f (memory s) a = memory s a"
  shows "inv (update f s)" "owns (update f s) = owns s" "static (update f s) = static s"
    "others_kept (memory s) (owns s) (memory (update f s)) (owns (update f s)) {}"
proof -
  show "inv (update f s)" and eq: "owns (update f s) = owns s" and "static (update f s) = static s"
    using update_data [OF assms(1), of f] assms(2) by blast+
  have "f (memory s) a = memory s a" if "(q, C) \<in> owns s" "a \<in> C" for q C a
    using assms(2) [of a] owned_not_static [OF assms(1) that(1)] that(2) by blast
  then show "others_kept (memory s) (owns s) (memory (update f s)) (owns (update f s)) {}"
    by (simp add: others_kept_def eq update_memory)
qed

end

end
