(* ===== verification/KMem.thy ===== *)
theory KMem
  imports HeapProps PageAlloc Allocator
begin

text \<open>
  The kernel's memory interface, src/src/kernel/kernel/mem.c: \<open>kmalloc\<close> and \<open>kfree\<close> on the
  bitmap heap, which takes a fresh 4 MiB page as a superblock of 16-byte blocks when it is out
  of room. The invariant joins those of the page allocator and the heap; the interpretation at
  the end discharges the allocator contract for the kernel's own functions.
\<close>

section \<open>The code\<close>

record kmem =
  pages :: palloc
  kheap :: memheap
  ram :: mem

definition more_memory :: "kmem \<Rightarrow> kmem res" where
  "more_memory k =
     rbind (alloc_block (pages k) (ram k)) (\<lambda>(mem, p, m).
       rbind (memheap_add_block (kheap k) m mem PAGE_SIZE 16) (\<lambda>(h, m).
         Inr (k\<lparr>pages := p, kheap := h, ram := m\<rparr>)))"

definition mem_init :: "u32 list \<Rightarrow> kmem \<Rightarrow> kmem" where
  "mem_init cr3_directory k =
     (let k = k\<lparr>kheap := memheap_init (kheap k)\<rparr>
      in k\<lparr>pages := alloc_init cr3_directory (pages k)\<rparr>)"

definition kheap_alloc :: "kmem \<Rightarrow> u32 \<Rightarrow> (addr \<times> kmem) res" where
  "kheap_alloc k sz = rbind (memheap_alloc (kheap k) (ram k) sz) (\<lambda>(p, m). Inr (p, k\<lparr>ram := m\<rparr>))"

definition kmalloc :: "kmem \<Rightarrow> u32 \<Rightarrow> (addr \<times> kmem) res" where
  "kmalloc k sz =
     (if sz > PAGE_SIZE then Inl (Panic ''Bad Allocation Size... Max: %x, Attempt: %x'')
      else
        rbind (kheap_alloc k sz) (\<lambda>(data, k).
        rbind (if data = 0 then rbind (more_memory k) (\<lambda>k. kheap_alloc k sz) else Inr (data, k))
          (\<lambda>(data, k).
            if data = 0 then Inl (Panic ''Heap Allocation Failed!'') else Inr (data, k))))"

definition kfree :: "kmem \<Rightarrow> addr \<Rightarrow> kmem res" where
  "kfree k ptr =
     (if ptr \<noteq> 0 then rbind (memheap_free (kheap k) (ram k) ptr) (\<lambda>m. Inr (k\<lparr>ram := m\<rparr>))
      else Inr k)"

section \<open>The invariant\<close>

definition page_block :: "kmem \<Rightarrow> addr \<Rightarrow> bool" where
  "page_block k sb \<longleftrightarrow>
     sb_total_size (ram k) sb = PAGE_SIZE - 20 \<and> sb_block_size (ram k) sb = 16 \<and>
     unat sb = (unat sb div 4194304) * 4194304 \<and>
     present (page_directory (pages k)) (unat sb div 4194304)"

definition kmem_ok :: "kmem \<Rightarrow> addr list \<Rightarrow> bool" where
  "kmem_ok k sbs \<longleftrightarrow> palloc_ok (pages k) \<and> heap_ok (kheap k) (ram k) sbs \<and> (\<forall>sb \<in> set sbs. page_block k sb)"

lemma kmem_okD:
  assumes "kmem_ok k sbs"
  shows "palloc_ok (pages k)" "heap_ok (kheap k) (ram k) sbs" "sb \<in> set sbs \<Longrightarrow> page_block k sb"
  using assms by (auto simp: kmem_ok_def)

lemma page_block_region:
  assumes "page_block k sb"
  shows "a \<in> region (ram k) sb \<longleftrightarrow> unat a div 4194304 = unat sb div 4194304"
proof -
  have "unat (PAGE_SIZE - 20) = 4194284" by (simp add: PAGE_SIZE_def)
  moreover have "unat a div 4194304 = unat sb div 4194304 \<longleftrightarrow>
      (unat sb div 4194304) * 4194304 \<le> unat a \<and> unat a < (unat sb div 4194304) * 4194304 + 4194304"
    by (auto simp: div_nat_eqI)
  moreover have "unat sb = (unat sb div 4194304) * 4194304" using assms by (simp add: page_block_def)
  ultimately show ?thesis using assms by (simp only: region_def page_block_def mem_Collect_eq) linarith
qed

lemma chain_unique: "chain m p xs \<Longrightarrow> chain m p ys \<Longrightarrow> xs = ys"
proof (induction xs arbitrary: p ys)
  case Nil
  then show ?case by (cases ys) auto
next
  case (Cons x xs)
  then show ?case by (cases ys) auto
qed

lemma kmem_ok_unique: "kmem_ok k xs \<Longrightarrow> kmem_ok k ys \<Longrightarrow> xs = ys"
  using chain_unique by (auto simp: kmem_ok_def heap_ok_def)

text \<open>The pages of an update that keeps the sizes in the superblocks.\<close>

lemma page_block_kept:
  assumes "page_block k sb" "pages k' = pages k"
    and "sb_total_size (ram k') sb = sb_total_size (ram k) sb \<and> sb_block_size (ram k') sb = sb_block_size (ram k) sb"
  shows "page_block k' sb"
  using assms by (simp add: page_block_def)

section \<open>More memory\<close>

text \<open>A page has 262142 blocks of 16 bytes, of which the bitmap takes 16384.\<close>

definition max_request :: nat where
  "max_request = (262142 - 16384) * 16"

lemma page_counts:
  assumes "sb_total_size m sb = PAGE_SIZE - 20" "sb_block_size m sb = 16"
  shows "nblocks m sb = 262142" "nreserved m sb = 16384"
  using assms by (simp_all add: nblocks_def nreserved_def PAGE_SIZE_def)

lemma fresh_page_room:
  assumes sz: "sb_total_size m sb = PAGE_SIZE - 20" "sb_block_size m sb = 16"
    and bits: "\<forall>j < nblocks m sb. sb_bitmap m sb j = (if j < nreserved m sb then 1 else 0)"
    and pos: "0 < n"
  shows "has_room n m sb \<longleftrightarrow> unat n \<le> max_request"
proof -
  note cnt = page_counts [OF sz]
  have b: "blocks_for m sb n = (unat n + 15) div 16" by (simp add: blocks_for_def sz(2))
  have b0: "0 < blocks_for m sb n" using blocks_for_bounds(1) [of m sb n] sz pos by simp
  have "has_room n m sb \<longleftrightarrow> blocks_for m sb n \<le> 262142 - 16384"
  proof
    assume "has_room n m sb"
    then obtain i where i: "i + blocks_for m sb n \<le> 262142" "free_at (sb_bitmap m sb) i (blocks_for m sb n)"
      by (auto simp: has_room_def room_at_def cnt)
    have "sb_bitmap m sb i = 0" using i(2) b0 by (auto simp: free_at_def)
    then have "16384 \<le> i" using bits i(1) b0 cnt by (auto split: if_splits)
    then show "blocks_for m sb n \<le> 262142 - 16384" using i(1) by simp
  next
    assume "blocks_for m sb n \<le> 262142 - 16384"
    then have "room_at m sb n 16384" using bits by (auto simp: room_at_def cnt free_at_def)
    then show "has_room n m sb" by (auto simp: has_room_def)
  qed
  then show ?thesis by (auto simp: b max_request_def)
qed

lemma more_memory_page:
  assumes ok: "kmem_ok k sbs" and page: "alloc_block (pages k) (ram k) = Inr (v, p, m)" and v: "v \<noteq> 0"
  obtains k' where "more_memory k = Inr k'" "kmem_ok k' (v # sbs)"
    "heap_live (ram k') (v # sbs) = heap_live (ram k) sbs"
    "\<And>n. 0 < n \<Longrightarrow> has_room n (ram k') v \<longleftrightarrow> unat n \<le> max_request"
    "\<And>sb a. sb \<in> set sbs \<Longrightarrow> a \<in> region (ram k) sb \<Longrightarrow> ram k' a = ram k a"
    "pages k' = p" "\<And>a. unat a div 4194304 \<noteq> unat v div 4194304 \<Longrightarrow> ram k' a = ram k a"
proof -
  let ?i = "unat v div 4194304"
  note new = alloc_block_new_page [OF kmem_okD(1) [OF ok] page]
  have vi: "unat v = ?i * 4194304" "?i < 1024" using new by simp_all
  have out: "unat sb div 4194304 \<noteq> ?i" if "sb \<in> set sbs" for sb
    using kmem_okD(3) [OF ok that] new by (auto simp: page_block_def)
  have same: "m a = ram k a" if "sb \<in> set sbs" "a \<in> region (ram k) sb" for sb a
    using that out [OF that(1)] new page_block_region [OF kmem_okD(3) [OF ok that(1)]] by simp
  then have meta: "\<forall>a \<in> heap_metadata (ram k) sbs. m a = ram k a"
    using metadata_region by (fastforce simp: heap_metadata_def)
  note kept = heap_kept [OF kmem_okD(2) [OF ok] meta]
  have ps: "unat PAGE_SIZE = 4194304" by (simp add: PAGE_SIZE_def)
  have box: "{a. unat v \<le> unat a \<and> unat a < unat v + unat PAGE_SIZE} = {a. unat a div 4194304 = ?i}"
  proof -
    have "unat a div 4194304 = ?i \<longleftrightarrow> ?i * 4194304 \<le> unat a \<and> unat a < ?i * 4194304 + 4194304" for a :: addr
      by (auto simp: div_nat_eqI)
    then show ?thesis using vi(1) ps by auto
  qed
  have fresh: "\<forall>sb \<in> set sbs. region m sb \<inter> {a. unat v \<le> unat a \<and> unat a < unat v + unat PAGE_SIZE} = {}"
  proof -
    have "unat a div 4194304 = unat sb div 4194304" if "sb \<in> set sbs" "a \<in> region m sb" for sb a
      using that kept(5) page_block_region [OF kmem_okD(3) [OF ok that(1)]] by simp
    then show ?thesis unfolding box using out by fastforce
  qed
  have top: "unat v + unat PAGE_SIZE \<le> 2 ^ 32" using vi ps by simp
  have big: "20 < unat PAGE_SIZE" "(16 :: u32) \<noteq> 0" "unat PAGE_SIZE - 20 + unat (16 :: u32) \<le> 2 ^ 32"
    using ps by simp_all
  show thesis
  proof (rule memheap_add_block_spec [OF kept(1) v big(1) top big(2,3) fresh])
    fix m'
    assume add: "memheap_add_block (kheap k) m v PAGE_SIZE 16 = Inr ((kheap k)\<lparr>head := v\<rparr>, m')"
      and hok: "heap_ok ((kheap k)\<lparr>head := v\<rparr>) m' (v # sbs)" and live: "heap_live m' (v # sbs) = heap_live m sbs"
      and frame: "\<forall>a. \<not> (unat v \<le> unat a \<and> unat a < unat v + unat PAGE_SIZE) \<longrightarrow> m' a = m a"
      and flds: "sb_total_size m' v = PAGE_SIZE - 20" "sb_block_size m' v = 16"
      and bits: "\<forall>j < nblocks m' v. sb_bitmap m' v j = (if j < nreserved m' v then 1 else 0)"
      and "region m' v = {a. unat v \<le> unat a \<and> unat a < unat v + unat PAGE_SIZE}"
    let ?k = "k\<lparr>pages := p, kheap := (kheap k)\<lparr>head := v\<rparr>, ram := m'\<rparr>"
    have res: "more_memory k = Inr ?k" using page add by (simp add: more_memory_def)
    have apart: "m' a = ram k a" if "unat a div 4194304 \<noteq> ?i" for a
      using that frame box new by auto
    have frame': "m' a = ram k a" if "sb \<in> set sbs" "a \<in> region (ram k) sb" for sb a
      using that out page_block_region [OF kmem_okD(3) [OF ok that(1)]] by (intro apart) simp
    have old: "page_block ?k sb" if "sb \<in> set sbs" for sb
    proof -
      have sbok: "sb_ok (ram k) sb" using heap_okD(3) [OF kmem_okD(2) [OF ok] that] .
      have "\<forall>a \<in> region (ram k) sb. m' a = ram k a" using frame' that by blast
      note un = sb_untouched [OF sbok this]
      have "unat sb div 4194304 < 1024" using unat32 [of sb] by simp
      then have "page_directory p ! (unat sb div 4194304) = page_directory (pages k) ! (unat sb div 4194304)"
        using new out [OF that] by blast
      then show ?thesis
        using kmem_okD(3) [OF ok that] un(2,3) by (simp add: page_block_def present_def)
    qed
    have "page_block ?k v" using flds vi(1) new by (simp add: page_block_def)
    then have "kmem_ok ?k (v # sbs)" using new hok old by (simp add: kmem_ok_def)
    moreover have "heap_live (ram ?k) (v # sbs) = heap_live (ram k) sbs" using live kept(2) by simp
    moreover have "has_room n (ram ?k) v \<longleftrightarrow> unat n \<le> max_request" if "0 < n" for n
      using fresh_page_room [OF flds bits that] by simp
    ultimately show thesis using that [OF res] frame' apart by simp
  qed
qed

text \<open>When the cursor has wrapped the new page is page 0, and the heap loses its list.\<close>

lemma more_memory_null:
  assumes "alloc_block (pages k) (ram k) = Inr (0, p, m)"
  shows "\<exists>k'. more_memory k = Inr k' \<and> kheap_alloc k' n = Inr (0, k')"
proof -
  have "\<exists>m'. memheap_add_block (kheap k) m 0 PAGE_SIZE 16 = Inr ((kheap k)\<lparr>head := 0\<rparr>, m')"
    by (simp add: memheap_add_block_def Let_def sb_block_size_def)
  then obtain m' where "more_memory k = Inr (k\<lparr>pages := p, kheap := (kheap k)\<lparr>head := 0\<rparr>, ram := m'\<rparr>)"
    using assms by (auto simp: more_memory_def)
  then show ?thesis
    by (simp add: kheap_alloc_def memheap_alloc_def memheap_alloc_loop.simps)
qed

section \<open>Allocating and freeing\<close>

text \<open>The memory a live allocation owns, by the address it was handed out at.\<close>

definition kowns :: "kmem \<Rightarrow> (addr \<times> addr set) set" where
  "kowns k = {(p, B). \<exists>sbs sb i n. chain (ram k) (head (kheap k)) sbs \<and>
     (sb, i, n) \<in> heap_live (ram k) sbs \<and> p = block_ptr (ram k) sb i \<and> B = payload (ram k) (sb, i, n)}"

definition kowned :: "mem \<Rightarrow> addr \<times> nat \<times> nat \<Rightarrow> addr \<times> addr set" where
  "kowned m = (\<lambda>(sb, i, n). (block_ptr m sb i, payload m (sb, i, n)))"

lemma kowns_live:
  assumes "kmem_ok k sbs"
  shows "kowns k = kowned (ram k) ` heap_live (ram k) sbs"
proof -
  have "chain (ram k) (head (kheap k)) ys \<longleftrightarrow> ys = sbs" for ys
    using chain_unique kmem_okD(2) [OF assms] by (auto simp: heap_ok_def)
  then show ?thesis by (force simp: kowns_def kowned_def)
qed

text \<open>One allocation from the heap as it is.\<close>

lemma kheap_alloc_live:
  assumes ok: "kmem_ok k sbs" and n: "0 < n" and call: "kheap_alloc k n = Inr (p, k')" and p: "p \<noteq> 0"
  shows "kmem_ok k' sbs" "pages k' = pages k" "kheap k' = kheap k"
    "\<exists>sb i l. sb \<in> set sbs \<and> p = block_ptr (ram k') sb i \<and> unat n \<le> l * 16 \<and>
      (sb, i, l) \<notin> heap_live (ram k) sbs \<and> heap_live (ram k') sbs = insert (sb, i, l) (heap_live (ram k) sbs)"
    "x \<in> heap_live (ram k) sbs \<Longrightarrow> kowned (ram k') x = kowned (ram k) x"
    "a \<notin> heap_metadata (ram k) sbs \<Longrightarrow> ram k' a = ram k a"
proof -
  obtain m' where al: "memheap_alloc (kheap k) (ram k) n = Inr (p, m')" and k': "k' = k\<lparr>ram := m'\<rparr>"
    using call by (auto simp: kheap_alloc_def rbind_eq_Inr)
  obtain sb where sb: "sb \<in> set sbs" "has_room n (ram k) sb"
    and here: "alloc_here (ram k) sb (of_nat (first_room n (ram k) sb)) (of_nat (blocks_for (ram k) sb n)) = (p, m')"
    by (rule memheap_alloc_cases [OF kmem_okD(2) [OF ok] n]) (use al p in auto)
  note live = alloc_here_live [OF kmem_okD(2) [OF ok] n sb here]
  note flds = live(12)
  show "pages k' = pages k" "kheap k' = kheap k" by (simp_all add: k')
  have "page_block k' x" if "x \<in> set sbs" for x
    using page_block_kept [OF kmem_okD(3) [OF ok that], of k'] flds [OF that] by (simp add: k')
  then show "kmem_ok k' sbs" using ok live(3) by (simp add: kmem_ok_def k')
  have "unat n \<le> blocks_for (ram k) sb n * 16"
    using blocks_for_bounds(2) [of "ram k" sb n] n kmem_okD(3) [OF ok sb(1)] by (simp add: page_block_def)
  then show "\<exists>sb i l. sb \<in> set sbs \<and> p = block_ptr (ram k') sb i \<and> unat n \<le> l * 16 \<and>
      (sb, i, l) \<notin> heap_live (ram k) sbs \<and> heap_live (ram k') sbs = insert (sb, i, l) (heap_live (ram k) sbs)"
    using live(1,4,5,9) sb(1)
    by (intro exI [of _ sb] exI [of _ "first_room n (ram k) sb"] exI [of _ "blocks_for (ram k) sb n"])
      (simp add: k')
  show "kowned (ram k') x = kowned (ram k) x" if "x \<in> heap_live (ram k) sbs"
    using that flds by (auto simp: kowned_def payload_def block_ptr_def heap_live_def k')
  show "ram k' a = ram k a" if "a \<notin> heap_metadata (ram k) sbs" using live(7) that by (simp add: k')
qed

text \<open>The three ways through \<open>kmalloc\<close>.\<close>

lemma kheap_alloc_total:
  assumes "kmem_ok k sbs" "0 < n"
  shows "(\<exists>sb \<in> set sbs. has_room n (ram k) sb) \<and> (\<exists>p k'. kheap_alloc k n = Inr (p, k') \<and> p \<noteq> 0) \<or>
    (\<forall>sb \<in> set sbs. \<not> has_room n (ram k) sb) \<and> kheap_alloc k n = Inr (0, k)"
proof (rule memheap_alloc_cases [OF kmem_okD(2) [OF assms(1)] assms(2)])
  assume "memheap_alloc (kheap k) (ram k) n = Inr (0, ram k)" "\<forall>sb \<in> set sbs. \<not> has_room n (ram k) sb"
  then show ?thesis by (simp add: kheap_alloc_def)
next
  fix sb p m'
  assume sb: "sb \<in> set sbs" "has_room n (ram k) sb" and al: "memheap_alloc (kheap k) (ram k) n = Inr (p, m')"
    and here: "alloc_here (ram k) sb (of_nat (first_room n (ram k) sb)) (of_nat (blocks_for (ram k) sb n)) = (p, m')"
  then show ?thesis
    using alloc_here_live(2) [OF kmem_okD(2) [OF assms(1)] assms(2) sb here]
    by (auto simp: kheap_alloc_def)
qed

lemma kmalloc_cases:
  assumes ok: "kmem_ok k sbs" and n: "0 < n" "n \<le> PAGE_SIZE"
  obtains (heap) p k' where "kmalloc k n = Inr (p, k')" "kheap_alloc k n = Inr (p, k')" "p \<noteq> 0"
      "\<exists>sb \<in> set sbs. has_room n (ram k) sb"
  | (page) v p m k1 q k' where "kmalloc k n = Inr (q, k')" "\<forall>sb \<in> set sbs. \<not> has_room n (ram k) sb"
      "alloc_block (pages k) (ram k) = Inr (v, p, m)" "v \<noteq> 0" "more_memory k = Inr k1"
      "kheap_alloc k1 n = Inr (q, k')" "q \<noteq> 0" "unat n \<le> max_request"
  | (no_page) e where "kmalloc k n = Inl e" "\<forall>sb \<in> set sbs. \<not> has_room n (ram k) sb"
      "alloc_block (pages k) (ram k) = Inl e"
  | (failed) v p m where "kmalloc k n = Inl (Panic ''Heap Allocation Failed!'')"
      "\<forall>sb \<in> set sbs. \<not> has_room n (ram k) sb" "alloc_block (pages k) (ram k) = Inr (v, p, m)"
      "v = 0 \<or> max_request < unat n"
proof (cases "\<exists>sb \<in> set sbs. has_room n (ram k) sb")
  case True
  then obtain p k' where r: "kheap_alloc k n = Inr (p, k')" "p \<noteq> 0" using kheap_alloc_total [OF ok n(1)] by auto
  then have "kmalloc k n = Inr (p, k')" using n(2) by (simp add: kmalloc_def leD)
  then show thesis using heap r True by blast
next
  case False
  then have none: "\<forall>sb \<in> set sbs. \<not> has_room n (ram k) sb" by blast
  then have "kheap_alloc k n = Inr (0, k)" using kheap_alloc_total [OF ok n(1)] by auto
  then have km: "kmalloc k n = rbind (rbind (more_memory k) (\<lambda>k. kheap_alloc k n)) (\<lambda>(data, k).
      if data = 0 then Inl (Panic ''Heap Allocation Failed!'') else Inr (data, k))"
    using n(2) by (simp add: kmalloc_def leD)
  show thesis
  proof (cases "alloc_block (pages k) (ram k)")
    case (Inl e)
    then show thesis using no_page none km by (simp add: more_memory_def)
  next
    case (Inr r)
    then obtain v p m where r: "alloc_block (pages k) (ram k) = Inr (v, p, m)" by (cases r) auto
    show thesis
    proof (cases "v = 0")
      case True
      then show thesis using failed [OF _ none r] km more_memory_null [of k p m n] r by auto
    next
      case False
      obtain k1 where k1: "more_memory k = Inr k1" "kmem_ok k1 (v # sbs)"
        "has_room n (ram k1) v \<longleftrightarrow> unat n \<le> max_request"
        "\<And>sb a. sb \<in> set sbs \<Longrightarrow> a \<in> region (ram k) sb \<Longrightarrow> ram k1 a = ram k a"
        using more_memory_page [OF ok r False] n(1) by metis
      have old: "has_room n (ram k1) sb = has_room n (ram k) sb" if "sb \<in> set sbs" for sb
        using has_room_untouched [OF heap_okD(3) [OF kmem_okD(2) [OF ok] that]] k1(4) that by blast
      show thesis
      proof (cases "unat n \<le> max_request")
        case True
        then obtain q k' where q: "kheap_alloc k1 n = Inr (q, k')" "q \<noteq> 0"
          using kheap_alloc_total [OF k1(2) n(1)] k1(3) by auto
        then have "kmalloc k n = Inr (q, k')" using km k1(1) by simp
        then show thesis using page none r False k1(1) q True by blast
      next
        case big: False
        then have "kheap_alloc k1 n = Inr (0, k1)"
          using kheap_alloc_total [OF k1(2) n(1)] k1(3) old none by auto
        then show thesis using failed [OF _ none r] km k1(1) big by simp
      qed
    qed
  qed
qed

text \<open>What a successful \<open>kmalloc\<close> does to the memory that is owned.\<close>

lemma live_region:
  assumes "kmem_ok k sbs" "x \<in> heap_live (ram k) sbs"
  shows "\<exists>sb \<in> set sbs. payload (ram k) x \<subseteq> region (ram k) sb"
    "payload (ram k) x \<inter> heap_metadata (ram k) sbs = {}"
  using assms payload_inside(1) heap_okD(3) [OF kmem_okD(2) [OF assms(1)]]
    live_payloads(2) [OF kmem_okD(2) [OF assms(1)]]
  by (auto simp: heap_live_def) blast+

lemma more_memory_kowned:
  assumes ok: "kmem_ok k sbs" and x: "x \<in> heap_live (ram k) sbs"
    and kept: "\<And>sb a. sb \<in> set sbs \<Longrightarrow> a \<in> region (ram k) sb \<Longrightarrow> m' a = ram k a"
  shows "kowned m' x = kowned (ram k) x"
proof -
  obtain sb i n where xs: "x = (sb, i, n)" "sb \<in> set sbs" using x by (auto simp: heap_live_def)
  then have "sb_block_size m' sb = sb_block_size (ram k) sb"
    using sb_untouched(3) [OF heap_okD(3) [OF kmem_okD(2) [OF ok] xs(2)]] kept by blast
  then show ?thesis by (simp add: xs kowned_def payload_def block_ptr_def)
qed

lemma kmalloc_live:
  assumes ok: "kmem_ok k sbs" and n: "0 < n" and call: "kmalloc k n = Inr (p, k')"
  obtains sbs' sb i l where "kmem_ok k' sbs'" "p \<noteq> 0" "sb \<in> set sbs'" "p = block_ptr (ram k') sb i"
    "unat n \<le> l * 16" "(sb, i, l) \<notin> heap_live (ram k) sbs"
    "heap_live (ram k') sbs' = insert (sb, i, l) (heap_live (ram k) sbs)"
    "\<And>x. x \<in> heap_live (ram k) sbs \<Longrightarrow> kowned (ram k') x = kowned (ram k) x"
    "\<And>x a. x \<in> heap_live (ram k) sbs \<Longrightarrow> a \<in> payload (ram k) x \<Longrightarrow> ram k' a = ram k a"
proof -
  have le: "n \<le> PAGE_SIZE" using call by (auto simp: kmalloc_def split: if_splits)
  show thesis
  proof (rule kmalloc_cases [OF ok n le])
    fix q k2
    assume "kmalloc k n = Inr (q, k2)" and al: "kheap_alloc k n = Inr (q, k2)" and "q \<noteq> 0"
    then have eq: "q = p" "k2 = k'" "p \<noteq> 0" using call by auto
    note st = kheap_alloc_live [OF ok n al [unfolded eq] eq(3)]
    show thesis
      using st(4) that [OF st(1) eq(3)] st(5,6) live_region(2) [OF ok] by blast
  next
    fix v pg m k1 q k2
    assume "kmalloc k n = Inr (q, k2)" and page: "alloc_block (pages k) (ram k) = Inr (v, pg, m)" "v \<noteq> 0"
      and more: "more_memory k = Inr k1" and al: "kheap_alloc k1 n = Inr (q, k2)" and "q \<noteq> 0"
    then have eq: "q = p" "k2 = k'" "p \<noteq> 0" using call by auto
    obtain k1' where "more_memory k = Inr k1'" and k1': "kmem_ok k1' (v # sbs)"
      "heap_live (ram k1') (v # sbs) = heap_live (ram k) sbs"
      "\<And>sb a. sb \<in> set sbs \<Longrightarrow> a \<in> region (ram k) sb \<Longrightarrow> ram k1' a = ram k a"
      using more_memory_page [OF ok page] by metis
    then have k1: "k1' = k1" using more by simp
    note st = kheap_alloc_live [OF k1'(1) n, unfolded k1, OF al [unfolded eq] eq(3)]
    have own: "kowned (ram k1) x = kowned (ram k) x" if "x \<in> heap_live (ram k) sbs" for x
      using more_memory_kowned [OF ok that] k1'(3) unfolding k1 by blast
    then have pay: "payload (ram k1) x = payload (ram k) x" if "x \<in> heap_live (ram k) sbs" for x
      using that by (cases x) (fastforce simp: kowned_def)
    have keep: "ram k' a = ram k a" if "x \<in> heap_live (ram k) sbs" "a \<in> payload (ram k) x" for x a
    proof -
      have "a \<notin> heap_metadata (ram k1) (v # sbs)"
        using live_region(2) [OF k1'(1), of x] pay that k1'(2) unfolding k1 by blast
      then have "ram k' a = ram k1 a" by (rule st(6))
      also have "\<dots> = ram k a" using live_region(1) [OF ok that(1)] that(2) k1'(3) unfolding k1 by blast
      finally show ?thesis .
    qed
    show thesis
      using st(4) that [OF st(1) eq(3)] st(5) own keep k1'(2) unfolding k1 by metis
  qed (use call in auto)
qed

lemma kowned_bytes:
  assumes ok: "kmem_ok k sbs" and live: "(sb, i, l) \<in> heap_live (ram k) sbs" and n: "unat n \<le> l * 16" "j < n"
  shows "block_ptr (ram k) sb i + j \<in> payload (ram k) (sb, i, l)"
proof -
  have sb: "sb \<in> set sbs" "(i, l) \<in> sb_runs (ram k) sb" using live by (auto simp: heap_live_def)
  note sbok = heap_okD(3) [OF kmem_okD(2) [OF ok] sb(1)]
  have bs: "unat (sb_block_size (ram k) sb) = 16" using kmem_okD(3) [OF ok sb(1)] by (simp add: page_block_def)
  have il: "i < nblocks (ram k) sb" "i + l \<le> nblocks (ram k) sb"
    using sb(2) by (auto simp: sb_runs_def in_runs is_run_def)
  have "(i + l) * 16 \<le> unat (sb_total_size (ram k) sb)"
    using nblocks_mult_le [of "ram k" sb] il(2) bs by simp
  moreover have p: "unat (block_ptr (ram k) sb i) = unat sb + 20 + i * 16"
    using block_ptr_unat [OF sbok il(1)] bs by simp
  ultimately have "unat (block_ptr (ram k) sb i) + unat j < 2 ^ 32" "unat j < l * 16"
    using n sb_okD(4) [OF sbok] by (auto simp: word_less_nat_alt)
  moreover from this have "unat (block_ptr (ram k) sb i + j) = unat sb + 20 + i * 16 + unat j"
    using p by (simp add: unat_add_small)
  ultimately show ?thesis using payload_iff [OF sbok sb(2)] bs by (simp add: add_mult_distrib)
qed

lemma kfree_live:
  assumes ok: "kmem_ok k sbs" and live: "(sb, i, n) \<in> heap_live (ram k) sbs"
  obtains k' where "kfree k (block_ptr (ram k) sb i) = Inr k'" "kmem_ok k' sbs"
    "heap_live (ram k) sbs - {(sb, i, n)} \<subseteq> heap_live (ram k') sbs"
    "heap_live (ram k') sbs \<subseteq> heap_live (ram k) sbs"
    "unat sb div 4194304 \<noteq> 1023 \<Longrightarrow> heap_live (ram k') sbs = heap_live (ram k) sbs - {(sb, i, n)}"
    "\<And>x. x \<in> heap_live (ram k) sbs \<Longrightarrow> kowned (ram k') x = kowned (ram k) x"
    "\<And>x a. x \<in> heap_live (ram k) sbs \<Longrightarrow> a \<in> payload (ram k) x \<Longrightarrow> ram k' a = ram k a"
    "\<And>a. a \<notin> heap_metadata (ram k) sbs \<Longrightarrow> ram k' a = ram k a"
proof -
  let ?p = "block_ptr (ram k) sb i"
  have sb: "sb \<in> set sbs" "(i, n) \<in> sb_runs (ram k) sb" using live by (auto simp: heap_live_def)
  note hok = kmem_okD(2) [OF ok] and pb = kmem_okD(3) [OF ok sb(1)]
  note sbok = heap_okD(3) [OF hok sb(1)]
  have "i < nblocks (ram k) sb" using sb(2) by (auto simp: sb_runs_def in_runs is_run_def)
  then have p: "?p \<noteq> 0" using block_ptr_unat [OF sbok] by fastforce
  have T: "unat (sb_total_size (ram k) sb) = 4194284" using pb by (simp add: page_block_def PAGE_SIZE_def)
  have sbu: "unat sb = unat sb div 4194304 * 4194304" using pb by (simp add: page_block_def)
  have "unat sb div 4194304 < 1024" using unat32 [of sb] by simp
  then consider (low) "unat sb div 4194304 \<noteq> 1023" "unat sb + 20 + unat (sb_total_size (ram k) sb) < 2 ^ 32"
    | (top) "unat sb div 4194304 = 1023" using sbu T by (simp, linarith)
  then show thesis
  proof cases
    case low
    let ?m = "free_here (ram k) sb ?p"
    note fr = memheap_free_live [OF hok live low(2)]
    have res: "kfree k ?p = Inr (k\<lparr>ram := ?m\<rparr>)" using p fr(1) by (simp add: kfree_def)
    have "page_block (k\<lparr>ram := ?m\<rparr>) x" if "x \<in> set sbs" for x
      using page_block_kept [OF kmem_okD(3) [OF ok that]] fr(6) [OF that] by simp
    then have ok': "kmem_ok (k\<lparr>ram := ?m\<rparr>) sbs" using ok fr(2) by (simp add: kmem_ok_def)
    have own: "kowned (ram (k\<lparr>ram := ?m\<rparr>)) x = kowned (ram k) x" if "x \<in> heap_live (ram k) sbs" for x
      using that fr(6) by (auto simp: kowned_def payload_def block_ptr_def heap_live_def)
    have keep: "ram (k\<lparr>ram := ?m\<rparr>) a = ram k a" if "x \<in> heap_live (ram k) sbs" "a \<in> payload (ram k) x" for x a
      using fr(5) live_region(2) [OF ok that(1)] that(2) by auto
    show thesis using that [OF res ok' _ _ _ own keep] fr(3,5) by simp
  next
    case top
    have "reaches_top (ram k) sb" using sbu T top by (simp add: reaches_top_def)
    then have "memheap_free (kheap k) (ram k) ?p = Inr (ram k)" by (rule memheap_free_top [OF hok live])
    then have "kfree k ?p = Inr k" using p by (simp add: kfree_def)
    then show thesis using that [of k] ok top by simp
  qed
qed

definition kmem_inv :: "kmem \<Rightarrow> bool" where
  "kmem_inv k \<longleftrightarrow> (\<exists>sbs. kmem_ok k sbs)"

lemma ram_update_kept:
  assumes ok: "kmem_ok k sbs" and same: "\<forall>b \<in> heap_metadata (ram k) sbs. f (ram k) b = ram k b"
  shows "kmem_ok (ram_update f k) sbs" "kowns (ram_update f k) = kowns k"
proof -
  note kept = heap_kept [OF kmem_okD(2) [OF ok], of "f (ram k)", OF same]
  have "sb_total_size (f (ram k)) sb = sb_total_size (ram k) sb \<and>
      sb_block_size (f (ram k)) sb = sb_block_size (ram k) sb" if "sb \<in> set sbs" for sb
  proof -
    have "\<forall>b \<in> metadata (ram k) sb. f (ram k) b = ram k b"
      using same that by (auto simp: heap_metadata_def)
    then show ?thesis using sb_kept(2,3) [OF heap_okD(3) [OF kmem_okD(2) [OF ok] that]] by blast
  qed
  then have "page_block (ram_update f k) sb" if "sb \<in> set sbs" for sb
    using page_block_kept [OF kmem_okD(3) [OF ok that], of "ram_update f k"] that by simp
  then show ok': "kmem_ok (ram_update f k) sbs" using ok kept(1) by (simp add: kmem_ok_def)
  have "kowned (f (ram k)) y = kowned (ram k) y" if "y \<in> heap_live (ram k) sbs" for y
    using kept(4) [OF that] kept(6) that by (auto simp: kowned_def heap_live_def)
  then show "kowns (ram_update f k) = kowns k"
    unfolding kowns_live [OF ok] kowns_live [OF ok'] using kept(2) by (simp cong: image_cong)
qed

lemma ram_update_live:
  assumes ok: "kmem_ok k sbs" and x: "x \<in> heap_live (ram k) sbs"
    and f: "\<And>a. a \<notin> payload (ram k) x \<Longrightarrow> f (ram k) a = ram k a"
  shows "kmem_ok (ram_update f k) sbs" "kowns (ram_update f k) = kowns k"
proof -
  have "\<forall>b \<in> heap_metadata (ram k) sbs. f (ram k) b = ram k b"
    using live_region(2) [OF ok x] f by blast
  from ram_update_kept [OF ok, of f, OF this]
  show "kmem_ok (ram_update f k) sbs" "kowns (ram_update f k) = kowns k" .
qed

text \<open>The kernel's functions keep the allocator contract.\<close>

lemma kmalloc_fresh:
  assumes inv: "kmem_inv k" and n: "0 < n" and call: "kmalloc k n = Inr (p, k')"
  shows "kmem_inv k' \<and> p \<noteq> 0 \<and>
    (\<exists>B. (p, B) \<notin> kowns k \<and> kowns k' = insert (p, B) (kowns k) \<and> (\<forall>i < n. p + i \<in> B))"
    "(q, C) \<in> kowns k \<Longrightarrow> a \<in> C \<Longrightarrow> ram k' a = ram k a"
proof -
  obtain sbs where ok: "kmem_ok k sbs" using inv by (auto simp: kmem_inv_def)
  obtain sbs' sb i l where r: "kmem_ok k' sbs'" "p \<noteq> 0" "sb \<in> set sbs'" "p = block_ptr (ram k') sb i"
    "unat n \<le> l * 16" "(sb, i, l) \<notin> heap_live (ram k) sbs"
    "heap_live (ram k') sbs' = insert (sb, i, l) (heap_live (ram k) sbs)"
    "\<And>x. x \<in> heap_live (ram k) sbs \<Longrightarrow> kowned (ram k') x = kowned (ram k) x"
    "\<And>x a. x \<in> heap_live (ram k) sbs \<Longrightarrow> a \<in> payload (ram k) x \<Longrightarrow> ram k' a = ram k a"
    using kmalloc_live [OF ok n call] by metis
  let ?B = "payload (ram k') (sb, i, l)"
  have new: "(sb, i, l) \<in> heap_live (ram k') sbs'" using r(7) by simp
  have bytes: "\<forall>j < n. p + j \<in> ?B" using kowned_bytes [OF r(1) new r(5)] r(4) by simp
  have own: "kowns k' = insert (p, ?B) (kowns k)"
    unfolding kowns_live [OF r(1)] kowns_live [OF ok] r(7) using r(4,8) by (auto simp: kowned_def image_iff)
  have "(p, ?B) \<notin> kowns k"
  proof
    assume "(p, ?B) \<in> kowns k"
    then obtain x where x: "x \<in> heap_live (ram k) sbs" "kowned (ram k') x = (p, ?B)"
      using r(8) by (auto simp: kowns_live [OF ok])
    then have "payload (ram k') x = ?B" by (cases x) (simp add: kowned_def)
    moreover have "x \<in> heap_live (ram k') sbs'" "x \<noteq> (sb, i, l)" using x(1) r(6,7) by auto
    ultimately have "?B = {}" using live_payloads(1) [OF kmem_okD(2) [OF r(1)] _ new, of x] by simp
    then show False using bytes n by blast
  qed
  then show "kmem_inv k' \<and> p \<noteq> 0 \<and>
    (\<exists>B. (p, B) \<notin> kowns k \<and> kowns k' = insert (p, B) (kowns k) \<and> (\<forall>i < n. p + i \<in> B))"
    using r(1,2) own bytes by (auto simp: kmem_inv_def)
  show "ram k' a = ram k a" if "(q, C) \<in> kowns k" "a \<in> C"
    using that r(9) by (auto simp: kowns_live [OF ok] kowned_def)
qed

lemma kfree_owned:
  assumes inv: "kmem_inv k" and own: "(p, B) \<in> kowns k"
  shows "\<exists>k'. kfree k p = Inr k' \<and> kmem_inv k' \<and> kowns k - {(p, B)} \<subseteq> kowns k' \<and> kowns k' \<subseteq> kowns k \<and>
    (\<forall>q C a. (q, C) \<in> kowns k \<longrightarrow> a \<in> C \<longrightarrow> ram k' a = ram k a)"
proof -
  obtain sbs where ok: "kmem_ok k sbs" using inv by (auto simp: kmem_inv_def)
  obtain sb i n where live: "(sb, i, n) \<in> heap_live (ram k) sbs"
    and pB: "p = block_ptr (ram k) sb i" "B = payload (ram k) (sb, i, n)"
    using own by (auto simp: kowns_live [OF ok] kowned_def)
  obtain k' where r: "kfree k p = Inr k'" "kmem_ok k' sbs"
    "heap_live (ram k) sbs - {(sb, i, n)} \<subseteq> heap_live (ram k') sbs"
    "heap_live (ram k') sbs \<subseteq> heap_live (ram k) sbs"
    "\<And>x. x \<in> heap_live (ram k) sbs \<Longrightarrow> kowned (ram k') x = kowned (ram k) x"
    "\<And>x a. x \<in> heap_live (ram k) sbs \<Longrightarrow> a \<in> payload (ram k) x \<Longrightarrow> ram k' a = ram k a"
    using kfree_live [OF ok live] unfolding pB(1) by metis
  have lo: "kowns k - {(p, B)} \<subseteq> kowns k'"
  proof
    fix y assume "y \<in> kowns k - {(p, B)}"
    then obtain x where x: "x \<in> heap_live (ram k) sbs" "y = kowned (ram k) x" "y \<noteq> (p, B)"
      by (auto simp: kowns_live [OF ok])
    then have "x \<noteq> (sb, i, n)" using pB by (auto simp: kowned_def)
    then have "x \<in> heap_live (ram k') sbs" using x(1) r(3) by blast
    moreover have "y = kowned (ram k') x" using x(2) r(5) [OF x(1)] by simp
    ultimately show "y \<in> kowns k'" unfolding kowns_live [OF r(2)] by (rule rev_image_eqI)
  qed
  have hi: "kowns k' \<subseteq> kowns k"
    unfolding kowns_live [OF r(2)] kowns_live [OF ok] using r(4,5) by auto
  have "\<forall>q C a. (q, C) \<in> kowns k \<longrightarrow> a \<in> C \<longrightarrow> ram k' a = ram k a"
    using r(6) by (auto simp: kowns_live [OF ok] kowned_def)
  then show ?thesis using r(1,2) lo hi by (auto simp: kmem_inv_def)
qed

lemma image_remove_one:
  "(\<And>y. y \<in> A \<Longrightarrow> f y = b \<longleftrightarrow> y = x) \<Longrightarrow> f ` (A - {x}) = f ` A - {b}"
  by blast

lemma kfree_exact:
  assumes inv: "kmem_inv k" and own: "(p, B) \<in> kowns k" and low: "unat p div 4194304 \<noteq> 1023"
    and call: "kfree k p = Inr k'"
  shows "kowns k' = kowns k - {(p, B)}"
proof -
  obtain sbs where ok: "kmem_ok k sbs" using inv by (auto simp: kmem_inv_def)
  obtain sb i n where live: "(sb, i, n) \<in> heap_live (ram k) sbs"
    and pB: "p = block_ptr (ram k) sb i" "B = payload (ram k) (sb, i, n)"
    using own by (auto simp: kowns_live [OF ok] kowned_def)
  have sb: "sb \<in> set sbs" "(i, n) \<in> sb_runs (ram k) sb" using live by (auto simp: heap_live_def)
  have "0 < n" using sb(2) by (auto simp: sb_runs_def in_runs is_run_def)
  then have "p \<in> payload (ram k) (sb, i, n)" using kowned_bytes [OF ok live, of 1 0] pB by simp
  then have "p \<in> region (ram k) sb"
    using payload_inside(1) [OF heap_okD(3) [OF kmem_okD(2) [OF ok] sb(1)] sb(2)] by blast
  then have "unat sb div 4194304 \<noteq> 1023"
    using low page_block_region [OF kmem_okD(3) [OF ok sb(1)]] by simp
  then obtain k2 where r: "kfree k p = Inr k2" "kmem_ok k2 sbs"
    "heap_live (ram k2) sbs = heap_live (ram k) sbs - {(sb, i, n)}"
    "\<And>x. x \<in> heap_live (ram k) sbs \<Longrightarrow> kowned (ram k2) x = kowned (ram k) x"
    using kfree_live [OF ok live] unfolding pB(1) by metis
  then have k2: "k2 = k'" using call by simp
  have inj: "kowned (ram k) x = (p, B) \<longleftrightarrow> x = (sb, i, n)" if "x \<in> heap_live (ram k) sbs" for x
  proof
    assume "kowned (ram k) x = (p, B)"
    then have "payload (ram k) x = B" by (cases x) (simp add: kowned_def)
    then show "x = (sb, i, n)"
      using live_payloads(1) [OF kmem_okD(2) [OF ok] that live] pB \<open>p \<in> payload (ram k) (sb, i, n)\<close> by blast
  qed (simp add: kowned_def pB)
  have "kowned (ram k') ` (heap_live (ram k) sbs - {(sb, i, n)}) = kowned (ram k) ` (heap_live (ram k) sbs - {(sb, i, n)})"
    using r(4) unfolding k2 by (intro image_cong) auto
  then have "kowns k' = kowned (ram k) ` (heap_live (ram k) sbs - {(sb, i, n)})"
    using kowns_live [OF r(2)] r(3) unfolding k2 by simp
  also have "\<dots> = kowned (ram k) ` heap_live (ram k) sbs - {(p, B)}"
    by (rule image_remove_one) (rule inj)
  finally show ?thesis using kowns_live [OF ok] by simp
qed

lemma kowns_disjoint:
  assumes inv: "kmem_inv k" and "(p, B) \<in> kowns k" "(q, C) \<in> kowns k" "(p, B) \<noteq> (q, C)"
  shows "B \<inter> C = {}"
proof -
  obtain sbs where ok: "kmem_ok k sbs" using inv by (auto simp: kmem_inv_def)
  obtain x y where "x \<in> heap_live (ram k) sbs" "(p, B) = kowned (ram k) x"
    "y \<in> heap_live (ram k) sbs" "(q, C) = kowned (ram k) y"
    using assms(2,3) by (auto simp: kowns_live [OF ok])
  moreover from this have "B = payload (ram k) x" "C = payload (ram k) y" "x \<noteq> y"
    using assms(4) by (auto simp: kowned_def split: prod.splits)
  ultimately show ?thesis using live_payloads(1) [OF kmem_okD(2) [OF ok]] by blast
qed

lemma kowns_base:
  assumes inv: "kmem_inv k" and own: "(p, B) \<in> kowns k"
  shows "p \<in> B"
proof -
  obtain sbs where ok: "kmem_ok k sbs" using inv by (auto simp: kmem_inv_def)
  obtain sb i n where live: "(sb, i, n) \<in> heap_live (ram k) sbs"
    and pB: "p = block_ptr (ram k) sb i" "B = payload (ram k) (sb, i, n)"
    using own by (auto simp: kowns_live [OF ok] kowned_def)
  have "0 < n" using live by (auto simp: heap_live_def sb_runs_def in_runs is_run_def)
  then show ?thesis using kowned_bytes [OF ok live, of 1 0] pB by simp
qed

interpretation kernel: allocator kmalloc kfree ram ram_update kmem_inv kowns
proof unfold_locales
  show "kmem_inv s' \<and> p \<noteq> 0 \<and> (\<exists>B. (p, B) \<notin> kowns s \<and> kowns s' = insert (p, B) (kowns s) \<and> (\<forall>i < n. p + i \<in> B))"
    if "kmem_inv s" "0 < n" "kmalloc s n = Inr (p, s')" for s n p s'
    using kmalloc_fresh(1) [OF that] .
  show "ram s' a = ram s a" if "kmem_inv s" "0 < n" "kmalloc s n = Inr (p, s')" "(q, B) \<in> kowns s" "a \<in> B"
    for s n p s' q B a
    using kmalloc_fresh(2) [OF that(1-3)] that(4,5) .
  show "\<exists>s'. kfree s p = Inr s' \<and> kmem_inv s' \<and> kowns s - {(p, B)} \<subseteq> kowns s' \<and> kowns s' \<subseteq> kowns s \<and>
        (\<forall>q C a. (q, C) \<in> kowns s \<longrightarrow> a \<in> C \<longrightarrow> ram s' a = ram s a)"
    if "kmem_inv s" "(p, B) \<in> kowns s" for s p B
    by (rule kfree_owned [OF that])
  show "kfree s 0 = Inr s" for s by (simp add: kfree_def)
  show "kmem_inv (ram_update f s) \<and> kowns (ram_update f s) = kowns s"
    if "kmem_inv s" "(p, B) \<in> kowns s" "\<And>a. a \<notin> B \<Longrightarrow> f (ram s) a = ram s a" for s p B f
  proof -
    note pre = that
    obtain sbs where ok: "kmem_ok s sbs" using pre(1) by (auto simp: kmem_inv_def)
    obtain x where x: "x \<in> heap_live (ram s) sbs" "B = payload (ram s) x"
      using pre(2) by (auto simp: kowns_live [OF ok] kowned_def)
    show ?thesis using ram_update_live [OF ok x(1), of f] pre(3) unfolding kmem_inv_def x(2) by blast
  qed
  show "ram (ram_update f s) = f (ram s)" for f s by simp
  show "p \<in> B" if "kmem_inv s" "(p, B) \<in> kowns s" for s p B
    using kowns_base [OF that] .
  show "B \<inter> C = {}" if "kmem_inv s" "(p, B) \<in> kowns s" "(q, C) \<in> kowns s" "(p, B) \<noteq> (q, C)" for s p B q C
    using kowns_disjoint [OF that] .
qed

section \<open>What the kernel's clients get\<close>

text \<open>The kernel's memory after \<open>mem_init\<close> on the directory of boot.asm.\<close>

definition kboot :: "mem \<Rightarrow> kmem" where
  "kboot m = mem_init bootstrap_page_directory
     \<lparr>pages = \<lparr>virtual_addr = 0, page_directory = [], frame_bitmap = []\<rparr>, kheap = \<lparr>head = 0\<rparr>, ram = m\<rparr>"

lemma kboot_fields: "pages (kboot m) = booted" "kheap (kboot m) = memheap_init \<lparr>head = 0\<rparr>" "ram (kboot m) = m"
  by (simp_all add: kboot_def mem_init_def booted_def memheap_init_def)

lemma kboot_ok: "kmem_ok (kboot m) []"
  using booted_facts(1) heap_ok_empty by (simp add: kmem_ok_def kboot_fields)

lemma boot_kmalloc:
  assumes "0 < n" "unat n \<le> max_request"
  shows "\<exists>p k'. kmalloc (kboot m) n = Inr (p, k')"
proof (rule kmalloc_cases [OF kboot_ok [of m] assms(1)])
  show "n \<le> PAGE_SIZE" using assms(2) by (simp add: max_request_def PAGE_SIZE_def word_le_nat_alt)
  obtain s' where al: "alloc_block (pages (kboot m)) (ram (kboot m)) = Inr (4194304, s', memset m 4194304 0 PAGE_SIZE)"
    using booted_first by (auto simp: kboot_fields)
  show ?thesis if "alloc_block (pages (kboot m)) (ram (kboot m)) = Inl e" for e
    using that al by simp
  show ?thesis if "alloc_block (pages (kboot m)) (ram (kboot m)) = Inr (v, p, m')" "v = 0 \<or> max_request < unat n" for v p m'
    using that al assms(2) by simp
qed blast+

text \<open>The kernel states with \<open>j\<close> pages handed out since boot.\<close>

definition running :: "nat \<Rightarrow> kmem \<Rightarrow> bool" where
  "running j k \<longleftrightarrow> kmem_inv k \<and> after_boot j (pages k)"

lemma kboot_running: "running 0 (kboot m)"
  using kboot_ok booted_facts booted_frames
  by (auto simp: running_def kmem_inv_def kboot_fields after_boot_def numeral_2_eq_2)

lemma kheap_alloc_pages: "kheap_alloc k n = Inr (p, k') \<Longrightarrow> pages k' = pages k"
  by (auto simp: kheap_alloc_def rbind_eq_Inr)

lemma kfree_pages: "kfree k p = Inr k' \<Longrightarrow> pages k' = pages k"
  by (auto simp: kfree_def rbind_eq_Inr split: if_splits)

lemma kmalloc_running:
  assumes "running j k" "j < 1021" "0 < n" "unat n \<le> max_request"
  shows "\<exists>p k' j'. kmalloc k n = Inr (p, k') \<and> running j' k' \<and> j \<le> j' \<and> j' \<le> Suc j"
proof -
  obtain sbs where ok: "kmem_ok k sbs" using assms(1) by (auto simp: running_def kmem_inv_def)
  have le: "n \<le> PAGE_SIZE" using assms(4) by (simp add: max_request_def PAGE_SIZE_def word_le_nat_alt)
  obtain p1 where pg: "alloc_block (pages k) (ram k) = Inr (page (slot j), p1, memset (ram k) (page (slot j)) 0 PAGE_SIZE)"
    "after_boot (Suc j) p1"
    using after_boot_step [of j "pages k" "ram k"] assms(1,2) by (auto simp: running_def)
  have "unat (page (slot j)) = slot j * 4194304"
    using assms(2) by (simp add: unat_page slot_mod slot_def)
  then have nz: "page (slot j) \<noteq> 0" by (auto simp: slot_def)
  have inv: "kmem_inv k'" if "kmalloc k n = Inr (p, k')" for p k'
    using kernel.malloc_fresh [OF _ assms(3) that] assms(1) by (auto simp: running_def)
  show ?thesis
  proof (rule kmalloc_cases [OF ok assms(3) le])
    fix p k' assume r: "kmalloc k n = Inr (p, k')" "kheap_alloc k n = Inr (p, k')"
    then have "running j k'" using assms(1) inv [OF r(1)] kheap_alloc_pages [OF r(2)] by (simp add: running_def)
    then show ?thesis using r by (intro exI [of _ p] exI [of _ k'] exI [of _ j]) simp
  next
    fix v p m k1 q k'
    assume r: "kmalloc k n = Inr (q, k')" "alloc_block (pages k) (ram k) = Inr (v, p, m)"
      "more_memory k = Inr k1" "kheap_alloc k1 n = Inr (q, k')"
    have "pages k1 = p1" using r(2,3) pg(1) by (auto simp: more_memory_def rbind_eq_Inr)
    then have "running (Suc j) k'"
      using pg(2) inv [OF r(1)] kheap_alloc_pages [OF r(4)] by (simp add: running_def)
    then show ?thesis using r(1) by (intro exI [of _ q] exI [of _ k'] exI [of _ "Suc j"]) simp
  next
    fix e assume "alloc_block (pages k) (ram k) = Inl e"
    then show ?thesis using pg(1) by simp
  next
    fix v p m assume "alloc_block (pages k) (ram k) = Inr (v, p, m)" "v = 0 \<or> max_request < unat n"
    then show ?thesis using pg(1) nz assms(4) by simp
  qed
qed

lemma kfree_running: "running j k \<Longrightarrow> (p, B) \<in> kowns k \<Longrightarrow> kfree k p = Inr k' \<Longrightarrow> running j k'"
  using kernel.mfree_owned [of k p B] kfree_pages [of k p k'] by (auto simp: running_def)

text \<open>
  C15: a kernel that has handed out fewer than 1021 pages since boot never refuses memory: every
  request of 1 to 3932128 bytes succeeds, and takes at most one page.
\<close>

theorem kmalloc_succeeds:
  assumes "kmem_inv k" "after_boot j (pages k)" "j < 1021" "0 < n" "unat n \<le> 3932128"
  shows "\<exists>p k' j'. kmalloc k n = Inr (p, k') \<and> p \<noteq> 0 \<and> kmem_inv k' \<and> after_boot j' (pages k') \<and> (j' = j \<or> j' = Suc j)"
proof -
  obtain p k' j' where r: "kmalloc k n = Inr (p, k')" "running j' k'" "j \<le> j'" "j' \<le> Suc j"
    using kmalloc_running [of j k n] assms by (auto simp: running_def max_request_def)
  then show ?thesis
    using kernel.malloc_fresh [OF assms(1,4) r(1)]
    by (intro exI [of _ p] exI [of _ k'] exI [of _ j']) (auto simp: running_def)
qed

theorem kmalloc_succeeds_witness:
  "\<exists>p k' j'. kmalloc (kboot (\<lambda>_. 0)) 3932128 = Inr (p, k') \<and> p \<noteq> 0 \<and> kmem_inv k' \<and>
    after_boot j' (pages k') \<and> (j' = 0 \<or> j' = Suc 0)"
  by (rule kmalloc_succeeds) (use kboot_running in \<open>simp_all add: running_def\<close>)

text \<open>
  C1: a successful \<open>kmalloc\<close> of a nonzero size returns a non-null address that owns at least
  the requested bytes, none of which belongs to an object that was already owned; exactly this
  object is added to the owned ones, their contents are untouched, and the joint invariant of
  heap and page allocator is kept, also when the heap had to take a new page.
\<close>

theorem kmalloc_correct:
  assumes "kmem_inv k" "0 < n" "kmalloc k n = Inr (p, k')"
  shows "kmem_inv k' \<and> p \<noteq> 0 \<and>
    (\<exists>B. kowns k' = insert (p, B) (kowns k) \<and> (p, B) \<notin> kowns k \<and> (\<forall>i < n. p + i \<in> B)) \<and>
    (\<forall>q C i. (q, C) \<in> kowns k \<longrightarrow> i < n \<longrightarrow> p + i \<notin> C) \<and>
    (\<forall>q C a. (q, C) \<in> kowns k \<longrightarrow> a \<in> C \<longrightarrow> ram k' a = ram k a)"
  using kernel.malloc_fresh [OF assms] kernel.malloc_disjoint [OF assms] kernel.malloc_frame [OF assms]
  by blast

theorem kmalloc_correct_witness:
  "\<exists>p k'. kmalloc (kboot (\<lambda>_. 0)) 100 = Inr (p, k') \<and> kmem_inv k' \<and> p \<noteq> 0 \<and>
    (\<exists>B. kowns k' = insert (p, B) (kowns (kboot (\<lambda>_. 0))) \<and> (\<forall>i < 100. p + i \<in> B))"
proof -
  obtain p k' where r: "kmalloc (kboot (\<lambda>_. 0)) 100 = Inr (p, k')"
    using boot_kmalloc [of 100 "\<lambda>_. 0"] by (auto simp: max_request_def)
  have "kmem_inv (kboot (\<lambda>_. 0))" using kboot_ok by (auto simp: kmem_inv_def)
  then show ?thesis using kmalloc_correct [OF _ _ r] r by auto
qed

text \<open>
  C5: \<open>kfree\<close> of an owned address returns, keeps the invariant and the contents of every owned
  object, and gives up no other object. It gives up the freed object unless the object lies in
  the last page of the address space, where the heap's range test wraps and the object leaks.
\<close>

theorem kfree_correct:
  assumes "kmem_inv k" "(p, B) \<in> kowns k"
  shows "\<exists>k'. kfree k p = Inr k' \<and> kmem_inv k' \<and> kowns k - {(p, B)} \<subseteq> kowns k' \<and> kowns k' \<subseteq> kowns k \<and>
    (unat p div 4194304 \<noteq> 1023 \<longrightarrow> kowns k' = kowns k - {(p, B)}) \<and>
    (\<forall>q C a. (q, C) \<in> kowns k \<longrightarrow> a \<in> C \<longrightarrow> ram k' a = ram k a)"
proof -
  obtain k' where r: "kfree k p = Inr k'" "kmem_inv k'" "kowns k - {(p, B)} \<subseteq> kowns k'" "kowns k' \<subseteq> kowns k"
    "\<forall>q C a. (q, C) \<in> kowns k \<longrightarrow> a \<in> C \<longrightarrow> ram k' a = ram k a"
    using kernel.mfree_owned [OF assms] by blast
  moreover have "kowns k' = kowns k - {(p, B)}" if "unat p div 4194304 \<noteq> 1023"
    using kfree_exact [OF assms that r(1)] .
  ultimately show ?thesis by blast
qed

theorem kfree_correct_witness:
  "\<exists>p B k k'. (p, B) \<in> kowns k \<and> kfree k p = Inr k' \<and> kmem_inv k' \<and> kowns k - {(p, B)} \<subseteq> kowns k'"
proof -
  obtain p k where r: "kmalloc (kboot (\<lambda>_. 0)) 100 = Inr (p, k)"
    using boot_kmalloc [of 100 "\<lambda>_. 0"] by (auto simp: max_request_def)
  have "kmem_inv (kboot (\<lambda>_. 0))" using kboot_ok by (auto simp: kmem_inv_def)
  then obtain B where "kmem_inv k" "(p, B) \<in> kowns k" using kernel.malloc_fresh [OF _ _ r] by auto
  then obtain k' where "kfree k p = Inr k'" "kmem_inv k'" "kowns k - {(p, B)} \<subseteq> kowns k'"
    using kfree_correct [of k p B] by auto
  with \<open>(p, B) \<in> kowns k\<close> show ?thesis by (intro exI conjI)
qed

text \<open>
  C16: \<open>kmalloc\<close> panics exactly when it must: when the request is larger than a page, or when no
  superblock has room and either the request exceeds the 3932128 bytes that a fresh page can
  hold besides its bitmap, or the page allocator fails or has wrapped to the null page.
\<close>

theorem kmalloc_panics:
  assumes "kmem_ok k sbs" "0 < n"
  shows "(\<exists>e. kmalloc k n = Inl e) \<longleftrightarrow>
    PAGE_SIZE < n \<or> filter (has_room n (ram k)) sbs = [] \<and>
      (3932128 < unat n \<or> (case alloc_block (pages k) (ram k) of Inl e \<Rightarrow> True | Inr (v, p, m) \<Rightarrow> v = 0))"
proof (cases "PAGE_SIZE < n")
  case True
  then show ?thesis by (simp add: kmalloc_def)
next
  case False
  then have le: "n \<le> PAGE_SIZE" by simp
  have none: "filter (has_room n (ram k)) sbs = [] \<longleftrightarrow> (\<forall>sb \<in> set sbs. \<not> has_room n (ram k) sb)"
    by (simp add: filter_empty_conv)
  have mx: "max_request = 3932128" by (simp add: max_request_def)
  show ?thesis
    unfolding none by (rule kmalloc_cases [OF assms le]) (use False mx in \<open>auto\<close>)
qed

theorem kmalloc_panics_witness:
  "(\<exists>e. kmalloc (kboot (\<lambda>_. 0)) 3932129 = Inl e) \<longleftrightarrow>
    PAGE_SIZE < 3932129 \<or> filter (has_room 3932129 (ram (kboot (\<lambda>_. 0)))) [] = [] \<and>
      (3932128 < unat (3932129 :: u32) \<or>
       (case alloc_block (pages (kboot (\<lambda>_. 0))) (ram (kboot (\<lambda>_. 0))) of Inl e \<Rightarrow> True | Inr (v, p, m) \<Rightarrow> v = 0))"
  by (rule kmalloc_panics [OF kboot_ok]) simp

end
