(* ===== verification/DynArray.thy ===== *)
theory DynArray
  imports KMem
begin

text \<open>
  The kernel's growable array of pointers, src/src/kernel/ds/array.c. The operations take the
  allocator they call (\<open>kmalloc\<close>, \<open>kfree\<close>, and how memory is read and written) as parameters;
  their lemmas are proved from the allocator contract alone and then hold for the kernel's
  allocator by its interpretation. An array is the structure \<open>size\<close>, \<open>used\<close>, \<open>data\<close> at
  \<open>arr\<close>, \<open>arr + 4\<close> and \<open>arr + 8\<close>, and a block of pointers at \<open>data\<close>.
\<close>

section \<open>The code\<close>

definition arr_size :: "mem \<Rightarrow> addr \<Rightarrow> u32" where
  "arr_size m arr = load32 m arr"

definition arr_used :: "mem \<Rightarrow> addr \<Rightarrow> u32" where
  "arr_used m arr = load32 m (arr + 4)"

definition arr_data :: "mem \<Rightarrow> addr \<Rightarrow> addr" where
  "arr_data m arr = load32 m (arr + 8)"

text \<open>The expression \<open>array->data[i]\<close>: its address and its value.\<close>

definition arr_slot_addr :: "mem \<Rightarrow> addr \<Rightarrow> u32 \<Rightarrow> addr" where
  "arr_slot_addr m arr i = arr_data m arr + 4 * i"

definition arr_slot :: "mem \<Rightarrow> addr \<Rightarrow> u32 \<Rightarrow> addr" where
  "arr_slot m arr i = load32 m (arr_slot_addr m arr i)"

definition growth_factor :: u32 where
  "growth_factor = 2"

definition array_create ::
    "('s \<Rightarrow> u32 \<Rightarrow> (addr \<times> 's) res) \<Rightarrow> ((mem \<Rightarrow> mem) \<Rightarrow> 's \<Rightarrow> 's) \<Rightarrow> 's \<Rightarrow> u32 \<Rightarrow> (addr \<times> 's) res" where
  "array_create malloc update s initial_size =
     rbind (malloc s 12) (\<lambda>(arr, s).
       let s = put32 update s (arr + 4) 0;
           s = put32 update s arr initial_size
       in rbind (malloc s (initial_size * 4)) (\<lambda>(data, s). Inr (arr, put32 update s (arr + 8) data)))"

definition grow ::
    "('s \<Rightarrow> u32 \<Rightarrow> (addr \<times> 's) res) \<Rightarrow> ('s \<Rightarrow> addr \<Rightarrow> 's res) \<Rightarrow> ('s \<Rightarrow> mem) \<Rightarrow>
      ((mem \<Rightarrow> mem) \<Rightarrow> 's \<Rightarrow> 's) \<Rightarrow> 's \<Rightarrow> addr \<Rightarrow> 's res" where
  "grow malloc mfree memory update s arr =
     (let s = put32 update s arr (arr_size (memory s) arr * growth_factor)
      in rbind (malloc s (arr_size (memory s) arr * 4)) (\<lambda>(tmp, s).
        let s = update (\<lambda>m. snd (memcpy m tmp (arr_data m arr) (arr_used m arr * 4))) s
        in rbind (mfree s (arr_data (memory s) arr)) (\<lambda>s. Inr (put32 update s (arr + 8) tmp))))"

definition array_add ::
    "('s \<Rightarrow> u32 \<Rightarrow> (addr \<times> 's) res) \<Rightarrow> ('s \<Rightarrow> addr \<Rightarrow> 's res) \<Rightarrow> ('s \<Rightarrow> mem) \<Rightarrow>
      ((mem \<Rightarrow> mem) \<Rightarrow> 's \<Rightarrow> 's) \<Rightarrow> 's \<Rightarrow> addr \<Rightarrow> addr \<Rightarrow> 's res" where
  "array_add malloc mfree memory update s arr elem =
     rbind (if arr_used (memory s) arr = arr_size (memory s) arr
            then grow malloc mfree memory update s arr else Inr s) (\<lambda>s.
       let used = arr_used (memory s) arr;
           s = put32 update s (arr + 4) (used + 1)
       in Inr (put32 update s (arr_slot_addr (memory s) arr used) elem))"

definition array_get :: "mem \<Rightarrow> addr \<Rightarrow> u32 \<Rightarrow> addr" where
  "array_get m arr idx = (if idx > arr_used m arr then 0 else arr_slot m arr idx)"

text \<open>
  The test of the search loop. A null \<open>cmp\<close> is \<open>None\<close>; a comparator may read memory.
\<close>

definition elem_matches :: "mem \<Rightarrow> (mem \<Rightarrow> addr \<Rightarrow> addr \<Rightarrow> bool) option \<Rightarrow> addr \<Rightarrow> addr \<Rightarrow> bool" where
  "elem_matches m cmp elem x \<longleftrightarrow> (case cmp of None \<Rightarrow> False | Some c \<Rightarrow> c m elem x) \<or> x = elem"

function find_elem :: "mem \<Rightarrow> addr \<Rightarrow> (mem \<Rightarrow> addr \<Rightarrow> addr \<Rightarrow> bool) option \<Rightarrow> addr \<Rightarrow> u32 \<Rightarrow> u32" where
  "find_elem m arr cmp elem idx =
     (if idx < arr_used m arr then
        if elem_matches m cmp elem (arr_slot m arr idx) then idx else find_elem m arr cmp elem (idx + 1)
      else idx)"
  by pat_completeness auto
termination
  by (relation "measure (\<lambda>(m, arr, cmp, elem, idx). unat (arr_used m arr - idx))") (auto simp: loop_measure)

declare find_elem.simps [simp del]

text \<open>
  The shift of the tail. The loop stores through \<open>void *\<close> slots, which cannot alias the
  \<open>size_t\<close> and \<open>void **\<close> fields, so \<open>size\<close> and \<open>data\<close> are those at its entry.
\<close>

function shift_loop :: "mem \<Rightarrow> addr \<Rightarrow> u32 \<Rightarrow> u32 \<Rightarrow> mem" where
  "shift_loop m data final idx =
     (if idx < final then shift_loop (store32 m (data + 4 * idx) (load32 m (data + 4 * (idx + 1)))) data final (idx + 1)
      else m)"
  by pat_completeness auto
termination
  by (relation "measure (\<lambda>(m, data, final, idx). unat (final - idx))") (auto simp: loop_measure)

declare shift_loop.simps [simp del]

definition remove_elem ::
    "('s \<Rightarrow> addr \<Rightarrow> 's res) \<Rightarrow> ('s \<Rightarrow> mem) \<Rightarrow> ((mem \<Rightarrow> mem) \<Rightarrow> 's \<Rightarrow> 's) \<Rightarrow> 's \<Rightarrow> addr \<Rightarrow> addr \<Rightarrow>
      ('s \<Rightarrow> addr \<Rightarrow> 's res) option \<Rightarrow> (mem \<Rightarrow> addr \<Rightarrow> addr \<Rightarrow> bool) option \<Rightarrow> 's res" where
  "remove_elem mfree memory update s arr elem del cmp =
     (let idx = find_elem (memory s) arr cmp elem 0
      in if idx = arr_used (memory s) arr then Inr s
         else rbind ((case del of None \<Rightarrow> mfree | Some d \<Rightarrow> d) s (arr_slot (memory s) arr idx)) (\<lambda>s.
           let s = update (\<lambda>m. shift_loop m (arr_data m arr) (arr_size m arr - 1) idx) s
           in Inr (put32 update s (arr + 4) (arr_used (memory s) arr - 1))))"

definition array_remove ::
    "('s \<Rightarrow> addr \<Rightarrow> 's res) \<Rightarrow> ('s \<Rightarrow> mem) \<Rightarrow> ((mem \<Rightarrow> mem) \<Rightarrow> 's \<Rightarrow> 's) \<Rightarrow> 's \<Rightarrow> addr \<Rightarrow> addr \<Rightarrow> 's res" where
  "array_remove mfree memory update s arr elem = remove_elem mfree memory update s arr elem None None"

definition array_remove_cmp ::
    "('s \<Rightarrow> addr \<Rightarrow> 's res) \<Rightarrow> ('s \<Rightarrow> mem) \<Rightarrow> ((mem \<Rightarrow> mem) \<Rightarrow> 's \<Rightarrow> 's) \<Rightarrow> 's \<Rightarrow> addr \<Rightarrow> addr \<Rightarrow>
      (mem \<Rightarrow> addr \<Rightarrow> addr \<Rightarrow> bool) option \<Rightarrow> 's res" where
  "array_remove_cmp mfree memory update s arr elem cmp = remove_elem mfree memory update s arr elem None cmp"

definition array_delete ::
    "('s \<Rightarrow> addr \<Rightarrow> 's res) \<Rightarrow> ('s \<Rightarrow> mem) \<Rightarrow> ((mem \<Rightarrow> mem) \<Rightarrow> 's \<Rightarrow> 's) \<Rightarrow> 's \<Rightarrow> addr \<Rightarrow> addr \<Rightarrow>
      ('s \<Rightarrow> addr \<Rightarrow> 's res) option \<Rightarrow> 's res" where
  "array_delete mfree memory update s arr elem del = remove_elem mfree memory update s arr elem del None"

definition array_delete_cmp ::
    "('s \<Rightarrow> addr \<Rightarrow> 's res) \<Rightarrow> ('s \<Rightarrow> mem) \<Rightarrow> ((mem \<Rightarrow> mem) \<Rightarrow> 's \<Rightarrow> 's) \<Rightarrow> 's \<Rightarrow> addr \<Rightarrow> addr \<Rightarrow>
      ('s \<Rightarrow> addr \<Rightarrow> 's res) option \<Rightarrow> (mem \<Rightarrow> addr \<Rightarrow> addr \<Rightarrow> bool) option \<Rightarrow> 's res" where
  "array_delete_cmp mfree memory update s arr elem del cmp = remove_elem mfree memory update s arr elem del cmp"

partial_function (option) destroy_loop ::
    "('s \<Rightarrow> addr \<Rightarrow> 's res) \<Rightarrow> ('s \<Rightarrow> mem) \<Rightarrow> addr \<Rightarrow> 's \<Rightarrow> u32 \<Rightarrow> 's res option" where
  "destroy_loop d memory arr s i =
     (if i < arr_used (memory s) arr then
        case d s (arr_slot (memory s) arr i) of
          Inl e \<Rightarrow> Some (Inl e)
        | Inr s \<Rightarrow> destroy_loop d memory arr s (i + 1)
      else Some (Inr s))"

declare destroy_loop.simps [code]

definition array_destroy ::
    "('s \<Rightarrow> addr \<Rightarrow> 's res) \<Rightarrow> ('s \<Rightarrow> mem) \<Rightarrow> 's \<Rightarrow> addr \<Rightarrow> ('s \<Rightarrow> addr \<Rightarrow> 's res) option \<Rightarrow> 's res" where
  "array_destroy mfree memory s arr del =
     rbind (run (destroy_loop (case del of None \<Rightarrow> mfree | Some d \<Rightarrow> d) memory arr s 0)) (\<lambda>s.
       rbind (mfree s (arr_data (memory s) arr)) (\<lambda>s. mfree s arr))"

section \<open>What an array holds\<close>

text \<open>
  The array at \<open>arr\<close> owns the blocks \<open>B\<close> (its structure) and \<open>D\<close> (its slots) among the objects
  \<open>O\<close>, has room for at least one element, and holds \<open>xs\<close>.
\<close>

definition array_in :: "mem \<Rightarrow> (addr \<times> addr set) set \<Rightarrow> addr \<Rightarrow> addr set \<Rightarrow> addr set \<Rightarrow> addr list \<Rightarrow> bool" where
  "array_in m own arr B D xs \<longleftrightarrow>
     (arr, B) \<in> own \<and> (arr_data m arr, D) \<in> own \<and> arr \<noteq> arr_data m arr \<and>
     span arr 12 \<subseteq> B \<and> span (arr_data m arr) (arr_size m arr * 4) \<subseteq> D \<and>
     arr_size m arr \<noteq> 0 \<and> unat (arr_size m arr) * 4 < 2 ^ 32 \<and> arr_used m arr \<le> arr_size m arr \<and>
     xs = map (\<lambda>i. arr_slot m arr (of_nat i)) [0..<unat (arr_used m arr)]"

lemma array_inD:
  assumes "array_in m own arr B D xs"
  shows "(arr, B) \<in> own" "(arr_data m arr, D) \<in> own" "arr \<noteq> arr_data m arr" "span arr 12 \<subseteq> B"
    "span (arr_data m arr) (arr_size m arr * 4) \<subseteq> D" "arr_size m arr \<noteq> 0" "unat (arr_size m arr) * 4 < 2 ^ 32"
    "arr_used m arr \<le> arr_size m arr" "xs = map (\<lambda>i. arr_slot m arr (of_nat i)) [0..<unat (arr_used m arr)]"
    "length xs = unat (arr_used m arr)"
  using assms by (simp_all add: array_in_def)

lemma arr_fields:
  "arr_size (store32 m arr v) arr = v" "arr_used (store32 m arr v) arr = arr_used m arr"
  "arr_data (store32 m arr v) arr = arr_data m arr"
  "arr_size (store32 m (arr + 4) v) arr = arr_size m arr" "arr_used (store32 m (arr + 4) v) arr = v"
  "arr_data (store32 m (arr + 4) v) arr = arr_data m arr"
  "arr_size (store32 m (arr + 8) v) arr = arr_size m arr" "arr_used (store32 m (arr + 8) v) arr = arr_used m arr"
  "arr_data (store32 m (arr + 8) v) arr = v"
  by (simp_all add: arr_size_def arr_used_def arr_data_def)
    (simp_all add: load32_def store32_def)

lemma arr_field_spans: "span arr 4 \<subseteq> span arr 12" "span (arr + 4) 4 \<subseteq> span arr 12" "span (arr + 8) 4 \<subseteq> span arr 12"
  using in_span_offset [of 4 4 _ arr] in_span_offset [of 8 4 _ arr]
  by (auto simp: in_span word_less_nat_alt)

lemma unat_slot_offset:
  fixes i n :: u32
  assumes "i < n" "unat n * 4 < 2 ^ 32"
  shows "unat (4 * i) = 4 * unat i" "4 * unat i + 4 \<le> 4 * unat n" "unat (n * 4) = 4 * unat n"
proof -
  have lt: "unat i < unat n" using assms(1) by (simp add: word_less_nat_alt)
  then show "4 * unat i + 4 \<le> 4 * unat n" by simp
  show "unat (4 * i) = 4 * unat i" using lt assms(2) unat_mult_small [of "4 :: u32" i] by simp
  show "unat (n * 4) = 4 * unat n" using assms(2) by (simp add: unat_mult_small)
qed

lemma in_slot:
  assumes "i < n" "unat n * 4 < 2 ^ 32"
  shows "a \<in> span (d + 4 * i) 4 \<longleftrightarrow> 4 * unat i \<le> unat (a - d) \<and> unat (a - d) < 4 * unat i + 4"
proof -
  note u = unat_slot_offset [OF assms]
  have "unat (4 * i) + unat (4 :: u32) < 2 ^ 32" using u assms(2) by simp
  then show ?thesis using in_span_offset [of "4 * i" 4 a d] u by (simp add: word_le_nat_alt)
qed

lemma slot_inside:
  assumes "i < n" "unat n * 4 < 2 ^ 32"
  shows "span (d + 4 * i) 4 \<subseteq> span d (n * 4)"
proof
  fix a assume "a \<in> span (d + 4 * i) 4"
  then have "unat (a - d) < 4 * unat n" using in_slot [OF assms] unat_slot_offset(2) [OF assms] by simp
  then show "a \<in> span d (n * 4)" using unat_slot_offset(3) [OF assms] by (simp add: in_span word_less_nat_alt)
qed

lemma load32_other: "span b 4 \<inter> span a 4 = {} \<Longrightarrow> load32 (store32 m a v) b = load32 m b"
  by (rule load32_cong) (auto intro: store32_outside)

lemma slot_store:
  assumes "i < n" "j < n" "unat n * 4 < 2 ^ 32"
  shows "load32 (store32 m (d + 4 * i) v) (d + 4 * j) = (if i = j then v else load32 m (d + 4 * j))"
proof (cases "i = j")
  case False
  then have "unat i \<noteq> unat j" by (simp add: word_unat_eq_iff)
  then have "span (d + 4 * j) 4 \<inter> span (d + 4 * i) 4 = {}"
    using in_slot [OF assms(1,3), of _ d] in_slot [OF assms(2,3), of _ d] by auto
  then show ?thesis using False by (simp add: load32_other)
qed simp

lemma fields_kept:
  assumes "span arr 12 \<subseteq> B" "\<forall>a \<in> B. m' a = m a"
  shows "arr_data m' arr = arr_data m arr" "arr_size m' arr = arr_size m arr" "arr_used m' arr = arr_used m arr"
proof -
  have "load32 m' a = load32 m a" if "span a 4 \<subseteq> span arr 12" for a
    using that assms by (intro load32_cong) blast
  then show "arr_data m' arr = arr_data m arr" "arr_size m' arr = arr_size m arr" "arr_used m' arr = arr_used m arr"
    unfolding arr_data_def arr_size_def arr_used_def using arr_field_spans [of arr] by blast+
qed

lemma others_kept_load:
  assumes "others_kept m own m' own' ps" "(q, C) \<in> own" "q \<notin> ps" "span a 4 \<subseteq> C"
  shows "load32 m' a = load32 m a"
  using others_keptD(2) [OF assms(1-3)] assms(4) by (intro load32_cong) blast

text \<open>An array survives whatever leaves its two blocks alone.\<close>

lemma array_in_kept:
  assumes arr: "array_in m own arr B D xs"
    and own: "(arr, B) \<in> own'" "(arr_data m arr, D) \<in> own'"
    and same: "\<forall>a \<in> B \<union> D. m' a = m a"
  shows "array_in m' own' arr B D xs" "arr_data m' arr = arr_data m arr" "arr_size m' arr = arr_size m arr"
    "arr_used m' arr = arr_used m arr"
proof -
  note d = array_inD [OF arr]
  have ld: "load32 m' a = load32 m a" if "span a 4 \<subseteq> B \<union> D" for a
    using that same by (intro load32_cong) blast
  show f: "arr_data m' arr = arr_data m arr" "arr_size m' arr = arr_size m arr" "arr_used m' arr = arr_used m arr"
    using fields_kept [OF d(4), of m' m] same by auto
  have "arr_slot m' arr (of_nat i) = arr_slot m arr (of_nat i)" if "i < unat (arr_used m arr)" for i
  proof -
    have "of_nat i < arr_size m arr" using unat_of_nat_less [OF that] d(8) by simp
    then show ?thesis unfolding arr_slot_def arr_slot_addr_def f using slot_inside [OF _ d(7)] d(5) by (intro ld) blast
  qed
  then show "array_in m' own' arr B D xs"
    using d own by (simp add: array_in_def f)
qed

text \<open>The search and the shift, on the slots as a list.\<close>

definition remove_first :: "('a \<Rightarrow> bool) \<Rightarrow> 'a list \<Rightarrow> 'a list" where
  "remove_first P xs = takeWhile (\<lambda>x. \<not> P x) xs @ drop (Suc (length (takeWhile (\<lambda>x. \<not> P x) xs))) xs"

lemma remove_first_eq: "remove_first (\<lambda>x. x = y) xs = remove1 y xs"
  by (induction xs) (auto simp: remove_first_def)

lemma remove_first_at:
  assumes "x \<in> set xs" "P x"
  obtains k where "k = length (takeWhile (\<lambda>x. \<not> P x) xs)" "k < length xs" "xs ! k = hd (dropWhile (\<lambda>x. \<not> P x) xs)"
    "remove_first P xs = take k xs @ drop (Suc k) xs"
proof -
  define k where "k = length (takeWhile (\<lambda>x. \<not> P x) xs)"
  have "takeWhile (\<lambda>x. \<not> P x) xs \<noteq> xs" using assms takeWhile_eq_all_conv [of "\<lambda>x. \<not> P x" xs] by blast
  then have k: "k < length xs"
    unfolding k_def by (metis length_takeWhile_le le_neq_implies_less takeWhile_eq_take take_all_iff order_refl)
  have "takeWhile (\<lambda>x. \<not> P x) xs = take k xs" by (simp add: k_def takeWhile_eq_take [symmetric])
  then have "remove_first P xs = take k xs @ drop (Suc k) xs" using k by (simp add: remove_first_def)
  moreover have "xs ! k = hd (dropWhile (\<lambda>x. \<not> P x) xs)"
    using k by (simp add: k_def hd_conv_nth hd_drop_conv_nth dropWhile_eq_drop)
  ultimately show thesis using that k k_def by blast
qed

text \<open>Slots that are shifted down by one from the \<open>k\<close>th on hold the list without its \<open>k\<close>th element.\<close>

lemma shifted_slots:
  fixes u idx :: u32
  assumes len: "length xs = unat u" and k: "unat idx < length xs"
    and old: "\<And>i. i < length xs \<Longrightarrow> f (of_nat i) = xs ! i"
    and new: "\<And>j. j < u - 1 \<Longrightarrow> g j = (if idx \<le> j then f (j + 1) else f j)"
  shows "map (\<lambda>i. g (of_nat i)) [0..<unat (u - 1)] = take (unat idx) xs @ drop (Suc (unat idx)) xs"
proof (rule nth_equalityI)
  have u0: "u \<noteq> 0" using len k by auto
  show "length (map (\<lambda>i. g (of_nat i)) [0..<unat (u - 1)]) = length (take (unat idx) xs @ drop (Suc (unat idx)) xs)"
    using k len u0 by (simp add: unat_minus_one)
  fix j assume "j < length (map (\<lambda>i. g (of_nat i)) [0..<unat (u - 1)])"
  then have j: "j < unat (u - 1)" by simp
  then have jw: "(of_nat j :: u32) < u - 1" "unat (of_nat j :: u32) = j"
    using unat_of_nat_less [OF j] unat32 [of "u - 1"] by (simp_all add: unat_of_nat)
  have le: "idx \<le> of_nat j \<longleftrightarrow> unat idx \<le> j" by (simp add: word_le_nat_alt jw(2))
  have jl: "j < length xs" "Suc j < length xs" using j u0 len by (simp_all add: unat_minus_one)
  have "g (of_nat j) = (if unat idx \<le> j then xs ! Suc j else xs ! j)"
    using new [OF jw(1)] old [OF jl(1)] old [OF jl(2)] by (simp add: le add.commute)
  then show "map (\<lambda>i. g (of_nat i)) [0..<unat (u - 1)] ! j = (take (unat idx) xs @ drop (Suc (unat idx)) xs) ! j"
    using j jl k by (simp add: nth_append min_def)
qed

lemma find_elem_eq:
  assumes "unat idx \<le> unat (arr_used m arr)"
  shows "find_elem m arr cmp elem idx =
    of_nat (unat idx + length (takeWhile (\<lambda>x. \<not> elem_matches m cmp elem x)
      (map (\<lambda>i. arr_slot m arr (of_nat i)) [unat idx..<unat (arr_used m arr)])))"
  using assms
proof (induction m arr cmp elem idx rule: find_elem.induct)
  case (1 m arr cmp elem idx)
  show ?case
  proof (cases "idx < arr_used m arr")
    case True
    then have "unat (idx + 1) = Suc (unat idx)" by (rule unat_plus1)
    moreover have "[unat idx..<unat (arr_used m arr)] = unat idx # [Suc (unat idx)..<unat (arr_used m arr)]"
      using True by (intro upt_conv_Cons) (simp add: word_less_nat_alt)
    ultimately show ?thesis
      using 1 True by (subst find_elem.simps) (auto simp: word_less_nat_alt)
  next
    case False
    then have "idx = arr_used m arr" using 1(2) by (simp add: word_less_nat_alt word_unat_eq_iff)
    then show ?thesis by (subst find_elem.simps) simp
  qed
qed

lemma shift_loop_slots:
  assumes "unat n * 4 < 2 ^ 32" "n \<noteq> 0" "j < n"
  shows "load32 (shift_loop m d (n - 1) idx) (d + 4 * j) =
    (if idx \<le> j \<and> j < n - 1 then load32 m (d + 4 * (j + 1)) else load32 m (d + 4 * j))"
  using assms
proof (induction m d "n - 1" idx rule: shift_loop.induct)
  case (1 m d idx)
  show ?case
  proof (cases "idx < n - 1")
    case True
    have less: "k < n" if "k < n - 1" for k
      using that 1(3) by (simp add: word_less_nat_alt unat_minus_one)
    have next_less: "j + 1 < n" if "j < n - 1"
      using that 1(3) unat_plus1 [OF that] by (simp add: word_less_nat_alt unat_minus_one)
    have eq: "shift_loop m d (n - 1) idx = shift_loop (store32 m (d + 4 * idx) (load32 m (d + 4 * (idx + 1)))) d (n - 1) (idx + 1)"
      using True by (subst shift_loop.simps) simp
    have ne: "idx \<noteq> j + 1" if "idx < j" "j < n - 1"
      using that unat_plus1 [OF that(2)] by (auto simp: word_less_nat_alt)
    have st: "load32 (store32 m (d + 4 * idx) v) (d + 4 * k) = (if idx = k then v else load32 m (d + 4 * k))" if "k < n" for k v
      using slot_store [OF less [OF True] that 1(2)] .
    show ?thesis
      unfolding eq 1(1) [OF True 1(2-4)] plus1_le_iff [OF True]
      using st [OF 1(4)] st [OF next_less] ne True by (auto simp: less_le)
  next
    case False
    then show ?thesis by (subst shift_loop.simps) auto
  qed
qed

lemma shift_loop_outside:
  assumes "unat n * 4 < 2 ^ 32" "n \<noteq> 0" "a \<notin> span d (n * 4)"
  shows "shift_loop m d (n - 1) idx a = m a"
  using assms
proof (induction m d "n - 1" idx rule: shift_loop.induct)
  case (1 m d idx)
  show ?case
  proof (cases "idx < n - 1")
    case True
    then have "idx < n" using 1(3) by (simp add: word_less_nat_alt unat_minus_one)
    then have "a \<notin> span (d + 4 * idx) 4" using slot_inside [OF _ 1(2)] 1(4) by blast
    then show ?thesis using 1 True by (subst shift_loop.simps) (simp add: store32_outside)
  next
    case False
    then show ?thesis by (subst shift_loop.simps) simp
  qed
qed

section \<open>The operations under the allocator contract\<close>

context allocator
begin

abbreviation "holds s arr B D xs \<equiv> array_in (memory s) (owns s) arr B D xs"
abbreviation "kept s s' ps \<equiv> others_kept (memory s) (owns s) (memory s') (owns s') ps"

lemma create_holds:
  assumes inv: "inv s" and n: "0 < n" "unat n * 4 < 2 ^ 32"
    and call: "array_create malloc update s n = Inr (arr, s')"
  shows "\<exists>B D. inv s' \<and> arr \<noteq> 0 \<and> holds s' arr B D [] \<and> arr_size (memory s') arr = n \<and> kept s s' {} \<and>
    (\<forall>q C. (q, C) \<in> owns s \<longrightarrow> q \<noteq> arr \<and> q \<noteq> arr_data (memory s') arr)"
proof -
  obtain s1 where m1: "malloc s 12 = Inr (arr, s1)"
    using call by (auto simp: array_create_def rbind_eq_Inr)
  obtain B where B: "inv s1" "owns s1 = insert (arr, B) (owns s)" "span arr 12 \<subseteq> B"
    "\<And>q C. (q, C) \<in> owns s \<Longrightarrow> q \<noteq> arr \<and> B \<inter> C = {}" "kept s s1 {}" "arr \<noteq> 0"
    by (rule malloc_new [OF inv _ m1]) (simp, blast)
  note fs = arr_field_spans [of arr, THEN subset_trans, OF B(3)]
  define s2 where "s2 = put32 update s1 (arr + 4) 0"
  note p2 = put32_kept [OF B(1) _ fs(2), of arr 0, folded s2_def, unfolded B(2), OF insertI1]
  define s3 where "s3 = put32 update s2 arr n"
  have own2: "(arr, B) \<in> owns s2" using p2(2) by simp
  note p3 = put32_kept [OF p2(1) own2 fs(1), of n, folded s3_def]
  have own3: "(arr, B) \<in> owns s3" using p3(2) own2 by simp
  obtain data s4 where m4: "malloc s3 (n * 4) = Inr (data, s4)" and s': "s' = put32 update s4 (arr + 8) data"
    using call m1 unfolding array_create_def by (auto simp: rbind_eq_Inr Let_def s2_def s3_def)
  have n4: "0 < n * 4" using n unat_mult_small [of n 4] by (simp add: word_less_nat_alt)
  obtain D where D: "inv s4" "owns s4 = insert (data, D) (owns s3)" "span data (n * 4) \<subseteq> D"
    "\<And>q C. (q, C) \<in> owns s3 \<Longrightarrow> q \<noteq> data \<and> D \<inter> C = {}" "kept s3 s4 {}"
    by (rule malloc_new [OF p3(1) n4 m4]) blast
  have own4: "(arr, B) \<in> owns s4" using D(2) own3 by simp
  note p5 = put32_kept [OF D(1) own4 fs(3), of data, folded s']
  have "\<forall>a \<in> B. memory s4 a = memory s3 a" using others_keptD(2) [OF D(5) own3] by simp
  note f4 = fields_kept [OF B(3) this]
  have f: "arr_size (memory s') arr = n" "arr_used (memory s') arr = 0" "arr_data (memory s') arr = data"
    using f4 by (simp_all add: p5(3) p3(3) p2(3) arr_fields)
  have "holds s' arr B D []"
    unfolding array_in_def f using own4 D p5(2) B(3) n own3 by auto
  moreover have "kept s s1 {arr}" "kept s3 s4 {arr}" using others_kept_mono [OF B(5)] others_kept_mono [OF D(5)] by simp_all
  then have "kept s s' {arr}"
    using others_kept_trans [OF others_kept_trans [OF others_kept_trans [OF others_kept_trans [OF _ p2(4)[folded B(2)]] p3(4)]] p5(4)]
    by simp
  then have "kept s s' {}" using B(4) by (simp add: others_kept_def)
  moreover have "q \<noteq> arr \<and> q \<noteq> data" if "(q, C) \<in> owns s" for q C
    using B(4) [OF that] D(4) [of q C] that B(2) p2(2) p3(2) by simp
  ultimately show ?thesis using p5(1) f B(6) by blast
qed

text \<open>Storing an element into a slot below \<open>size\<close>.\<close>

lemma add_in_room:
  assumes inv: "inv s" and arr: "holds s arr B D xs" and room: "arr_used (memory s) arr < arr_size (memory s) arr"
  shows "let used = arr_used (memory s) arr; s1 = put32 update s (arr + 4) (used + 1);
      s' = put32 update s1 (arr_slot_addr (memory s1) arr used) elem
    in inv s' \<and> holds s' arr B D (xs @ [elem]) \<and> kept s s' {arr, arr_data (memory s) arr} \<and>
      arr_size (memory s') arr = arr_size (memory s) arr \<and> arr_data (memory s') arr = arr_data (memory s) arr"
proof -
  let ?m = "memory s"
  define u where "u = arr_used ?m arr"
  define n where "n = arr_size ?m arr"
  define d where "d = arr_data ?m arr"
  note ad = array_inD [OF arr, folded u_def n_def d_def]
  define s1 where "s1 = put32 update s (arr + 4) (u + 1)"
  note p1 = put32_kept [OF inv ad(1) subset_trans [OF arr_field_spans(2) ad(4)], of "u + 1", folded s1_def]
  have f1: "arr_size (memory s1) arr = n" "arr_used (memory s1) arr = u + 1" "arr_data (memory s1) arr = d"
    by (simp_all add: p1(3) arr_fields n_def d_def)
  define s' where "s' = put32 update s1 (d + 4 * u) elem"
  have un: "u < n" using room by (simp add: u_def n_def)
  have own1: "(d, D) \<in> owns s1" "(arr, B) \<in> owns s1" using ad p1(2) by simp_all
  have sl: "span (d + 4 * u) 4 \<subseteq> D" using slot_inside [OF un ad(7)] ad(5) by blast
  note p2 = put32_kept [OF p1(1) own1(1) sl, of elem, folded s'_def]
  have "\<forall>a \<in> B. memory s' a = memory s1 a" using others_keptD(2) [OF p2(4) own1(2)] ad(3) by simp
  note f2 = fields_kept [OF ad(4) this, unfolded f1]
  have d1: "load32 (memory s1) (d + 4 * i) = load32 ?m (d + 4 * i)" if "i < n" for i
  proof (rule load32_cong)
    fix a assume "a \<in> span (d + 4 * i) 4"
    then have "a \<in> D" using slot_inside [OF that ad(7)] ad(5) by blast
    then show "memory s1 a = ?m a" using others_keptD(2) [OF p1(4) ad(2)] ad(3) by simp
  qed
  have sl2: "arr_slot (memory s') arr i = (if i = u then elem else arr_slot ?m arr i)" if "i < n" for i
    unfolding arr_slot_def arr_slot_addr_def f2 unfolding p2(3) d_def [symmetric] slot_store [OF un that ad(7)] d1 [OF that]
    by auto
  have uu: "unat (u + 1) = Suc (unat u)" using unat_plus1 [OF un] .
  have "map (\<lambda>i. arr_slot (memory s') arr (of_nat i)) [0..<unat (u + 1)] = xs @ [elem]"
  proof -
    have "arr_slot (memory s') arr (of_nat i) = arr_slot ?m arr (of_nat i)" if "i < unat u" for i
    proof -
      have "(of_nat i :: u32) < u" using unat_of_nat_less [OF that] .
      then show ?thesis using sl2 [of "of_nat i"] un by auto
    qed
    then show ?thesis using sl2 [OF un] by (simp add: uu ad(9))
  qed
  moreover have "u + 1 \<le> n" using un by (simp add: plus1_le_iff)
  ultimately have h: "holds s' arr B D (xs @ [elem])"
    unfolding array_in_def f2 using ad own1 p2(2) by simp
  have "kept s s' {arr, d}"
    using others_kept_trans [OF others_kept_mono [OF p1(4)] others_kept_mono [OF p2(4)]] by blast
  then show ?thesis
    using h p2(1) by (simp add: Let_def arr_slot_addr_def f1 f2 u_def [symmetric] s1_def [symmetric] s'_def [symmetric] n_def [symmetric] d_def [symmetric])
qed

text \<open>The copy of the slots into a fresh block.\<close>

lemma memcpy_slots:
  assumes d: "unat n * 4 < 2 ^ 32" "u \<le> n" "\<forall>a \<in> span d (n * 4). a \<notin> span t (n * 4)" "t \<noteq> 0"
  shows "a \<notin> span t (u * 4) \<Longrightarrow> snd (memcpy m t d (u * 4)) a = m a"
    "i < u \<Longrightarrow> load32 (snd (memcpy m t d (u * 4))) (t + 4 * i) = load32 m (d + 4 * i)"
proof -
  have u4: "unat (u * 4) = 4 * unat u" "unat (n * 4) = 4 * unat n" "unat u \<le> unat n"
    using d(1,2) unat_mult_small [of u "4 :: u32"] unat_mult_small [of n "4 :: u32"] by (simp_all add: word_le_nat_alt)
  have "u * 4 \<le> t - d"
  proof (rule ccontr)
    assume "\<not> u * 4 \<le> t - d"
    then have "t \<in> span d (n * 4)" using u4 by (simp add: in_span word_le_nat_alt word_less_nat_alt)
    moreover have "0 < n * 4" using \<open>t \<in> span d (n * 4)\<close> by (auto simp: in_span word_gt_0)
    then have "t \<in> span t (n * 4)" by (simp add: in_span)
    ultimately show False using d(3) by blast
  qed
  then have cp: "snd (memcpy m t d (u * 4)) = (if u * 4 = 0 then m else (\<lambda>a. if a - t < u * 4 then m (d + (a - t)) else m a))"
    using memcpy_loop_eq [of t d "u * 4" m 0] by (simp add: memcpy_def)
  show "snd (memcpy m t d (u * 4)) a = m a" if "a \<notin> span t (u * 4)"
    using that by (auto simp: cp in_span)
  show "load32 (snd (memcpy m t d (u * 4))) (t + 4 * i) = load32 m (d + 4 * i)" if "i < u"
  proof -
    have b: "unat u * 4 < 2 ^ 32" using u4 d(1) by simp
    have nz: "u * 4 \<noteq> 0" using u4 that by (auto simp: word_less_nat_alt dest: arg_cong [where f = unat])
    have eq: "snd (memcpy m t d (u * 4)) (t + 4 * i + k) = m (d + 4 * i + k)" if "k < 4" for k
    proof -
      have "t + 4 * i + k \<in> span (t + 4 * i) 4" using that by simp
      then have "t + 4 * i + k \<in> span t (u * 4)" using slot_inside [OF \<open>i < u\<close> b] by blast
      then show ?thesis using nz by (simp add: cp in_span algebra_simps)
    qed
    show ?thesis using eq [of 0] eq [of 1] eq [of 2] eq [of 3] by (simp add: load32_def)
  qed
qed

text \<open>
  The second half of \<open>grow\<close>: once the fresh block is there, the slots move into it, the old
  block is freed and the fresh one takes its place.
\<close>

lemma move_slots:
  assumes inv: "inv s" and own: "(arr, B) \<in> owns s" "(d, D) \<in> owns s" "(t, T) \<in> owns s"
    and ne: "arr \<noteq> d" "arr \<noteq> t" "d \<noteq> t" "t \<noteq> 0"
    and sp: "span arr 12 \<subseteq> B" "span d (n * 4) \<subseteq> D" "span t (n * 4) \<subseteq> T"
    and n: "unat n * 4 < 2 ^ 32" "u \<le> n"
    and fl: "arr_used (memory s) arr = u" "arr_data (memory s) arr = d"
  defines "f \<equiv> \<lambda>m. snd (memcpy m t (arr_data m arr) (arr_used m arr * 4))"
  obtains s2 where "mfree (update f s) (arr_data (memory (update f s)) arr) = Inr s2"
    "inv (put32 update s2 (arr + 8) t)" "owns s - {(d, D)} \<subseteq> owns (put32 update s2 (arr + 8) t)"
    "kept s (put32 update s2 (arr + 8) t) {arr, d, t}"
    "arr_size (memory (put32 update s2 (arr + 8) t)) arr = arr_size (memory s) arr"
    "arr_used (memory (put32 update s2 (arr + 8) t)) arr = u" "arr_data (memory (put32 update s2 (arr + 8) t)) arr = t"
    "\<forall>i < u. arr_slot (memory (put32 update s2 (arr + 8) t)) arr i = arr_slot (memory s) arr i"
proof -
  have u4: "span t (u * 4) \<subseteq> span t (n * 4)"
    using n unat_mult_small [of u "4 :: u32"] unat_mult_small [of n "4 :: u32"]
    by (auto simp: in_span word_less_nat_alt word_le_nat_alt)
  have apart: "\<forall>a \<in> span d (n * 4). a \<notin> span t (n * 4)"
    using owns_disjoint [OF inv own(2,3)] ne(3) sp by blast
  note cp = memcpy_slots [OF n apart ne(4), where m = "memory s"]
  have fm: "f (memory s) = snd (memcpy (memory s) t d (u * 4))" by (simp add: f_def fl)
  have fo: "f (memory s) a = memory s a" if "a \<notin> T" for a
    unfolding fm using cp(1) that u4 sp(3) by blast
  define s1 where "s1 = update f s"
  note p1 = update_kept [where f = f, OF inv own(3) fo, folded s1_def]
  have own1: "(arr, B) \<in> owns s1" "(d, D) \<in> owns s1" "(t, T) \<in> owns s1" using own p1(2) by simp_all
  have "\<forall>a \<in> B. memory s1 a = memory s a" using others_keptD(2) [OF p1(3) own(1)] ne by simp
  note f1 = fields_kept [OF sp(1) this, unfolded fl]
  obtain s2 where s2: "mfree s1 d = Inr s2" "inv s2" "owns s1 - {(d, D)} \<subseteq> owns s2" "kept s1 s2 {d}"
    by (rule mfree_kept [OF p1(1) own1(2)]) blast
  have own2: "(arr, B) \<in> owns s2" "(t, T) \<in> owns s2" using s2(3) own1 ne by auto
  have "\<forall>a \<in> B. memory s2 a = memory s1 a" using others_keptD(2) [OF s2(4) own1(1)] ne by simp
  note f2 = fields_kept [OF sp(1) this, unfolded f1]
  define s3 where "s3 = put32 update s2 (arr + 8) t"
  note p3 = put32_kept [OF s2(2) own2(1) subset_trans [OF arr_field_spans(3) sp(1)], of t, folded s3_def]
  have f3: "arr_size (memory s3) arr = arr_size (memory s) arr" "arr_used (memory s3) arr = u" "arr_data (memory s3) arr = t"
    by (simp_all add: p3(3) arr_fields f2)
  have "load32 (memory s3) (t + 4 * i) = load32 (memory s) (d + 4 * i)" if "i < u" for i
  proof -
    have inT: "span (t + 4 * i) 4 \<subseteq> T" by (rule subset_trans [OF slot_inside [OF less_le_trans [OF that n(2)] n(1)] sp(3)])
    have "load32 (memory s3) (t + 4 * i) = load32 (memory s1) (t + 4 * i)"
      using others_kept_load [OF p3(4) own2(2) _ inT] others_kept_load [OF s2(4) own1(3) _ inT] ne by simp
    then show ?thesis using cp(2) [OF that] by (simp add: s1_def update_memory fm)
  qed
  moreover have "kept s s3 {arr, d, t}"
    by (rule others_kept_trans [OF others_kept_trans [OF others_kept_mono [OF p1(3)] others_kept_mono [OF s2(4)]]
          others_kept_mono [OF p3(4)]]) auto
  ultimately show thesis
    using that [of s2] s2 p1(2) p3(1,2) f1 f3
    by (simp add: s1_def [symmetric] s3_def [symmetric] arr_slot_def arr_slot_addr_def fl)
qed

lemma grow_holds:
  assumes inv: "inv s" and arr: "holds s arr B D xs" and big: "unat (arr_size (memory s) arr) * 8 < 2 ^ 32"
  shows "case malloc (put32 update s arr (arr_size (memory s) arr * 2)) (arr_size (memory s) arr * 2 * 4) of
      Inl e \<Rightarrow> grow malloc mfree memory update s arr = Inl e
    | Inr _ \<Rightarrow> \<exists>s' D'. grow malloc mfree memory update s arr = Inr s' \<and> inv s' \<and> holds s' arr B D' xs \<and>
        arr_size (memory s') arr = arr_size (memory s) arr * 2 \<and> arr_used (memory s') arr = arr_used (memory s) arr \<and>
        kept s s' {arr, arr_data (memory s) arr} \<and> (\<forall>q C. (q, C) \<in> owns s \<longrightarrow> q \<noteq> arr_data (memory s') arr)"
proof -
  define u where "u = arr_used (memory s) arr"
  define n where "n = arr_size (memory s) arr"
  define d where "d = arr_data (memory s) arr"
  note ad = array_inD [OF arr, folded u_def n_def d_def]
  define s1 where "s1 = put32 update s arr (n * 2)"
  note p1 = put32_kept [OF inv ad(1) subset_trans [OF arr_field_spans(1) ad(4)], of "n * 2", folded s1_def]
  have f1: "arr_size (memory s1) arr = n * 2" "arr_used (memory s1) arr = u" "arr_data (memory s1) arr = d"
    by (simp_all add: p1(3) arr_fields u_def d_def)
  show ?thesis
  proof (cases "malloc s1 (n * 2 * 4)")
    case (Inl e)
    then show ?thesis by (simp add: grow_def growth_factor_def Let_def s1_def [symmetric] n_def [symmetric] f1)
  next
    case (Inr r)
    then obtain t s2 where m2: "malloc s1 (n * 2 * 4) = Inr (t, s2)" by (cases r) auto
    have n2: "unat (n * 2) = 2 * unat n" "unat (n * 2 * 4) = 8 * unat n" "unat (n * 4) = 4 * unat n"
      using big [folded n_def] unat_mult_small [of n "2 :: u32"] unat_mult_small [of "n * 2" "4 :: u32"]
        unat_mult_small [of n "4 :: u32"] by simp_all
    have pos: "0 < n * 2 * 4" "n * 2 \<noteq> 0"
      using n2 ad(6) by (auto simp: word_less_nat_alt word_unat_eq_iff)
    obtain T where T: "inv s2" "owns s2 = insert (t, T) (owns s1)" "t \<noteq> 0" "span t (n * 2 * 4) \<subseteq> T"
      "\<And>q C. (q, C) \<in> owns s1 \<Longrightarrow> q \<noteq> t \<and> T \<inter> C = {}" "kept s1 s2 {}"
      by (rule malloc_new [OF p1(1) pos(1) m2]) blast
    have own2: "(arr, B) \<in> owns s2" "(d, D) \<in> owns s2" "(t, T) \<in> owns s2" using ad p1(2) T(2) by simp_all
    have ne: "arr \<noteq> t" "d \<noteq> t" using T(5) ad p1(2) by auto
    have "\<forall>a \<in> B. memory s2 a = memory s1 a" using others_keptD(2) [OF T(6)] ad p1(2) by simp
    note f2 = fields_kept [OF ad(4) this, unfolded f1]
    have small: "span t (n * 4) \<subseteq> T" using T(4) n2 by (auto simp: in_span word_less_nat_alt)
    obtain s3 where s3: "mfree (update (\<lambda>m. snd (memcpy m t (arr_data m arr) (arr_used m arr * 4))) s2)
        (arr_data (memory (update (\<lambda>m. snd (memcpy m t (arr_data m arr) (arr_used m arr * 4))) s2)) arr) = Inr s3"
      and s5: "inv (put32 update s3 (arr + 8) t)" "owns s2 - {(d, D)} \<subseteq> owns (put32 update s3 (arr + 8) t)"
      "kept s2 (put32 update s3 (arr + 8) t) {arr, d, t}"
      "arr_size (memory (put32 update s3 (arr + 8) t)) arr = n * 2"
      "arr_used (memory (put32 update s3 (arr + 8) t)) arr = u" "arr_data (memory (put32 update s3 (arr + 8) t)) arr = t"
      "\<forall>i < u. arr_slot (memory (put32 update s3 (arr + 8) t)) arr i = arr_slot (memory s2) arr i"
      by (rule move_slots [OF T(1) own2 ad(3) ne T(3) ad(4,5) small ad(7,8) f2(3,1)]) (auto simp: f2)
    define s5 where "s5 = put32 update s3 (arr + 8) t"
    note s5 = s5 [folded s5_def]
    have res: "grow malloc mfree memory update s arr = Inr s5"
      using m2 s3 by (simp add: grow_def growth_factor_def Let_def s1_def [symmetric] n_def [symmetric] f1 s5_def)
    have k2: "kept s s2 {arr}" using others_kept_trans [OF p1(4) others_kept_mono [OF T(6)]] by blast
    have "arr_slot (memory s2) arr i = arr_slot (memory s) arr i" if "i < u" for i
    proof -
      have "span (d + 4 * i) 4 \<subseteq> D" by (rule subset_trans [OF slot_inside [OF less_le_trans [OF that ad(8)] ad(7)] ad(5)])
      then show ?thesis using others_kept_load [OF k2 ad(2)] ad(3)
        by (simp add: arr_slot_def arr_slot_addr_def f2 d_def [symmetric])
    qed
    then have slots: "arr_slot (memory s5) arr i = arr_slot (memory s) arr i" if "i < u" for i using s5(7) that by simp
    have own5: "(arr, B) \<in> owns s5" "(t, T) \<in> owns s5" using s5(2) own2 ad(3) ne by auto
    have h: "holds s5 arr B T xs"
      unfolding array_in_def s5(4-6) using ad own5 T(4) n2 big slots unat_of_nat_less [where n = u] ne pos(2)
      by (auto simp: n_def word_le_nat_alt)
    have "kept s s5 {arr, d, t}" using others_kept_trans [OF others_kept_mono [OF k2] s5(3)] by blast
    then have "kept s s5 {arr, d}" using T(5) p1(2) by (fastforce simp: others_kept_def)
    moreover have "q \<noteq> t" if "(q, C) \<in> owns s" for q C using T(5) p1(2) that by blast
    ultimately show ?thesis
      unfolding u_def [symmetric] n_def [symmetric] d_def [symmetric] s1_def [symmetric] m2 sum.case
      by (intro exI [of _ s5] exI [of _ T] conjI) (use res h s5 in auto)
  qed
qed

text \<open>Appending to an array, full or not.\<close>

lemma add_holds:
  assumes inv: "inv s" and arr: "holds s arr B D xs" and big: "unat (arr_size (memory s) arr) * 8 < 2 ^ 32"
  shows "case array_add malloc mfree memory update s arr elem of
      Inl e \<Rightarrow> length xs = unat (arr_size (memory s) arr) \<and>
        malloc (put32 update s arr (arr_size (memory s) arr * 2)) (arr_size (memory s) arr * 2 * 4) = Inl e
    | Inr s' \<Rightarrow> \<exists>D'. inv s' \<and> holds s' arr B D' (xs @ [elem]) \<and> kept s s' {arr, arr_data (memory s) arr} \<and>
        arr_size (memory s') arr =
          (if length xs = unat (arr_size (memory s) arr) then arr_size (memory s) arr * 2 else arr_size (memory s) arr) \<and>
        (arr_data (memory s') arr = arr_data (memory s) arr \<or> (\<forall>q C. (q, C) \<in> owns s \<longrightarrow> q \<noteq> arr_data (memory s') arr))"
proof -
  let ?n = "arr_size (memory s) arr" and ?u = "arr_used (memory s) arr"
  note ad = array_inD [OF arr]
  have full: "length xs = unat ?n \<longleftrightarrow> ?u = ?n" by (simp add: ad(10) word_unat_eq_iff)
  show ?thesis
  proof (cases "?u = ?n")
    case False
    then have "?u < ?n" using ad(8) by simp
    from add_in_room [OF inv arr this, of elem] show ?thesis
      using False full by (auto simp: array_add_def Let_def)
  next
    case True
    show ?thesis
    proof (cases "malloc (put32 update s arr (?n * 2)) (?n * 2 * 4)")
      case (Inl e)
      then have "grow malloc mfree memory update s arr = Inl e"
        using grow_holds [OF inv arr big] by simp
      then have "array_add malloc mfree memory update s arr elem = Inl e"
        using True by (simp add: array_add_def)
      then show ?thesis using Inl full True by simp
    next
      case (Inr r)
      then obtain s1 D' where s1: "grow malloc mfree memory update s arr = Inr s1" "inv s1" "holds s1 arr B D' xs"
        "arr_size (memory s1) arr = ?n * 2" "arr_used (memory s1) arr = ?u" "kept s s1 {arr, arr_data (memory s) arr}"
        "\<forall>q C. (q, C) \<in> owns s \<longrightarrow> q \<noteq> arr_data (memory s1) arr"
        using grow_holds [OF inv arr big] by auto
      have "unat (?n * 2) = 2 * unat ?n" using big unat_mult_small [of ?n "2 :: u32"] by simp
      then have room: "arr_used (memory s1) arr < arr_size (memory s1) arr"
        using s1(4,5) ad(6,8) True by (simp add: word_less_nat_alt unat_gt_0)
      from add_in_room [OF s1(2,3) room, of elem]
      obtain s' where s': "array_add malloc mfree memory update s arr elem = Inr s'" "inv s'"
        "holds s' arr B D' (xs @ [elem])" "kept s1 s' {arr, arr_data (memory s1) arr}"
        "arr_size (memory s') arr = ?n * 2" "arr_data (memory s') arr = arr_data (memory s1) arr"
        using True s1(1,4) by (auto simp: array_add_def Let_def)
      have "kept s s' {arr, arr_data (memory s) arr}"
        using s1(6,7) s'(4) by (fastforce simp: others_kept_def)
      then show ?thesis using s' s1(7) True full by auto
    qed
  qed
qed

text \<open>
  Removing an element: nothing happens when no element matches; otherwise the deletion function
  gets the first match, and it is this element that leaves the array, provided the function
  left the array alone.
\<close>

lemma remove_nothing:
  assumes arr: "holds s arr B D xs" and none: "\<forall>x \<in> set xs. \<not> elem_matches (memory s) cmp elem x"
  shows "remove_elem mfree memory update s arr elem del cmp = Inr s"
proof -
  note ad = array_inD [OF arr]
  have tw: "takeWhile (\<lambda>x. \<not> elem_matches (memory s) cmp elem x) xs = xs" using none by (simp add: takeWhile_eq_all_conv)
  have "find_elem (memory s) arr cmp elem 0 =
      of_nat (length (takeWhile (\<lambda>x. \<not> elem_matches (memory s) cmp elem x) xs))"
    using find_elem_eq [of 0 "memory s" arr cmp elem] by (simp add: ad(9))
  then have "find_elem (memory s) arr cmp elem 0 = arr_used (memory s) arr" unfolding tw ad(10) by simp
  then show ?thesis by (simp add: remove_elem_def)
qed

lemma remove_holds:
  assumes arr: "holds s arr B D xs" and some: "x \<in> set xs" "elem_matches (memory s) cmp elem x"
    and d: "d = (case del of None \<Rightarrow> mfree | Some f \<Rightarrow> f)"
      "d s (hd (dropWhile (\<lambda>x. \<not> elem_matches (memory s) cmp elem x) xs)) = Inr s1"
    and s1: "inv s1" "holds s1 arr B D xs" "arr_data (memory s1) arr = arr_data (memory s) arr"
  shows "\<exists>s'. remove_elem mfree memory update s arr elem del cmp = Inr s' \<and> inv s' \<and>
    holds s' arr B D (remove_first (elem_matches (memory s) cmp elem) xs) \<and> owns s' = owns s1 \<and>
    kept s1 s' {arr, arr_data (memory s) arr}"
proof -
  let ?P = "elem_matches (memory s) cmp elem"
  note a0 = array_inD [OF arr]
  note a1 = array_inD [OF s1(2)]
  define dat where "dat = arr_data (memory s1) arr"
  define n where "n = arr_size (memory s1) arr"
  define u where "u = arr_used (memory s1) arr"
  note a1 = a1 [folded dat_def n_def u_def]
  obtain k where k: "k = length (takeWhile (\<lambda>x. \<not> ?P x) xs)" "k < length xs"
    "xs ! k = hd (dropWhile (\<lambda>x. \<not> ?P x) xs)" "remove_first ?P xs = take k xs @ drop (Suc k) xs"
    by (rule remove_first_at [of x xs ?P, OF some])
  define idx where "idx = find_elem (memory s) arr cmp elem 0"
  have ix: "idx = of_nat k" using find_elem_eq [of 0 "memory s" arr cmp elem] a0(9,10) by (simp add: idx_def k(1))
  have uu: "arr_used (memory s) arr = u" using a0(10) a1(10) by (simp add: word_unat_eq_iff)
  have "k < 2 ^ 32" using k(2) a1(10) unat32 [of u] by simp
  then have uix: "unat idx = k" by (simp add: ix unat_of_nat)
  have ixu: "idx < u" using k(2) a1(10) uix by (simp add: word_less_nat_alt)
  have sl: "arr_slot (memory s) arr idx = hd (dropWhile (\<lambda>x. \<not> ?P x) xs)"
    unfolding k(3) [symmetric] ix using k(2) a0(9,10) by simp
  define f where "f = (\<lambda>m. shift_loop m (arr_data m arr) (arr_size m arr - 1) idx)"
  define s2 where "s2 = update f s1"
  have fm: "f (memory s1) = shift_loop (memory s1) dat (n - 1) idx" by (simp add: f_def dat_def n_def)
  have fo: "f (memory s1) a = memory s1 a" if "a \<notin> D" for a
    unfolding fm using that a1(5) by (intro shift_loop_outside [OF a1(7,6)]) blast
  note p2 = update_kept [where f = f, OF s1(1) a1(2) fo, folded s2_def]
  have own2: "(arr, B) \<in> owns s2" "(dat, D) \<in> owns s2" using a1 p2(2) by simp_all
  have "\<forall>a \<in> B. memory s2 a = memory s1 a" using others_keptD(2) [OF p2(3) a1(1)] a1(3) by simp
  note f2 = fields_kept [OF a1(4) this, folded dat_def n_def u_def]
  define s' where "s' = put32 update s2 (arr + 4) (u - 1)"
  note p3 = put32_kept [OF p2(1) own2(1) subset_trans [OF arr_field_spans(2) a1(4)], of "u - 1", folded s'_def]
  have f3: "arr_size (memory s') arr = n" "arr_used (memory s') arr = u - 1" "arr_data (memory s') arr = dat"
    by (simp_all add: p3(3) arr_fields f2)
  have res: "remove_elem mfree memory update s arr elem del cmp = Inr s'"
    using less_imp_neq [OF ixu] d sl by (simp add: remove_elem_def idx_def [symmetric] uu Let_def f_def [symmetric] s2_def [symmetric] f2 s'_def)
  have u0: "u \<noteq> 0" using ixu by auto
  have slots: "arr_slot (memory s') arr j = (if idx \<le> j then arr_slot (memory s1) arr (j + 1) else arr_slot (memory s1) arr j)"
    if "j < u - 1" for j
  proof -
    have "unat j < unat u - 1" using that u0 by (simp add: word_less_nat_alt unat_minus_one)
    then have j: "j < n" "j < n - 1" using a1(8,6) by (auto simp: word_less_nat_alt word_le_nat_alt unat_minus_one)
    have "load32 (memory s') (dat + 4 * j) = load32 (memory s2) (dat + 4 * j)"
      using others_keptD(2) [OF p3(4) own2(2)] slot_inside [OF j(1) a1(7)] a1(3,5) by (intro load32_cong) blast
    then show ?thesis
      using shift_loop_slots [OF a1(7,6) j(1)] j(2)
      by (simp add: arr_slot_def arr_slot_addr_def f3 s2_def update_memory fm dat_def [symmetric])
  qed
  have "map (\<lambda>i. arr_slot (memory s') arr (of_nat i)) [0..<unat (u - 1)] = remove_first ?P xs"
    unfolding k(4) uix [symmetric]
  proof (rule shifted_slots [OF a1(10), of idx "arr_slot (memory s1) arr"])
    show "unat idx < length xs" using k(2) uix by simp
    show "arr_slot (memory s1) arr (of_nat i) = xs ! i" if "i < length xs" for i using that a1(9,10) by simp
  qed (rule slots)
  moreover have "u - 1 \<le> n" using u0 a1(8) by (simp add: word_le_nat_alt unat_minus_one)
  ultimately have h: "holds s' arr B D (remove_first ?P xs)"
    unfolding array_in_def f3 using a1 own2 p3(2) by simp
  have "kept s1 s' {arr, dat}"
    using others_kept_trans [OF others_kept_mono [OF p2(3)] others_kept_mono [OF p3(4)]] by blast
  then show ?thesis using res h p3(1,2) p2(2) s1(3) by (auto simp: dat_def)
qed

text \<open>
  Destroying an array with a function that keeps the contract of \<open>mfree\<close>: every element is an
  object of its own, distinct from the array's.
\<close>

lemma destroy_loop_holds:
  assumes "inv s" "holds s arr B D xs" "i \<le> arr_used (memory s) arr"
    and "\<forall>x \<in> set (drop (unat i) xs). (\<exists>C. (x, C) \<in> owns s) \<and> x \<noteq> arr \<and> x \<noteq> arr_data (memory s) arr"
    and "distinct (drop (unat i) xs)"
  shows "\<exists>s'. destroy_loop mfree memory arr s i = Some (Inr s') \<and> inv s' \<and> holds s' arr B D xs \<and>
    arr_data (memory s') arr = arr_data (memory s) arr \<and> owns s' \<subseteq> owns s \<and>
    kept s s' (set (drop (unat i) xs))"
  using assms
proof (induction "length xs - unat i" arbitrary: s i)
  case 0
  note ad = array_inD [OF 0(3)]
  have "\<not> i < arr_used (memory s) arr" using 0(1) ad(10) by (simp add: word_less_nat_alt)
  then show ?case using 0 others_kept_refl by (subst destroy_loop.simps) simp
next
  case (Suc k)
  note ad = array_inD [OF Suc(4)]
  define x where "x = arr_slot (memory s) arr i"
  have lt: "i < arr_used (memory s) arr" using Suc(2) ad(10) by (simp add: word_less_nat_alt)
  have i1: "unat (i + 1) = Suc (unat i)" by (rule unat_plus1 [OF lt])
  have "unat i < length xs" using Suc(2) by simp
  moreover from this have "xs ! unat i = x" using ad(9,10) by (simp add: x_def)
  ultimately have split: "drop (unat i) xs = x # drop (unat (i + 1)) xs"
    by (simp add: i1 Cons_nth_drop_Suc [symmetric])
  obtain C where C: "(x, C) \<in> owns s" "x \<noteq> arr" "x \<noteq> arr_data (memory s) arr"
    using Suc(6) unfolding split by auto
  obtain s1 where s1: "mfree s x = Inr s1" "inv s1" "owns s1 \<subseteq> owns s" "owns s - {(x, C)} \<subseteq> owns s1" "kept s s1 {x}"
    by (rule mfree_kept [OF Suc(3) C(1)]) blast
  have own1: "(arr, B) \<in> owns s1" "(arr_data (memory s) arr, D) \<in> owns s1"
    using others_keptD(1) [OF s1(5)] ad(1,2) C by auto
  have "\<forall>a \<in> B \<union> D. memory s1 a = memory s a"
    using others_keptD(2) [OF s1(5) ad(1)] others_keptD(2) [OF s1(5) ad(2)] C by auto
  note k1 = array_in_kept [OF Suc(4) own1 this]
  have "\<exists>s'. destroy_loop mfree memory arr s1 (i + 1) = Some (Inr s') \<and> inv s' \<and> holds s' arr B D xs \<and>
      arr_data (memory s') arr = arr_data (memory s1) arr \<and> owns s' \<subseteq> owns s1 \<and>
      kept s1 s' (set (drop (unat (i + 1)) xs))"
  proof (rule Suc(1) [OF _ s1(2) k1(1)])
    show "k = length xs - unat (i + 1)" using Suc(2) i1 by simp
    show "i + 1 \<le> arr_used (memory s1) arr" using lt k1(4) by (simp add: plus1_le_iff)
    show "distinct (drop (unat (i + 1)) xs)" using Suc(7) unfolding split by simp
    have "x \<notin> set (drop (unat (i + 1)) xs)" using Suc(7) unfolding split by simp
    then show "\<forall>y \<in> set (drop (unat (i + 1)) xs). (\<exists>C. (y, C) \<in> owns s1) \<and> y \<noteq> arr \<and> y \<noteq> arr_data (memory s1) arr"
      using Suc(6) others_keptD(1) [OF s1(5)] unfolding split k1(2) by (metis list.set_intros(2) singletonD)
  qed
  then obtain s' where s': "destroy_loop mfree memory arr s1 (i + 1) = Some (Inr s')" "inv s'" "holds s' arr B D xs"
    "arr_data (memory s') arr = arr_data (memory s1) arr" "owns s' \<subseteq> owns s1"
    "kept s1 s' (set (drop (unat (i + 1)) xs))" by blast
  have "destroy_loop mfree memory arr s i = Some (Inr s')"
    using lt s1(1) s'(1) by (subst destroy_loop.simps) (simp add: x_def [symmetric])
  moreover have "kept s s' (set (drop (unat i) xs))"
    unfolding split by (rule others_kept_trans [OF others_kept_mono [OF s1(5)] others_kept_mono [OF s'(6)]]) auto
  ultimately show ?case using s' s1(3) k1(2) by auto
qed

lemma destroy_holds:
  assumes inv: "inv s" and arr: "holds s arr B D xs" and dist: "distinct (arr # arr_data (memory s) arr # xs)"
    and own: "\<forall>x \<in> set xs. \<exists>C. (x, C) \<in> owns s"
  shows "\<exists>s'. array_destroy mfree memory s arr None = Inr s' \<and> inv s' \<and> owns s' \<subseteq> owns s \<and>
    kept s s' (insert arr (insert (arr_data (memory s) arr) (set xs)))"
proof -
  let ?d = "arr_data (memory s) arr"
  obtain s1 where s1: "destroy_loop mfree memory arr s 0 = Some (Inr s1)" "inv s1" "holds s1 arr B D xs"
    "arr_data (memory s1) arr = ?d" "owns s1 \<subseteq> owns s" "kept s s1 (set xs)"
    using destroy_loop_holds [OF inv arr, of 0] dist own by auto
  note ad = array_inD [OF s1(3), unfolded s1(4)]
  obtain s2 where s2: "mfree s1 ?d = Inr s2" "inv s2" "owns s2 \<subseteq> owns s1" "kept s1 s2 {?d}"
    by (rule mfree_kept [OF s1(2) ad(2)]) blast
  have "(arr, B) \<in> owns s2" using others_keptD(1) [OF s2(4) ad(1)] ad(3) by simp
  then obtain s3 where s3: "mfree s2 arr = Inr s3" "inv s3" "owns s3 \<subseteq> owns s2" "kept s2 s3 {arr}"
    using mfree_kept [OF s2(2)] by metis
  let ?ps = "insert arr (insert ?d (set xs))"
  have "kept s s3 ?ps"
    by (rule others_kept_trans [OF others_kept_trans [OF others_kept_mono [OF s1(6)] others_kept_mono [OF s2(4)]]
          others_kept_mono [OF s3(4)]]) auto
  moreover have "array_destroy mfree memory s arr None = Inr s3"
    using s1(1,4) s2(1) s3(1) by (simp add: array_destroy_def)
  ultimately show ?thesis using s1(5) s2(3) s3(2,3) by auto
qed

end

section \<open>The array on the kernel's allocator\<close>

text \<open>An early \<open>array_create\<close> succeeds.\<close>

lemma running_array:
  assumes run: "running j k" "j < 1020" and n: "0 < n" "unat n * 4 \<le> max_request"
  shows "\<exists>arr k' B D j'. array_create kmalloc ram_update k n = Inr (arr, k') \<and> kmem_inv k' \<and>
    running j' k' \<and> j' \<le> j + 2 \<and> arr \<noteq> 0 \<and> array_in (ram k') (kowns k') arr B D [] \<and> arr_size (ram k') arr = n \<and>
    others_kept (ram k) (kowns k) (ram k') (kowns k') {} \<and>
    (\<forall>q C. (q, C) \<in> kowns k \<longrightarrow> q \<noteq> arr \<and> q \<noteq> arr_data (ram k') arr)"
proof -
  have small: "unat n * 4 < 2 ^ 32" using n(2) by (simp add: max_request_def)
  then have n4: "unat (n * 4) = unat n * 4" using unat_mult_small [of n "4 :: u32"] by simp
  have pos: "0 < n * 4" using n4 n(1) by (simp add: word_less_nat_alt)
  have inv: "kmem_inv k" using run by (simp add: running_def)
  obtain arr k1 j1 where k1: "kmalloc k 12 = Inr (arr, k1)" "running j1 k1" "j1 \<le> Suc j"
    using kmalloc_running [OF run(1), of 12] run(2) by (auto simp: max_request_def)
  obtain B where B: "kmem_inv k1" "kowns k1 = insert (arr, B) (kowns k)" "span arr 12 \<subseteq> B"
    by (rule kernel.malloc_new [OF inv _ k1(1)]) (simp, blast)
  have own1: "(arr, B) \<in> kowns k1" using B(2) by simp
  define k2 where "k2 = put32 ram_update k1 (arr + 4) 0"
  have p2: "kmem_inv k2" "(arr, B) \<in> kowns k2" "pages k2 = pages k1"
    using kernel.put32_kept [OF B(1) own1 subset_trans [OF arr_field_spans(2) B(3)], where v = 0] own1
    by (simp_all add: k2_def put32_def)
  define k3 where "k3 = put32 ram_update k2 arr n"
  have "kmem_inv k3" "pages k3 = pages k1"
    using kernel.put32_kept [OF p2(1,2) subset_trans [OF arr_field_spans(1) B(3)], of n] p2(3)
    by (simp_all add: k3_def put32_def)
  then have "running j1 k3" using k1(2) by (simp add: running_def)
  then obtain d k4 j4 where k4: "kmalloc k3 (n * 4) = Inr (d, k4)" "running j4 k4" "j4 \<le> Suc j1"
    using kmalloc_running [OF _ _ pos, of j1 k3] k1(3) run(2) n n4 by auto
  then have c: "array_create kmalloc ram_update k n = Inr (arr, put32 ram_update k4 (arr + 8) d)"
    using k1(1) by (simp add: array_create_def Let_def k2_def k3_def)
  let ?k = "put32 ram_update k4 (arr + 8) d"
  obtain B D where h: "kmem_inv ?k" "arr \<noteq> 0" "array_in (ram ?k) (kowns ?k) arr B D []" "arr_size (ram ?k) arr = n"
    "others_kept (ram k) (kowns k) (ram ?k) (kowns ?k) {}"
    "\<forall>q C. (q, C) \<in> kowns k \<longrightarrow> q \<noteq> arr \<and> q \<noteq> arr_data (ram ?k) arr"
    using kernel.create_holds [OF inv n(1) small c] by blast
  moreover have "running j4 ?k" using h(1) k4(2) by (simp add: running_def put32_def)
  moreover have "j4 \<le> j + 2" using k4(3) k1(3) by simp
  ultimately show ?thesis using c by blast
qed

lemma boot_array:
  assumes "0 < n" "unat n * 4 \<le> max_request"
  shows "\<exists>arr k B D. array_create kmalloc ram_update (kboot m) n = Inr (arr, k) \<and> kmem_inv k \<and>
    array_in (ram k) (kowns k) arr B D [] \<and> arr_size (ram k) arr = n"
  using running_array [OF kboot_running _ assms] by (metis zero_less_numeral)

text \<open>
  C20: appending to an array of the kernel's heap that has at least one slot, and fewer than 2^29,
  keeps its contents and adds the element at the end, whether or not the slots had to be copied to a block of twice the size; the other objects
  of the heap are untouched, the block of the slots stays or is a fresh object, and the heap's
  invariant is kept. It fails only when the array is full and \<open>kmalloc\<close> fails. (An array created with size 0
  has no slot and gets none when it doubles: appending to it writes past its block.)
\<close>

theorem array_add_correct:
  assumes "kmem_inv k" "array_in (ram k) (kowns k) arr B D xs" "unat (arr_size (ram k) arr) * 8 < 2 ^ 32"
  shows "case array_add kmalloc kfree ram ram_update k arr elem of
      Inl e \<Rightarrow> length xs = unat (arr_size (ram k) arr) \<and>
        kmalloc (put32 ram_update k arr (arr_size (ram k) arr * 2)) (arr_size (ram k) arr * 2 * 4) = Inl e
    | Inr k' \<Rightarrow> \<exists>D'. kmem_inv k' \<and> array_in (ram k') (kowns k') arr B D' (xs @ [elem]) \<and>
        others_kept (ram k) (kowns k) (ram k') (kowns k') {arr, arr_data (ram k) arr} \<and>
        arr_size (ram k') arr =
          (if length xs = unat (arr_size (ram k) arr) then arr_size (ram k) arr * 2 else arr_size (ram k) arr) \<and>
        (arr_data (ram k') arr = arr_data (ram k) arr \<or> (\<forall>q C. (q, C) \<in> kowns k \<longrightarrow> q \<noteq> arr_data (ram k') arr))"
  by (rule kernel.add_holds [OF assms])

theorem array_add_correct_witness:
  "\<exists>arr k k' B D. array_create kmalloc ram_update (kboot (\<lambda>_. 0)) 25 = Inr (arr, k) \<and>
    array_add kmalloc kfree ram ram_update k arr 7 = Inr k' \<and>
    array_in (ram k') (kowns k') arr B D [7] \<and> arr_size (ram k') arr = 25"
proof -
  obtain arr k B D where a: "array_create kmalloc ram_update (kboot (\<lambda>_. 0)) 25 = Inr (arr, k)" "kmem_inv k"
    "array_in (ram k) (kowns k) arr B D []" "arr_size (ram k) arr = 25"
    using boot_array [of 25 "\<lambda>_. 0"] by (auto simp: max_request_def)
  show ?thesis
    using array_add_correct [OF a(2,3), of 7] a by (auto split: sum.splits)
qed

text \<open>
  \<open>array_get\<close> returns the element below the number of used slots and null beyond it, but the
  bound lets one index too many through: at the first unused slot it returns whatever word lies
  there, past the end of the block when the array is full.
\<close>

lemma array_get_correct:
  assumes "array_in m own arr B D xs"
  shows "array_get m arr i =
    (if unat i < length xs then xs ! unat i else if unat i = length xs then load32 m (arr_data m arr + 4 * i) else 0)"
proof -
  note ad = array_inD [OF assms]
  have "arr_slot m arr i = xs ! unat i" if "unat i < length xs" using that ad(9,10) by simp
  then show ?thesis
    using ad(10) by (auto simp: array_get_def word_less_nat_alt arr_slot_def arr_slot_addr_def)
qed

text \<open>
  C19: \<open>array_remove\<close> of an element takes its first occurrence out, keeps the order of the rest,
  and hands the removed element itself to \<open>kfree\<close>: the caller no longer owns it afterwards
  (unless it lies in the last page, where \<open>kfree\<close> does nothing).
\<close>

theorem array_remove_frees:
  assumes "kmem_inv k" "array_in (ram k) (kowns k) arr B D xs" "x \<in> set xs"
    and "(x, E) \<in> kowns k" "x \<noteq> arr" "x \<noteq> arr_data (ram k) arr"
  shows "\<exists>k'. array_remove kfree ram ram_update k arr x = Inr k' \<and> kmem_inv k' \<and>
    array_in (ram k') (kowns k') arr B D (remove1 x xs) \<and>
    (unat x div 4194304 \<noteq> 1023 \<longrightarrow> kowns k' = kowns k - {(x, E)})"
proof -
  note ad = array_inD [OF assms(2)]
  obtain k1 where k1: "kfree k x = Inr k1" "kmem_inv k1" "kowns k1 \<subseteq> kowns k" "kowns k - {(x, E)} \<subseteq> kowns k1"
    "others_kept (ram k) (kowns k) (ram k1) (kowns k1) {x}"
    by (rule kernel.mfree_kept [OF assms(1,4)]) blast
  have own1: "(arr, B) \<in> kowns k1" "(arr_data (ram k) arr, D) \<in> kowns k1"
    using others_keptD(1) [OF k1(5)] ad(1,2) assms(5,6) by auto
  have "\<forall>a \<in> B \<union> D. ram k1 a = ram k a"
    using others_keptD(2) [OF k1(5) ad(1)] others_keptD(2) [OF k1(5) ad(2)] assms(5,6) by auto
  note kept = array_in_kept [OF assms(2) own1 this]
  have match: "elem_matches (ram k) None x = (\<lambda>y. y = x)" by (simp add: fun_eq_iff elem_matches_def)
  have hd: "hd (dropWhile (\<lambda>y. \<not> elem_matches (ram k) None x y) xs) = x"
    unfolding match using assms(3) by (induction xs) auto
  have "kfree k (hd (dropWhile (\<lambda>y. \<not> elem_matches (ram k) None x y) xs)) = Inr k1" unfolding hd by (rule k1(1))
  then obtain k' where k': "remove_elem kfree ram ram_update k arr x None None = Inr k'" "kmem_inv k'"
    "array_in (ram k') (kowns k') arr B D (remove_first (elem_matches (ram k) None x) xs)" "kowns k' = kowns k1"
    using kernel.remove_holds [OF assms(2,3), of None x kfree None k1] k1(2) kept(1,2) match by auto
  have "kowns k1 = kowns k - {(x, E)}" if "unat x div 4194304 \<noteq> 1023"
    using kfree_exact [OF assms(1,4) that k1(1)] .
  then show ?thesis using k' by (simp add: array_remove_def match remove_first_eq)
qed

theorem array_remove_frees_witness:
  "\<exists>k arr x k' B D E. (x, E) \<in> kowns k \<and> array_in (ram k) (kowns k) arr B D [x] \<and>
    array_remove kfree ram ram_update k arr x = Inr k' \<and> array_in (ram k') (kowns k') arr B D []"
proof -
  obtain x k0 j where k0: "kmalloc (kboot (\<lambda>_. 0)) 100 = Inr (x, k0)" "running j k0" "j \<le> 1"
    using kmalloc_running [OF kboot_running, of 100 "\<lambda>_. 0"] by (auto simp: max_request_def)
  have "kmem_inv (kboot (\<lambda>_. 0))" using kboot_running by (simp add: running_def)
  then obtain E where E: "(x, E) \<in> kowns k0"
    using kernel.malloc_fresh [OF _ _ k0(1)] by auto
  obtain arr k B D where a: "kmem_inv k" "array_in (ram k) (kowns k) arr B D []" "arr_size (ram k) arr = 25"
    "others_kept (ram k0) (kowns k0) (ram k) (kowns k) {}"
    "\<forall>q C. (q, C) \<in> kowns k0 \<longrightarrow> q \<noteq> arr \<and> q \<noteq> arr_data (ram k) arr"
    using running_array [OF k0(2), of 25] k0(3) by (auto simp: max_request_def)
  have x: "(x, E) \<in> kowns k" "x \<noteq> arr" "x \<noteq> arr_data (ram k) arr"
    using others_keptD(1) [OF a(4) E] a(5) E by auto
  have "arr_used (ram k) arr < arr_size (ram k) arr"
    using array_inD(10) [OF a(2)] a(3) by (simp add: word_less_nat_alt)
  note room = kernel.add_in_room [OF a(1,2) this, of x, unfolded Let_def]
  then obtain k1 where k1: "kmem_inv k1" "array_in (ram k1) (kowns k1) arr B D [x]"
    "others_kept (ram k) (kowns k) (ram k1) (kowns k1) {arr, arr_data (ram k) arr}"
    "arr_data (ram k1) arr = arr_data (ram k) arr" by auto
  have x1: "(x, E) \<in> kowns k1" using others_keptD(1) [OF k1(3) x(1)] x(2,3) by simp
  then obtain k' where "array_remove kfree ram ram_update k1 arr x = Inr k'" "array_in (ram k') (kowns k') arr B D []"
    using array_remove_frees [OF k1(1,2), of x E] x(2,3) k1(4) by auto
  then show ?thesis using x1 k1(2) by (intro exI conjI)
qed

end
