(* ===== verification/Descriptors.thy ===== *)
theory Descriptors
  imports Prelude
begin

text \<open>
  The descriptor tables: src/src/kernel/x86/gdt.c and the gate encoding of x86/idt.c, with the
  structures of include/x86/gdt.h and idt.h. Both scatter an address over the fields of a packed
  8-byte entry. The specification is the processor's side: how it assembles base, limit, offset
  and attributes from the eight bytes in memory.
\<close>

section \<open>The segment descriptors\<close>

record gdt_entry =
  limit_low :: u16
  base_low :: u16
  base_mid :: u8
  access :: u8
  limit_high :: "4 word"
  gdt_flags :: "4 word"
  base_high :: u8

record gdt_ptr =
  gdt_limit :: u16
  gdt_base :: u32

record gdt =
  gdt_entries :: "gdt_entry list"
  gdt_register :: gdt_ptr

definition GDT_MAX_ENTRIES :: nat where "GDT_MAX_ENTRIES = 3"
definition GDT_ADDRESS_MIN :: u32 where "GDT_ADDRESS_MIN = 0"
definition GDT_ADDRESS_MAX :: u32 where "GDT_ADDRESS_MAX = 0xFFFFF"

definition GDT_ACCESS_NONE :: u8 where "GDT_ACCESS_NONE = 0"
definition GDT_ACCESS_RW :: u8 where "GDT_ACCESS_RW = push_bit 1 1"
definition GDT_ACCESS_EXECUTABLE :: u8 where "GDT_ACCESS_EXECUTABLE = push_bit 3 1"
definition GDT_ACCESS_GARBAGE :: u8 where "GDT_ACCESS_GARBAGE = push_bit 4 1"
definition GDT_ACCESS_PRIVILEDGE_RING_ZERO :: u8 where "GDT_ACCESS_PRIVILEDGE_RING_ZERO = push_bit 5 0"
definition GDT_ACCESS_PRESENT :: u8 where "GDT_ACCESS_PRESENT = push_bit 7 1"

definition GDT_FLAGS_NONE :: u8 where "GDT_FLAGS_NONE = 0"
definition GDT_FLAGS_GARBAGE :: u8 where "GDT_FLAGS_GARBAGE = push_bit 0 2"
definition GDT_FLAGS_SIZE :: u8 where "GDT_FLAGS_SIZE = push_bit 2 1"
definition GDT_FLAGS_GRANULARITY :: u8 where "GDT_FLAGS_GRANULARITY = push_bit 3 1"

definition gdt_set_gate :: "nat \<Rightarrow> u32 \<Rightarrow> u32 \<Rightarrow> u8 \<Rightarrow> u8 \<Rightarrow> gdt_entry list \<Rightarrow> gdt_entry list res" where
  "gdt_set_gate idx base limit acc fl entries =
     (if length entries \<le> idx then Inl OutOfBounds
      else
        (let acc = acc OR GDT_ACCESS_GARBAGE;
             fl = fl AND NOT GDT_FLAGS_GARBAGE;
             e = entries ! idx;
             e = e\<lparr>base_low := ucast (base AND 0xFFFF)\<rparr>;
             e = e\<lparr>base_mid := ucast (drop_bit 16 base AND 0xFF)\<rparr>;
             e = e\<lparr>base_high := ucast (drop_bit 24 base AND 0xFF)\<rparr>;
             e = e\<lparr>limit_low := ucast (limit AND 0xFFFF)\<rparr>;
             e = e\<lparr>limit_high := ucast (drop_bit 16 limit AND 0x0F)\<rparr>;
             e = e\<lparr>gdt_flags := ucast fl\<rparr>;
             e = e\<lparr>access := acc\<rparr>
         in Inr (entries[idx := e])))"

text \<open>\<open>addr\<close> is the address the linker gives the table; loading the register is \<open>gdt_flush\<close>.\<close>

definition gdt_init :: "u32 \<Rightarrow> gdt \<Rightarrow> gdt res" where
  "gdt_init addr g =
     (let p = \<lparr>gdt_limit = of_nat (8 * GDT_MAX_ENTRIES) - 1, gdt_base = addr\<rparr>
      in rbind (gdt_set_gate 0 GDT_ADDRESS_MIN GDT_ADDRESS_MIN GDT_ACCESS_NONE GDT_FLAGS_NONE (gdt_entries g)) (\<lambda>es.
         rbind (gdt_set_gate 1 GDT_ADDRESS_MIN GDT_ADDRESS_MAX
            (GDT_ACCESS_RW OR GDT_ACCESS_EXECUTABLE OR GDT_ACCESS_PRIVILEDGE_RING_ZERO OR GDT_ACCESS_PRESENT)
            (GDT_FLAGS_SIZE OR GDT_FLAGS_GRANULARITY) es) (\<lambda>es.
         rbind (gdt_set_gate 2 GDT_ADDRESS_MIN GDT_ADDRESS_MAX
            (GDT_ACCESS_RW OR GDT_ACCESS_PRIVILEDGE_RING_ZERO OR GDT_ACCESS_PRESENT)
            (GDT_FLAGS_SIZE OR GDT_FLAGS_GRANULARITY) es) (\<lambda>es.
         Inr (g\<lparr>gdt_entries := es, gdt_register := p\<rparr>)))))"

section \<open>The interrupt gates\<close>

record idt_entry =
  addr_low :: u16
  selector :: u16
  garbage :: u8
  idt_flags :: u8
  addr_high :: u16

definition idt_set_gate :: "u8 \<Rightarrow> u32 \<Rightarrow> u16 \<Rightarrow> u8 \<Rightarrow> idt_entry list \<Rightarrow> idt_entry list" where
  "idt_set_gate int_num addr sel fl entries =
     (let e = entries ! unat int_num;
          e = e\<lparr>addr_low := ucast (addr AND 0xFFFF)\<rparr>;
          e = e\<lparr>addr_high := ucast (drop_bit 16 addr AND 0xFFFF)\<rparr>;
          e = e\<lparr>garbage := 0\<rparr>;
          e = e\<lparr>selector := sel\<rparr>;
          e = e\<lparr>idt_flags := fl\<rparr>
      in entries[unat int_num := e])"

section \<open>The processor's view\<close>

text \<open>The bytes of a packed entry: little endian, bit-fields from the low end of their byte.\<close>

definition bytes16 :: "u16 \<Rightarrow> u8 list" where
  "bytes16 w = [ucast w, ucast (drop_bit 8 w)]"

definition gdt_bytes :: "gdt_entry \<Rightarrow> u8 list" where
  "gdt_bytes e = bytes16 (limit_low e) @ bytes16 (base_low e) @
     [base_mid e, access e, ucast (limit_high e) OR push_bit 4 (ucast (gdt_flags e)), base_high e]"

definition idt_bytes :: "idt_entry \<Rightarrow> u8 list" where
  "idt_bytes e = bytes16 (addr_low e) @ bytes16 (selector e) @ [garbage e, idt_flags e] @ bytes16 (addr_high e)"

definition cpu_base :: "u8 list \<Rightarrow> u32" where
  "cpu_base d = ucast (d ! 2) OR push_bit 8 (ucast (d ! 3)) OR push_bit 16 (ucast (d ! 4)) OR push_bit 24 (ucast (d ! 7))"

definition cpu_limit :: "u8 list \<Rightarrow> u32" where
  "cpu_limit d = ucast (d ! 0) OR push_bit 8 (ucast (d ! 1)) OR push_bit 16 (ucast (d ! 6) AND 0xF)"

definition cpu_offset :: "u8 list \<Rightarrow> u32" where
  "cpu_offset d = ucast (d ! 0) OR push_bit 8 (ucast (d ! 1)) OR push_bit 16 (ucast (d ! 6)) OR push_bit 24 (ucast (d ! 7))"

definition cpu_selector :: "u8 list \<Rightarrow> u16" where
  "cpu_selector d = ucast (d ! 2) OR push_bit 8 (ucast (d ! 3))"

text \<open>Masks of the low bits truncate.\<close>

lemma and_masks:
  "x AND 0xF = take_bit 4 x" "x AND 0xFF = take_bit 8 x" "x AND 0xFFFF = take_bit 16 x" for x :: u32
  by (simp_all add: take_bit_eq_mask mask_eq_exp_minus_1)

text \<open>
  a segment descriptor round-trips through its bytes: from the eight bytes \<open>gdt_set_gate\<close>
  leaves in the table the processor assembles the base it was given, the low twenty bits of the
  limit, the access byte with the mandatory bit set and the flags with the reserved bit clear;
  the other entries are unchanged.
\<close>

lemma gdt_roundtrip:
  assumes "idx < length entries"
  shows "\<exists>es. gdt_set_gate idx base limit acc fl entries = Inr es \<and>
    cpu_base (gdt_bytes (es ! idx)) = base \<and> cpu_limit (gdt_bytes (es ! idx)) = take_bit 20 limit \<and>
    gdt_bytes (es ! idx) ! 5 = acc OR 0x10 \<and>
    drop_bit 4 (gdt_bytes (es ! idx) ! 6) = take_bit 4 (fl AND NOT 2) \<and>
    (\<forall>j. j \<noteq> idx \<longrightarrow> es ! j = entries ! j)"
proof -
  let ?e = "(entries ! idx)\<lparr>base_low := ucast (base AND 0xFFFF), base_mid := ucast (drop_bit 16 base AND 0xFF),
    base_high := ucast (drop_bit 24 base AND 0xFF), limit_low := ucast (limit AND 0xFFFF),
    limit_high := ucast (drop_bit 16 limit AND 0x0F), gdt_flags := ucast (fl AND NOT GDT_FLAGS_GARBAGE),
    access := acc OR GDT_ACCESS_GARBAGE\<rparr>"
  have eq: "gdt_set_gate idx base limit acc fl entries = Inr (entries[idx := ?e])"
    using assms by (simp add: gdt_set_gate_def)
  have base: "cpu_base (gdt_bytes ?e) = base"
  proof (rule bit_word_eqI)
    fix n assume "n < LENGTH(32)"
    then show "bit (cpu_base (gdt_bytes ?e)) n = bit base n"
      by (cases "n < 8"; cases "n < 16"; cases "n < 24")
        (auto simp: cpu_base_def gdt_bytes_def bytes16_def and_masks bit_simps)
  qed
  have limit: "cpu_limit (gdt_bytes ?e) = take_bit 20 limit"
  proof (rule bit_word_eqI)
    fix n assume "n < LENGTH(32)"
    then show "bit (cpu_limit (gdt_bytes ?e)) n = bit (take_bit 20 limit) n"
      by (cases "n < 8"; cases "n < 16"; cases "n < 20")
        (auto simp: cpu_limit_def gdt_bytes_def bytes16_def and_masks bit_simps)
  qed
  have flags: "drop_bit 4 (gdt_bytes ?e ! 6) = take_bit 4 (fl AND NOT 2)"
  proof (rule bit_word_eqI)
    fix n assume "n < LENGTH(8)"
    have "n < 4 \<Longrightarrow> n = 0 \<or> n = 1 \<or> n = 2 \<or> n = 3" by linarith
    then show "bit (drop_bit 4 (gdt_bytes ?e ! 6)) n = bit (take_bit 4 (fl AND NOT 2)) n"
      by (cases "n < 4") (auto simp: gdt_bytes_def bytes16_def bit_simps GDT_FLAGS_GARBAGE_def)
  qed
  have acc: "gdt_bytes ?e ! 5 = acc OR 0x10"
    by (simp add: gdt_bytes_def bytes16_def GDT_ACCESS_GARBAGE_def)
  show ?thesis
    unfolding eq using assms base limit flags acc by (intro exI [of _ "entries[idx := ?e]"]) simp
qed

text \<open>
  \<open>gdt_init\<close> builds the flat memory model: the code and the data segment both start at zero
  and have the largest limit, in pages (granularity and size bits set); the code segment is a
  present, readable, executable ring-0 segment and the data segment a present, writable ring-0
  segment; and the table register covers exactly the three entries.
\<close>

lemma gdt_init_flat:
  assumes "length (gdt_entries g) = 3"
  shows "\<exists>g'. gdt_init addr g = Inr g' \<and> gdt_register g' = \<lparr>gdt_limit = 23, gdt_base = addr\<rparr> \<and>
    map (\<lambda>e. cpu_base (gdt_bytes e)) (gdt_entries g') = [0, 0, 0] \<and>
    map (\<lambda>e. cpu_limit (gdt_bytes e)) (gdt_entries g') = [0, 0xFFFFF, 0xFFFFF] \<and>
    map access (gdt_entries g') = [0x10, 0x9A, 0x92] \<and> map gdt_flags (gdt_entries g') = [0, 0xC, 0xC]"
proof -
  obtain a b c where "gdt_entries g = [a, b, c]"
    using assms by (auto simp: numeral_eq_Suc length_Suc_conv)
  then show ?thesis
    by (simp add: gdt_init_def gdt_set_gate_def GDT_MAX_ENTRIES_def GDT_ADDRESS_MIN_def GDT_ADDRESS_MAX_def
        GDT_ACCESS_NONE_def GDT_ACCESS_RW_def GDT_ACCESS_EXECUTABLE_def GDT_ACCESS_GARBAGE_def
        GDT_ACCESS_PRIVILEDGE_RING_ZERO_def GDT_ACCESS_PRESENT_def GDT_FLAGS_NONE_def GDT_FLAGS_GARBAGE_def
        GDT_FLAGS_SIZE_def GDT_FLAGS_GRANULARITY_def cpu_base_def cpu_limit_def gdt_bytes_def bytes16_def)
qed

definition blank_gdt_entry :: gdt_entry where
  "blank_gdt_entry = \<lparr>limit_low = 0, base_low = 0, base_mid = 0, access = 0, limit_high = 0, gdt_flags = 0, base_high = 0\<rparr>"

text \<open>
  An interrupt gate round-trips through its bytes: the processor reads back the handler's
  full 32-bit address, the selector and the flags, the byte that must be zero is zero, and the
  other gates are unchanged.
\<close>

lemma idt_gate_roundtrip:
  assumes "length entries = 256"
  shows "(let es = idt_set_gate n addr sel fl entries; d = idt_bytes (es ! unat n)
     in cpu_offset d = addr \<and> cpu_selector d = sel \<and> d ! 4 = 0 \<and> d ! 5 = fl) \<and>
    (\<forall>j. j \<noteq> unat n \<longrightarrow> idt_set_gate n addr sel fl entries ! j = entries ! j)"
proof -
  have n: "unat n < 256" using unsigned_less [of n] by simp
  let ?e = "(entries ! unat n)\<lparr>addr_low := ucast (addr AND 0xFFFF), addr_high := ucast (drop_bit 16 addr AND 0xFFFF),
      garbage := 0, selector := sel, idt_flags := fl\<rparr>"
  have "cpu_offset (idt_bytes ?e) = addr"
  proof (rule bit_word_eqI)
    fix k assume "k < LENGTH(32)"
    then show "bit (cpu_offset (idt_bytes ?e)) k = bit addr k"
      by (cases "k < 8"; cases "k < 16"; cases "k < 24")
        (auto simp: cpu_offset_def idt_bytes_def bytes16_def and_masks bit_simps)
  qed
  moreover have "cpu_selector (idt_bytes ?e) = sel"
  proof (rule bit_word_eqI)
    fix k assume "k < LENGTH(16)"
    then show "bit (cpu_selector (idt_bytes ?e)) k = bit sel k"
      by (cases "k < 8") (auto simp: cpu_selector_def idt_bytes_def bytes16_def bit_simps)
  qed
  moreover have "idt_bytes ?e ! 4 = 0" "idt_bytes ?e ! 5 = fl" by (simp_all add: idt_bytes_def bytes16_def)
  ultimately show ?thesis using assms n by (simp add: idt_set_gate_def Let_def)
qed

end
