(* ===== verification/Interrupts.thy ===== *)
theory Interrupts
  imports Descriptors
begin

text \<open>
  Interrupts: the table set-up and dispatch of src/src/kernel/x86/idt.c, the page-fault handler of
  x86/exceptions.c and the interval timer of drivers/timer.c, over the port instructions of
  x86/io_port.c. Port output is an explicit trace of events; what a port read returns is decided
  by the device, a parameter that may depend on everything sent before. Handlers are the
  addresses they are registered with, and dispatching returns the handler that is called.
\<close>

section \<open>Port input and output\<close>

datatype io_event = Outb u16 u8 | Inb u16 u8

type_synonym io = "io_event list"
type_synonym device = "io \<Rightarrow> u16 \<Rightarrow> u8"

text \<open>The trace grows at its end.\<close>

definition outb :: "u16 \<Rightarrow> u8 \<Rightarrow> io \<Rightarrow> io" where
  "outb port value t = t @ [Outb port value]"

definition inb :: "device \<Rightarrow> u16 \<Rightarrow> io \<Rightarrow> u8 \<times> io" where
  "inb dev port t = (let ret = dev t port in (ret, t @ [Inb port ret]))"

section \<open>The interrupt table\<close>

definition CODE_DESCR :: u16 where "CODE_DESCR = 0x8"
definition PIC_MASTER_COMMAND :: u16 where "PIC_MASTER_COMMAND = 0x20"
definition PIC_MASTER_DATA :: u16 where "PIC_MASTER_DATA = 0x21"
definition PIC_MASTER_START_OFFSET :: u8 where "PIC_MASTER_START_OFFSET = 0x20"
definition PIC_SLAVE_COMMAND :: u16 where "PIC_SLAVE_COMMAND = 0xA0"
definition PIC_SLAVE_DATA :: u16 where "PIC_SLAVE_DATA = 0xA1"
definition PIC_SLAVE_START_OFFSET :: u8 where "PIC_SLAVE_START_OFFSET = 0x28"
definition PIC_EOI :: u8 where "PIC_EOI = 0x20"
definition IDT_MAX_ENTRIES :: nat where "IDT_MAX_ENTRIES = 256"
definition IRQ0 :: u32 where "IRQ0 = 32"
definition IRQ7 :: u32 where "IRQ7 = 39"

definition IDT_FLAGS_GATE_INTERRUPT32 :: u8 where "IDT_FLAGS_GATE_INTERRUPT32 = 0xE"
definition IDT_FLAGS_PRIVILEDGE_RING_ZERO :: u8 where "IDT_FLAGS_PRIVILEDGE_RING_ZERO = push_bit 5 0"
definition IDT_FLAGS_PRESENT :: u8 where "IDT_FLAGS_PRESENT = push_bit 7 1"

record registers =
  ds :: u32
  edi :: u32
  esi :: u32
  ebp :: u32
  esp :: u32
  ebx :: u32
  edx :: u32
  ecx :: u32
  eax :: u32
  int_num :: u32
  err_code :: u32
  eip :: u32
  cs :: u32
  eflags :: u32
  useresp :: u32
  ss :: u32

record idt =
  idt_entries :: "idt_entry list"
  handlers :: "addr list"
  idt_limit :: u16
  idt_base :: u32

definition register_interrupt_handler :: "u8 \<Rightarrow> addr \<Rightarrow> idt \<Rightarrow> idt" where
  "register_interrupt_handler n handler s = s\<lparr>handlers := (handlers s)[unat n := handler]\<rparr>"

definition init_pic :: "io \<Rightarrow> io" where
  "init_pic t =
     (let t = outb PIC_MASTER_COMMAND 0x11 t;
          t = outb PIC_SLAVE_COMMAND 0x11 t;
          t = outb PIC_MASTER_DATA PIC_MASTER_START_OFFSET t;
          t = outb PIC_SLAVE_DATA PIC_SLAVE_START_OFFSET t;
          t = outb PIC_MASTER_DATA 0x04 t;
          t = outb PIC_SLAVE_DATA 0x02 t;
          t = outb PIC_MASTER_DATA 0x01 t;
          t = outb PIC_SLAVE_DATA 0x01 t;
          t = outb PIC_MASTER_DATA 0x0 t
      in outb PIC_SLAVE_DATA 0x0 t)"

text \<open>
  \<open>isr n\<close> and \<open>irq n\<close> are the addresses the linker gives the stubs
  \<open>interrupt_service_request_n\<close> and \<open>interrupt_request_n\<close> of idt_handler.asm.
\<close>

definition gate_flags :: u8 where
  "gate_flags = IDT_FLAGS_GATE_INTERRUPT32 OR IDT_FLAGS_PRIVILEDGE_RING_ZERO OR IDT_FLAGS_PRESENT"

definition init_isr :: "(nat \<Rightarrow> addr) \<Rightarrow> idt_entry list \<Rightarrow> idt_entry list" where
  "init_isr isr entries =
     fold (\<lambda>n. idt_set_gate (of_nat n) (isr n) CODE_DESCR gate_flags) ([0..<32] @ [255]) entries"

definition init_irq :: "(nat \<Rightarrow> addr) \<Rightarrow> idt_entry list \<Rightarrow> idt_entry list" where
  "init_irq irq entries =
     fold (\<lambda>n. idt_set_gate (of_nat (32 + n)) (irq n) CODE_DESCR gate_flags) [0..<16] entries"

definition zero_gate :: idt_entry where
  "zero_gate = \<lparr>addr_low = 0, selector = 0, garbage = 0, idt_flags = 0, addr_high = 0\<rparr>"

definition exceptions_init :: "addr \<Rightarrow> idt \<Rightarrow> idt" where
  "exceptions_init page_fault s = register_interrupt_handler 14 page_fault s"

definition idt_init :: "addr \<Rightarrow> (nat \<Rightarrow> addr) \<Rightarrow> (nat \<Rightarrow> addr) \<Rightarrow> addr \<Rightarrow> idt \<Rightarrow> io \<Rightarrow> idt \<times> io" where
  "idt_init table isr irq page_fault s t =
     (let s = s\<lparr>handlers := replicate IDT_MAX_ENTRIES 0\<rparr>;
          s = s\<lparr>idt_entries := replicate IDT_MAX_ENTRIES zero_gate\<rparr>;
          s = s\<lparr>idt_limit := of_nat (8 * IDT_MAX_ENTRIES) - 1\<rparr>;
          s = s\<lparr>idt_base := table\<rparr>;
          t = init_pic t;
          s = s\<lparr>idt_entries := init_isr isr (idt_entries s)\<rparr>;
          s = s\<lparr>idt_entries := init_irq irq (idt_entries s)\<rparr>
      in (exceptions_init page_fault s, t))"

section \<open>Dispatch\<close>

text \<open>What an interrupt leads to: nothing, a trace message, or the call of a handler.\<close>

datatype dispatch = Ignored | Unexpected u32 | Called addr

definition call_handler :: "idt \<Rightarrow> u32 \<Rightarrow> dispatch res" where
  "call_handler s n =
     (if length (handlers s) \<le> unat n then Inl OutOfBounds
      else if handlers s ! unat n \<noteq> 0 then Inr (Called (handlers s ! unat n))
      else Inr (Unexpected n))"

definition idt_handler :: "idt \<Rightarrow> registers \<Rightarrow> dispatch res" where
  "idt_handler s r = call_handler s (int_num r)"

definition irq_eoi :: "idt \<Rightarrow> registers \<Rightarrow> io \<Rightarrow> dispatch res \<times> io" where
  "irq_eoi s r t =
     (let t = (if int_num r \<ge> ucast PIC_SLAVE_START_OFFSET then outb PIC_SLAVE_COMMAND PIC_EOI t else t);
          t = outb PIC_MASTER_COMMAND PIC_EOI t
      in (call_handler s (int_num r), t))"

definition irq_handler :: "device \<Rightarrow> idt \<Rightarrow> registers \<Rightarrow> io \<Rightarrow> dispatch res \<times> io" where
  "irq_handler dev s r t =
     (if int_num r = IRQ7 then
        (let t = outb PIC_MASTER_COMMAND 0x0B t;
             (status, t) = inb dev PIC_MASTER_COMMAND t
         in if status AND 0x80 \<noteq> 0 then (Inr Ignored, t) else irq_eoi s r t)
      else irq_eoi s r t)"

section \<open>Page faults\<close>

definition PF_PRESENT :: u32 where "PF_PRESENT = 0x1"
definition PF_READ_WRITE :: u32 where "PF_READ_WRITE = 0x2"
definition PF_USER_MODE :: u32 where "PF_USER_MODE = 0x4"
definition PF_RESERVED :: u32 where "PF_RESERVED = 0x8"
definition PF_INSTRUCTION_FETCH :: u32 where "PF_INSTRUCTION_FETCH = 0x16"

definition page_fault_msg :: "u32 \<Rightarrow> string option" where
  "page_fault_msg err =
     (let c = err AND (PF_PRESENT OR PF_READ_WRITE OR PF_USER_MODE)
      in if c = 0 then Some ''Supervisory process tried to read a non-present page entry''
         else if c = PF_PRESENT then Some ''Supervisory process tried to read a page and caused a protection fault''
         else if c = PF_READ_WRITE then Some ''Supervisory process tried to write to a non-present page entry''
         else if c = PF_PRESENT OR PF_READ_WRITE then Some ''Supervisory process tried to write a page and caused a protection fault''
         else if c = PF_USER_MODE then Some ''User process tried to read a non-present page entry''
         else if c = PF_USER_MODE OR PF_PRESENT then Some ''User process tried to read a page and caused a protection fault''
         else if c = PF_USER_MODE OR PF_READ_WRITE then Some ''User process tried to write to a non-present page entry''
         else if c = PF_USER_MODE OR PF_READ_WRITE OR PF_PRESENT then Some ''User process tried to write a page and caused a protection fault''
         else None)"

definition page_fault_extra :: "u32 \<Rightarrow> string option" where
  "page_fault_extra err =
     (let c = err AND (PF_INSTRUCTION_FETCH OR PF_RESERVED)
      in if c = 0 then Some ''Page Fault was not caused by an instruction fetch or overwrite of reserved bits''
         else if c = PF_INSTRUCTION_FETCH then Some ''Page Fault was caused by an instruction fetch''
         else if c = PF_RESERVED then Some ''Page Fault was caused by an overwrite of reserved bits''
         else if c = PF_INSTRUCTION_FETCH OR PF_RESERVED then Some ''Page Fault was caused by both an instruction fetch and an overwrite of reserved bits''
         else None)"

text \<open>
  The handler panics: the result is the arguments of its report, which are the faulting address
  (register CR2, a parameter), the two strings, null for \<open>None\<close>, and five registers.
\<close>

definition page_fault_handler :: "u32 \<Rightarrow> registers \<Rightarrow> u32 \<times> string option \<times> string option \<times> u32 list" where
  "page_fault_handler cr2 r =
     (cr2, page_fault_msg (err_code r), page_fault_extra (err_code r),
      [ebp r, esp r, eip r, eflags r, useresp r])"

section \<open>The interval timer\<close>

definition PIT_CHANNEL0 :: u16 where "PIT_CHANNEL0 = 0x40"
definition PIT_COMMAND :: u16 where "PIT_COMMAND = 0x43"
definition PIT_REPEAT :: u8 where "PIT_REPEAT = 0x36"
definition oscillator_frequency :: u32 where "oscillator_frequency = 1193180"

definition timer_init :: "addr \<Rightarrow> idt \<Rightarrow> idt" where
  "timer_init timer_default_irq s = register_interrupt_handler (ucast IRQ0) timer_default_irq s"

definition timer_set_handler :: "u32 \<Rightarrow> addr \<Rightarrow> idt \<Rightarrow> io \<Rightarrow> (idt \<times> io) res" where
  "timer_set_handler frequency cb s t =
     (if frequency = 0 then Inl DivideFault
      else
        (let rate = (ucast (oscillator_frequency div frequency) :: u16);
             s = register_interrupt_handler (ucast IRQ0) cb s;
             t = outb PIT_COMMAND PIT_REPEAT t;
             low = (ucast (rate AND 0xFF) :: u8);
             high = (ucast (drop_bit 8 rate AND 0xFF) :: u8);
             t = outb PIT_CHANNEL0 low t
         in Inr (s, outb PIT_CHANNEL0 high t)))"

section \<open>The table after initialisation\<close>

text \<open>A gate is determined by what is stored in it.\<close>

definition gate :: "addr \<Rightarrow> idt_entry" where
  "gate a = \<lparr>addr_low = ucast (a AND 0xFFFF), selector = CODE_DESCR, garbage = 0, idt_flags = gate_flags,
     addr_high = ucast (drop_bit 16 a AND 0xFFFF)\<rparr>"

lemma set_gate_nth:
  assumes "length es = 256" "v < 256"
  shows "idt_set_gate n a CODE_DESCR gate_flags es ! v = (if v = unat n then gate a else es ! v)"
    "length (idt_set_gate n a CODE_DESCR gate_flags es) = 256"
  using assms by (auto simp: idt_set_gate_def Let_def gate_def nth_list_update)

lemma fold_gates_all:
  assumes "length es = 256" "\<forall>n \<in> set ns. h n < 256" "inj_on h (set ns)"
  shows "length (fold (\<lambda>n. idt_set_gate (of_nat (h n)) (a n) CODE_DESCR gate_flags) ns es) = 256 \<and>
    (\<forall>v < 256. v \<notin> h ` set ns \<longrightarrow>
      fold (\<lambda>n. idt_set_gate (of_nat (h n)) (a n) CODE_DESCR gate_flags) ns es ! v = es ! v) \<and>
    (\<forall>n \<in> set ns.
      fold (\<lambda>n. idt_set_gate (of_nat (h n)) (a n) CODE_DESCR gate_flags) ns es ! h n = gate (a n))"
  using assms
proof (induction ns arbitrary: es)
  case (Cons m ns)
  let ?es = "idt_set_gate (of_nat (h m)) (a m) CODE_DESCR gate_flags es"
  have m: "unat (of_nat (h m) :: u8) = h m" "h m < 256" using Cons.prems(2) by (simp_all add: unat_of_nat)
  note nth = set_gate_nth(1) [OF Cons.prems(1)]
  have len: "length ?es = 256" using set_gate_nth(2) [OF Cons.prems(1), of 0] by simp
  note IH = Cons.IH [OF len]
  have first: "fold (\<lambda>n. idt_set_gate (of_nat (h n)) (a n) CODE_DESCR gate_flags) ns ?es ! h m = gate (a m)"
    if "m \<notin> set ns"
  proof -
    have "h m \<notin> h ` set ns" using Cons.prems(3) that by (auto simp: inj_on_def)
    then show ?thesis using IH Cons.prems nth [OF m(2)] m by auto
  qed
  show ?case using IH Cons.prems nth m first by (auto simp: inj_on_def)
qed simp

lemma gate_bytes:
  "cpu_offset (idt_bytes (gate a)) = a" "cpu_selector (idt_bytes (gate a)) = 8" "idt_bytes (gate a) ! 5 = 0x8E"
proof -
  show "cpu_offset (idt_bytes (gate a)) = a"
  proof (rule bit_word_eqI)
    fix k assume "k < LENGTH(32)"
    then show "bit (cpu_offset (idt_bytes (gate a))) k = bit a k"
      by (cases "k < 8"; cases "k < 16"; cases "k < 24")
        (auto simp: gate_def cpu_offset_def idt_bytes_def bytes16_def and_masks bit_simps)
  qed
  show "cpu_selector (idt_bytes (gate a)) = 8" "idt_bytes (gate a) ! 5 = 0x8E"
    by (simp_all add: gate_def cpu_selector_def idt_bytes_def bytes16_def CODE_DESCR_def gate_flags_def
        IDT_FLAGS_GATE_INTERRUPT32_def IDT_FLAGS_PRIVILEDGE_RING_ZERO_def IDT_FLAGS_PRESENT_def)
qed

text \<open>The stub a vector must reach: exceptions and the yield vector, then the sixteen remapped IRQs.\<close>

definition vector_stub :: "(nat \<Rightarrow> addr) \<Rightarrow> (nat \<Rightarrow> addr) \<Rightarrow> nat \<Rightarrow> addr option" where
  "vector_stub isr irq v =
     (if v < 32 \<or> v = 255 then Some (isr v) else if v < 48 then Some (irq (v - 32)) else None)"

lemma idt_init_entries:
  assumes "v < 256"
  shows "idt_entries (fst (idt_init table isr irq pf s t)) ! v =
    (case vector_stub isr irq v of Some a \<Rightarrow> gate a | None \<Rightarrow> zero_gate)"
proof -
  let ?z = "replicate 256 zero_gate" and ?i = "init_isr isr (replicate 256 zero_gate)"
  have len: "length ?z = 256" by simp
  define ns where "ns = [0..<32] @ [255 :: nat]"
  have ns: "set ns = {..<32} \<union> {255}" "\<forall>n \<in> set ns. n < 256" "inj_on (\<lambda>n. n) (set ns)"
    by (auto simp: ns_def)
  have i: "?i = fold (\<lambda>n. idt_set_gate (of_nat n) (isr n) CODE_DESCR gate_flags) ns ?z"
    by (simp only: init_isr_def ns_def)
  note f = fold_gates_all [OF len ns(2,3), of isr, folded i]
  have isr: "length ?i = 256" "\<And>v. v < 256 \<Longrightarrow> v \<notin> {..<32} \<union> {255} \<Longrightarrow> ?i ! v = zero_gate"
    "\<And>v. v \<in> {..<32} \<union> {255} \<Longrightarrow> ?i ! v = gate (isr v)"
    using f unfolding ns(1) by auto
  have ms: "\<forall>n \<in> set [0..<16]. 32 + n < 256" "inj_on ((+) 32) (set [0..<16])" by auto
  have irq: "length (init_irq irq ?i) = 256"
    "\<And>v. v < 256 \<Longrightarrow> \<not> (32 \<le> v \<and> v < 48) \<Longrightarrow> init_irq irq ?i ! v = ?i ! v"
    "\<And>n. n < 16 \<Longrightarrow> init_irq irq ?i ! (32 + n) = gate (irq n)"
    using fold_gates_all [OF isr(1) ms, of irq] unfolding init_irq_def by auto
  have es: "idt_entries (fst (idt_init table isr irq pf s t)) = init_irq irq ?i"
    by (simp add: idt_init_def exceptions_init_def register_interrupt_handler_def IDT_MAX_ENTRIES_def Let_def)
  consider "v < 32 \<or> v = 255" | "32 \<le> v" "v < 48" "v \<noteq> 255" | "48 \<le> v" "v \<noteq> 255"
    by linarith
  then show ?thesis
  proof cases
    case 1
    then have "\<not> (32 \<le> v \<and> v < 48)" by auto
    then show ?thesis using 1 irq(2) [OF assms] isr(3) unfolding es by (auto simp: vector_stub_def)
  next
    case 2
    then show ?thesis using irq(3) [of "v - 32"] unfolding es by (simp add: vector_stub_def)
  next
    case 3
    then have "\<not> (32 \<le> v \<and> v < 48)" by auto
    then show ?thesis using 3 irq(2) [OF assms] isr(2) [OF assms] unfolding es by (auto simp: vector_stub_def)
  qed
qed

text \<open>
  After \<open>idt_init\<close> every vector is set up: exceptions 0 to 31 and the yield vector 255 lead to
  their own service stub, vectors 32 to 47 to the stubs of IRQ 0 to 15, through present ring-0
  32-bit interrupt gates of the kernel code segment; every other gate is absent. Only the
  page-fault handler is registered, and the table register covers the 256 gates.
\<close>

lemma idt_init_vectors:
  assumes "v < 256"
  shows "(let (s', t') = idt_init table isr irq pf s t; d = idt_bytes (idt_entries s' ! v)
     in (case vector_stub isr irq v of
           Some a \<Rightarrow> cpu_offset d = a \<and> cpu_selector d = 8 \<and> d ! 5 = 0x8E
         | None \<Rightarrow> d ! 5 = 0)
       \<and> handlers s' ! v = (if v = 14 then pf else 0) \<and> idt_limit s' = 2047 \<and> idt_base s' = table)"
proof -
  let ?s = "fst (idt_init table isr irq pf s t)"
  have "handlers ?s ! v = (if v = 14 then pf else 0)" "idt_limit ?s = 2047" "idt_base ?s = table"
    using assms by (simp_all add: idt_init_def exceptions_init_def register_interrupt_handler_def IDT_MAX_ENTRIES_def
        Let_def nth_list_update)
  moreover have "case vector_stub isr irq v of
      Some a \<Rightarrow> cpu_offset (idt_bytes (idt_entries ?s ! v)) = a \<and> cpu_selector (idt_bytes (idt_entries ?s ! v)) = 8 \<and>
        idt_bytes (idt_entries ?s ! v) ! 5 = 0x8E
    | None \<Rightarrow> idt_bytes (idt_entries ?s ! v) ! 5 = 0"
    unfolding idt_init_entries [OF assms]
    using gate_bytes by (auto split: option.split simp: zero_gate_def) (simp add: idt_bytes_def bytes16_def)
  ultimately show ?thesis by (simp add: case_prod_beta Let_def)
qed

definition blank_idt :: idt where
  "blank_idt = \<lparr>idt_entries = [], handlers = [], idt_limit = 0, idt_base = 0\<rparr>"

section \<open>Acknowledging interrupts\<close>

text \<open>
  An IRQ other than IRQ 7 is acknowledged exactly once at the master controller, before that
  and exactly for vectors from 40 on also at the slave, and then its registered handler is
  called; nothing else is sent to any port.
\<close>

lemma irq_acknowledged:
  assumes "length (handlers s) = 256" "int_num r < 256" "int_num r \<noteq> 39"
  shows "irq_handler dev s r t =
    (Inr (if handlers s ! unat (int_num r) = 0 then Unexpected (int_num r) else Called (handlers s ! unat (int_num r))),
     t @ (if 40 \<le> int_num r then [Outb 0xA0 0x20] else []) @ [Outb 0x20 0x20])"
  using assms
  by (auto simp: irq_handler_def IRQ7_def irq_eoi_def call_handler_def outb_def PIC_SLAVE_START_OFFSET_def
      PIC_SLAVE_COMMAND_def PIC_MASTER_COMMAND_def PIC_EOI_def word_less_nat_alt)

definition demo_regs :: "u32 \<Rightarrow> registers" where
  "demo_regs n = \<lparr>ds = 16, edi = 0, esi = 0, ebp = 0, esp = 0, ebx = 0, edx = 0, ecx = 0, eax = 0, int_num = n,
     err_code = 0, eip = 0, cs = 8, eflags = 0, useresp = 0, ss = 16\<rparr>"

text \<open>
  The test for spurious interrupts is the wrong way round. When the master reports IRQ 7 in
  service (bit 7 of its in-service register), so that the interrupt is genuine, the handler
  returns without acknowledging it and without calling anything; when the bit is clear, so that
  the interrupt is spurious, it is acknowledged and dispatched.
\<close>

lemma irq7_dropped:
  fixes dev :: device and t :: io
  assumes "length (handlers s) = 256" "int_num r = 39"
  defines "isr \<equiv> dev (t @ [Outb 0x20 0x0B]) 0x20"
  shows "irq_handler dev s r t =
    (if bit isr 7 then (Inr Ignored, t @ [Outb 0x20 0x0B, Inb 0x20 isr])
     else (Inr (if handlers s ! 39 = 0 then Unexpected 39 else Called (handlers s ! 39)),
           t @ [Outb 0x20 0x0B, Inb 0x20 isr, Outb 0x20 0x20]))"
proof -
  have "isr AND 0x80 = isr AND 2 ^ 7" by simp
  then have "isr AND 0x80 \<noteq> 0 \<longleftrightarrow> bit isr 7" by (simp only: and_exp_eq_0_iff_not_bit) simp
  then show ?thesis
    using assms(1,2)
    by (auto simp: irq_handler_def IRQ7_def irq_eoi_def call_handler_def outb_def inb_def Let_def
        PIC_SLAVE_START_OFFSET_def PIC_MASTER_COMMAND_def PIC_EOI_def isr_def)
qed

section \<open>Reports of page faults\<close>

lemma low_bits:
  fixes x :: u32
  shows "x AND 7 \<in> {0, 1, 2, 3, 4, 5, 6, 7}"
    "bit x 0 = bit (x AND 7) 0" "bit x 1 = bit (x AND 7) 1" "bit x 2 = bit (x AND 7) 2"
proof -
  have seven: "x AND 7 = take_bit 3 x" by (simp add: take_bit_eq_mask mask_eq_exp_minus_1)
  have "unat (x AND 7) < 8"
  proof -
    have "unat (take_bit 3 x) = take_bit 3 (unat x)" by (simp add: unsigned_take_bit_eq)
    also have "\<dots> < 2 ^ 3" by (rule take_bit_nat_less_exp)
    finally show ?thesis by (simp add: seven)
  qed
  then have "unat (x AND 7) = 0 \<or> unat (x AND 7) = 1 \<or> unat (x AND 7) = 2 \<or> unat (x AND 7) = 3 \<or>
      unat (x AND 7) = 4 \<or> unat (x AND 7) = 5 \<or> unat (x AND 7) = 6 \<or> unat (x AND 7) = 7" by linarith
  then show "x AND 7 \<in> {0, 1, 2, 3, 4, 5, 6, 7}" by (auto simp: word_unat_eq_iff)
  show "bit x 0 = bit (x AND 7) 0" "bit x 1 = bit (x AND 7) 1" "bit x 2 = bit (x AND 7) 2"
    by (auto simp: seven bit_simps)
qed

text \<open>
  For every error code the page-fault report names the right cause: who faulted (bit 2), the
  kind of access (bit 1), and whether the page was absent or protected (bit 0).
\<close>

lemma page_fault_cause:
  "page_fault_msg err = Some (
     (if bit err 2 then ''User'' else ''Supervisory'') @ '' process tried to '' @
     (if bit err 1 then (if bit err 0 then ''write'' else ''write to'') else ''read'') @
     (if bit err 0 then '' a page and caused a protection fault'' else '' a non-present page entry''))"
proof -
  have m: "PF_PRESENT OR PF_READ_WRITE OR PF_USER_MODE = 7"
    by (simp add: PF_PRESENT_def PF_READ_WRITE_def PF_USER_MODE_def)
  show ?thesis
    unfolding page_fault_msg_def m Let_def low_bits(2-4) [of err] using low_bits(1) [of err]
    by (elim insertE) (simp_all add: PF_PRESENT_def PF_READ_WRITE_def PF_USER_MODE_def bit_iff_odd)
qed

text \<open>
  the second half of the report goes wrong because \<open>INSTRUCTION_FETCH\<close> is 0x16, three bits,
  where the processor's flag is bit 4: the pointer stays null for every error code in which some
  but not all of the bits 1, 2 and 4 are set, among them every plain write fault.
\<close>

lemma page_fault_extra_null:
  "page_fault_extra err = None \<longleftrightarrow> err AND 0x16 \<noteq> 0 \<and> err AND 0x16 \<noteq> 0x16"
proof -
  have m: "PF_INSTRUCTION_FETCH OR PF_RESERVED = 0x1E" "PF_INSTRUCTION_FETCH = 0x16" "PF_RESERVED = 8"
    by (simp_all add: PF_INSTRUCTION_FETCH_def PF_RESERVED_def)
  have low: "err AND 31 \<in> set (map of_nat [0..<32])"
  proof -
    have "err AND 31 = take_bit 5 err" by (simp add: take_bit_eq_mask mask_eq_exp_minus_1)
    moreover have "take_bit 5 (unat err) < 2 ^ 5" by (rule take_bit_nat_less_exp)
    ultimately have "unat (err AND 31) < 32" by (simp add: unsigned_take_bit_eq)
    then show ?thesis by (auto intro!: rev_image_eqI [of "unat (err AND 31)"])
  qed
  have all: "list_all (\<lambda>c :: u32. (let d = c AND 0x1E in d \<noteq> 0 \<and> d \<noteq> 0x16 \<and> d \<noteq> 8 \<and> d \<noteq> 0x1E)
      \<longleftrightarrow> c AND 0x16 \<noteq> 0 \<and> c AND 0x16 \<noteq> 0x16) (map of_nat [0..<32])"
    by code_simp
  have d: "err AND 0x1E = (err AND 31) AND 0x1E" "err AND 0x16 = (err AND 31) AND 0x16"
    by (simp_all add: and.assoc)
  have "(let d = (err AND 31) AND 0x1E in d \<noteq> 0 \<and> d \<noteq> 0x16 \<and> d \<noteq> 8 \<and> d \<noteq> 0x1E)
      \<longleftrightarrow> (err AND 31) AND 0x16 \<noteq> 0 \<and> (err AND 31) AND 0x16 \<noteq> 0x16"
    using all low unfolding list_all_iff by blast
  then show ?thesis
    unfolding page_fault_extra_def m Let_def d [symmetric] by auto
qed

section \<open>The timer\<close>

text \<open>
  \<open>timer_set_handler\<close> registers the handler for IRQ 0 and programs channel 0, low byte first,
  with the sixteen low bits of the divisor 1193180 / frequency; the programmed divisor is the
  intended one exactly for frequencies from 19 Hz on, and frequency zero is a divide fault.
\<close>

lemma timer_programs_divisor:
  "timer_set_handler frequency cb s t =
    (if frequency = 0 then Inl DivideFault
     else Inr (s\<lparr>handlers := (handlers s)[32 := cb]\<rparr>,
       t @ [Outb 0x43 0x36, Outb 0x40 (of_nat ((1193180 div unat frequency) mod 65536)),
            Outb 0x40 (of_nat ((1193180 div unat frequency) mod 65536 div 256))]))
   \<and> (1193180 div unat frequency < 65536 \<longleftrightarrow> unat frequency = 0 \<or> 19 \<le> unat frequency)"
proof
  let ?q = "1193180 div unat frequency"
  have rate: "(ucast (oscillator_frequency div frequency) :: u16) = of_nat ?q"
    by (simp add: oscillator_frequency_def word_unat_eq_iff unat_of_nat unsigned_ucast_eq unat_div_distrib take_bit_eq_mod)
  let ?r = "?q mod 65536"
  have r: "unat (of_nat ?q :: u16) = ?r" by (simp add: unat_of_nat)
  have and255: "w AND 0xFF = take_bit 8 w" for w :: u16 by (simp add: take_bit_eq_mask mask_eq_exp_minus_1)
  have byte: "unat (ucast (w AND 0xFF) :: u8) = unat w mod 256" for w :: u16
    unfolding and255 unsigned_ucast_eq unsigned_take_bit_eq by (simp add: take_bit_eq_mod)
  have low: "(ucast ((of_nat ?q :: u16) AND 0xFF) :: u8) = of_nat ?r"
    by (simp add: word_unat_eq_iff byte r unat_of_nat)
  have "unat (drop_bit 8 (of_nat ?q :: u16)) = ?r div 256"
    unfolding unat_drop_bit_eq r by (simp add: drop_bit_eq_div)
  then have high: "(ucast (drop_bit 8 (of_nat ?q :: u16) AND 0xFF) :: u8) = of_nat (?r div 256)"
    by (simp add: word_unat_eq_iff byte unat_of_nat)
  show "timer_set_handler frequency cb s t =
    (if frequency = 0 then Inl DivideFault
     else Inr (s\<lparr>handlers := (handlers s)[32 := cb]\<rparr>,
       t @ [Outb 0x43 0x36, Outb 0x40 (of_nat ?r), Outb 0x40 (of_nat (?r div 256))]))"
    unfolding timer_set_handler_def rate Let_def low high
    by (simp add: register_interrupt_handler_def IRQ0_def outb_def PIT_COMMAND_def PIT_REPEAT_def PIT_CHANNEL0_def)
  show "?q < 65536 \<longleftrightarrow> unat frequency = 0 \<or> 19 \<le> unat frequency"
  proof (cases "unat frequency = 0")
    case False
    then have "?q < 65536 \<longleftrightarrow> 1193180 < 65536 * unat frequency" by (simp add: div_less_iff_less_mult)
    then show ?thesis using False by auto
  qed simp
qed

end
