(* ===== verification/Vga.thy ===== *)
theory Vga
  imports DynArray Interrupts
begin

text \<open>
  The text console, src/src/kernel/drivers/vga.c: the 25 by 80 screen at \<open>buf\<close>, the cursor, the
  current colour, and the scroll-back, a dynamic array of line buffers in the kernel heap. The
  screen is a list of 2000 cells; an access outside it is \<open>OutOfBounds\<close>. The array and the line
  buffers are objects of the kernel's memory, reached by the operations of DynArray and KMem.
\<close>

section \<open>The code\<close>

datatype vga_color =
    COLOR_BLACK | COLOR_BLUE | COLOR_GREEN | COLOR_CYAN | COLOR_RED | COLOR_MAGENTA | COLOR_BROWN
  | COLOR_LIGHT_GREY | COLOR_DARK_GREY | COLOR_LIGHT_BLUE | COLOR_LIGHT_GREEN | COLOR_LIGHT_CYAN
  | COLOR_LIGHT_RED | COLOR_LIGHT_MAGENTA | COLOR_YELLOW | COLOR_WHITE

fun color_code :: "vga_color \<Rightarrow> u32" where
  "color_code COLOR_BLACK = 0"
| "color_code COLOR_BLUE = 1"
| "color_code COLOR_GREEN = 2"
| "color_code COLOR_CYAN = 3"
| "color_code COLOR_RED = 4"
| "color_code COLOR_MAGENTA = 5"
| "color_code COLOR_BROWN = 6"
| "color_code COLOR_LIGHT_GREY = 7"
| "color_code COLOR_DARK_GREY = 8"
| "color_code COLOR_LIGHT_BLUE = 9"
| "color_code COLOR_LIGHT_GREEN = 10"
| "color_code COLOR_LIGHT_CYAN = 11"
| "color_code COLOR_LIGHT_RED = 12"
| "color_code COLOR_LIGHT_MAGENTA = 13"
| "color_code COLOR_YELLOW = 14"
| "color_code COLOR_WHITE = 15"

definition vga_height :: u32 where "vga_height = 25"
definition vga_width :: u32 where "vga_width = 80"

record vga =
  cur_x :: u32
  cur_y :: u32
  color :: u8
  buf :: "u16 list"
  lines_arr :: addr
  line_number :: u32
  kern :: kmem
  ports :: io

definition make_color :: "vga_color \<Rightarrow> vga_color \<Rightarrow> u8" where
  "make_color foreground background = ucast (color_code foreground OR push_bit 4 (color_code background))"

text \<open>The cast of a \<open>char\<close>, which is signed on this target, to \<open>uint16_t\<close> extends its sign.\<close>

definition color_char :: "vga \<Rightarrow> u8 \<Rightarrow> u16" where
  "color_char s c = (let c16 = (scast c :: u16); color16 = (ucast (color s) :: u16) in c16 OR push_bit 8 color16)"

definition reserved :: "u32 \<Rightarrow> u32 \<Rightarrow> bool" where
  "reserved i j \<longleftrightarrow> i = 0 \<and> j = vga_width - 10 \<or> i = 1 \<and> j = vga_width - 15"

definition get_index :: "vga \<Rightarrow> u32 res" where
  "get_index s =
     (if cur_y s > vga_height \<or> cur_x s > vga_width then Inl (Panic ''Bad VGA Coordinates: x=%d, y=%d'')
      else Inr (cur_y s * vga_width + cur_x s))"

definition put_cell :: "u32 \<Rightarrow> u16 \<Rightarrow> vga \<Rightarrow> vga res" where
  "put_cell idx v s =
     (if unat idx < length (buf s) then Inr (s\<lparr>buf := (buf s)[unat idx := v]\<rparr>) else Inl OutOfBounds)"

definition update_cursor :: "vga \<Rightarrow> vga res" where
  "update_cursor s =
     rbind (get_index s) (\<lambda>idx.
       let pos = (ucast idx :: u16);
           low = (ucast (pos AND 0xFF) :: u8);
           high = (ucast (drop_bit 8 pos AND 0xFF) :: u8);
           t = outb 0x3D4 0x0F (ports s);
           t = outb 0x3D5 low t;
           t = outb 0x3D4 0x0E t
       in Inr (s\<lparr>ports := outb 0x3D5 high t\<rparr>))"

text \<open>A loop over given indices whose body may fail.\<close>

fun for_each :: "('i \<Rightarrow> 's \<Rightarrow> 's res) \<Rightarrow> 'i list \<Rightarrow> 's \<Rightarrow> 's res" where
  "for_each f [] s = Inr s"
| "for_each f (i # is) s = rbind (f i s) (for_each f is)"

definition load16 :: "mem \<Rightarrow> addr \<Rightarrow> u16" where
  "load16 m a = ucast (m a) OR push_bit 8 (ucast (m (a + 1)))"

definition store16 :: "mem \<Rightarrow> addr \<Rightarrow> u16 \<Rightarrow> mem" where
  "store16 m a v = m(a := ucast v, a + 1 := ucast (drop_bit 8 v))"

text \<open>The address of \<open>line[j]\<close>.\<close>

definition cell :: "addr \<Rightarrow> nat \<Rightarrow> addr" where
  "cell line j = line + of_nat (2 * j)"

text \<open>The inner loops of \<open>save_buffer\<close> and \<open>draw_buffer\<close>, for row \<open>i\<close>, which stop at the reserved column.\<close>

function save_row :: "u16 list \<Rightarrow> nat \<Rightarrow> addr \<Rightarrow> nat \<Rightarrow> mem \<Rightarrow> mem" where
  "save_row b i line j m =
     (if j < 80 then
        if reserved (of_nat i) (of_nat j) then m
        else save_row b i line (j + 1) (store16 m (cell line j) (b ! (i * 80 + j)))
      else m)"
  by pat_completeness auto
termination by (relation "measure (\<lambda>(b, i, line, j, m). 80 - j)") auto

function draw_row :: "mem \<Rightarrow> nat \<Rightarrow> addr \<Rightarrow> nat \<Rightarrow> u16 list \<Rightarrow> u16 list" where
  "draw_row m i line j b =
     (if j < 80 then
        if reserved (of_nat i) (of_nat j) then b
        else draw_row m i line (j + 1) (b[i * 80 + j := load16 m (cell line j)])
      else b)"
  by pat_completeness auto
termination by (relation "measure (\<lambda>(m, i, line, j, b). 80 - j)") auto

declare save_row.simps [simp del] draw_row.simps [simp del]

text \<open>
  \<open>array_get (lines, line_number + i)\<close>; the line is accessed without a check, so a null pointer
  faults, as does the array itself before \<open>vga_dynamic_init\<close>.
\<close>

definition get_line :: "vga \<Rightarrow> nat \<Rightarrow> addr res" where
  "get_line s i =
     (if lines_arr s = 0 then Inl NullDeref
      else (let line = array_get (ram (kern s)) (lines_arr s) (line_number s + of_nat i)
            in if line = 0 then Inl NullDeref else Inr line))"

definition save_buffer :: "vga \<Rightarrow> vga res" where
  "save_buffer s =
     for_each (\<lambda>i s. rbind (get_line s i) (\<lambda>line.
       Inr (s\<lparr>kern := ram_update (save_row (buf s) i line 0) (kern s)\<rparr>))) [0..<25] s"

definition draw_buffer :: "vga \<Rightarrow> vga res" where
  "draw_buffer s =
     for_each (\<lambda>i s. rbind (get_line s i) (\<lambda>line.
       Inr (s\<lparr>buf := draw_row (ram (kern s)) i line 0 (buf s)\<rparr>))) [0..<25] s"

definition fill_line :: "u16 \<Rightarrow> addr \<Rightarrow> mem \<Rightarrow> mem" where
  "fill_line v line m = fold (\<lambda>j m. store16 m (cell line j) v) [0..<80] m"

text \<open>The new blank line of \<open>vga_scroll_down\<close>.\<close>

definition add_blank_line :: "vga \<Rightarrow> vga res" where
  "add_blank_line s =
     rbind (kmalloc (kern s) (2 * vga_width)) (\<lambda>(line, k).
       let k = ram_update (fill_line (color_char s 32) line) k
       in rbind (array_add kmalloc kfree ram ram_update k (lines_arr s) line) (\<lambda>k. Inr (s\<lparr>kern := k\<rparr>)))"

definition vga_scroll_down :: "vga \<Rightarrow> vga res" where
  "vga_scroll_down s =
     rbind (save_buffer s) (\<lambda>s.
     rbind (if arr_used (ram (kern s)) (lines_arr s) \<le> line_number s + vga_height then add_blank_line s else Inr s) (\<lambda>s.
     draw_buffer (s\<lparr>line_number := line_number s + 1\<rparr>)))"

definition vga_scroll_up :: "vga \<Rightarrow> vga res" where
  "vga_scroll_up s =
     (if line_number s = 0 then Inr s
      else rbind (save_buffer s) (\<lambda>s. draw_buffer (s\<lparr>line_number := line_number s - 1\<rparr>)))"

text \<open>
  The end of \<open>vga_putc\<close>, the branch of the newline character, and the function, which calls
  itself twice on a reserved position, first with a newline.
\<close>

definition put_advance :: "vga \<Rightarrow> vga res" where
  "put_advance s =
     (let s = s\<lparr>cur_x := cur_x s + 1\<rparr>
      in rbind
           (if cur_x s \<ge> vga_width \<or> reserved (cur_x s) (cur_y s) then
              (let s = s\<lparr>cur_x := 0, cur_y := cur_y s + 1\<rparr>
               in if cur_y s \<ge> vga_height then vga_scroll_down (s\<lparr>cur_y := cur_y s - 1\<rparr>) else Inr s)
            else Inr s)
           update_cursor)"

function fill_rest :: "vga \<Rightarrow> vga res" where
  "fill_rest s =
     (if cur_x s < vga_width \<and> \<not> reserved (cur_x s) (cur_y s) then
        (case rbind (get_index s) (\<lambda>idx. put_cell idx (color_char s 32) s) of
           Inl e \<Rightarrow> Inl e
         | Inr s' \<Rightarrow> fill_rest (s'\<lparr>cur_x := cur_x s + 1\<rparr>))
      else Inr s)"
  by pat_completeness auto
termination
  by (relation "measure (\<lambda>s. unat (vga_width - cur_x s))") (auto simp: loop_measure)

declare fill_rest.simps [simp del]

definition put_newline :: "vga \<Rightarrow> vga res" where
  "put_newline s = rbind (fill_rest s) put_advance"

partial_function (option) putc_loop :: "u8 \<Rightarrow> vga \<Rightarrow> vga res option" where
  "putc_loop c s =
     (if c = 10 then Some (put_newline s)
      else if reserved (cur_x s) (cur_y s) then
        (case put_newline s of Inl e \<Rightarrow> Some (Inl e) | Inr s \<Rightarrow> putc_loop c s)
      else Some (rbind (get_index s) (\<lambda>idx.
             rbind (put_cell idx (color_char s (if c = 9 then 32 else c)) s) put_advance)))"

declare putc_loop.simps [code]

definition vga_putc :: "u8 \<Rightarrow> vga \<Rightarrow> vga res" where
  "vga_putc c s = run (putc_loop c s)"

text \<open>A string is the list of its bytes before the terminating zero.\<close>

definition vga_print :: "u8 list \<Rightarrow> vga \<Rightarrow> vga res" where
  "vga_print chars s = for_each vga_putc chars s"

definition vga_print_color :: "vga_color \<Rightarrow> u8 list \<Rightarrow> vga \<Rightarrow> vga res" where
  "vga_print_color new_color chars s =
     (let old_color = color s;
          s = s\<lparr>color := make_color new_color COLOR_BLACK\<rparr>
      in rbind (vga_print chars s) (\<lambda>s. Inr (s\<lparr>color := old_color\<rparr>)))"

definition vga_set_color :: "vga_color \<Rightarrow> vga_color \<Rightarrow> vga \<Rightarrow> vga" where
  "vga_set_color foreground background s =
     (let s = s\<lparr>color := make_color foreground background\<rparr>
      in s\<lparr>buf := fold (\<lambda>index b. b[index := color_char s (ucast (b ! index))]) [0..<25 * 80] (buf s)\<rparr>)"

definition clear_line :: "u32 \<Rightarrow> vga \<Rightarrow> vga res" where
  "clear_line line s = for_each (\<lambda>i. put_cell (line * vga_width + of_nat i) (color_char s 32)) [0..<80] s"

definition vga_clear :: "vga \<Rightarrow> vga res" where
  "vga_clear s = for_each (\<lambda>_ s. clear_line (cur_y s) s) [0..<25] s"

definition vga_clear_line :: "vga \<Rightarrow> vga res" where
  "vga_clear_line s = clear_line (cur_y s) s"

definition vga_set_x :: "u32 \<Rightarrow> vga \<Rightarrow> vga res" where
  "vga_set_x x s = update_cursor (if cur_x s < vga_width then s\<lparr>cur_x := x\<rparr> else s)"

definition vga_set_y :: "u32 \<Rightarrow> vga \<Rightarrow> vga res" where
  "vga_set_y y s = update_cursor (if cur_y s < vga_height then s\<lparr>cur_y := y\<rparr> else s)"

definition vga_get_x :: "vga \<Rightarrow> u32" where "vga_get_x s = cur_x s"
definition vga_get_y :: "vga \<Rightarrow> u32" where "vga_get_y s = cur_y s"

text \<open>Byte stores into the screen, through \<open>memcpy\<close> and \<open>memset\<close>: cell \<open>k\<close> is the bytes \<open>2 k\<close> and \<open>2 k + 1\<close>.\<close>

definition put_byte :: "nat \<Rightarrow> u8 \<Rightarrow> vga \<Rightarrow> vga res" where
  "put_byte off v s =
     (if off div 2 < length (buf s) then
        (let w = buf s ! (off div 2)
         in Inr (s\<lparr>buf := (buf s)[off div 2 :=
              if even off then (w AND 0xFF00) OR ucast v else (w AND 0x00FF) OR push_bit 8 (ucast v)]\<rparr>))
      else Inl OutOfBounds)"

definition vga_print_reserved :: "u8 list \<Rightarrow> u32 \<Rightarrow> vga \<Rightarrow> vga res" where
  "vga_print_reserved chars type s =
     rbind (vga_set_x 60 s) (\<lambda>s.
     rbind (vga_set_y type s) (\<lambda>s.
       let len = min (length chars) 20;
           start = unat (type * vga_width + 60)
       in rbind (for_each (\<lambda>i. put_byte (2 * start + i) (chars ! i)) [0..<len] s)
            (for_each (\<lambda>i. put_byte (2 * (start + len) + i) 0) [0..<20 - len])))"

definition vga_init :: "vga \<Rightarrow> vga" where
  "vga_init s =
     (let s = s\<lparr>cur_x := 0, cur_y := 0, color := make_color COLOR_LIGHT_GREY COLOR_BLACK\<rparr>
      in s\<lparr>buf := fold (\<lambda>index b. b[index := color_char s 32]) [0..<25 * 80] (buf s)\<rparr>)"

definition vga_dynamic_init :: "vga \<Rightarrow> vga res" where
  "vga_dynamic_init s =
     rbind (array_create kmalloc ram_update (kern s) vga_height) (\<lambda>(arr, k).
       for_each (\<lambda>_ s. rbind (kmalloc (kern s) (2 * vga_width)) (\<lambda>(line, k).
         rbind (array_add kmalloc kfree ram ram_update k (lines_arr s) line) (\<lambda>k. Inr (s\<lparr>kern := k\<rparr>))))
         [0..<25] (s\<lparr>lines_arr := arr, kern := k\<rparr>))"

end
