(* ===== verification/VgaProps.thy ===== *)
theory VgaProps
  imports Vga
begin

text \<open>
  What the console does: the cursor stays on the screen, a character lands in its cell, and
  scrolling moves a window over the saved lines. The lines in the kernel heap are abstracted to
  lists of 80 cells; \<open>save_buffer\<close> and \<open>draw_buffer\<close> are refined to functions on these lists.
\<close>

section \<open>Loops and half-word accesses\<close>

lemma for_each_invariant:
  assumes "P 0 s" "\<And>i s. i < n \<Longrightarrow> P i s \<Longrightarrow> \<exists>s'. f i s = Inr s' \<and> P (Suc i) s'"
  shows "\<exists>s'. for_each f [0..<n] s = Inr s' \<and> P n s'"
proof -
  have "\<exists>s'. for_each f [n - k..<n] s = Inr s' \<and> P n s'" if "k \<le> n" "P (n - k) s" for k s
    using that
  proof (induction k arbitrary: s)
    case (Suc k)
    have up: "[n - Suc k..<n] = (n - Suc k) # [n - k..<n]"
      using Suc.prems(1) by (simp add: upt_conv_Cons Suc_diff_Suc)
    obtain s1 where s1: "f (n - Suc k) s = Inr s1" "P (n - k) s1"
      using assms(2) [of "n - Suc k" s] Suc.prems by (auto simp: Suc_diff_Suc)
    then show ?case using Suc.IH [of s1] Suc.prems(1) unfolding up by simp
  qed simp
  from this [of n s] assms(1) show ?thesis by simp
qed

lemma bytes_of_half: "ucast (ucast v :: u8) OR push_bit 8 (ucast (ucast (drop_bit 8 v) :: u8)) = v" for v :: u16
  by (rule bit_word_eqI) (auto simp: bit_simps)

lemma load16_store16_same [simp]: "load16 (store16 m a v) a = v"
  by (simp add: load16_def store16_def bytes_of_half)

lemma load16_store16_other:
  "b \<noteq> a \<Longrightarrow> b \<noteq> a + 1 \<Longrightarrow> b + 1 \<noteq> a \<Longrightarrow> load16 (store16 m a v) b = load16 m b"
  by (simp add: load16_def store16_def)

lemma store16_outside: "a \<noteq> b \<Longrightarrow> a \<noteq> b + 1 \<Longrightarrow> store16 m b v a = m a"
  by (simp add: store16_def)

lemma of_nat_u32_eq:
  assumes "a < 2 ^ 32" "b < 2 ^ 32"
  shows "(of_nat a :: u32) = of_nat b \<longleftrightarrow> a = b"
proof -
  have "unat (of_nat a :: u32) = a" "unat (of_nat b :: u32) = b" using assms by (simp_all add: unat_of_nat)
  then show ?thesis by metis
qed

lemma cell_distinct:
  assumes "j < 80" "k < 80" "j \<noteq> k"
  shows "cell p k \<noteq> cell p j" "cell p k \<noteq> cell p j + 1" "cell p k + 1 \<noteq> cell p j"
proof -
  have "cell p i + 1 = p + of_nat (2 * i + 1)" for i by (simp add: cell_def)
  moreover have "cell p i = p + of_nat (2 * i)" for i by (simp add: cell_def)
  ultimately show "cell p k \<noteq> cell p j" "cell p k \<noteq> cell p j + 1" "cell p k + 1 \<noteq> cell p j"
    using assms by (simp_all only: add_left_cancel) (subst of_nat_u32_eq; simp; presburger)+
qed

lemma cell_span:
  assumes "j < 80"
  shows "cell p j \<in> span p 160" "cell p j + 1 \<in> span p 160"
proof -
  have "cell p j - p = of_nat (2 * j)" "cell p j + 1 - p = of_nat (2 * j + 1)" by (simp_all add: cell_def)
  moreover have "unat (of_nat (2 * j) :: u32) = 2 * j" "unat (of_nat (2 * j + 1) :: u32) = 2 * j + 1"
    using assms by (subst unat_of_nat, simp)+
  ultimately show "cell p j \<in> span p 160" "cell p j + 1 \<in> span p 160"
    using assms by (simp_all only: in_span word_less_nat_alt) simp_all
qed

text \<open>The 80 cells of a line buffer.\<close>

definition line_words :: "mem \<Rightarrow> addr \<Rightarrow> u16 list" where
  "line_words m p = map (\<lambda>j. load16 m (cell p j)) [0..<80]"

lemma line_words_nth [simp]: "j < 80 \<Longrightarrow> line_words m p ! j = load16 m (cell p j)"
  by (simp add: line_words_def)

lemma length_line_words [simp]: "length (line_words m p) = 80"
  by (simp add: line_words_def)

lemma line_words_cong:
  assumes "\<forall>a \<in> span p 160. m' a = m a"
  shows "line_words m' p = line_words m p"
  using assms cell_span by (simp add: line_words_def load16_def)

lemma line_words_store:
  assumes "j < 80"
  shows "line_words (store16 m (cell p j) v) p = (line_words m p)[j := v]"
proof (rule nth_equalityI)
  fix k assume "k < length (line_words (store16 m (cell p j) v) p)"
  then have k: "k < 80" by simp
  then show "line_words (store16 m (cell p j) v) p ! k = (line_words m p)[j := v] ! k"
    using cell_distinct [OF assms k, of p] by (cases "j = k") (simp_all add: load16_store16_other nth_list_update)
qed simp

lemma store_cell_outside:
  assumes "j < 80" "a \<notin> span p 160"
  shows "store16 m (cell p j) v a = m a"
  using cell_span [OF assms(1), of p] assms(2) by (intro store16_outside) auto

section \<open>Rows\<close>

text \<open>How many cells of a row take part in scrolling: the rows 0 and 1 end in a reserved area.\<close>

definition text_cols :: "nat \<Rightarrow> nat" where
  "text_cols i = (if i = 0 then 70 else if i = 1 then 65 else 80)"

lemma text_cols_le [simp]: "text_cols i \<le> 80"
  by (simp add: text_cols_def)

lemma reserved_cols:
  assumes "i < 25" "j < 80"
  shows "reserved (of_nat i) (of_nat j) \<longleftrightarrow> j = text_cols i"
proof -
  have "(of_nat i :: u32) = 0 \<longleftrightarrow> i = 0" "(of_nat i :: u32) = 1 \<longleftrightarrow> i = 1"
    "(of_nat j :: u32) = 70 \<longleftrightarrow> j = 70" "(of_nat j :: u32) = 65 \<longleftrightarrow> j = 65"
    using assms of_nat_u32_eq [of i 0] of_nat_u32_eq [of i 1] of_nat_u32_eq [of j 70] of_nat_u32_eq [of j 65] by simp_all
  then show ?thesis using assms by (auto simp: reserved_def text_cols_def vga_width_def)
qed

text \<open>The inner loops, as updates of the line and of the screen from column \<open>j\<close> on.\<close>

definition merge_row :: "u16 list \<Rightarrow> nat \<Rightarrow> nat \<Rightarrow> u16 list \<Rightarrow> u16 list" where
  "merge_row b i j l = map (\<lambda>k. if j \<le> k \<and> k < text_cols i then b ! (i * 80 + k) else l ! k) [0..<80]"

lemma save_row_line:
  assumes "i < 25" "j \<le> text_cols i"
  shows "line_words (save_row b i p j m) p = merge_row b i j (line_words m p) \<and>
    (\<forall>a. a \<notin> span p 160 \<longrightarrow> save_row b i p j m a = m a)"
  using assms
proof (induction b i p j m rule: save_row.induct)
  case (1 b i p j m)
  show ?case
  proof (cases "j < text_cols i")
    case True
    then have j: "j < 80" using text_cols_le [of i] by linarith
    have eq: "save_row b i p j m = save_row b i p (j + 1) (store16 m (cell p j) (b ! (i * 80 + j)))"
      using reserved_cols [OF 1(2) j] True j by (subst save_row.simps) simp
    have IH: "line_words (save_row b i p j m) p =
        merge_row b i (j + 1) ((line_words m p)[j := b ! (i * 80 + j)])"
      "\<forall>a. a \<notin> span p 160 \<longrightarrow> save_row b i p j m a = store16 m (cell p j) (b ! (i * 80 + j)) a"
      using 1(1) [OF j _ 1(2)] reserved_cols [OF 1(2) j] True unfolding eq line_words_store [OF j, symmetric] by simp_all
    moreover have "merge_row b i (j + 1) ((line_words m p)[j := b ! (i * 80 + j)]) = merge_row b i j (line_words m p)"
      using True by (auto simp: merge_row_def nth_list_update not_less_eq_eq dest: le_antisym)
    ultimately show ?thesis using store_cell_outside [OF j] by simp
  next
    case False
    then have "j = text_cols i" using 1(3) by simp
    then have "save_row b i p j m = m"
      using reserved_cols [OF 1(2), of j] by (subst save_row.simps) auto
    moreover have "merge_row b i j (line_words m p) = line_words m p"
      using False by (auto simp: merge_row_def intro!: nth_equalityI)
    ultimately show ?thesis by simp
  qed
qed

lemma draw_row_nth:
  assumes "i < 25" "j \<le> text_cols i" "length b = 2000"
  shows "draw_row m i p j b = map (\<lambda>q. if i * 80 + j \<le> q \<and> q < i * 80 + text_cols i then line_words m p ! (q - i * 80) else b ! q) [0..<2000]"
  using assms
proof (induction m i p j b rule: draw_row.induct)
  case (1 m i p j b)
  show ?case
  proof (cases "j < text_cols i")
    case True
    then have j: "j < 80" using text_cols_le [of i] by linarith
    let ?b = "b[i * 80 + j := load16 m (cell p j)]"
    have eq: "draw_row m i p j b = draw_row m i p (j + 1) ?b"
      using reserved_cols [OF 1(2) j] True j by (subst draw_row.simps) simp
    have "draw_row m i p j b = map (\<lambda>q. if i * 80 + (j + 1) \<le> q \<and> q < i * 80 + text_cols i then line_words m p ! (q - i * 80) else ?b ! q) [0..<2000]"
      using 1(1) [OF j _ 1(2)] reserved_cols [OF 1(2) j] True 1(4) unfolding eq by simp
    also have "\<dots> = map (\<lambda>q. if i * 80 + j \<le> q \<and> q < i * 80 + text_cols i then line_words m p ! (q - i * 80) else b ! q) [0..<2000]"
      using True j 1(4) by (auto simp: nth_list_update not_less_eq_eq dest: le_antisym)
    finally show ?thesis .
  next
    case False
    then have "j = text_cols i" using 1(3) by simp
    then have "draw_row m i p j b = b"
      using reserved_cols [OF 1(2), of j] by (subst draw_row.simps) auto
    moreover have "map (\<lambda>q. if i * 80 + j \<le> q \<and> q < i * 80 + text_cols i then line_words m p ! (q - i * 80) else b ! q) [0..<2000] = b"
      using False 1(4) by (auto intro!: nth_equalityI)
    ultimately show ?thesis by simp
  qed
qed

section \<open>The console and its lines\<close>

text \<open>
  The line buffers \<open>ps\<close> are objects of their own in the kernel heap, held by the array
  \<open>lines_arr\<close> with the blocks \<open>B\<close> and \<open>D\<close>; there are enough of them below the line number.
\<close>

definition lines_at :: "kmem \<Rightarrow> addr \<Rightarrow> addr set \<Rightarrow> addr set \<Rightarrow> addr list \<Rightarrow> bool" where
  "lines_at k arr B D ps \<longleftrightarrow>
     kmem_inv k \<and> arr \<noteq> 0 \<and> array_in (ram k) (kowns k) arr B D ps \<and>
     distinct (arr # arr_data (ram k) arr # ps) \<and> 0 \<notin> set ps \<and>
     (\<forall>p \<in> set ps. \<exists>C. (p, C) \<in> kowns k \<and> span p 160 \<subseteq> C)"

definition screen_ok :: "vga \<Rightarrow> addr set \<Rightarrow> addr set \<Rightarrow> addr list \<Rightarrow> bool" where
  "screen_ok s B D ps \<longleftrightarrow>
     lines_at (kern s) (lines_arr s) B D ps \<and> length (buf s) = 2000 \<and> unat (line_number s) + 25 \<le> length ps"

definition saved :: "vga \<Rightarrow> addr list \<Rightarrow> u16 list list" where
  "saved s ps = map (line_words (ram (kern s))) ps"

lemma lines_atD:
  assumes "lines_at k arr B D ps"
  shows "kmem_inv k" "arr \<noteq> 0" "array_in (ram k) (kowns k) arr B D ps" "distinct ps" "arr \<notin> set ps"
    "arr_data (ram k) arr \<notin> set ps" "0 \<notin> set ps" "p \<in> set ps \<Longrightarrow> \<exists>C. (p, C) \<in> kowns k \<and> span p 160 \<subseteq> C"
  using assms by (auto simp: lines_at_def)

lemma screen_okD:
  assumes "screen_ok s B D ps"
  shows "lines_at (kern s) (lines_arr s) B D ps" "length (buf s) = 2000" "unat (line_number s) + 25 \<le> length ps"
  using assms by (simp_all add: screen_ok_def)

lemma length_saved [simp]: "length (saved s ps) = length ps"
  by (simp add: saved_def)

lemma saved_other [simp]: "saved (s\<lparr>buf := b\<rparr>) ps = saved s ps" "saved (s\<lparr>line_number := v\<rparr>) ps = saved s ps"
  by (simp_all add: saved_def)

lemma array_get_elem:
  assumes "array_in m own arr B D xs" "unat i < length xs"
  shows "array_get m arr i = xs ! unat i"
  using array_inD(9,10) [OF assms(1)] assms(2) by (simp add: array_get_def word_less_nat_alt)

text \<open>Every visible row has its line.\<close>

lemma get_line_ok:
  assumes ok: "screen_ok s B D ps" and i: "i < 25"
  shows "get_line s i = Inr (ps ! (unat (line_number s) + i))" "ps ! (unat (line_number s) + i) \<in> set ps"
proof -
  note l = screen_okD [OF ok]
  note d = lines_atD [OF l(1)]
  have "length ps < 2 ^ 32" using array_inD(10) [OF d(3)] unat32 [of "arr_used (ram (kern s)) (lines_arr s)"] by simp
  moreover have "unat (of_nat i :: u32) = i" using i by (simp add: unat_of_nat)
  ultimately have u: "unat (line_number s + of_nat i) = unat (line_number s) + i"
    using l(3) i unat_add_small [of "line_number s" "of_nat i"] by simp
  have n: "unat (line_number s) + i < length ps" using l(3) i by simp
  show mem: "ps ! (unat (line_number s) + i) \<in> set ps" using n by simp
  then have "ps ! (unat (line_number s) + i) \<noteq> 0" using d(7) by metis
  then show "get_line s i = Inr (ps ! (unat (line_number s) + i))"
    using array_get_elem [OF d(3), of "line_number s + of_nat i"] n u d(2) by (simp add: get_line_def)
qed

text \<open>Writing into one line buffer changes that line only.\<close>

lemma line_update:
  assumes ok: "lines_at k arr B D ps" and q: "q < length ps"
    and f: "\<And>a. a \<notin> span (ps ! q) 160 \<Longrightarrow> f (ram k) a = ram k a"
  shows "lines_at (ram_update f k) arr B D ps" "kowns (ram_update f k) = kowns k"
    "map (line_words (f (ram k))) ps = (map (line_words (ram k)) ps)[q := line_words (f (ram k)) (ps ! q)]"
    "arr_used (f (ram k)) arr = arr_used (ram k) arr" "arr_size (f (ram k)) arr = arr_size (ram k) arr"
proof -
  note d = lines_atD [OF ok]
  have mem: "ps ! q \<in> set ps" using q by simp
  obtain C where C: "(ps ! q, C) \<in> kowns k" "span (ps ! q) 160 \<subseteq> C" using d(8) [OF mem] by blast
  have "f (ram k) a = ram k a" if "a \<notin> C" for a using f C(2) that by blast
  note u = kernel.update_kept [where f = f, OF d(1) C(1) this]
  show own: "kowns (ram_update f k) = kowns k" using u(2) .
  note ad = array_inD [OF d(3)]
  have "arr \<noteq> ps ! q" "arr_data (ram k) arr \<noteq> ps ! q" using mem d(5,6) by metis+
  then have "\<forall>a \<in> B \<union> D. f (ram k) a = ram k a"
    using others_keptD(2) [OF u(3) ad(1)] others_keptD(2) [OF u(3) ad(2)] by auto
  note k = array_in_kept [OF d(3) ad(1,2) this]
  show "arr_used (f (ram k)) arr = arr_used (ram k) arr" "arr_size (f (ram k)) arr = arr_size (ram k) arr"
    using k by simp_all
  show "lines_at (ram_update f k) arr B D ps"
    using k(1,2) u(1) own ok by (simp add: lines_at_def)
  show "map (line_words (f (ram k))) ps = (map (line_words (ram k)) ps)[q := line_words (f (ram k)) (ps ! q)]"
  proof (rule nth_equalityI)
    fix r assume "r < length (map (line_words (f (ram k))) ps)"
    then have r: "r < length ps" by simp
    show "map (line_words (f (ram k))) ps ! r = (map (line_words (ram k)) ps)[q := line_words (f (ram k)) (ps ! q)] ! r"
    proof (cases "r = q")
      case False
      then have ne: "ps ! r \<noteq> ps ! q" using d(4) r q by (simp add: nth_eq_iff_index_eq)
      obtain E where E: "(ps ! r, E) \<in> kowns k" "span (ps ! r) 160 \<subseteq> E" using d(8) [of "ps ! r"] r by auto
      have "\<forall>a \<in> span (ps ! r) 160. f (ram k) a = ram k a"
        using others_keptD(2) [OF u(3) E(1)] E(2) ne by auto
      then show ?thesis using line_words_cong r False by simp
    qed (use r in simp)
  qed simp
qed

text \<open>The lines after \<open>c\<close> rows of the screen \<open>b\<close> were saved from line \<open>n\<close> on.\<close>

definition saving :: "nat \<Rightarrow> u16 list \<Rightarrow> nat \<Rightarrow> u16 list list \<Rightarrow> u16 list list" where
  "saving c b n ls = map (\<lambda>q. if n \<le> q \<and> q < n + c then merge_row b (q - n) 0 (ls ! q) else ls ! q) [0..<length ls]"

lemma saving_Suc:
  assumes "n + c < length ls"
  shows "(saving c b n ls)[n + c := merge_row b c 0 (saving c b n ls ! (n + c))] = saving (Suc c) b n ls"
  using assms by (auto simp: saving_def nth_list_update intro!: nth_equalityI)

lemma save_buffer_ok:
  assumes ok: "screen_ok s B D ps"
  shows "\<exists>k. save_buffer s = Inr (s\<lparr>kern := k\<rparr>) \<and> screen_ok (s\<lparr>kern := k\<rparr>) B D ps \<and> pages k = pages (kern s) \<and>
    saved (s\<lparr>kern := k\<rparr>) ps = saving 25 (buf s) (unat (line_number s)) (saved s ps) \<and>
    arr_used (ram k) (lines_arr s) = arr_used (ram (kern s)) (lines_arr s) \<and>
    arr_size (ram k) (lines_arr s) = arr_size (ram (kern s)) (lines_arr s)"
proof -
  let ?n = "unat (line_number s)"
  let ?P = "\<lambda>c s'. (\<exists>k. s' = s\<lparr>kern := k\<rparr> \<and> pages k = pages (kern s) \<and>
      arr_used (ram k) (lines_arr s) = arr_used (ram (kern s)) (lines_arr s) \<and>
      arr_size (ram k) (lines_arr s) = arr_size (ram (kern s)) (lines_arr s)) \<and> screen_ok s' B D ps \<and>
    saved s' ps = saving c (buf s) ?n (saved s ps)"
  let ?f = "\<lambda>i s. rbind (get_line s i) (\<lambda>line. Inr (s\<lparr>kern := ram_update (save_row (buf s) i line 0) (kern s)\<rparr>))"
  have "\<exists>s'. for_each ?f [0..<25] s = Inr s' \<and> ?P 25 s'"
  proof (rule for_each_invariant)
    have "saving 0 (buf s) ?n (saved s ps) = saved s ps"
      by (auto simp: saving_def intro!: nth_equalityI)
    then show "?P 0 s" using ok by (intro conjI exI [of _ "kern s"]) simp_all
  next
    fix c s' assume c: "c < 25" and P: "?P c s'"
    then obtain k where s': "s' = s\<lparr>kern := k\<rparr>" "pages k = pages (kern s)"
      "arr_used (ram k) (lines_arr s) = arr_used (ram (kern s)) (lines_arr s)"
      "arr_size (ram k) (lines_arr s) = arr_size (ram (kern s)) (lines_arr s)" by blast
    have ok': "screen_ok s' B D ps" and sv: "saved s' ps = saving c (buf s) ?n (saved s ps)" using P by simp_all
    define q where "q = ?n + c"
    have q: "q < length ps" using screen_okD(3) [OF ok] c by (simp add: q_def)
    have lk: "lines_at k (lines_arr s) B D ps" using screen_okD(1) [OF ok'] by (simp add: s'(1))
    let ?g = "save_row (buf s) c (ps ! q) 0"
    have row: "line_words (?g m) (ps ! q) = merge_row (buf s) c 0 (line_words m (ps ! q))"
      "a \<notin> span (ps ! q) 160 \<Longrightarrow> ?g m a = m a" for m a
      using save_row_line [of c 0 "buf s" "ps ! q" m] c by simp_all
    note u = line_update [OF lk q, of ?g, OF row(2)]
    have step: "?f c s' = Inr (s\<lparr>kern := ram_update ?g k\<rparr>)"
      using get_line_ok(1) [OF ok' c] by (simp add: s'(1) q_def)
    have "saved (s\<lparr>kern := ram_update ?g k\<rparr>) ps = (saved s' ps)[q := merge_row (buf s) c 0 (saved s' ps ! q)]"
      using u(3) q by (simp add: saved_def s'(1) row(1))
    also have "\<dots> = saving (Suc c) (buf s) ?n (saved s ps)"
      unfolding sv q_def using saving_Suc [of ?n c "saved s ps" "buf s"] q by (simp add: q_def)
    finally have "saved (s\<lparr>kern := ram_update ?g k\<rparr>) ps = saving (Suc c) (buf s) ?n (saved s ps)" .
    moreover have "screen_ok (s\<lparr>kern := ram_update ?g k\<rparr>) B D ps"
      using u(1) ok by (simp add: screen_ok_def)
    ultimately show "\<exists>s''. ?f c s' = Inr s'' \<and> ?P (Suc c) s''"
      using step u(4,5) s'(2-4) by (intro exI [of _ "s\<lparr>kern := ram_update ?g k\<rparr>"] conjI) auto
  qed
  then show ?thesis unfolding save_buffer_def by auto
qed

text \<open>The screen after \<open>c\<close> rows were drawn from line \<open>n\<close> on.\<close>

definition drawing :: "nat \<Rightarrow> u16 list \<Rightarrow> nat \<Rightarrow> u16 list list \<Rightarrow> u16 list" where
  "drawing c b n ls =
     map (\<lambda>q. if q div 80 < c \<and> q mod 80 < text_cols (q div 80) then ls ! (n + q div 80) ! (q mod 80) else b ! q) [0..<2000]"

lemma drawing_Suc:
  "map (\<lambda>q. if c * 80 + 0 \<le> q \<and> q < c * 80 + text_cols c then ls ! (n + c) ! (q - c * 80) else drawing c b n ls ! q) [0..<2000]
    = drawing (Suc c) b n ls"
proof (rule nth_equalityI)
  fix q assume "q < length (map (\<lambda>q. if c * 80 + 0 \<le> q \<and> q < c * 80 + text_cols c then ls ! (n + c) ! (q - c * 80) else drawing c b n ls ! q) [0..<2000])"
  then have q: "q < 2000" by simp
  have split: "q = q div 80 * 80 + q mod 80" "q mod 80 < 80" by simp_all
  have "c * 80 \<le> q \<and> q < c * 80 + text_cols c \<longleftrightarrow> q div 80 = c \<and> q mod 80 < text_cols c"
  proof
    assume a: "c * 80 \<le> q \<and> q < c * 80 + text_cols c"
    then have "q div 80 = c" using text_cols_le [of c]
      by (elim conjE, intro div_nat_eqI) (linarith, simp only: mult_Suc_right, linarith)
    then show "q div 80 = c \<and> q mod 80 < text_cols c" using a split(1) by linarith
  next
    assume "q div 80 = c \<and> q mod 80 < text_cols c"
    then show "c * 80 \<le> q \<and> q < c * 80 + text_cols c" using split(1) by auto
  qed
  moreover have "q - c * 80 = q mod 80" if "q div 80 = c" using split(1) that by linarith
  ultimately show "map (\<lambda>q. if c * 80 + 0 \<le> q \<and> q < c * 80 + text_cols c then ls ! (n + c) ! (q - c * 80) else drawing c b n ls ! q) [0..<2000] ! q
      = drawing (Suc c) b n ls ! q"
    using q by (auto simp: drawing_def less_Suc_eq)
qed (simp add: drawing_def)

lemma draw_buffer_ok:
  assumes ok: "screen_ok s B D ps"
  shows "draw_buffer s = Inr (s\<lparr>buf := drawing 25 (buf s) (unat (line_number s)) (saved s ps)\<rparr>)"
proof -
  let ?n = "unat (line_number s)"
  let ?f = "\<lambda>i s. rbind (get_line s i) (\<lambda>line. Inr (s\<lparr>buf := draw_row (ram (kern s)) i line 0 (buf s)\<rparr>))"
  have "\<exists>s'. for_each ?f [0..<25] s = Inr s' \<and> s' = s\<lparr>buf := drawing 25 (buf s) ?n (saved s ps)\<rparr>"
  proof (rule for_each_invariant)
    have "drawing 0 (buf s) ?n (saved s ps) = buf s"
      using screen_okD(2) [OF ok] by (auto simp: drawing_def intro!: nth_equalityI)
    then show "s = s\<lparr>buf := drawing 0 (buf s) ?n (saved s ps)\<rparr>" by simp
  next
    fix c s' assume c: "c < 25" and s': "s' = s\<lparr>buf := drawing c (buf s) ?n (saved s ps)\<rparr>"
    have ok': "screen_ok s' B D ps" using ok by (simp add: s' screen_ok_def drawing_def)
    have ln: "line_words (ram (kern s)) (ps ! (?n + c)) = saved s ps ! (?n + c)"
      using screen_okD(3) [OF ok] c by (simp add: saved_def)
    have "draw_row (ram (kern s)) c (ps ! (?n + c)) 0 (drawing c (buf s) ?n (saved s ps)) = drawing (Suc c) (buf s) ?n (saved s ps)"
      using draw_row_nth [of c 0 "drawing c (buf s) ?n (saved s ps)" "ram (kern s)" "ps ! (?n + c)"] c
      unfolding ln drawing_Suc by (simp add: drawing_def)
    then show "\<exists>s''. ?f c s' = Inr s'' \<and> s'' = s\<lparr>buf := drawing (Suc c) (buf s) ?n (saved s ps)\<rparr>"
      using get_line_ok(1) [OF ok' c] by (simp add: s')
  qed
  then show ?thesis unfolding draw_buffer_def by auto
qed

text \<open>Other objects do not matter to the lines.\<close>

lemma lines_kept:
  assumes ok: "lines_at k arr B D ps" and inv: "kmem_inv k'"
    and kept: "others_kept (ram k) (kowns k) (ram k') (kowns k') S" "S \<inter> insert arr (insert (arr_data (ram k) arr) (set ps)) = {}"
  shows "lines_at k' arr B D ps" "map (line_words (ram k')) ps = map (line_words (ram k)) ps"
    "arr_size (ram k') arr = arr_size (ram k) arr" "arr_data (ram k') arr = arr_data (ram k) arr"
proof -
  note d = lines_atD [OF ok]
  note ad = array_inD [OF d(3)]
  have own: "(arr, B) \<in> kowns k'" "(arr_data (ram k) arr, D) \<in> kowns k'"
    using others_keptD(1) [OF kept(1)] ad(1,2) kept(2) by auto
  have "\<forall>a \<in> B \<union> D. ram k' a = ram k a"
    using others_keptD(2) [OF kept(1) ad(1)] others_keptD(2) [OF kept(1) ad(2)] kept(2) by auto
  note a = array_in_kept [OF d(3) own this]
  show "arr_size (ram k') arr = arr_size (ram k) arr" "arr_data (ram k') arr = arr_data (ram k) arr" by (rule a(3), rule a(2))
  have line: "(\<exists>C. (p, C) \<in> kowns k' \<and> span p 160 \<subseteq> C) \<and> line_words (ram k') p = line_words (ram k) p" if "p \<in> set ps" for p
  proof -
    note p = that
    obtain C where C: "(p, C) \<in> kowns k" "span p 160 \<subseteq> C" using d(8) [OF p] by blast
    have "p \<notin> S" using kept(2) p by auto
    then have "(p, C) \<in> kowns k'" "\<forall>a \<in> span p 160. ram k' a = ram k a"
      using others_keptD [OF kept(1) C(1)] C(2) by auto
    then show ?thesis using C(2) line_words_cong by blast
  qed
  then show "map (line_words (ram k')) ps = map (line_words (ram k)) ps" by simp
  show "lines_at k' arr B D ps" using ok inv a(1,2) line by (simp add: lines_at_def)
qed

lemma fill_line_words:
  "line_words (fill_line v p m) p = replicate 80 v" "a \<notin> span p 160 \<Longrightarrow> fill_line v p m a = m a"
proof -
  have "line_words (fold (\<lambda>j m. store16 m (cell p j) v) [0..<n] m) p =
      map (\<lambda>j. if j < n then v else line_words m p ! j) [0..<80] \<and>
    (\<forall>a. a \<notin> span p 160 \<longrightarrow> fold (\<lambda>j m. store16 m (cell p j) v) [0..<n] m a = m a)" if "n \<le> 80" for n
    using that
  proof (induction n)
    case 0
    then show ?case by (auto intro!: nth_equalityI)
  next
    case (Suc n)
    then show ?case
      by (auto simp: line_words_store store_cell_outside nth_list_update intro!: nth_equalityI)
  qed
  from this [of 80] show "line_words (fill_line v p m) p = replicate 80 v" "a \<notin> span p 160 \<Longrightarrow> fill_line v p m a = m a"
    by (auto simp: fill_line_def intro!: nth_equalityI)
qed

text \<open>A new line buffer at the end of the array.\<close>

lemma lines_add:
  assumes ok: "lines_at k arr B D ps" and p: "(p, P) \<in> kowns k" "span p 160 \<subseteq> P" "p \<noteq> 0"
    and new: "p \<noteq> arr" "p \<noteq> arr_data (ram k) arr" "p \<notin> set ps" and small: "unat (arr_size (ram k) arr) * 8 < 2 ^ 32"
    and call: "array_add kmalloc kfree ram ram_update k arr p = Inr k'"
  shows "\<exists>D'. lines_at k' arr B D' (ps @ [p]) \<and>
    map (line_words (ram k')) (ps @ [p]) = map (line_words (ram k)) (ps @ [p]) \<and>
    (length ps < unat (arr_size (ram k) arr) \<longrightarrow> arr_size (ram k') arr = arr_size (ram k) arr)"
proof -
  note d = lines_atD [OF ok]
  from kernel.add_holds [OF d(1,3) small, of p, unfolded call sum.case]
  obtain D' where D': "kmem_inv k'" "array_in (ram k') (kowns k') arr B D' (ps @ [p])"
    "others_kept (ram k) (kowns k) (ram k') (kowns k') {arr, arr_data (ram k) arr}"
    "arr_data (ram k') arr = arr_data (ram k) arr \<or> (\<forall>q C. (q, C) \<in> kowns k \<longrightarrow> q \<noteq> arr_data (ram k') arr)"
    "length ps < unat (arr_size (ram k) arr) \<longrightarrow> arr_size (ram k') arr = arr_size (ram k) arr"
    by auto
  have line: "(\<exists>C. (q, C) \<in> kowns k' \<and> span q 160 \<subseteq> C) \<and> line_words (ram k') q = line_words (ram k) q \<and>
      q \<noteq> arr_data (ram k') arr" if "q \<in> set (ps @ [p])" for q
  proof -
    have q: "q \<in> set ps \<or> q = p" using that by auto
    obtain C where C: "(q, C) \<in> kowns k" "span q 160 \<subseteq> C" using q d(8) p by metis
    have "q \<noteq> arr" "q \<noteq> arr_data (ram k) arr" using q d(5,6) new by auto
    then show ?thesis
      using others_keptD [OF D'(3) C(1)] C D'(4) line_words_cong [of q "ram k'" "ram k"] by auto
  qed
  have "lines_at k' arr B D' (ps @ [p])"
    unfolding lines_at_def using D'(1,2) d(2) line d(4,5,7) new p(3) array_inD(3) [OF D'(2)] by auto
  then show ?thesis using line D'(5) by auto
qed

lemma fresh_line:
  assumes ok: "lines_at k arr B D ps" and call: "kmalloc k 160 = Inr (p, k1)"
  shows "\<exists>P. lines_at k1 arr B D ps \<and> (p, P) \<in> kowns k1 \<and> span p 160 \<subseteq> P \<and> p \<noteq> 0 \<and>
    p \<noteq> arr \<and> p \<noteq> arr_data (ram k1) arr \<and> p \<notin> set ps \<and>
    map (line_words (ram k1)) ps = map (line_words (ram k)) ps \<and> arr_size (ram k1) arr = arr_size (ram k) arr"
proof -
  note d = lines_atD [OF ok]
  obtain P where P: "kmem_inv k1" "kowns k1 = insert (p, P) (kowns k)" "p \<noteq> 0" "span p 160 \<subseteq> P"
    "\<And>q C. (q, C) \<in> kowns k \<Longrightarrow> q \<noteq> p \<and> P \<inter> C = {}" "others_kept (ram k) (kowns k) (ram k1) (kowns k1) {}"
    by (rule kernel.malloc_new [OF d(1) _ call]) (simp, blast)
  note k1 = lines_kept [OF ok P(1,6), simplified]
  have "p \<noteq> arr" "p \<noteq> arr_data (ram k) arr" "p \<notin> set ps" using P(5) array_inD(1,2) [OF d(3)] d(8) by blast+
  then show ?thesis using k1 P(2-4) by auto
qed

lemma add_blank_line_ok:
  assumes ok: "screen_ok s B D ps" and small: "unat (arr_size (ram (kern s)) (lines_arr s)) * 8 < 2 ^ 32"
    and call: "add_blank_line s = Inr s'"
  shows "\<exists>k D' p. s' = s\<lparr>kern := k\<rparr> \<and> screen_ok s' B D' (ps @ [p]) \<and>
    saved s' (ps @ [p]) = saved s ps @ [replicate 80 (color_char s 32)]"
proof -
  let ?arr = "lines_arr s"
  note l = screen_okD [OF ok]
  obtain p k1 where m: "kmalloc (kern s) 160 = Inr (p, k1)"
    using call by (auto simp: add_blank_line_def rbind_eq_Inr vga_width_def)
  obtain P where P: "lines_at k1 ?arr B D ps" "(p, P) \<in> kowns k1" "span p 160 \<subseteq> P" "p \<noteq> 0" "p \<noteq> ?arr"
    "p \<noteq> arr_data (ram k1) ?arr" "p \<notin> set ps" "map (line_words (ram k1)) ps = map (line_words (ram (kern s))) ps"
    "arr_size (ram k1) ?arr = arr_size (ram (kern s)) ?arr"
    using fresh_line [OF l(1) m] by blast
  define f where "f = fill_line (color_char s 32) p"
  have fo: "f (ram k1) a = ram k1 a" if "a \<notin> P" for a
    unfolding f_def using that P(3) by (intro fill_line_words(2)) blast
  note u = kernel.update_kept [where f = f, OF lines_atD(1) [OF P(1)] P(2) fo]
  have sep: "{p} \<inter> insert ?arr (insert (arr_data (ram k1) ?arr) (set ps)) = {}" using P(5-7) by simp
  let ?k2 = "ram_update f k1"
  note k2 = lines_kept [OF P(1) u(1,3) sep]
  obtain k3 where add: "array_add kmalloc kfree ram ram_update ?k2 ?arr p = Inr k3" and s': "s' = s\<lparr>kern := k3\<rparr>"
    using call m by (auto simp: add_blank_line_def rbind_eq_Inr Let_def f_def vga_width_def)
  have own2: "(p, P) \<in> kowns ?k2" using P(2) u(2) by simp
  have new2: "p \<noteq> arr_data (ram ?k2) ?arr" using P(6) k2(4) by metis
  have small2: "unat (arr_size (ram ?k2) ?arr) * 8 < 2 ^ 32" using small k2(3) P(9) by metis
  from lines_add [OF k2(1) own2 P(3,4,5) new2 P(7) small2 add]
  obtain D' where D': "lines_at k3 ?arr B D' (ps @ [p])"
    "map (line_words (ram k3)) (ps @ [p]) = map (line_words (ram ?k2)) (ps @ [p])" by blast
  have "saved s' (ps @ [p]) = saved s ps @ [replicate 80 (color_char s 32)]"
    using D'(2) k2(2) P(8) fill_line_words(1) [of "color_char s 32" p "ram k1"] by (simp add: saved_def s' f_def)
  then show ?thesis using D'(1) l(2,3) by (auto simp: s' screen_ok_def)
qed

text \<open>Building the array of the first 25 lines on a kernel that still has memory.\<close>

lemma dynamic_init_ok:
  assumes run: "running j (kern s)" "j < 990" and b: "length (buf s) = 2000" "line_number s = 0"
  shows "\<exists>s' B D ps. vga_dynamic_init s = Inr s' \<and> screen_ok s' B D ps \<and> length ps = 25 \<and>
    arr_size (ram (kern s')) (lines_arr s') = 25 \<and> s' = s\<lparr>lines_arr := lines_arr s', kern := kern s'\<rparr> \<and>
    (\<exists>j'. running j' (kern s') \<and> j' \<le> j + 27)"
proof -
  obtain arr k0 B D0 j0 where a: "array_create kmalloc ram_update (kern s) 25 = Inr (arr, k0)" "kmem_inv k0"
    "running j0 k0" "j0 \<le> j + 2" "arr \<noteq> 0" "array_in (ram k0) (kowns k0) arr B D0 []" "arr_size (ram k0) arr = 25"
    using running_array [OF run(1), of 25] run(2) by (auto simp: max_request_def)
  let ?P = "\<lambda>i s'. \<exists>k D ps j'. s' = s\<lparr>lines_arr := arr, kern := k\<rparr> \<and> lines_at k arr B D ps \<and> length ps = i \<and>
      arr_size (ram k) arr = 25 \<and> running j' k \<and> j' \<le> j + 2 + i"
  let ?f = "\<lambda>_ s. rbind (kmalloc (kern s) (2 * vga_width)) (\<lambda>(line, k).
      rbind (array_add kmalloc kfree ram ram_update k (lines_arr s) line) (\<lambda>k. Inr (s\<lparr>kern := k\<rparr>)))"
  have "\<exists>s'. for_each ?f [0..<25] (s\<lparr>lines_arr := arr, kern := k0\<rparr>) = Inr s' \<and> ?P 25 s'"
  proof (rule for_each_invariant)
    have "lines_at k0 arr B D0 []" using a array_inD(3) [OF a(6)] by (simp add: lines_at_def)
    then show "?P 0 (s\<lparr>lines_arr := arr, kern := k0\<rparr>)" using a by auto
  next
    fix i s' assume i: "i < 25" and P: "?P i s'"
    then obtain k D ps j' where r: "s' = s\<lparr>lines_arr := arr, kern := k\<rparr>" "lines_at k arr B D ps" "length ps = i"
      "arr_size (ram k) arr = 25" "running j' k" "j' \<le> j + 2 + i" by blast
    obtain p k1 j1 where m: "kmalloc k 160 = Inr (p, k1)" "running j1 k1" "j1 \<le> Suc j'"
      using kmalloc_running [OF r(5), of 160] run(2) r(6) i by (auto simp: max_request_def)
    obtain P where Q: "lines_at k1 arr B D ps" "(p, P) \<in> kowns k1" "span p 160 \<subseteq> P" "p \<noteq> 0" "p \<noteq> arr"
      "p \<noteq> arr_data (ram k1) arr" "p \<notin> set ps" "arr_size (ram k1) arr = 25"
      using fresh_line [OF r(2) m(1)] r(4) by auto
    note d1 = lines_atD [OF Q(1)]
    have lt: "arr_used (ram k1) arr < arr_size (ram k1) arr"
      using array_inD(10) [OF d1(3)] r(3) i Q(8) by (simp add: word_less_nat_alt)
    obtain k2 where add: "array_add kmalloc kfree ram ram_update k1 arr p = Inr k2" and "pages k2 = pages k1"
      using less_imp_neq [OF lt] by (simp add: array_add_def Let_def put32_def)
    have small: "unat (arr_size (ram k1) arr) * 8 < 2 ^ 32" by (simp add: Q(8))
    obtain D' where D': "lines_at k2 arr B D' (ps @ [p])" "arr_size (ram k2) arr = 25"
      using lines_add [OF Q(1-7) small add] r(3) i Q(8) by auto
    have "running j1 k2" using m(2) lines_atD(1) [OF D'(1)] \<open>pages k2 = pages k1\<close> by (simp add: running_def)
    moreover have "?f i s' = Inr (s\<lparr>lines_arr := arr, kern := k2\<rparr>)"
      using m(1) add by (simp add: r(1) vga_width_def)
    ultimately show "\<exists>s''. ?f i s' = Inr s'' \<and> ?P (Suc i) s''"
      using D' r(3,6) m(3) by (intro exI [of _ "s\<lparr>lines_arr := arr, kern := k2\<rparr>"] conjI exI [of _ k2]
          exI [of _ D'] exI [of _ "ps @ [p]"] exI [of _ j1]) simp_all
  qed
  then obtain k D ps j' where r: "for_each ?f [0..<25] (s\<lparr>lines_arr := arr, kern := k0\<rparr>) = Inr (s\<lparr>lines_arr := arr, kern := k\<rparr>)"
    "lines_at k arr B D ps" "length ps = 25" "arr_size (ram k) arr = 25" "running j' k" "j' \<le> j + 2 + 25" by blast
  have "vga_dynamic_init s = Inr (s\<lparr>lines_arr := arr, kern := k\<rparr>)"
    using a(1) r(1) by (simp add: vga_dynamic_init_def vga_height_def)
  then show ?thesis
    using r b by (intro exI [of _ "s\<lparr>lines_arr := arr, kern := k\<rparr>"] exI [of _ B] exI [of _ D] exI [of _ ps])
      (auto simp: screen_ok_def)
qed

section \<open>Scrolling\<close>

text \<open>Row \<open>i\<close>, column \<open>j\<close> of the screen.\<close>

definition at :: "u16 list \<Rightarrow> nat \<Rightarrow> nat \<Rightarrow> u16" where
  "at b i j = b ! (i * 80 + j)"

lemma drawing_at:
  assumes "i < 25" "j < 80"
  shows "at (drawing 25 b n ls) i j = (if j < text_cols i then ls ! (n + i) ! j else at b i j)"
  using assms by (simp add: drawing_def at_def)

lemma saving_nth:
  assumes "n + 25 \<le> length ls" "i < 25" "j < 80" "\<forall>l \<in> set ls. length l = 80"
  shows "saving 25 b n ls ! (n + i) ! j = (if j < text_cols i then at b i j else ls ! (n + i) ! j)"
  using assms by (simp add: saving_def merge_row_def at_def)

lemma length_drawing [simp]: "length (drawing c b n ls) = 2000"
  by (simp add: drawing_def)

lemma saved_lengths: "\<forall>l \<in> set (saved s ps). length l = 80"
  by (auto simp: saved_def)

lemma screen_eqI:
  assumes "length b = 2000" "length b' = 2000" "\<And>i j. i < 25 \<Longrightarrow> j < 80 \<Longrightarrow> at b i j = at b' i j"
  shows "b = b'"
proof (rule nth_equalityI)
  fix q assume "q < length b"
  then have "at b (q div 80) (q mod 80) = at b' (q div 80) (q mod 80)" using assms(1) by (intro assms(3)) simp_all
  then show "b ! q = b' ! q" by (simp add: at_def)
qed (simp add: assms)

lemma color_char_kern [simp]: "color_char (s\<lparr>kern := k\<rparr>) c = color_char s c"
  by (simp add: color_char_def)

text \<open>Scrolling down, with the saved lines before and after.\<close>

lemma scroll_down_ok:
  assumes ok: "screen_ok s B D ps" and small: "unat (arr_size (ram (kern s)) (lines_arr s)) * 8 < 2 ^ 32"
    and call: "vga_scroll_down s = Inr s'"
  shows "\<exists>D' ps' ls. screen_ok s' B D' ps' \<and> saved s' ps' = ls \<and>
    ls = saving 25 (buf s) (unat (line_number s)) (saved s ps) @
      (if length ps = unat (line_number s) + 25 then [replicate 80 (color_char s 32)] else []) \<and>
    buf s' = drawing 25 (buf s) (Suc (unat (line_number s))) ls \<and>
    s' = s\<lparr>buf := buf s', line_number := line_number s + 1, kern := kern s'\<rparr> \<and>
    unat (line_number s') = Suc (unat (line_number s))"
proof -
  let ?n = "unat (line_number s)"
  obtain k where k: "save_buffer s = Inr (s\<lparr>kern := k\<rparr>)" "screen_ok (s\<lparr>kern := k\<rparr>) B D ps"
    "saved (s\<lparr>kern := k\<rparr>) ps = saving 25 (buf s) ?n (saved s ps)"
    "arr_used (ram k) (lines_arr s) = arr_used (ram (kern s)) (lines_arr s)"
    "arr_size (ram k) (lines_arr s) = arr_size (ram (kern s)) (lines_arr s)"
    using save_buffer_ok [OF ok] by blast
  let ?s1 = "s\<lparr>kern := k\<rparr>"
  note l = screen_okD [OF k(2)]
  have len: "length ps = unat (arr_used (ram k) (lines_arr s))"
    using array_inD(10) [OF lines_atD(3) [OF l(1)]] by simp
  then have lt: "length ps < 2 ^ 32" using unat32 by simp
  have u25: "unat (line_number s + 25) = ?n + 25"
    using l(3) lt unat_add_small [of "line_number s" 25] by simp
  have test: "arr_used (ram k) (lines_arr s) \<le> line_number s + vga_height \<longleftrightarrow> length ps = ?n + 25"
    using len u25 l(3) by (auto simp: vga_height_def word_le_nat_alt)
  obtain s2 where s2: "(if length ps = ?n + 25 then add_blank_line ?s1 else Inr ?s1) = Inr s2"
    "draw_buffer (s2\<lparr>line_number := line_number s2 + 1\<rparr>) = Inr s'"
    using call k(1) test by (auto simp: vga_scroll_down_def rbind_eq_Inr)
  have "\<exists>k2 D' ps'. s2 = s\<lparr>kern := k2\<rparr> \<and> screen_ok s2 B D' ps' \<and> ?n + 26 \<le> length ps' \<and>
      saved s2 ps' = saving 25 (buf s) ?n (saved s ps) @
        (if length ps = ?n + 25 then [replicate 80 (color_char s 32)] else [])"
  proof (cases "length ps = ?n + 25")
    case True
    then have call2: "add_blank_line ?s1 = Inr s2" using s2(1) by simp
    have "unat (arr_size (ram (kern ?s1)) (lines_arr ?s1)) * 8 < 2 ^ 32" using small k(5) by simp
    from add_blank_line_ok [OF k(2) this call2] show ?thesis using True k(3) by force
  next
    case False
    then have "s2 = ?s1" using s2(1) by simp
    then show ?thesis using False k(2,3) l(3) by (intro exI [of _ k] exI [of _ D] exI [of _ ps]) simp
  qed
  then obtain k2 D' ps' where r: "s2 = s\<lparr>kern := k2\<rparr>" "screen_ok s2 B D' ps'" "?n + 26 \<le> length ps'"
    "saved s2 ps' = saving 25 (buf s) ?n (saved s ps) @
        (if length ps = ?n + 25 then [replicate 80 (color_char s 32)] else [])" by blast
  have u1: "unat (line_number s + 1) = Suc ?n"
    using l(3) lt unat_add_small [of "line_number s" 1] by simp
  let ?s3 = "s2\<lparr>line_number := line_number s2 + 1\<rparr>"
  have ok3: "screen_ok ?s3 B D' ps'" using r(1-3) u1 by (simp add: screen_ok_def)
  have s': "s' = ?s3\<lparr>buf := drawing 25 (buf s) (Suc ?n) (saved s2 ps')\<rparr>"
    using s2(2) draw_buffer_ok [OF ok3] u1 by (simp add: r(1))
  have "screen_ok s' B D' ps'" using ok3 by (simp add: s' screen_ok_def)
  moreover have "saved s' ps' = saved s2 ps'" by (simp add: s')
  ultimately show ?thesis
    using r(1,4) u1 by (intro exI [of _ D'] exI [of _ ps'] exI [of _ "saved s2 ps'"]) (simp add: s')
qed

lemma scroll_up_ok:
  assumes ok: "screen_ok s B D ps" and pos: "line_number s \<noteq> 0"
  shows "\<exists>s'. vga_scroll_up s = Inr s' \<and> screen_ok s' B D ps \<and>
    saved s' ps = saving 25 (buf s) (unat (line_number s)) (saved s ps) \<and>
    buf s' = drawing 25 (buf s) (unat (line_number s) - 1) (saved s' ps) \<and>
    s' = s\<lparr>buf := buf s', line_number := line_number s - 1, kern := kern s'\<rparr>"
proof -
  obtain k where k: "save_buffer s = Inr (s\<lparr>kern := k\<rparr>)" "screen_ok (s\<lparr>kern := k\<rparr>) B D ps"
    "saved (s\<lparr>kern := k\<rparr>) ps = saving 25 (buf s) (unat (line_number s)) (saved s ps)"
    using save_buffer_ok [OF ok] by blast
  let ?s2 = "s\<lparr>kern := k, line_number := line_number s - 1\<rparr>"
  have u: "unat (line_number s - 1) = unat (line_number s) - 1" using unat_minus_one [OF pos] .
  have ok2: "screen_ok ?s2 B D ps" using k(2) u by (auto simp: screen_ok_def)
  let ?s3 = "?s2\<lparr>buf := drawing 25 (buf s) (unat (line_number s) - 1) (saved ?s2 ps)\<rparr>"
  have "vga_scroll_up s = Inr ?s3" using draw_buffer_ok [OF ok2] k(1) pos u by (simp add: vga_scroll_up_def)
  moreover have "screen_ok ?s3 B D ps" using ok2 by (simp add: screen_ok_def)
  ultimately show ?thesis using k(3) by (intro exI [of _ ?s3]) simp
qed

lemma saving_lengths:
  "\<forall>l \<in> set ls. length l = 80 \<Longrightarrow> \<forall>l \<in> set (saving c b n ls). length l = 80"
  by (auto simp: saving_def merge_row_def)

text \<open>The lines beyond the visible ones are not saved into.\<close>

lemma saving_other:
  "q < length ls \<Longrightarrow> q < n \<or> n + 25 \<le> q \<Longrightarrow> saving 25 b n ls ! q = ls ! q"
  by (auto simp: saving_def)

text \<open>
  C21: scrolling down moves every row up by one, except for the reserved ends of the rows 0 and 1,
  which stay, and brings in the next saved line, or a blank one when there is none; the cursor
  does not move. The reserved ends differ in length, so five cells of row 0 are not taken from
  the screen but from what the line buffer held before.
\<close>

theorem scroll_down_correct:
  assumes "screen_ok s B D ps" "unat (arr_size (ram (kern s)) (lines_arr s)) * 8 < 2 ^ 32"
    and "vga_scroll_down s = Inr s'"
  shows "(\<exists>D' ps'. screen_ok s' B D' ps') \<and> line_number s' = line_number s + 1 \<and>
    cur_x s' = cur_x s \<and> cur_y s' = cur_y s \<and>
    list_all (\<lambda>i. list_all (\<lambda>j. at (buf s') i j =
      (if text_cols i \<le> j then at (buf s) i j
       else if i = 24 then
         (if length ps = unat (line_number s) + 25 then color_char s 32 else saved s ps ! (unat (line_number s) + 25) ! j)
       else if j < text_cols (i + 1) then at (buf s) (i + 1) j
       else saved s ps ! (unat (line_number s) + (i + 1)) ! j)) [0..<80]) [0..<25]"
proof -
  let ?n = "unat (line_number s)"
  obtain D' ps' ls where r: "screen_ok s' B D' ps'" "saved s' ps' = ls"
    "ls = saving 25 (buf s) ?n (saved s ps) @ (if length ps = ?n + 25 then [replicate 80 (color_char s 32)] else [])"
    "buf s' = drawing 25 (buf s) (Suc ?n) ls"
    "s' = s\<lparr>buf := buf s', line_number := line_number s + 1, kern := kern s'\<rparr>"
    using scroll_down_ok [OF assms] by blast
  have n: "?n + 25 \<le> length ps" using screen_okD(3) [OF assms(1)] .
  have len: "length (saving 25 (buf s) ?n (saved s ps)) = length ps" by (simp add: saving_def)
  have row: "at (buf s') i j = (if text_cols i \<le> j then at (buf s) i j
       else if i = 24 then (if length ps = ?n + 25 then color_char s 32 else saved s ps ! (?n + 25) ! j)
       else if j < text_cols (i + 1) then at (buf s) (i + 1) j else saved s ps ! (?n + (i + 1)) ! j)"
    if ij: "i < 25" "j < 80" for i j
  proof (cases "i = 24")
    case True
    have "ls ! (Suc ?n + 24) = (if length ps = ?n + 25 then replicate 80 (color_char s 32) else saved s ps ! (?n + 25))"
      unfolding r(3) using n len by (auto simp: nth_append saving_other add.commute)
    then show ?thesis using drawing_at [OF ij] ij True by (auto simp: r(4))
  next
    case False
    then have i1: "i + 1 < 25" using ij by simp
    have "ls ! (Suc ?n + i) ! j = saving 25 (buf s) ?n (saved s ps) ! (?n + (i + 1)) ! j"
      unfolding r(3) using n len i1 by (simp add: nth_append)
    also have "\<dots> = (if j < text_cols (i + 1) then at (buf s) (i + 1) j else saved s ps ! (?n + (i + 1)) ! j)"
      using saving_nth [of ?n "saved s ps" "i + 1" j "buf s"] n i1 ij(2) saved_lengths by simp
    finally show ?thesis using drawing_at [OF ij] ij False by (auto simp: r(4))
  qed
  moreover have "line_number s' = line_number s + 1" "cur_x s' = cur_x s" "cur_y s' = cur_y s"
    by (subst r(5), simp)+
  ultimately show ?thesis using r(1) by (auto simp: list_all_iff)
qed

text \<open>
  C22: \<open>vga_scroll_up\<close> undoes \<open>vga_scroll_down\<close>: after both, every cell of the screen, the line
  number and the cursor are as before.
\<close>

theorem scroll_round_trip:
  assumes "screen_ok s B D ps" "unat (arr_size (ram (kern s)) (lines_arr s)) * 8 < 2 ^ 32"
    and "vga_scroll_down s = Inr s'"
  shows "\<exists>s''. vga_scroll_up s' = Inr s'' \<and> buf s'' = buf s \<and> line_number s'' = line_number s \<and>
    cur_x s'' = cur_x s \<and> cur_y s'' = cur_y s"
proof -
  let ?n = "unat (line_number s)"
  obtain D' ps' ls where r: "screen_ok s' B D' ps'" "saved s' ps' = ls"
    "ls = saving 25 (buf s) ?n (saved s ps) @ (if length ps = ?n + 25 then [replicate 80 (color_char s 32)] else [])"
    "buf s' = drawing 25 (buf s) (Suc ?n) ls"
    "s' = s\<lparr>buf := buf s', line_number := line_number s + 1, kern := kern s'\<rparr>"
    "unat (line_number s') = Suc ?n"
    using scroll_down_ok [OF assms] by blast
  have ln: "line_number s' = line_number s + 1" by (subst r(5)) simp
  have "line_number s' \<noteq> 0" using r(6) by (metis unsigned_0 nat.distinct(1))
  then obtain s'' where u: "vga_scroll_up s' = Inr s''" "saved s'' ps' = saving 25 (buf s') (Suc ?n) ls"
    "buf s'' = drawing 25 (buf s') ?n (saved s'' ps')"
    "s'' = s'\<lparr>buf := buf s'', line_number := line_number s' - 1, kern := kern s''\<rparr>"
    using scroll_up_ok [OF r(1)] r(2,6) by auto
  have n: "?n + 25 \<le> length ps" "length (buf s) = 2000" using screen_okD(2,3) [OF assms(1)] by simp_all
  have len: "length (saving 25 (buf s) ?n (saved s ps)) = length ps" by (simp add: saving_def)
  have len2: "Suc ?n + 25 \<le> length ls" using screen_okD(3) [OF r(1)] r(2,6) by (metis length_saved)
  have sl: "\<forall>l \<in> set ls. length l = 80" using saved_lengths [of s' ps'] r(2) by simp
  have old: "ls ! (?n + i) ! j = (if j < text_cols i then at (buf s) i j else saved s ps ! (?n + i) ! j)"
    if "i < 25" "j < 80" for i j
    unfolding r(3) using n len that saving_nth [of ?n "saved s ps" i j "buf s"] saved_lengths by (simp add: nth_append)
  have new: "saved s'' ps' ! (?n + i) ! j = ls ! (?n + i) ! j" if ij: "i < 25" "j < 80" for i j
  proof (cases i)
    case 0
    then show ?thesis unfolding u(2) using len2 by (simp add: saving_other)
  next
    case (Suc h)
    have h: "h < 25" using Suc ij(1) by simp
    have "saved s'' ps' ! (?n + i) ! j = (if j < text_cols h then at (buf s') h j else ls ! (?n + i) ! j)"
      unfolding u(2) using saving_nth [OF len2 h ij(2) sl, of "buf s'"] Suc by simp
    then show ?thesis using drawing_at [OF h ij(2), of "buf s" "Suc ?n" ls] Suc by (simp add: r(4))
  qed
  have "buf s'' = buf s"
  proof (rule screen_eqI)
    fix i j :: nat assume ij: "i < 25" "j < 80"
    show "at (buf s'') i j = at (buf s) i j"
      unfolding u(3) drawing_at [OF ij] using new [OF ij] old [OF ij] drawing_at [OF ij, of "buf s" "Suc ?n" ls] r(4) by auto
  qed (use n in \<open>simp_all add: u(3)\<close>)
  moreover have "line_number s'' = line_number s" using arg_cong [OF u(4), of line_number] ln by simp
  moreover have "cur_x s'' = cur_x s" "cur_y s'' = cur_y s"
    using arg_cong [OF u(4), of cur_x] arg_cong [OF r(5), of cur_x]
      arg_cong [OF u(4), of cur_y] arg_cong [OF r(5), of cur_y] by simp_all
  ultimately show ?thesis using u(1) by blast
qed

section \<open>Scrolling never fails while there is memory\<close>

lemma array_add_running:
  assumes run: "running j k" "j < 1021" and arr: "array_in (ram k) (kowns k) arr B D xs"
    and small: "unat (arr_size (ram k) arr) * 8 \<le> max_request"
  shows "\<exists>k'. array_add kmalloc kfree ram ram_update k arr x = Inr k'"
proof (cases "array_add kmalloc kfree ram ram_update k arr x")
  case (Inl e)
  let ?n = "arr_size (ram k) arr"
  have inv: "kmem_inv k" using run(1) by (simp add: running_def)
  note ad = array_inD [OF arr]
  have lt: "unat ?n * 8 < 2 ^ 32" using small by (simp add: max_request_def)
  then have n: "unat (?n * 2 * 4) = unat ?n * 8"
    using unat_mult_small [of ?n "2 :: u32"] unat_mult_small [of "?n * 2" "4 :: u32"] by simp
  let ?k = "put32 ram_update k arr (?n * 2)"
  have "kmem_inv ?k" using kernel.put32_kept [OF inv ad(1) subset_trans [OF arr_field_spans(1) ad(4)]] by blast
  then have "running j ?k" using run(1) by (simp add: running_def put32_def)
  moreover have "0 < ?n * 2 * 4" using n ad(6) by (simp add: word_less_nat_alt unat_gt_0)
  ultimately obtain p k' where "kmalloc ?k (?n * 2 * 4) = Inr (p, k')"
    using kmalloc_running [of j ?k "?n * 2 * 4"] run(2) n small by auto
  then show ?thesis using kernel.add_holds [OF inv arr lt, of x] Inl by simp
qed simp

lemma scroll_down_total:
  assumes ok: "screen_ok s B D ps" and run: "running j (kern s)" "j < 1020"
    and small: "unat (arr_size (ram (kern s)) (lines_arr s)) * 8 \<le> max_request"
  shows "\<exists>s'. vga_scroll_down s = Inr s'"
proof -
  let ?arr = "lines_arr s" and ?n = "unat (line_number s)"
  obtain k where k: "save_buffer s = Inr (s\<lparr>kern := k\<rparr>)" "screen_ok (s\<lparr>kern := k\<rparr>) B D ps" "pages k = pages (kern s)"
    "arr_size (ram k) ?arr = arr_size (ram (kern s)) ?arr"
    using save_buffer_ok [OF ok] by blast
  let ?s = "s\<lparr>kern := k\<rparr>"
  note l = screen_okD [OF k(2), simplified]
  have rk: "running j k" using run(1) k(3) lines_atD(1) [OF l(1)] by (simp add: running_def)
  obtain p k1 j1 where m: "kmalloc k 160 = Inr (p, k1)" "running j1 k1" "j1 \<le> Suc j"
    using kmalloc_running [OF rk, of 160] run(2) by (auto simp: max_request_def)
  obtain P where P: "lines_at k1 ?arr B D ps" "(p, P) \<in> kowns k1" "span p 160 \<subseteq> P" "p \<noteq> ?arr"
    "p \<noteq> arr_data (ram k1) ?arr" "p \<notin> set ps" "arr_size (ram k1) ?arr = arr_size (ram k) ?arr"
    using fresh_line [OF l(1) m(1)] by blast
  define f where "f = fill_line (color_char s 32) p"
  have fo: "f (ram k1) a = ram k1 a" if "a \<notin> P" for a
    unfolding f_def using that P(3) by (intro fill_line_words(2)) blast
  note u = kernel.update_kept [where f = f, OF lines_atD(1) [OF P(1)] P(2) fo]
  have "{p} \<inter> insert ?arr (insert (arr_data (ram k1) ?arr) (set ps)) = {}" using P(4-6) by simp
  note k2 = lines_kept [OF P(1) u(1,3) this]
  have r2: "running j1 (ram_update f k1)" using m(2) u(1) by (simp add: running_def)
  have j1: "j1 < 1021" using m(3) run(2) by simp
  have small2: "unat (arr_size (ram (ram_update f k1)) ?arr) * 8 \<le> max_request" using small k2(3) P(7) k(4) by metis
  obtain k3 where "array_add kmalloc kfree ram ram_update (ram_update f k1) ?arr p = Inr k3"
    using array_add_running [OF r2 j1 lines_atD(3) [OF k2(1)] small2] by blast
  then have add: "add_blank_line ?s = Inr (s\<lparr>kern := k3\<rparr>)"
    using m(1) by (simp add: add_blank_line_def vga_width_def Let_def f_def)
  have lt: "unat (arr_size (ram (kern ?s)) (lines_arr ?s)) * 8 < 2 ^ 32" using small k(4) by (simp add: max_request_def)
  obtain D' q where new: "screen_ok (s\<lparr>kern := k3\<rparr>) B D' (ps @ [q])"
    using add_blank_line_ok [OF k(2) lt add] by auto
  have len: "length ps = unat (arr_used (ram k) ?arr)"
    using array_inD(10) [OF lines_atD(3) [OF l(1)]] by simp
  then have b: "length ps < 2 ^ 32" using unat32 by simp
  have u1: "unat (line_number s + 1) = Suc ?n" "unat (line_number s + 25) = ?n + 25"
    using l(3) b unat_add_small [of "line_number s" 1] unat_add_small [of "line_number s" 25] by simp_all
  show ?thesis
  proof (cases "arr_used (ram k) ?arr \<le> line_number s + vga_height")
    case True
    have "screen_ok (s\<lparr>kern := k3, line_number := line_number s + 1\<rparr>) B D' (ps @ [q])"
      using new l(3) u1 by (simp add: screen_ok_def)
    from draw_buffer_ok [OF this] show ?thesis using k(1) add True by (simp add: vga_scroll_down_def)
  next
    case False
    then have "?n + 26 \<le> length ps" using len u1(2) by (simp add: vga_height_def word_le_nat_alt)
    then have "screen_ok (s\<lparr>kern := k, line_number := line_number s + 1\<rparr>) B D ps"
      using k(2) u1 by (simp add: screen_ok_def)
    from draw_buffer_ok [OF this] show ?thesis using k(1) False by (simp add: vga_scroll_down_def)
  qed
qed

section \<open>A booted console\<close>

definition boot_vga :: vga where
  "boot_vga = vga_init \<lparr>cur_x = 0, cur_y = 0, color = 0, buf = replicate 2000 0, lines_arr = 0, line_number = 0,
     kern = kboot (\<lambda>_. 0), ports = []\<rparr>"

lemma boot_vga_facts: "length (buf boot_vga) = 2000" "line_number boot_vga = 0" "kern boot_vga = kboot (\<lambda>_. 0)"
  "cur_x boot_vga = 0" "cur_y boot_vga = 0"
proof -
  have "length (fold (\<lambda>i b. b[i := v]) is b) = length b" for v :: u16 and "is" b
    by (induction "is" arbitrary: b) simp_all
  then show "length (buf boot_vga) = 2000" by (simp add: boot_vga_def vga_init_def Let_def)
qed (simp_all add: boot_vga_def vga_init_def Let_def)

lemma boot_scroll:
  "\<exists>s B D ps s'. screen_ok s B D ps \<and> length ps = 25 \<and> line_number s = 0 \<and>
    unat (arr_size (ram (kern s)) (lines_arr s)) * 8 < 2 ^ 32 \<and> vga_scroll_down s = Inr s' \<and> buf s = buf boot_vga"
proof -
  have r: "running 0 (kern boot_vga)" using kboot_running by (simp add: boot_vga_facts)
  obtain s B D ps j' where s: "screen_ok s B D ps" "length ps = 25"
    "arr_size (ram (kern s)) (lines_arr s) = 25" "running j' (kern s)" "j' \<le> 27"
    "s = boot_vga\<lparr>lines_arr := lines_arr s, kern := kern s\<rparr>"
    using dynamic_init_ok [OF r] by (auto simp: boot_vga_facts)
  obtain s' where "vga_scroll_down s = Inr s'"
    using scroll_down_total [OF s(1,4)] s(3,5) by (auto simp: max_request_def)
  moreover have "line_number s = 0" "buf s = buf boot_vga"
    using arg_cong [OF s(6), of line_number] arg_cong [OF s(6), of buf] by (simp_all add: boot_vga_facts)
  ultimately show ?thesis using s(1-3) by (intro exI [of _ s] exI conjI) simp_all
qed

theorem scroll_down_correct_witness:
  "\<exists>s s'. vga_scroll_down s = Inr s' \<and> line_number s' = 1 \<and>
    at (buf s') 0 64 = at (buf s) 1 64 \<and> at (buf s') 24 79 = color_char s 32"
proof -
  obtain s B D ps s' where s: "screen_ok s B D ps" "length ps = 25" "line_number s = 0"
    "unat (arr_size (ram (kern s)) (lines_arr s)) * 8 < 2 ^ 32" "vga_scroll_down s = Inr s'"
    using boot_scroll by blast
  have "at (buf s') 0 64 = at (buf s) 1 64" "at (buf s') 24 79 = color_char s 32" "line_number s' = 1"
    using scroll_down_correct [OF s(1,4,5)] s(2,3) by (auto simp: list_all_iff text_cols_def)
  then show ?thesis using s(5) by blast
qed

theorem scroll_round_trip_witness:
  "\<exists>s s' s''. vga_scroll_down s = Inr s' \<and> vga_scroll_up s' = Inr s'' \<and> buf s'' = buf boot_vga \<and> line_number s'' = 0"
proof -
  obtain s B D ps s' where s: "screen_ok s B D ps" "line_number s = 0"
    "unat (arr_size (ram (kern s)) (lines_arr s)) * 8 < 2 ^ 32" "vga_scroll_down s = Inr s'" "buf s = buf boot_vga"
    using boot_scroll by blast
  then show ?thesis using scroll_round_trip [OF s(1,3,4)] by auto
qed

end
