(* ===== verification/VgaCursor.thy ===== *)
theory VgaCursor
  imports VgaProps
begin

text \<open>
  The console's cursor: \<open>vga_putc\<close> against a reference definition without its recursion and its
  reserved positions, the range the cursor stays in, and what \<open>vga_set_x\<close>, \<open>vga_set_y\<close>,
  \<open>vga_clear\<close> and \<open>vga_init\<close> do.
\<close>

section \<open>The hardware cursor\<close>

text \<open>The four port writes that move the hardware cursor to cell \<open>w\<close>.\<close>

definition cursor_ports :: "u32 \<Rightarrow> io" where
  "cursor_ports w = [Outb 0x3D4 0x0F, Outb 0x3D5 (ucast w), Outb 0x3D4 0x0E, Outb 0x3D5 (ucast (drop_bit 8 w))]"

lemma cursor_bytes:
  "ucast ((ucast w :: u16) AND 0xFF) = (ucast w :: u8)"
  "ucast (drop_bit 8 (ucast w :: u16) AND 0xFF) = (ucast (drop_bit 8 w) :: u8)" for w :: u32
proof -
  have mask: "x AND 0xFF = take_bit 8 x" for x :: u16 by (simp add: take_bit_eq_mask mask_eq_exp_minus_1)
  show "ucast ((ucast w :: u16) AND 0xFF) = (ucast w :: u8)"
    "ucast (drop_bit 8 (ucast w :: u16) AND 0xFF) = (ucast (drop_bit 8 w) :: u8)"
    unfolding mask by (rule bit_word_eqI, auto simp: bit_simps)+
qed

lemma update_cursor_eq:
  "update_cursor s =
    (if cur_y s \<le> 25 \<and> cur_x s \<le> 80 then Inr (s\<lparr>ports := ports s @ cursor_ports (cur_y s * 80 + cur_x s)\<rparr>)
     else Inl (Panic ''Bad VGA Coordinates: x=%d, y=%d''))"
  by (auto simp: update_cursor_def get_index_def vga_height_def vga_width_def Let_def outb_def cursor_ports_def cursor_bytes not_le)

lemma not_reserved: "y < 25 \<Longrightarrow> \<not> reserved x y"
  by (auto simp: reserved_def vga_width_def)

lemma unat_index:
  fixes x y :: u32
  assumes "y < 25" "x \<le> 80"
  shows "unat (y * 80 + x) = unat y * 80 + unat x"
proof -
  have "unat y < 25" "unat x \<le> 80" using assms by (simp_all add: word_less_nat_alt word_le_nat_alt)
  then have "unat (y * 80) = unat y * 80" using unat_mult_small [of y "80 :: u32"] by simp
  then show ?thesis using \<open>unat y < 25\<close> \<open>unat x \<le> 80\<close> unat_add_small [of "y * 80" x] by simp
qed

section \<open>Frames\<close>

lemma for_each_keeps:
  assumes "\<And>i s s'. f i s = Inr s' \<Longrightarrow> g s' = g s" "for_each f is s = Inr s'"
  shows "g s' = g s"
  using assms(2)
proof (induction "is" arbitrary: s)
  case (Cons i "is")
  then obtain s1 where "f i s = Inr s1" "for_each f is s1 = Inr s'" by (auto simp: rbind_eq_Inr)
  then show ?case using Cons.IH assms(1) by metis
qed simp

lemma length_draw_row [simp]: "length (draw_row m i p j b) = length b"
proof (induction m i p j b rule: draw_row.induct)
  case (1 m i p j b)
  then show ?case by (subst draw_row.simps) simp
qed

definition cursor_of :: "vga \<Rightarrow> u32 \<times> u32 \<times> u8 \<times> nat" where
  "cursor_of s = (cur_x s, cur_y s, color s, length (buf s))"

lemma buffers_keep_cursor:
  "save_buffer s = Inr s' \<Longrightarrow> cursor_of s' = cursor_of s" "draw_buffer s = Inr s' \<Longrightarrow> cursor_of s' = cursor_of s"
  unfolding save_buffer_def draw_buffer_def
  by (rule for_each_keeps [rotated], assumption, auto simp: rbind_eq_Inr cursor_of_def)+

lemma cursor_of_line [simp]: "cursor_of (s\<lparr>line_number := v\<rparr>) = cursor_of s"
  by (simp add: cursor_of_def)

lemma scroll_keeps_cursor: "vga_scroll_down s = Inr s' \<Longrightarrow> cursor_of s' = cursor_of s"
proof -
  have add: "cursor_of s' = cursor_of s" if "add_blank_line s = Inr s'" for s s'
    using that by (auto simp: add_blank_line_def rbind_eq_Inr Let_def cursor_of_def)
  assume "vga_scroll_down s = Inr s'"
  then obtain s1 s2 where "save_buffer s = Inr s1" "s2 = s1 \<or> add_blank_line s1 = Inr s2"
    "draw_buffer (s2\<lparr>line_number := line_number s2 + 1\<rparr>) = Inr s'"
    by (auto simp: vga_scroll_down_def rbind_eq_Inr split: if_splits)
  then show ?thesis using buffers_keep_cursor add cursor_of_line by metis
qed

section \<open>Writing a character\<close>

text \<open>The cells from \<open>(x, y)\<close> to the end of the row.\<close>

definition blank_rest :: "u16 \<Rightarrow> nat \<Rightarrow> nat \<Rightarrow> u16 list \<Rightarrow> u16 list" where
  "blank_rest v y x b = map (\<lambda>q. if y * 80 + x \<le> q \<and> q < y * 80 + 80 then v else b ! q) [0..<2000]"

lemma blank_rest_step:
  assumes "x < 80" "y < 25" "length b = 2000"
  shows "blank_rest v y (Suc x) (b[y * 80 + x := v]) = blank_rest v y x b"
  using assms by (auto simp: blank_rest_def nth_list_update intro!: nth_equalityI)

lemma fill_rest_eq:
  assumes "cur_x s \<le> 80" "cur_y s < 25" "length (buf s) = 2000"
  shows "fill_rest s = Inr (s\<lparr>buf := blank_rest (color_char s 32) (unat (cur_y s)) (unat (cur_x s)) (buf s), cur_x := 80\<rparr>)"
  using assms
proof (induction s rule: fill_rest.induct)
  case (1 s)
  let ?x = "unat (cur_x s)" and ?y = "unat (cur_y s)"
  have nr: "\<not> reserved (cur_x s) (cur_y s)" using not_reserved [OF 1(3)] .
  show ?case
  proof (cases "cur_x s < 80")
    case True
    define s1 where "s1 = s\<lparr>buf := (buf s)[?y * 80 + ?x := color_char s 32]\<rparr>"
    have y: "?y < 25" "?x < 80" using 1(3) True by (simp_all add: word_less_nat_alt)
    have ix: "get_index s = Inr (cur_y s * 80 + cur_x s)"
      using less_imp_le [OF 1(3)] less_imp_le [OF True] by (simp add: get_index_def vga_height_def vga_width_def not_less)
    have put: "rbind (get_index s) (\<lambda>idx. put_cell idx (color_char s 32) s) = Inr s1"
      using unat_index [OF 1(3), of "cur_x s"] True y 1(4) by (simp add: ix put_cell_def s1_def)
    have x1: "unat (cur_x s + 1) = Suc ?x" by (rule unat_plus1 [OF True])
    have "fill_rest s = fill_rest (s1\<lparr>cur_x := cur_x s + 1\<rparr>)"
      using True nr put by (subst fill_rest.simps) (simp add: vga_width_def s1_def)
    also have "\<dots> = Inr (s1\<lparr>cur_x := cur_x s + 1,
        buf := blank_rest (color_char s 32) ?y (Suc ?x) (buf s1), cur_x := 80\<rparr>)"
      using 1(1) [OF _ put] True nr 1(3,4) x1 plus1_le_iff [OF True]
      by (simp add: vga_width_def s1_def color_char_def)
    finally show ?thesis using blank_rest_step [OF y(2,1) 1(4)] by (simp add: s1_def)
  next
    case False
    then have x: "cur_x s = 80" using 1(2) by simp
    then have "blank_rest (color_char s 32) ?y ?x (buf s) = buf s"
      using 1(4) by (auto simp: blank_rest_def intro!: nth_equalityI)
    then show ?thesis using x by (subst fill_rest.simps) (simp add: vga_width_def)
  qed
qed

text \<open>
  The reference: a newline blanks the rest of its row, any other character (a tabulator is a
  blank) fills its cell; the end of a row leads to the next one, or scrolls at the bottom.
\<close>

definition put_ref :: "u8 \<Rightarrow> vga \<Rightarrow> vga res" where
  "put_ref c s =
     (let x = cur_x s; y = cur_y s;
          b = (if c = 10 then blank_rest (color_char s 32) (unat y) (unat x) (buf s)
               else (buf s)[unat y * 80 + unat x := color_char s (if c = 9 then 32 else c)])
      in rbind
           (if c \<noteq> 10 \<and> x < 79 then Inr (s\<lparr>buf := b, cur_x := x + 1\<rparr>)
            else if y < 24 then Inr (s\<lparr>buf := b, cur_x := 0, cur_y := y + 1\<rparr>)
            else vga_scroll_down (s\<lparr>buf := b, cur_x := 0\<rparr>))
           (\<lambda>s. Inr (s\<lparr>ports := ports s @ cursor_ports (cur_y s * 80 + cur_x s)\<rparr>)))"

lemma put_advance_eq:
  assumes "cur_x s \<le> 80" "cur_y s < 25"
  shows "put_advance s =
    rbind (if cur_x s < 79 then Inr (s\<lparr>cur_x := cur_x s + 1\<rparr>)
           else if cur_y s < 24 then Inr (s\<lparr>cur_x := 0, cur_y := cur_y s + 1\<rparr>)
           else vga_scroll_down (s\<lparr>cur_x := 0\<rparr>))
      (\<lambda>s. Inr (s\<lparr>ports := ports s @ cursor_ports (cur_y s * 80 + cur_x s)\<rparr>))"
proof -
  let ?x = "unat (cur_x s)" and ?y = "unat (cur_y s)"
  have n: "?x \<le> 80" "?y < 25" using assms by (simp_all add: word_less_nat_alt word_le_nat_alt)
  have u: "unat (cur_x s + 1) = ?x + 1" "unat (cur_y s + 1) = ?y + 1"
    using n unat_add_small [of "cur_x s" 1] unat_add_small [of "cur_y s" 1] by simp_all
  have x: "cur_x s + 1 \<ge> 80 \<longleftrightarrow> \<not> cur_x s < 79" and y: "cur_y s + 1 \<ge> 25 \<longleftrightarrow> \<not> cur_y s < 24"
    using u by (auto simp: word_less_nat_alt word_le_nat_alt)
  have le: "cur_y s \<le> 25" "\<not> cur_x s + 1 \<ge> 80 \<Longrightarrow> cur_x s + 1 \<le> 80" "\<not> cur_y s + 1 \<ge> 25 \<Longrightarrow> cur_y s + 1 \<le> 25"
    using assms(2) by auto
  have same: "s\<lparr>cur_x := 0, cur_y := cur_y s\<rparr> = s\<lparr>cur_x := 0\<rparr>" by simp
  show ?thesis
  proof (cases "cur_x s < 79")
    case True
    then show ?thesis using le x not_reserved [OF assms(2)]
      by (simp add: put_advance_def vga_width_def Let_def update_cursor_eq)
  next
    case far: False
    show ?thesis
    proof (cases "cur_y s < 24")
      case True
      then show ?thesis using far le x y
        by (simp add: put_advance_def vga_width_def vga_height_def Let_def update_cursor_eq)
    next
      case False
      have "update_cursor s' = Inr (s'\<lparr>ports := ports s' @ cursor_ports (cur_y s' * 80 + cur_x s')\<rparr>)"
        if "vga_scroll_down (s\<lparr>cur_x := 0\<rparr>) = Inr s'" for s'
        using scroll_keeps_cursor [OF that] le(1) by (simp add: cursor_of_def update_cursor_eq)
      then show ?thesis using far False x y
        by (cases "vga_scroll_down (s\<lparr>cur_x := 0\<rparr>)")
          (simp_all add: put_advance_def vga_width_def vga_height_def Let_def)
    qed
  qed
qed

lemma putc_ref:
  assumes "cur_x s < 80" "cur_y s < 25" "length (buf s) = 2000"
  shows "vga_putc c s = put_ref c s"
proof (cases "c = 10")
  case True
  let ?s = "s\<lparr>buf := blank_rest (color_char s 32) (unat (cur_y s)) (unat (cur_x s)) (buf s), cur_x := 80\<rparr>"
  have "put_newline s = put_advance ?s"
    using fill_rest_eq [of s] assms by (simp add: put_newline_def)
  also have "\<dots> = put_ref c s"
    using put_advance_eq [of ?s] assms(2) True by (simp add: put_ref_def Let_def)
  finally show ?thesis using True by (simp add: vga_putc_def putc_loop.simps)
next
  case False
  let ?q = "unat (cur_y s) * 80 + unat (cur_x s)"
  let ?c = "if c = 9 then 32 else c"
  let ?s = "s\<lparr>buf := (buf s)[?q := color_char s ?c]\<rparr>"
  have ix: "get_index s = Inr (cur_y s * 80 + cur_x s)"
    using less_imp_le [OF assms(1)] less_imp_le [OF assms(2)]
    by (simp add: get_index_def vga_height_def vga_width_def not_less)
  have "?q < 2000" using assms(1,2) by (simp add: word_less_nat_alt)
  then have put: "put_cell (cur_y s * 80 + cur_x s) (color_char s ?c) s = Inr ?s"
    using unat_index [OF assms(2), of "cur_x s"] assms by (simp add: put_cell_def)
  have "vga_putc c s = put_advance ?s"
    using False not_reserved [OF assms(2)] ix put by (simp add: vga_putc_def putc_loop.simps)
  also have "\<dots> = put_ref c s"
    using put_advance_eq [of ?s] assms(1,2) False by (simp add: put_ref_def Let_def)
  finally show ?thesis .
qed

text \<open>
  C23: on a screen of 2000 cells with the cursor on it, \<open>vga_putc\<close> is the reference: no recursion,
  no reserved position, no access outside the screen.
\<close>

theorem vga_putc_reference:
  assumes "cur_x s < 80" "cur_y s < 25" "length (buf s) = 2000"
  shows "vga_putc c s = put_ref c s"
  by (rule putc_ref [OF assms])

theorem vga_putc_reference_witness:
  "vga_putc 65 boot_vga = put_ref 65 boot_vga"
  by (rule vga_putc_reference) (simp_all add: boot_vga_facts)

section \<open>The range of the cursor\<close>

definition cursor_ok :: "vga \<Rightarrow> bool" where
  "cursor_ok s \<longleftrightarrow> cur_x s < 80 \<and> cur_y s < 25 \<and> length (buf s) = 2000"

lemma putc_cursor:
  assumes ok: "cursor_ok s" and call: "vga_putc c s = Inr s'"
  shows "cursor_ok s' \<and> color s' = color s"
proof -
  have s: "cur_x s < 80" "cur_y s < 25" "length (buf s) = 2000" using ok by (simp_all add: cursor_ok_def)
  have n: "cur_x s < 79 \<Longrightarrow> cur_x s + 1 < 80" "cur_y s < 24 \<Longrightarrow> cur_y s + 1 < 25"
    using unat_plus1 [of "cur_x s" 79] unat_plus1 [of "cur_y s" 24] by (auto simp: word_less_nat_alt)
  have scroll: "cur_x s1 = 0 \<and> cur_y s1 = cur_y s \<and> length (buf s1) = 2000 \<and> color s1 = color s"
    if "vga_scroll_down (s\<lparr>buf := b, cur_x := 0\<rparr>) = Inr s1" "length b = 2000" for b s1
    using scroll_keeps_cursor [OF that(1)] that(2) by (simp add: cursor_of_def)
  have call': "put_ref c s = Inr s'" using putc_ref [OF s, of c] call by simp
  show ?thesis
    using call' s n by (auto simp: put_ref_def Let_def rbind_eq_Inr cursor_ok_def blank_rest_def split: if_splits dest!: scroll)
qed

lemma print_cursor:
  assumes "cursor_ok s" "vga_print chars s = Inr s'"
  shows "cursor_ok s' \<and> color s' = color s"
  using assms unfolding vga_print_def
proof (induction chars arbitrary: s)
  case (Cons c chars)
  then obtain s1 where s1: "vga_putc c s = Inr s1" "for_each vga_putc chars s1 = Inr s'" by (auto simp: rbind_eq_Inr)
  then show ?case using Cons.IH [of s1] putc_cursor [OF Cons.prems(1) s1(1)] by simp
qed simp

text \<open>
  Printing any bytes keeps the cursor on the screen and the screen in shape, whatever is
  printed and however often it scrolls; \<open>vga_print_color\<close> leaves the colour it found.
\<close>

lemma vga_print_keeps_cursor:
  assumes "cursor_ok s"
  shows "case vga_print_color col chars s of
      Inl e \<Rightarrow> True
    | Inr s' \<Rightarrow> cur_x s' < 80 \<and> cur_y s' < 25 \<and> length (buf s') = 2000 \<and> color s' = color s"
proof -
  have "cursor_ok (s\<lparr>color := v\<rparr>)" for v using assms by (simp add: cursor_ok_def)
  then show ?thesis
    using print_cursor [of "s\<lparr>color := make_color col COLOR_BLACK\<rparr>" chars]
    by (auto simp: vga_print_color_def Let_def rbind_eq_Inr cursor_ok_def split: sum.splits)
qed

lemma set_cursor_eq:
  assumes "cursor_ok s"
  shows "vga_set_x v s = (if v \<le> 80 then Inr (s\<lparr>cur_x := v, ports := ports s @ cursor_ports (cur_y s * 80 + v)\<rparr>)
      else Inl (Panic ''Bad VGA Coordinates: x=%d, y=%d''))"
    "vga_set_y v s = (if v \<le> 25 then Inr (s\<lparr>cur_y := v, ports := ports s @ cursor_ports (v * 80 + cur_x s)\<rparr>)
      else Inl (Panic ''Bad VGA Coordinates: x=%d, y=%d''))"
  using assms
  by (auto simp: vga_set_x_def vga_set_y_def update_cursor_eq cursor_ok_def vga_width_def vga_height_def less_imp_le)

text \<open>
  The setters check the old coordinate instead of the new one: from a cursor on the screen,
  \<open>vga_set_x\<close> takes every column up to 80 and \<open>vga_set_y\<close> every row up to 25, one beyond the
  screen, and anything larger is a panic instead of being ignored.
\<close>

lemma vga_set_cursor:
  assumes "cursor_ok s"
  shows "vga_set_x v s = (if v \<le> 80 then Inr (s\<lparr>cur_x := v, ports := ports s @ cursor_ports (cur_y s * 80 + v)\<rparr>)
      else Inl (Panic ''Bad VGA Coordinates: x=%d, y=%d'')) \<and>
    vga_set_y v s = (if v \<le> 25 then Inr (s\<lparr>cur_y := v, ports := ports s @ cursor_ports (v * 80 + cur_x s)\<rparr>)
      else Inl (Panic ''Bad VGA Coordinates: x=%d, y=%d''))"
  using set_cursor_eq [OF assms] by blast

section \<open>Clearing and colours\<close>

lemma clear_line_eq:
  assumes "y < 25" "length (buf s) = 2000"
  shows "clear_line y s = Inr (s\<lparr>buf := blank_rest (color_char s 32) (unat y) 0 (buf s)\<rparr>)"
proof -
  let ?v = "color_char s 32"
  let ?b = "\<lambda>c. map (\<lambda>q. if unat y * 80 \<le> q \<and> q < unat y * 80 + c then ?v else buf s ! q) [0..<2000]"
  have y: "unat y < 25" using assms(1) by (simp add: word_less_nat_alt)
  have "\<exists>s'. for_each (\<lambda>i. put_cell (y * vga_width + of_nat i) ?v) [0..<80] s = Inr s' \<and> s' = s\<lparr>buf := ?b 80\<rparr>"
  proof (rule for_each_invariant [where P = "\<lambda>c s'. s' = s\<lparr>buf := ?b c\<rparr>"])
    have "?b 0 = buf s" using assms(2) by (auto intro!: nth_equalityI)
    then show "s = s\<lparr>buf := ?b 0\<rparr>" by simp
  next
    fix c s' assume c: "c < 80" and s': "s' = s\<lparr>buf := ?b c\<rparr>"
    have uc: "unat (of_nat c :: u32) = c" using c by (simp add: unat_of_nat)
    then have "(of_nat c :: u32) \<le> 80" using c by (simp add: word_le_nat_alt)
    then have "unat (y * 80 + of_nat c) = unat y * 80 + c" using unat_index [OF assms(1), of "of_nat c"] uc by simp
    then have "put_cell (y * vga_width + of_nat c) ?v s' = Inr (s'\<lparr>buf := (?b c)[unat y * 80 + c := ?v]\<rparr>)"
      using c y by (simp add: put_cell_def vga_width_def s')
    moreover have "(?b c)[unat y * 80 + c := ?v] = ?b (Suc c)"
      by (auto simp: nth_list_update less_Suc_eq intro!: nth_equalityI)
    ultimately show "\<exists>s''. put_cell (y * vga_width + of_nat c) ?v s' = Inr s'' \<and> s'' = s\<lparr>buf := ?b (Suc c)\<rparr>"
      by (simp add: s')
  qed
  then show ?thesis by (auto simp: clear_line_def blank_rest_def)
qed

text \<open>\<open>vga_clear\<close> clears the cursor's row 25 times, and no other row.\<close>

lemma vga_clear_eq:
  assumes "cursor_ok s"
  shows "vga_clear s = Inr (s\<lparr>buf := blank_rest (color_char s 32) (unat (cur_y s)) 0 (buf s)\<rparr>)"
proof -
  let ?b = "blank_rest (color_char s 32) (unat (cur_y s)) 0 (buf s)"
  have s: "cur_y s < 25" "length (buf s) = 2000" using assms by (simp_all add: cursor_ok_def)
  have idem: "blank_rest (color_char s 32) (unat (cur_y s)) 0 ?b = ?b" by (auto simp: blank_rest_def)
  have "\<exists>s'. for_each (\<lambda>_ s. clear_line (cur_y s) s) [0..<25] s = Inr s' \<and> s' = s\<lparr>buf := if (25 :: nat) = 0 then buf s else ?b\<rparr>"
  proof (rule for_each_invariant [where P = "\<lambda>c s'. s' = s\<lparr>buf := if c = 0 then buf s else ?b\<rparr>"])
    fix c :: nat and s' assume s': "s' = s\<lparr>buf := if c = 0 then buf s else ?b\<rparr>"
    have "clear_line (cur_y s') s' = Inr (s\<lparr>buf := ?b\<rparr>)"
      using clear_line_eq [of "cur_y s'" s'] s idem by (simp add: s' color_char_def blank_rest_def)
    then show "\<exists>s''. clear_line (cur_y s') s' = Inr s'' \<and> s'' = s\<lparr>buf := if Suc c = 0 then buf s else ?b\<rparr>" by simp
  qed simp
  then show ?thesis by (auto simp: vga_clear_def)
qed

text \<open>A colour byte holds the foreground in its low and the background in its high half.\<close>

lemma make_color_halves:
  "unat (make_color fg bg) mod 16 = unat (color_code fg)" "unat (make_color fg bg) div 16 = unat (color_code bg)"
  by (cases fg; cases bg; simp add: make_color_def)+

text \<open>A character beyond ASCII overwrites the colour: its sign bit is extended into the attribute byte.\<close>

lemma color_char_bytes:
  "color_char s c = (if bit c 7 then 0xFF00 OR ucast c else ucast c OR push_bit 8 (ucast (color s)))"
proof (rule bit_word_eqI)
  fix n assume n: "n < LENGTH(16)"
  have m: "bit (0xFF00 :: u16) n \<longleftrightarrow> 8 \<le> n"
  proof -
    have eq: "(0xFF00 :: u16) = push_bit 8 (mask 8)" by (simp add: mask_eq_exp_minus_1)
    show ?thesis unfolding eq using n by (auto simp: bit_simps)
  qed
  have "bit c n \<Longrightarrow> n < 8" using bit_imp_le_length [of c n] by simp
  moreover have "bit (color s) (n - 8) \<Longrightarrow> n - 8 < 8" using bit_imp_le_length [of "color s" "n - 8"] by simp
  ultimately show "bit (color_char s c) n \<longleftrightarrow>
      bit (if bit c 7 then 0xFF00 OR ucast c else ucast c OR push_bit 8 (ucast (color s)) :: u16) n"
    using n m by (cases "n < 7"; cases "n = 7") (auto simp: color_char_def Let_def bit_or_iff bit_signed_iff bit_unsigned_iff bit_push_bit_iff min_def)
qed

section \<open>Text within a row\<close>

text \<open>Characters \<open>chars\<close> written from cell \<open>p\<close> on.\<close>

definition text_at :: "nat \<Rightarrow> u16 list \<Rightarrow> u16 list \<Rightarrow> u16 list" where
  "text_at p vs b = map (\<lambda>q. if p \<le> q \<and> q < p + length vs then vs ! (q - p) else b ! q) [0..<2000]"

lemma length_text_at [simp]: "length (text_at p vs b) = 2000"
  by (simp add: text_at_def)

lemma text_at_Nil: "length b = 2000 \<Longrightarrow> text_at p [] b = b"
  by (auto simp: text_at_def intro!: nth_equalityI)

lemma text_at_Cons:
  assumes "length b = 2000"
  shows "text_at (Suc p) vs (b[p := v]) = text_at p (v # vs) b"
proof (rule nth_equalityI)
  fix q assume "q < length (text_at (Suc p) vs (b[p := v]))"
  then have q: "q < 2000" by simp
  show "text_at (Suc p) vs (b[p := v]) ! q = text_at p (v # vs) b ! q"
  proof (cases "q = p")
    case False
    have "(v # vs) ! (q - p) = vs ! (q - Suc p)" if "p < q"
    proof -
      have "q - p = Suc (q - Suc p)" using that by simp
      then show ?thesis by simp
    qed
    then show ?thesis using q False assms by (auto simp: text_at_def)
  qed (use q assms in \<open>auto simp: text_at_def\<close>)
qed simp

lemma for_each_append: "for_each f (xs @ ys) s = rbind (for_each f xs s) (for_each f ys)"
proof (induction xs arbitrary: s)
  case (Cons x xs)
  then show ?case by (cases "f x s") simp_all
qed simp

text \<open>Printing text that fits into the row puts it there and moves the cursor behind it.\<close>

lemma print_row:
  assumes "cur_x s < 80" "cur_y s < 24" "length (buf s) = 2000" "list_all (\<lambda>c. c \<noteq> 9 \<and> c \<noteq> 10) chars"
    and "unat (cur_x s) + length chars \<le> 80"
  shows "\<exists>t. vga_print chars s =
    Inr (s\<lparr>buf := text_at (unat (cur_y s) * 80 + unat (cur_x s)) (map (color_char s) chars) (buf s),
      cur_x := if unat (cur_x s) + length chars < 80 then cur_x s + of_nat (length chars) else 0,
      cur_y := if unat (cur_x s) + length chars < 80 then cur_y s else cur_y s + 1, ports := t\<rparr>)"
  using assms
proof (induction chars arbitrary: s)
  case Nil
  then have "unat (cur_x s) < 80" by (simp add: word_less_nat_alt)
  then show ?case using Nil text_at_Nil [OF Nil(3)] by (intro exI [of _ "ports s"]) (simp add: vga_print_def)
next
  case (Cons c chars)
  let ?x = "unat (cur_x s)" and ?y = "unat (cur_y s)"
  have y: "cur_y s < 25" using Cons.prems(2) by (simp add: word_less_nat_alt)
  let ?b = "(buf s)[?y * 80 + ?x := color_char s c]"
  have p: "vga_putc c s = put_ref c s" using putc_ref [OF Cons.prems(1) y Cons.prems(3)] .
  have c: "c \<noteq> 9" "c \<noteq> 10" using Cons.prems(4) by simp_all
  have tx: "text_at (?y * 80 + Suc ?x) vs ?b = text_at (?y * 80 + ?x) (color_char s c # vs) (buf s)" for vs
    using text_at_Cons [OF Cons.prems(3), of "?y * 80 + ?x" vs "color_char s c"] by simp
  show ?case
  proof (cases "cur_x s < 79")
    case True
    then have x1: "unat (cur_x s + 1) = Suc ?x" by (rule unat_plus1)
    define s1 where "s1 = s\<lparr>buf := ?b, cur_x := cur_x s + 1, ports := ports s @ cursor_ports (cur_y s * 80 + (cur_x s + 1))\<rparr>"
    have r: "vga_putc c s = Inr s1" using True c by (simp add: p put_ref_def Let_def s1_def)
    have cc: "color_char s1 = color_char s" by (simp add: s1_def color_char_def fun_eq_iff)
    have sf: "cur_x s1 = cur_x s + 1" "cur_y s1 = cur_y s" "buf s1 = ?b" by (simp_all add: s1_def)
    have "?x < 79" using True by (simp add: word_less_nat_alt)
    then have "cur_x s1 < 80" by (simp add: sf word_less_nat_alt x1)
    from Cons.IH [OF this, unfolded sf x1 cc] Cons.prems
    obtain t where t: "vga_print chars s1 =
      Inr (s1\<lparr>buf := text_at (?y * 80 + Suc ?x) (map (color_char s) chars) ?b,
        cur_x := if Suc ?x + length chars < 80 then cur_x s + 1 + of_nat (length chars) else 0,
        cur_y := if Suc ?x + length chars < 80 then cur_y s else cur_y s + 1, ports := t\<rparr>)"
      by auto
    have "vga_print (c # chars) s = vga_print chars s1" by (simp add: vga_print_def r)
    then show ?thesis using t [unfolded tx] by (intro exI [of _ t]) (simp add: s1_def add.assoc)
  next
    case False
    then have "?x = 79" using Cons.prems(1) by (simp add: word_less_nat_alt)
    then have nil: "chars = []" and len: "\<not> ?x + length (c # chars) < 80" using Cons.prems(5) by simp_all
    have "vga_putc c s = Inr (s\<lparr>buf := ?b, cur_x := 0, cur_y := cur_y s + 1, ports := ports s @ cursor_ports ((cur_y s + 1) * 80 + 0)\<rparr>)"
      using False c Cons.prems(2) by (simp add: p put_ref_def Let_def)
    moreover have "text_at (?y * 80 + ?x) [color_char s c] (buf s) = ?b"
      using tx [of "[]"] text_at_Nil [of ?b] Cons.prems(3) by simp
    ultimately show ?thesis using len nil by (auto simp: vga_print_def)
  qed
qed

lemma scroll_up_keeps_cursor: "vga_scroll_up s = Inr s' \<Longrightarrow> cursor_of s' = cursor_of s"
  using buffers_keep_cursor cursor_of_line by (fastforce simp: vga_scroll_up_def rbind_eq_Inr split: if_splits)

end
