(* ===== verification/Printf.thy ===== *)
theory Printf
  imports LibcString
begin

text \<open>
  Formatted output, src/src/libc/stdio/printf.c. A C string is the list of its bytes before the
  terminator; a format that is read past its terminator is the error \<open>OutOfBounds\<close>, as is an
  argument list that runs out or a store outside \<open>print_buf\<close>. The functions return what is
  handed to \<open>printchar\<close>, in order, and the count the code returns. \<open>strings\<close> gives the C
  string at an address, for \<open>%s\<close>; as the C standard demands, the destination of \<open>sprintf\<close>
  does not overlap the strings it reads.
\<close>

section \<open>The code\<close>

definition ch :: "char \<Rightarrow> u8" where
  "ch c = of_char c"

definition str :: "string \<Rightarrow> u8 list" where
  "str s = map ch s"

definition PAD_RIGHT :: u32 where
  "PAD_RIGHT = 1"

definition PAD_ZERO :: u32 where
  "PAD_ZERO = 2"

definition PRINT_BUF_LEN :: nat where
  "PRINT_BUF_LEN = 12"

text \<open>The loop \<open>for (; width > 0; --width)\<close>: what it prints, and the width it leaves.\<close>

function pad_loop :: "u8 \<Rightarrow> u32 \<Rightarrow> u8 list \<times> u32" where
  "pad_loop padchar width =
     (if 0 <s width then
        (let (out, w) = pad_loop padchar (width - 1) in (padchar # out, w))
      else ([], width))"
  by pat_completeness auto

lemma sint_minus_one: "sint (w - 1) = sint w - 1" if "0 <s w" for w :: u32
proof -
  have "0 < sint w" using that by (simp add: word_sless_alt)
  moreover have "sint w < 2 ^ 31" using sint_lt [of w] by simp
  ultimately show ?thesis
    by (simp add: sint_word_ariths signed_take_bit_int_eq_self)
qed

termination pad_loop
  by (relation "measure (\<lambda>(c, w). nat (sint w))") (auto simp: sint_minus_one word_sless_alt)

declare pad_loop.simps [simp del]

definition prints :: "u8 list \<Rightarrow> u32 \<Rightarrow> u32 \<Rightarrow> u8 list \<times> u32" where
  "prints string width pad =
     (let (width, padchar) =
        (if 0 <s width then
           (let len = of_nat (length string)
            in (if width \<le>s len then 0 else width - len,
                if pad AND PAD_ZERO \<noteq> 0 then ch CHR ''0'' else ch CHR '' ''))
         else (width, ch CHR '' ''));
       (left, width) = (if pad AND PAD_RIGHT = 0 then pad_loop padchar width else ([], width));
       (right, width) = pad_loop padchar width
     in (left @ string @ right, of_nat (length left) + of_nat (length string) + of_nat (length right)))"

text \<open>
  The digit loop of \<open>printi\<close>: \<open>s\<close> is the index into \<open>print_buf\<close>, \<open>buf\<close> the bytes from there
  up to the terminator.
\<close>

function digit_loop :: "u32 \<Rightarrow> u32 \<Rightarrow> u32 \<Rightarrow> nat \<Rightarrow> u8 list \<Rightarrow> (nat \<times> u8 list) res" where
  "digit_loop u b letbase s buf =
     (if u \<noteq> 0 then
        (if b = 0 then Inl DivideFault
         else if s = 0 then Inl OutOfBounds
         else
           (let t = u mod b;
                t = (if 10 \<le> t then t + (letbase - ucast (ch CHR ''0'') - 10) else t)
            in digit_loop (u div b) b letbase (s - 1) (ucast (t + ucast (ch CHR ''0'')) # buf)))
      else Inr (s, buf))"
  by pat_completeness auto
termination
  by (relation "measure (\<lambda>(u, b, l, s, buf). s)") auto

declare digit_loop.simps [simp del]

definition printi :: "u32 \<Rightarrow> u32 \<Rightarrow> bool \<Rightarrow> u32 \<Rightarrow> u32 \<Rightarrow> u32 \<Rightarrow> (u8 list \<times> u32) res" where
  "printi i b sg width pad letbase =
     (if i = 0 then Inr (prints [ch CHR ''0''] width pad)
      else
        (let neg = (sg \<and> b = 10 \<and> i <s 0);
             u = (if neg then - i else i)
         in rbind (digit_loop u b letbase (PRINT_BUF_LEN - 1) []) (\<lambda>(s, buf).
           if neg then
             (if width \<noteq> 0 \<and> pad AND PAD_ZERO \<noteq> 0 then
                (let (out, pc) = prints buf (width - 1) pad in Inr (ch CHR ''-'' # out, 1 + pc))
              else if s = 0 then Inl OutOfBounds
              else Inr (prints (ch CHR ''-'' # buf) width pad))
           else Inr (prints buf width pad))))"

fun parse_zeros :: "u8 list \<Rightarrow> u32 \<Rightarrow> u8 list \<times> u32" where
  "parse_zeros [] pad = ([], pad)"
| "parse_zeros (c # f) pad =
     (if c = ch CHR ''0'' then parse_zeros f (pad OR PAD_ZERO) else (c # f, pad))"

fun parse_width :: "u8 list \<Rightarrow> u32 \<Rightarrow> u8 list \<times> u32" where
  "parse_width [] width = ([], width)"
| "parse_width (c # f) width =
     (if ch CHR ''0'' \<le> c \<and> c \<le> ch CHR ''9'' then
        parse_width f (width * 10 + (ucast c - ucast (ch CHR ''0'')))
      else (c # f, width))"

lemma parse_zeros_length: "length (fst (parse_zeros f pad)) \<le> length f"
  by (induction f pad rule: parse_zeros.induct) auto

lemma parse_width_length: "length (fst (parse_width f w)) \<le> length f"
  by (induction f w rule: parse_width.induct) auto

text \<open>What comes between the percent sign and the conversion.\<close>

definition parse_flags :: "u8 list \<Rightarrow> u8 list \<times> u32 \<times> u32" where
  "parse_flags f =
     (let (f, pad) = (case f of c # f' \<Rightarrow> if c = ch CHR ''-'' then (f', PAD_RIGHT) else (f, 0) | [] \<Rightarrow> (f, 0));
          (f, pad) = parse_zeros f pad;
          (f, width) = parse_width f 0
      in (f, width, pad))"

lemma parse_flags_length: "length (fst (parse_flags f)) \<le> length f"
proof -
  have *: "length (fst (parse_width (fst (parse_zeros g p)) 0)) \<le> length g" for g p
    using parse_width_length parse_zeros_length by (rule le_trans)
  show ?thesis
    using *[of f 0] *[of "tl f" PAD_RIGHT]
    by (auto simp: parse_flags_def Let_def split: list.splits prod.splits)
qed

lemma parse_flags_shorter:
  assumes "(conv # g, width, pad) = parse_flags f"
  shows "length g < length f"
  using parse_flags_length [of f] assms [symmetric] by simp

text \<open>\<open>va_arg\<close> takes the next word of the argument list.\<close>

definition convert :: "(addr \<Rightarrow> u8 list) \<Rightarrow> u8 \<Rightarrow> u32 \<Rightarrow> u32 \<Rightarrow> u32 list \<Rightarrow>
    ((u8 list \<times> u32) \<times> u32 list) res" where
  "convert strings conv width pad args =
     (let next_arg = (\<lambda>k. case args of [] \<Rightarrow> Inl OutOfBounds
            | a # args \<Rightarrow> rbind (k a) (\<lambda>r. Inr (r, args)))
      in if conv = ch CHR ''s'' then
           next_arg (\<lambda>a. Inr (prints (if a \<noteq> 0 then strings a else str ''(null)'') width pad))
         else if conv = ch CHR ''d'' then
           next_arg (\<lambda>a. printi a 10 True width pad (ucast (ch CHR ''a'')))
         else if conv = ch CHR ''x'' then
           next_arg (\<lambda>a. printi a 16 False width pad (ucast (ch CHR ''a'')))
         else if conv = ch CHR ''X'' then
           next_arg (\<lambda>a. printi a 16 False width pad (ucast (ch CHR ''A'')))
         else if conv = ch CHR ''u'' then
           next_arg (\<lambda>a. printi a 10 False width pad (ucast (ch CHR ''a'')))
         else if conv = ch CHR ''c'' then
           next_arg (\<lambda>a. Inr (prints (if ucast a = (0 :: u8) then [] else [ucast a]) width pad))
         else Inr (([], 0), args))"

function print :: "(addr \<Rightarrow> u8 list) \<Rightarrow> u8 list \<Rightarrow> u32 list \<Rightarrow> (u8 list \<times> u32) res" where
  "print strings format args =
     (case format of
        [] \<Rightarrow> Inr ([], 0)
      | c # f \<Rightarrow>
          if c = ch CHR ''%'' then
            (case f of
               [] \<Rightarrow> Inr ([], 0)
             | c' # f' \<Rightarrow>
                 if c' = ch CHR ''%'' then
                   rbind (print strings f' args) (\<lambda>(out, pc). Inr (c' # out, 1 + pc))
                 else
                   (let (g, width, pad) = parse_flags f
                    in case g of
                         [] \<Rightarrow> Inl OutOfBounds
                       | conv # g' \<Rightarrow>
                           rbind (convert strings conv width pad args) (\<lambda>((o1, n1), args).
                           rbind (print strings g' args) (\<lambda>(o2, n2). Inr (o1 @ o2, n1 + n2)))))
          else rbind (print strings f args) (\<lambda>(out, pc). Inr (c # out, 1 + pc)))"
  by pat_completeness auto
termination
  by (relation "measure (\<lambda>(s, f, a). length f)") (auto dest: parse_flags_shorter)

declare print.simps [simp del]

text \<open>\<open>printf\<close> sends every character to \<open>putchar\<close>; \<open>sprintf\<close> stores them and a terminator.\<close>

definition printf :: "(addr \<Rightarrow> u8 list) \<Rightarrow> u8 list \<Rightarrow> u32 list \<Rightarrow> (u8 list \<times> u32) res" where
  "printf strings format args = print strings format args"

fun store_bytes :: "mem \<Rightarrow> addr \<Rightarrow> u8 list \<Rightarrow> mem" where
  "store_bytes m a [] = m"
| "store_bytes m a (b # bs) = store_bytes (m(a := b)) (a + 1) bs"

definition sprintf :: "(addr \<Rightarrow> u8 list) \<Rightarrow> mem \<Rightarrow> addr \<Rightarrow> u8 list \<Rightarrow> u32 list \<Rightarrow> (mem \<times> u32) res" where
  "sprintf strings m out format args =
     rbind (print strings format args) (\<lambda>(bytes, pc). Inr (store_bytes m out (bytes @ [0]), pc))"

definition puts :: "(addr \<Rightarrow> u8 list) \<Rightarrow> addr \<Rightarrow> (u8 list \<times> u32) res" where
  "puts strings s = printf strings (str ''%s'' @ [10]) [s]"

section \<open>Padding\<close>

lemma ch_values:
  "ch CHR ''0'' = 48" "ch CHR ''9'' = 57" "ch CHR '' '' = 32" "ch CHR ''-'' = 45" "ch CHR ''%'' = 37"
  "ch CHR ''a'' = 97" "ch CHR ''A'' = 65" "ch CHR ''s'' = 115" "ch CHR ''d'' = 100" "ch CHR ''x'' = 120"
  "ch CHR ''X'' = 88" "ch CHR ''u'' = 117" "ch CHR ''c'' = 99"
  by code_simp+

lemma pad_loop_eq: "pad_loop c w = (replicate (nat (sint w)) c, if 0 <s w then 0 else w)"
proof (induction c w rule: pad_loop.induct)
  case (1 c w)
  show ?case
  proof (cases "0 <s w")
    case True
    then have pos: "0 < sint w" by (simp add: word_sless_alt)
    have "0 <s w - 1 \<or> w - 1 = 0"
    proof (cases "sint (w - 1) = 0")
      case True
      then show ?thesis by (simp only: signed_eq_0_iff) simp
    next
      case False
      then show ?thesis using True pos by (simp add: word_sless_alt sint_minus_one)
    qed
    moreover have "nat (sint w) = Suc (nat (sint (w - 1)))" using True pos by (simp add: sint_minus_one)
    ultimately show ?thesis
      using 1 True by (subst pad_loop.simps) auto
  next
    case False
    then show ?thesis by (subst pad_loop.simps) (simp add: word_sless_alt)
  qed
qed

text \<open>A field: the string, padded on the left or on the right to the width.\<close>

definition pad_char :: "u32 \<Rightarrow> u8" where
  "pad_char pad = (if pad AND PAD_ZERO \<noteq> 0 then 48 else 32)"

definition field :: "u8 list \<Rightarrow> nat \<Rightarrow> u32 \<Rightarrow> u8 list" where
  "field s w pad =
     (if pad AND PAD_RIGHT = 0 then replicate (w - length s) (pad_char pad) @ s
      else s @ replicate (w - length s) (pad_char pad))"

lemma sint_of_nat_small: "n < 2 ^ 31 \<Longrightarrow> sint (of_nat n :: u32) = int n"
  by (simp add: signed_of_nat signed_take_bit_int_eq_self)

text \<open>What \<open>prints\<close> prints is a field, and it counts its bytes.\<close>

lemma prints_eq:
  assumes "length s < 2 ^ 31"
  shows "prints s w pad = (field s (nat (sint w)) pad, of_nat (length (field s (nat (sint w)) pad)))"
proof -
  have len: "sint (of_nat (length s) :: u32) = int (length s)" using assms by (rule sint_of_nat_small)
  consider (none) "\<not> 0 <s w" | (wide) "0 <s w" "w \<le>s of_nat (length s)"
    | (pad) "0 <s w" "\<not> w \<le>s of_nat (length s)" by blast
  then show ?thesis
  proof cases
    case none
    then have "nat (sint w) = 0" by (simp add: word_sless_alt)
    then show ?thesis using none by (simp add: prints_def pad_loop_eq field_def)
  next
    case wide
    then have "nat (sint w) \<le> length s" by (simp add: word_sle_eq len)
    then show ?thesis using wide by (simp add: prints_def pad_loop_eq field_def)
  next
    case pad
    then have lt: "int (length s) < sint w" by (simp add: word_sle_eq len not_le)
    have "sint (w - of_nat (length s)) = sint w - int (length s)"
      using lt sint_lt [of w] by (simp add: sint_word_ariths len signed_take_bit_int_eq_self)
    then have "nat (sint (w - of_nat (length s))) = nat (sint w) - length s" "0 <s w - of_nat (length s)"
      using lt by (simp_all add: nat_diff_distrib' word_sless_alt)
    then show ?thesis using pad by (simp add: prints_def pad_loop_eq field_def pad_char_def ch_values Let_def)
  qed
qed

lemma length_field: "length (field s w pad) = max (length s) w"
  by (simp add: field_def max_def)

section \<open>Numerals\<close>

text \<open>The digits of a number, most significant first, and the number a digit string denotes.\<close>

definition digit_char :: "u32 \<Rightarrow> nat \<Rightarrow> u8" where
  "digit_char letbase d = (if d < 10 then 48 + of_nat d else ucast letbase + of_nat (d - 10))"

fun numeral_of :: "nat \<Rightarrow> u32 \<Rightarrow> nat \<Rightarrow> u8 list" where
  "numeral_of b letbase n =
     (if n = 0 \<or> b < 2 then [] else numeral_of b letbase (n div b) @ [digit_char letbase (n mod b)])"

declare numeral_of.simps [simp del]

definition digit_val :: "u8 \<Rightarrow> nat" where
  "digit_val c = (if c \<le> 57 then unat c - 48 else if 97 \<le> c then unat c - 87 else unat c - 55)"

definition number_of :: "nat \<Rightarrow> u8 list \<Rightarrow> nat" where
  "number_of b cs = foldl (\<lambda>n c. n * b + digit_val c) 0 cs"

definition integer_of :: "u8 list \<Rightarrow> int" where
  "integer_of cs = (case cs of c # cs' \<Rightarrow> if c = 45 then - int (number_of 10 cs') else int (number_of 10 cs) | [] \<Rightarrow> 0)"

lemma unat_digit_char:
  assumes "d < 16" "lb = 97 \<or> lb = 65"
  shows "unat (digit_char lb d) = (if d < 10 then 48 + d else unat lb + (d - 10))"
proof -
  have "unat (of_nat d :: u8) = d" "unat (of_nat (d - 10) :: u8) = d - 10" using assms(1) by (simp_all add: unat_of_nat)
  then show ?thesis using assms by (auto simp: digit_char_def unat_add_small)
qed

lemma digit_val_char: "d < 16 \<Longrightarrow> lb = 97 \<or> lb = 65 \<Longrightarrow> digit_val (digit_char lb d) = d"
  using unat_digit_char [of d lb] by (auto simp: digit_val_def word_le_nat_alt split: if_splits)

lemma digit_char_ge: "d < 16 \<Longrightarrow> lb = 97 \<or> lb = 65 \<Longrightarrow> digit_char lb d \<noteq> 45"
  using unat_digit_char [of d lb] by (auto split: if_splits)

lemma number_of_snoc: "number_of b (cs @ [c]) = number_of b cs * b + digit_val c"
  by (simp add: number_of_def)

lemma number_of_numeral:
  assumes "2 \<le> b" "b \<le> 16" "lb = 97 \<or> lb = 65"
  shows "number_of b (numeral_of b lb n) = n"
  using assms
proof (induction b lb n rule: numeral_of.induct)
  case (1 b lb n)
  have "n mod b < 16" using 1(2,3) mod_less_divisor [of b n] by linarith
  then show ?case
    using 1 digit_val_char [of "n mod b" lb]
    by (subst numeral_of.simps) (auto simp: number_of_snoc number_of_def [of b "[]"])
qed

text \<open>The digit loop writes the digits into the buffer, right to left.\<close>

lemma digit_loop_step:
  fixes u b lb :: u32
  assumes "lb = 97 \<or> lb = 65" "2 \<le> unat b" "unat b \<le> 16"
  shows "ucast ((if 10 \<le> u mod b then u mod b + (lb - ucast (ch CHR ''0'') - 10) else u mod b) + ucast (ch CHR ''0''))
    = digit_char lb (unat u mod unat b)"
proof -
  let ?d = "unat u mod unat b"
  have "?d < unat b" using assms(2) by (intro mod_less_divisor) simp
  then have d: "unat (u mod b) = ?d" "?d < 16"
    using assms(3) by (simp_all add: unat_mod_distrib)
  then have t: "u mod b = of_nat ?d" by (simp add: word_unat_eq_iff unat_of_nat)
  have "[0..<16] = [0, 1, 2, 3, 4, 5, 6, 7, 8, 9, 10, 11, 12, 13, 14, 15]" by code_simp
  moreover have "?d \<in> set [0..<16]" using d by simp
  ultimately have "?d \<in> {0, 1, 2, 3, 4, 5, 6, 7, 8, 9, 10, 11, 12, 13, 14, 15}"
    by (metis list.simps(15) empty_set)
  then show ?thesis
    unfolding t ch_values digit_char_def using assms(1) by (elim insertE) (auto simp: word_le_nat_alt)
qed

lemma digit_loop_eq:
  assumes "lb = 97 \<or> lb = 65" "2 \<le> unat b" "unat b \<le> 16" "unat u < unat b ^ s"
  shows "digit_loop u b lb s buf =
    Inr (s - length (numeral_of (unat b) lb (unat u)), numeral_of (unat b) lb (unat u) @ buf)
    \<and> length (numeral_of (unat b) lb (unat u)) \<le> s"
  using assms
proof (induction u b lb s buf rule: digit_loop.induct)
  case (1 u b lb s buf)
  show ?case
  proof (cases "u = 0")
    case True
    then show ?thesis by (simp add: digit_loop.simps numeral_of.simps)
  next
    case False
    then have s: "s \<noteq> 0" using 1(5) by (cases s) (auto simp: word_unat_eq_iff)
    have b: "b \<noteq> 0" using 1(3) by auto
    let ?t = "if 10 \<le> u mod b then u mod b + (lb - ucast (ch CHR ''0'') - 10) else u mod b"
    have "unat (u div b) < unat b ^ (s - 1)"
      using 1(5) s by (simp add: unat_div_distrib less_mult_imp_div_less power_eq_if mult.commute)
    then have IH: "digit_loop (u div b) b lb (s - 1) (ucast (?t + ucast (ch CHR ''0'')) # buf) =
        Inr (s - 1 - length (numeral_of (unat b) lb (unat (u div b))),
          numeral_of (unat b) lb (unat (u div b)) @ ucast (?t + ucast (ch CHR ''0'')) # buf)
      \<and> length (numeral_of (unat b) lb (unat (u div b))) \<le> s - 1"
      using 1(1) [OF False b s refl refl] 1(2-4) by blast
    have num: "numeral_of (unat b) lb (unat u) = numeral_of (unat b) lb (unat (u div b)) @ [digit_char lb (unat u mod unat b)]"
      using False 1(3) by (subst numeral_of.simps) (simp add: unat_div_distrib word_unat_eq_iff)
    have loop: "digit_loop u b lb s buf = digit_loop (u div b) b lb (s - 1) (ucast (?t + ucast (ch CHR ''0'')) # buf)"
      using False b s by (subst digit_loop.simps) (simp add: Let_def)
    show ?thesis
      unfolding loop using IH s digit_loop_step [OF 1(2-4), of u] by (auto simp: num)
  qed
qed

text \<open>
  The twelve bytes of \<open>print_buf\<close> are enough: ten digits, a sign and the terminator. The bases
  the code uses are 10 and 16, the letters \<open>a\<close> and \<open>A\<close>.
\<close>

lemma digits_fit:
  assumes "b = 10 \<or> b = 16" "lb = 97 \<or> lb = 65"
  shows "digit_loop u b lb (PRINT_BUF_LEN - 1) [] =
    Inr (11 - length (numeral_of (unat b) lb (unat u)), numeral_of (unat b) lb (unat u))"
    "length (numeral_of (unat b) lb (unat u)) \<le> 10"
proof -
  have "unat u < 10 ^ 10" "unat u < 16 ^ 8" using unat32 [of u] by simp_all
  moreover have "unat u < 10 ^ 11" "unat u < 16 ^ 11" using calculation by simp_all
  moreover have "unat u < 16 ^ 10" using calculation by simp
  ultimately have pow: "unat u < unat b ^ 11" "unat u < unat b ^ 10" using assms(1) by auto
  have b: "2 \<le> unat b" "unat b \<le> 16" using assms(1) by auto
  show "digit_loop u b lb (PRINT_BUF_LEN - 1) [] =
    Inr (11 - length (numeral_of (unat b) lb (unat u)), numeral_of (unat b) lb (unat u))"
    using digit_loop_eq [OF assms(2) b pow(1), of "[]"] by (simp add: PRINT_BUF_LEN_def)
  show "length (numeral_of (unat b) lb (unat u)) \<le> 10"
    using digit_loop_eq [OF assms(2) b pow(2), of "[]"] by simp
qed

definition neg_number :: "u32 \<Rightarrow> u32 \<Rightarrow> bool \<Rightarrow> bool" where
  "neg_number i b sg \<longleftrightarrow> sg \<and> b = 10 \<and> i <s 0"

lemma printi_cases:
  fixes i b lb :: u32 and sg :: bool
  assumes "b = 10 \<or> b = 16" "lb = 97 \<or> lb = 65"
  defines "u \<equiv> (if neg_number i b sg then - i else i)"
  shows "printi i b sg width pad lb = Inr (
    if i = 0 then prints [48] width pad
    else if neg_number i b sg \<and> width \<noteq> 0 \<and> pad AND PAD_ZERO \<noteq> 0 then
      (let (out, pc) = prints (numeral_of (unat b) lb (unat u)) (width - 1) pad in (45 # out, 1 + pc))
    else prints ((if neg_number i b sg then [45] else []) @ numeral_of (unat b) lb (unat u)) width pad)"
  using digits_fit [OF assms(1,2), of u]
  by (auto simp: printi_def neg_number_def [symmetric] u_def Let_def ch_values split: prod.splits)

lemma numeral_short: "b = 10 \<or> b = 16 \<Longrightarrow> lb = 97 \<or> lb = 65 \<Longrightarrow> length (numeral_of (unat b) lb (unat u)) < 2 ^ 31"
  for b lb u :: u32
  using digits_fit(2) [of b lb u] by simp

lemma numeral_nonempty: "0 < n \<Longrightarrow> 2 \<le> b \<Longrightarrow> numeral_of b lb n \<noteq> []"
  by (subst numeral_of.simps) auto

lemma numeral_head:
  assumes "2 \<le> b" "b \<le> 16" "lb = 97 \<or> lb = 65" "c \<in> set (numeral_of b lb n)"
  shows "c \<noteq> 45"
  using assms
proof (induction b lb n rule: numeral_of.induct)
  case (1 b lb n)
  have "n mod b < 16" using 1(2,3) mod_less_divisor [of b n] by linarith
  then show ?case
    using 1 digit_char_ge [of "n mod b" lb]
    by (subst (asm) (2) numeral_of.simps) (auto split: if_splits)
qed

lemma sint_by_uint: "sint i = (if uint i < 2 ^ 31 then uint i else uint i - 2 ^ 32)" for i :: u32
proof -
  have "sint i = take_bit 32 (uint i + 2 ^ 31) - 2 ^ 31"
    unfolding sint_uint by (simp add: signed_take_bit_eq_take_bit_shift)
  moreover have "uint i < 2 ^ 32" "0 \<le> uint i" using uint_lt2p [of i] by simp_all
  moreover have "(x + 2 ^ 31) mod 2 ^ 32 = (if x < 2 ^ 31 then x + 2 ^ 31 else x - 2 ^ 31)"
    if "0 \<le> x" "x < 2 ^ 32" for x :: int
  proof (cases "x < 2 ^ 31")
    case False
    have e: "x + 2 ^ 31 = (x - 2 ^ 31) + 2 ^ 32" by simp
    show ?thesis unfolding e mod_add_self2 using that False by (simp add: mod_pos_pos_trivial)
  qed (use that in \<open>simp add: mod_pos_pos_trivial\<close>)
  ultimately show ?thesis by (simp add: take_bit_eq_mod)
qed

lemma unat_pos: "0 \<le> sint i \<Longrightarrow> int (unat i) = sint i" for i :: u32
  using uint_lt2p [of i] by (auto simp: sint_by_uint split: if_splits)

lemma unat_neg: "sint i < 0 \<Longrightarrow> int (unat (- i)) = - sint i" for i :: u32
proof -
  assume "sint i < 0"
  then have u: "sint i = uint i - 2 ^ 32" "0 < uint i" by (auto simp: sint_by_uint split: if_splits)
  have "uint (- i) = (- uint i) mod 2 ^ 32" by (simp add: uint_word_ariths)
  also have "\<dots> = 2 ^ 32 - uint i"
    using u(2) uint_lt2p [of i] by (simp add: zmod_zminus1_eq_if mod_pos_pos_trivial)
  finally show ?thesis using u(1) by simp
qed

section \<open>What is printed\<close>

text \<open>
  C35: \<open>%d\<close> prints the decimal numeral of the signed value of its argument: reading the output
  back, with an optional minus sign, gives the argument for all 32-bit integers, the smallest
  included. It takes at most eleven characters, and the count returned is their number.
\<close>

theorem printi_decimal:
  "\<exists>out. printi i 10 True 0 0 (ucast (ch CHR ''a'')) = Inr (out, of_nat (length out)) \<and>
    integer_of out = sint i \<and> length out \<le> 11"
proof -
  let ?u = "if i <s 0 then - i else i" and ?n = "numeral_of 10 97 (unat (if i <s 0 then - i else i))"
  have len: "length ?n \<le> 10" using digits_fit(2) [of 10 97 ?u] by simp
  have num: "number_of 10 ?n = unat ?u" by (rule number_of_numeral) simp_all
  have field0: "field s 0 0 = s" for s by (simp add: field_def)
  consider (zero) "i = 0" | (neg) "i <s 0" | (pos) "0 <s i" 
    using signed_eq_0_iff [of i] by (fastforce simp: word_sless_alt)
  then show ?thesis
  proof cases
    case zero
    then have "printi i 10 True 0 0 (ucast (ch CHR ''a'')) = Inr ([48], of_nat (length [48 :: u8]))"
      by (simp add: printi_def prints_eq field0 ch_values)
    moreover have "integer_of [48] = 0" by (simp add: integer_of_def number_of_def digit_val_def)
    ultimately show ?thesis using zero by (intro exI [of _ "[48]"]) simp
  next
    case neg
    then have "printi i 10 True 0 0 (ucast (ch CHR ''a'')) = Inr (prints (45 # ?n) 0 0)"
      by (subst printi_cases) (auto simp: neg_number_def ch_values word_sless_alt)
    moreover have "integer_of (45 # ?n) = sint i"
    proof -
      have "sint i < 0" using neg by (simp add: word_sless_alt)
      then have "int (unat (- i)) = - sint i" by (rule unat_neg)
      then show ?thesis using neg num by (simp add: integer_of_def)
    qed
    ultimately show ?thesis using len by (intro exI [of _ "45 # ?n"]) (simp add: prints_eq field0)
  next
    case pos
    then have "printi i 10 True 0 0 (ucast (ch CHR ''a'')) = Inr (prints ?n 0 0)"
      by (subst printi_cases) (auto simp: neg_number_def ch_values word_sless_alt)
    moreover have "integer_of ?n = sint i"
    proof -
      have i: "0 < sint i" "\<not> i <s 0" using pos by (auto simp: word_sless_alt)
      then have eq: "?n = numeral_of 10 97 (unat i)" by simp
      have u: "int (unat i) = sint i" using i(1) by (intro unat_pos) simp
      have "0 < unat i" using i(1) u by linarith
      then have "numeral_of 10 97 (unat i) \<noteq> []" by (intro numeral_nonempty) auto
      then obtain c cs where cs: "numeral_of 10 97 (unat i) = c # cs" by (cases "numeral_of 10 97 (unat i)") auto
      then have "c \<noteq> 45" using numeral_head [of 10 97 c "unat i"] by simp
      then show ?thesis using num u i(2) unfolding eq by (simp add: integer_of_def cs)
    qed
    ultimately show ?thesis using len by (intro exI [of _ ?n]) (simp add: prints_eq field0)
  qed
qed

text \<open>
  \<open>%x\<close>, \<open>%X\<close> and \<open>%u\<close> print a numeral of the unsigned value of their argument in base 16 or
  10: reading it back gives the argument, for every 32-bit word.
\<close>

lemma printi_unsigned:
  assumes "(b, lb) \<in> {(16, ucast (ch CHR ''a'')), (16, ucast (ch CHR ''A'')), (10, ucast (ch CHR ''a''))}"
  shows "\<exists>out. printi i b False 0 0 lb = Inr (out, of_nat (length out)) \<and>
    number_of (unat b) out = unat i \<and> length out \<le> 10"
proof -
  have b: "b = 10 \<or> b = 16" "lb = 97 \<or> lb = 65" "2 \<le> unat b" "unat b \<le> 16"
    using assms by (auto simp: ch_values)
  have field0: "field s 0 0 = s" for s by (simp add: field_def)
  show ?thesis
  proof (cases "i = 0")
    case True
    have "number_of (unat b) [48] = 0" by (simp add: number_of_def digit_val_def)
    then show ?thesis using True by (intro exI [of _ "[48]"]) (simp add: printi_def prints_eq field0 ch_values)
  next
    case False
    let ?n = "numeral_of (unat b) lb (unat i)"
    have "printi i b False 0 0 lb = Inr (prints ?n 0 0)"
      using False by (subst printi_cases [OF b(1,2)]) (simp add: neg_number_def)
    moreover have "prints ?n 0 0 = (?n, of_nat (length ?n))"
      using numeral_short [OF b(1,2)] by (simp add: prints_eq field0)
    moreover have "number_of (unat b) ?n = unat i" using number_of_numeral [OF b(3,4,2)] .
    ultimately show ?thesis using digits_fit(2) [OF b(1,2)] by (intro exI [of _ ?n]) simp
  qed
qed

text \<open>
  \<open>prints\<close> prints the string in a field of the given width: padded to the width with blanks
  (or zeros) on the left, or on the right when the \<open>-\<close> flag is set; a string that is as long as
  the width is printed as it is. With both flags zeros are appended, where the C standard says
  that \<open>-\<close> overrides \<open>0\<close>.
\<close>

lemma prints_field:
  assumes "length s < 2 ^ 31"
  shows "prints s width pad =
    (let n = nat (sint width) - length s; fill = replicate n (if pad AND PAD_ZERO \<noteq> 0 then ch CHR ''0'' else ch CHR '' '')
     in (if pad AND PAD_RIGHT = 0 then fill @ s else s @ fill, of_nat (max (length s) (nat (sint width)))))"
  using prints_eq [OF assms] by (simp add: Let_def length_field) (simp add: field_def pad_char_def ch_values)

lemma prints_count: "prints s w pad = (out, n) \<Longrightarrow> n = of_nat (length out)"
  by (auto simp: prints_def Let_def split: prod.splits if_splits)

lemma printi_count: "printi i b sg w pad lb = Inr (out, n) \<Longrightarrow> n = of_nat (length out)"
  by (auto simp: printi_def Let_def rbind_eq_Inr dest!: prints_count split: prod.splits if_splits)

lemma convert_count: "convert strings c w pad args = Inr ((out, n), args') \<Longrightarrow> n = of_nat (length out)"
  by (auto simp: convert_def Let_def rbind_eq_Inr dest!: prints_count printi_count split: list.splits if_splits)

lemma print_counts: "print strings format args = Inr (out, n) \<Longrightarrow> n = of_nat (length out)"
proof (induction strings format args arbitrary: out n rule: print.induct)
  case (1 strings format args)
  show ?case
  proof (cases format)
    case Nil
    then show ?thesis using 1(4) by (simp add: print.simps)
  next
    case (Cons c f)
    show ?thesis
    proof (cases "c = ch CHR ''%''")
      case False
      then show ?thesis
        using 1(4) 1(3) [OF Cons False] by (subst (asm) print.simps) (auto simp: Cons rbind_eq_Inr)
    next
      case True
      show ?thesis
      proof (cases f)
        case Nil
        then show ?thesis using 1(4) Cons True by (simp add: print.simps)
      next
        case (Cons c' f')
        note f = \<open>format = c # f\<close> and f' = Cons
        show ?thesis
        proof (cases "c' = ch CHR ''%''")
          case c': True
          then show ?thesis
            using 1(4) 1(1) [OF f True f' c'] by (subst (asm) print.simps) (auto simp: f f' True rbind_eq_Inr)
        next
          case c': False
          obtain g width pad where fl: "parse_flags f = (g, width, pad)" by (cases "parse_flags f") auto
          show ?thesis
          proof (cases g)
            case Nil
            then show ?thesis using 1(4) fl True c' by (subst (asm) print.simps) (simp add: f f')
          next
            case (Cons conv g')
            have "print strings format args = rbind (convert strings conv width pad args) (\<lambda>((o1, n1), args).
                rbind (print strings g' args) (\<lambda>(o2, n2). Inr (o1 @ o2, n1 + n2)))"
              using fl True c' Cons by (subst print.simps) (simp add: f f')
            then have "rbind (convert strings conv width pad args) (\<lambda>((o1, n1), args).
                rbind (print strings g' args) (\<lambda>(o2, n2). Inr (o1 @ o2, n1 + n2))) = Inr (out, n)"
              using 1(4) by simp
            then obtain o1 n1 args' o2 n2 where cv: "convert strings conv width pad args = Inr ((o1, n1), args')"
              and rec: "print strings g' args' = Inr (o2, n2)" "out = o1 @ o2" "n = n1 + n2"
              by (auto simp: rbind_eq_Inr)
            have "n2 = of_nat (length o2)"
              using 1(2) [OF f True f' c' fl [symmetric] refl refl Cons rec(1)] .
            then show ?thesis using convert_count [OF cv] rec by simp
          qed
        qed
      qed
    qed
  qed
qed

text \<open>
  whatever the format and the arguments, when \<open>printf\<close> returns, the number it returns is the
  number of characters it has printed.
\<close>

lemma print_count:
  assumes "printf strings format args = Inr (out, n)"
  shows "n = of_nat (length out)"
  using assms print_counts by (simp add: printf_def)

lemma text_first:
  assumes "ch CHR ''%'' \<notin> set lit"
  shows "printf strings (lit @ format) args =
    rbind (printf strings format args) (\<lambda>(out, n). Inr (lit @ out, of_nat (length lit) + n))"
  using assms
proof (induction lit)
  case Nil
  then show ?case by (cases "print strings format args") (auto simp: printf_def)
next
  case (Cons c lit)
  then have "print strings ((c # lit) @ format) args =
      rbind (print strings (lit @ format) args) (\<lambda>(out, pc). Inr (c # out, 1 + pc))"
    by (subst print.simps) auto
  then show ?case
    using Cons by (cases "print strings format args") (auto simp: printf_def)
qed

text \<open>
  the characters of a format before its first percent sign are printed as they are, and
  printing goes on behind them.
\<close>

lemma print_plain:
  assumes "ch CHR ''%'' \<notin> set lit"
  shows "printf strings (lit @ format) args =
    rbind (printf strings format args) (\<lambda>(out, n). Inr (lit @ out, of_nat (length lit) + n))"
  by (rule text_first [OF assms])

text \<open>
  A format that ends in the middle of a conversion, after a width, makes \<open>print\<close> step over
  the terminator of the format and read on behind it.
\<close>

lemma print_cut_format:
  assumes "ch CHR ''%'' \<notin> set lit" "digits \<noteq> []" "set digits \<subseteq> {ch CHR ''0'' .. ch CHR ''9''}"
  shows "printf strings (lit @ ch CHR ''%'' # digits) args = Inl OutOfBounds"
proof -
  have zeros: "set (fst (parse_zeros ds p)) \<subseteq> set ds" for ds p
    by (induction ds p rule: parse_zeros.induct) auto
  have width: "fst (parse_width ds w) = []" if "set ds \<subseteq> {ch CHR ''0'' .. ch CHR ''9''}" for ds w
    using that by (induction ds w rule: parse_width.induct) auto
  obtain d ds where ds: "digits = d # ds" using assms(2) by (cases digits) auto
  then have d: "d \<noteq> ch CHR ''-''" "d \<noteq> ch CHR ''%''" using assms(3) by (auto simp: ch_values)
  obtain f p where z: "parse_zeros digits 0 = (f, p)" by (cases "parse_zeros digits 0")
  obtain g w where g: "parse_width f 0 = (g, w)" by (cases "parse_width f 0")
  have "set f \<subseteq> {ch CHR ''0'' .. ch CHR ''9''}" using zeros [of digits 0] z assms(3) by auto
  then have "g = []" using width [of f 0] g by simp
  then have "parse_flags digits = ([], w, p)"
    using z g d(1) by (simp add: parse_flags_def ds Let_def)
  then have "print strings (ch CHR ''%'' # digits) args = Inl OutOfBounds"
    using d(2) by (subst print.simps) (simp add: ds)
  then show ?thesis using text_first [OF assms(1)] by (simp add: printf_def)
qed

lemma store_bytes_eq:
  assumes "length bs \<le> 2 ^ 32"
  shows "store_bytes m a bs = (\<lambda>x. if unat (x - a) < length bs then bs ! unat (x - a) else m x)"
  using assms
proof (induction m a bs rule: store_bytes.induct)
  case (1 m a)
  then show ?case by simp
next
  case (2 m a b bs)
  have IH: "store_bytes (m(a := b)) (a + 1) bs x =
      (if unat (x - (a + 1)) < length bs then bs ! unat (x - (a + 1)) else (m(a := b)) x)" for x
    using 2 by (auto simp del: fun_upd_apply)
  show ?case
  proof
    fix x
    show "store_bytes m a (b # bs) x = (if unat (x - a) < length (b # bs) then (b # bs) ! unat (x - a) else m x)"
    proof (cases "x = a")
      case True
      have "\<not> unat (x - (a + 1)) < length bs"
        using 2(2) unat32 by (simp add: True unsigned_minus_1_eq_mask mask_eq_exp_minus_1)
      then show ?thesis unfolding store_bytes.simps IH by (simp add: True)
    next
      case False
      then have "unat (x - a) = Suc (unat (x - (a + 1)))"
        using unat_minus_one [of "x - a"] by (simp add: diff_diff_eq [symmetric] unat_gt_0)
      then show ?thesis unfolding store_bytes.simps IH using False by simp
    qed
  qed
qed

text \<open>
  \<open>sprintf\<close> stores exactly the characters \<open>printf\<close> would print, followed by a zero byte, from
  the destination on, changes no other byte and returns their number; so \<open>strlen\<close> of the result
  is the returned count when no printed character is zero.
\<close>

lemma sprintf_correct:
  assumes "printf strings format args = Inr (bytes, n)" "length bytes < 2 ^ 32" "0 \<notin> set bytes"
  shows "\<exists>m'. sprintf strings m dest format args = Inr (m', n) \<and>
    map (\<lambda>i. m' (dest + of_nat i)) [0..<length bytes] = bytes \<and>
    strlen m' dest = Some n \<and> {a. m' a \<noteq> m a} \<subseteq> {a. unat (a - dest) \<le> length bytes}"
proof -
  let ?m = "store_bytes m dest (bytes @ [0])"
  have eq: "?m x = (if unat (x - dest) < length (bytes @ [0]) then (bytes @ [0]) ! unat (x - dest) else m x)" for x
    using assms(2) by (subst store_bytes_eq) simp_all
  have n: "n = of_nat (length bytes)"
  proof -
    have "\<forall>out pc. print strings format args = Inr (out, pc) \<longrightarrow> pc = of_nat (length out)"
      using print_counts by blast
    then show ?thesis using assms(1) by (simp add: printf_def)
  qed
  have un: "unat n = length bytes" using assms(2) by (simp add: n unat_of_nat)
  have byte: "?m (dest + of_nat i) = bytes ! i" if "i < length bytes" for i
    using that assms(2) by (simp add: eq unat_of_nat nth_append)
  have "strlen ?m dest = Some n"
  proof (rule strlen_eq)
    show "?m (dest + n) = 0" by (simp add: eq un)
    show "?m (dest + j) \<noteq> 0" if "j < n" for j
    proof -
      have "unat j < length bytes" using that un by (simp add: word_less_nat_alt)
      then show ?thesis using byte [of "unat j"] assms(3) by (auto simp: in_set_conv_nth)
    qed
  qed
  moreover have "map (\<lambda>i. ?m (dest + of_nat i)) [0..<length bytes] = bytes"
    using byte by (intro nth_equalityI) simp_all
  moreover have "{a. ?m a \<noteq> m a} \<subseteq> {a. unat (a - dest) \<le> length bytes}" using eq by auto
  ultimately show ?thesis using assms(1) by (simp add: sprintf_def printf_def)
qed

end
