(* ===== verification/Kbd.thy ===== *)
theory Kbd
  imports VgaCursor Printf
begin

text \<open>
  The keyboard, src/src/kernel/drivers/kbd.c and include/drivers/kbd.h: the character codes, the
  two scan tables, the names of the codes, and the interrupt handler, a state machine over the
  bytes of the controller that shows the name of the key at the right end of row 1 and scrolls
  the console on the arrow keys.
\<close>

section \<open>Character codes\<close>

text \<open>The enumeration of kbd.h starts at 1 and counts up.\<close>

definition KBD_KEY_ESC :: u8 where "KBD_KEY_ESC = 1"
definition KBD_KEY_F1 :: u8 where "KBD_KEY_F1 = 2"
definition KBD_KEY_F2 :: u8 where "KBD_KEY_F2 = 3"
definition KBD_KEY_F3 :: u8 where "KBD_KEY_F3 = 4"
definition KBD_KEY_F4 :: u8 where "KBD_KEY_F4 = 5"
definition KBD_KEY_F5 :: u8 where "KBD_KEY_F5 = 6"
definition KBD_KEY_F6 :: u8 where "KBD_KEY_F6 = 7"
definition KBD_KEY_F7 :: u8 where "KBD_KEY_F7 = 8"
definition KBD_KEY_F8 :: u8 where "KBD_KEY_F8 = 9"
definition KBD_KEY_F9 :: u8 where "KBD_KEY_F9 = 10"
definition KBD_KEY_F10 :: u8 where "KBD_KEY_F10 = 11"
definition KBD_KEY_F11 :: u8 where "KBD_KEY_F11 = 12"
definition KBD_KEY_F12 :: u8 where "KBD_KEY_F12 = 13"
definition KBD_KEY_PRTSCR :: u8 where "KBD_KEY_PRTSCR = 14"
definition KBD_KEY_SCROLL_LOCK :: u8 where "KBD_KEY_SCROLL_LOCK = 15"
definition KBD_KEY_PAUSE :: u8 where "KBD_KEY_PAUSE = 16"
definition KBD_KEY_INSERT :: u8 where "KBD_KEY_INSERT = 17"
definition KBD_KEY_DELETE :: u8 where "KBD_KEY_DELETE = 18"
definition KBD_KEY_PAGE_UP :: u8 where "KBD_KEY_PAGE_UP = 19"
definition KBD_KEY_PAGE_DOWN :: u8 where "KBD_KEY_PAGE_DOWN = 20"
definition KBD_KEY_GRAVE_ACCENT :: u8 where "KBD_KEY_GRAVE_ACCENT = 21"
definition KBD_KEY_1 :: u8 where "KBD_KEY_1 = 22"
definition KBD_KEY_2 :: u8 where "KBD_KEY_2 = 23"
definition KBD_KEY_3 :: u8 where "KBD_KEY_3 = 24"
definition KBD_KEY_4 :: u8 where "KBD_KEY_4 = 25"
definition KBD_KEY_5 :: u8 where "KBD_KEY_5 = 26"
definition KBD_KEY_6 :: u8 where "KBD_KEY_6 = 27"
definition KBD_KEY_7 :: u8 where "KBD_KEY_7 = 28"
definition KBD_KEY_8 :: u8 where "KBD_KEY_8 = 29"
definition KBD_KEY_9 :: u8 where "KBD_KEY_9 = 30"
definition KBD_KEY_0 :: u8 where "KBD_KEY_0 = 31"
definition KBD_KEY_MINUS :: u8 where "KBD_KEY_MINUS = 32"
definition KBD_KEY_EQUALS :: u8 where "KBD_KEY_EQUALS = 33"
definition KBD_KEY_BACKSPACE :: u8 where "KBD_KEY_BACKSPACE = 34"
definition KBD_KEY_NUMLOCK :: u8 where "KBD_KEY_NUMLOCK = 35"
definition KBD_KP_KEY_SLASH :: u8 where "KBD_KP_KEY_SLASH = 36"
definition KBD_KP_KEY_ASTERISK :: u8 where "KBD_KP_KEY_ASTERISK = 37"
definition KBD_KP_KEY_MINUS :: u8 where "KBD_KP_KEY_MINUS = 38"
definition KBD_KEY_TAB :: u8 where "KBD_KEY_TAB = 39"
definition KBD_KEY_Q :: u8 where "KBD_KEY_Q = 40"
definition KBD_KEY_W :: u8 where "KBD_KEY_W = 41"
definition KBD_KEY_E :: u8 where "KBD_KEY_E = 42"
definition KBD_KEY_R :: u8 where "KBD_KEY_R = 43"
definition KBD_KEY_T :: u8 where "KBD_KEY_T = 44"
definition KBD_KEY_Y :: u8 where "KBD_KEY_Y = 45"
definition KBD_KEY_U :: u8 where "KBD_KEY_U = 46"
definition KBD_KEY_I :: u8 where "KBD_KEY_I = 47"
definition KBD_KEY_O :: u8 where "KBD_KEY_O = 48"
definition KBD_KEY_P :: u8 where "KBD_KEY_P = 49"
definition KBD_KEY_LBRACKET :: u8 where "KBD_KEY_LBRACKET = 50"
definition KBD_KEY_RBRACKET :: u8 where "KBD_KEY_RBRACKET = 51"
definition KBD_KEY_BACK_SLASH :: u8 where "KBD_KEY_BACK_SLASH = 52"
definition KBD_KP_KEY_7 :: u8 where "KBD_KP_KEY_7 = 53"
definition KBD_KP_KEY_8 :: u8 where "KBD_KP_KEY_8 = 54"
definition KBD_KP_KEY_9 :: u8 where "KBD_KP_KEY_9 = 55"
definition KBD_KP_KEY_PLUS :: u8 where "KBD_KP_KEY_PLUS = 56"
definition KBD_KEY_CAPS_LOCK :: u8 where "KBD_KEY_CAPS_LOCK = 57"
definition KBD_KEY_A :: u8 where "KBD_KEY_A = 58"
definition KBD_KEY_S :: u8 where "KBD_KEY_S = 59"
definition KBD_KEY_D :: u8 where "KBD_KEY_D = 60"
definition KBD_KEY_F :: u8 where "KBD_KEY_F = 61"
definition KBD_KEY_G :: u8 where "KBD_KEY_G = 62"
definition KBD_KEY_H :: u8 where "KBD_KEY_H = 63"
definition KBD_KEY_J :: u8 where "KBD_KEY_J = 64"
definition KBD_KEY_K :: u8 where "KBD_KEY_K = 65"
definition KBD_KEY_L :: u8 where "KBD_KEY_L = 66"
definition KBD_KEY_SEMICOLON :: u8 where "KBD_KEY_SEMICOLON = 67"
definition KBD_KEY_APOSTROPH :: u8 where "KBD_KEY_APOSTROPH = 68"
definition KBD_KEY_ENTER :: u8 where "KBD_KEY_ENTER = 69"
definition KBD_KP_KEY_4 :: u8 where "KBD_KP_KEY_4 = 70"
definition KBD_KP_KEY_5 :: u8 where "KBD_KP_KEY_5 = 71"
definition KBD_KP_KEY_6 :: u8 where "KBD_KP_KEY_6 = 72"
definition KBD_KEY_LSHIFT :: u8 where "KBD_KEY_LSHIFT = 73"
definition KBD_KEY_Z :: u8 where "KBD_KEY_Z = 74"
definition KBD_KEY_X :: u8 where "KBD_KEY_X = 75"
definition KBD_KEY_C :: u8 where "KBD_KEY_C = 76"
definition KBD_KEY_V :: u8 where "KBD_KEY_V = 77"
definition KBD_KEY_B :: u8 where "KBD_KEY_B = 78"
definition KBD_KEY_N :: u8 where "KBD_KEY_N = 79"
definition KBD_KEY_M :: u8 where "KBD_KEY_M = 80"
definition KBD_KEY_COMMA :: u8 where "KBD_KEY_COMMA = 81"
definition KBD_KEY_PERIOD :: u8 where "KBD_KEY_PERIOD = 82"
definition KBD_KEY_SLASH :: u8 where "KBD_KEY_SLASH = 83"
definition KBD_KEY_RSHIFT :: u8 where "KBD_KEY_RSHIFT = 84"
definition KBD_KEY_UP :: u8 where "KBD_KEY_UP = 85"
definition KBD_KP_KEY_1 :: u8 where "KBD_KP_KEY_1 = 86"
definition KBD_KP_KEY_2 :: u8 where "KBD_KP_KEY_2 = 87"
definition KBD_KP_KEY_3 :: u8 where "KBD_KP_KEY_3 = 88"
definition KBD_KP_KEY_ENTER :: u8 where "KBD_KP_KEY_ENTER = 89"
definition KBD_KEY_LCTRL :: u8 where "KBD_KEY_LCTRL = 90"
definition KBD_KEY_FN :: u8 where "KBD_KEY_FN = 91"
definition KBD_KEY_LALT :: u8 where "KBD_KEY_LALT = 92"
definition KBD_KEY_SPACE :: u8 where "KBD_KEY_SPACE = 93"
definition KBD_KEY_BACK_SLASH2 :: u8 where "KBD_KEY_BACK_SLASH2 = 94"
definition KBD_KEY_RALT :: u8 where "KBD_KEY_RALT = 95"
definition KBD_KEY_SUPER :: u8 where "KBD_KEY_SUPER = 96"
definition KBD_KEY_RCTRL :: u8 where "KBD_KEY_RCTRL = 97"
definition KBD_KEY_LEFT :: u8 where "KBD_KEY_LEFT = 98"
definition KBD_KEY_DOWN :: u8 where "KBD_KEY_DOWN = 99"
definition KBD_KEY_RIGHT :: u8 where "KBD_KEY_RIGHT = 100"
definition KBD_KP_KEY_0 :: u8 where "KBD_KP_KEY_0 = 101"
definition KBD_KP_KEY_PERIOD :: u8 where "KBD_KP_KEY_PERIOD = 102"

lemmas kbd_codes =
  KBD_KEY_ESC_def KBD_KEY_F1_def KBD_KEY_F2_def KBD_KEY_F3_def KBD_KEY_F4_def KBD_KEY_F5_def
  KBD_KEY_F6_def KBD_KEY_F7_def KBD_KEY_F8_def KBD_KEY_F9_def KBD_KEY_F10_def KBD_KEY_F11_def
  KBD_KEY_F12_def KBD_KEY_PRTSCR_def KBD_KEY_SCROLL_LOCK_def KBD_KEY_PAUSE_def KBD_KEY_INSERT_def
  KBD_KEY_DELETE_def KBD_KEY_PAGE_UP_def KBD_KEY_PAGE_DOWN_def KBD_KEY_GRAVE_ACCENT_def
  KBD_KEY_1_def KBD_KEY_2_def KBD_KEY_3_def KBD_KEY_4_def KBD_KEY_5_def KBD_KEY_6_def
  KBD_KEY_7_def KBD_KEY_8_def KBD_KEY_9_def KBD_KEY_0_def KBD_KEY_MINUS_def KBD_KEY_EQUALS_def
  KBD_KEY_BACKSPACE_def KBD_KEY_NUMLOCK_def KBD_KP_KEY_SLASH_def KBD_KP_KEY_ASTERISK_def
  KBD_KP_KEY_MINUS_def KBD_KEY_TAB_def KBD_KEY_Q_def KBD_KEY_W_def KBD_KEY_E_def KBD_KEY_R_def
  KBD_KEY_T_def KBD_KEY_Y_def KBD_KEY_U_def KBD_KEY_I_def KBD_KEY_O_def KBD_KEY_P_def
  KBD_KEY_LBRACKET_def KBD_KEY_RBRACKET_def KBD_KEY_BACK_SLASH_def KBD_KP_KEY_7_def
  KBD_KP_KEY_8_def KBD_KP_KEY_9_def KBD_KP_KEY_PLUS_def KBD_KEY_CAPS_LOCK_def KBD_KEY_A_def
  KBD_KEY_S_def KBD_KEY_D_def KBD_KEY_F_def KBD_KEY_G_def KBD_KEY_H_def KBD_KEY_J_def
  KBD_KEY_K_def KBD_KEY_L_def KBD_KEY_SEMICOLON_def KBD_KEY_APOSTROPH_def KBD_KEY_ENTER_def
  KBD_KP_KEY_4_def KBD_KP_KEY_5_def KBD_KP_KEY_6_def KBD_KEY_LSHIFT_def KBD_KEY_Z_def
  KBD_KEY_X_def KBD_KEY_C_def KBD_KEY_V_def KBD_KEY_B_def KBD_KEY_N_def KBD_KEY_M_def
  KBD_KEY_COMMA_def KBD_KEY_PERIOD_def KBD_KEY_SLASH_def KBD_KEY_RSHIFT_def KBD_KEY_UP_def
  KBD_KP_KEY_1_def KBD_KP_KEY_2_def KBD_KP_KEY_3_def KBD_KP_KEY_ENTER_def KBD_KEY_LCTRL_def
  KBD_KEY_FN_def KBD_KEY_LALT_def KBD_KEY_SPACE_def KBD_KEY_BACK_SLASH2_def KBD_KEY_RALT_def
  KBD_KEY_SUPER_def KBD_KEY_RCTRL_def KBD_KEY_LEFT_def KBD_KEY_DOWN_def KBD_KEY_RIGHT_def
  KBD_KP_KEY_0_def KBD_KP_KEY_PERIOD_def

definition IRQ1 :: u32 where "IRQ1 = 33"
definition KBD_PORT :: u16 where "KBD_PORT = 0x60"
definition KBD_NSCANS :: nat where "KBD_NSCANS = 0x80"

section \<open>The tables\<close>

text \<open>An array with designated initialisers: the entries that are not named are zero.\<close>

definition scan_table :: "(nat \<times> u8) list \<Rightarrow> u8 list" where
  "scan_table inits = map (\<lambda>i. case map_of inits i of Some c \<Rightarrow> c | None \<Rightarrow> 0) [0..<KBD_NSCANS]"

definition KBD_SCAN_TABLE :: "u8 list" where
  "KBD_SCAN_TABLE = scan_table
     [(0x01, KBD_KEY_ESC), (0x02, KBD_KEY_1), (0x03, KBD_KEY_2), (0x04, KBD_KEY_3),
      (0x05, KBD_KEY_4), (0x06, KBD_KEY_5), (0x07, KBD_KEY_6), (0x08, KBD_KEY_7),
      (0x09, KBD_KEY_8), (0x0A, KBD_KEY_9), (0x0B, KBD_KEY_0), (0x0C, KBD_KEY_MINUS),
      (0x0D, KBD_KEY_EQUALS), (0x0E, KBD_KEY_BACKSPACE), (0x0F, KBD_KEY_TAB),
      (0x10, KBD_KEY_Q), (0x11, KBD_KEY_W), (0x12, KBD_KEY_E), (0x13, KBD_KEY_R),
      (0x14, KBD_KEY_T), (0x15, KBD_KEY_Y), (0x16, KBD_KEY_U), (0x17, KBD_KEY_I),
      (0x18, KBD_KEY_O), (0x19, KBD_KEY_P), (0x1A, KBD_KEY_LBRACKET), (0x1B, KBD_KEY_RBRACKET),
      (0x1C, KBD_KEY_ENTER), (0x1D, KBD_KEY_LCTRL), (0x1E, KBD_KEY_A), (0x1F, KBD_KEY_S),
      (0x20, KBD_KEY_D), (0x21, KBD_KEY_F), (0x22, KBD_KEY_G), (0x23, KBD_KEY_H),
      (0x24, KBD_KEY_J), (0x25, KBD_KEY_K), (0x26, KBD_KEY_L), (0x27, KBD_KEY_SEMICOLON),
      (0x28, KBD_KEY_APOSTROPH), (0x29, KBD_KEY_GRAVE_ACCENT), (0x2A, KBD_KEY_LSHIFT),
      (0x2B, KBD_KEY_BACK_SLASH), (0x2C, KBD_KEY_Z), (0x2D, KBD_KEY_X), (0x2E, KBD_KEY_C),
      (0x2F, KBD_KEY_V), (0x30, KBD_KEY_B), (0x31, KBD_KEY_N), (0x32, KBD_KEY_M),
      (0x33, KBD_KEY_COMMA), (0x34, KBD_KEY_PERIOD), (0x35, KBD_KEY_SLASH),
      (0x36, KBD_KEY_RSHIFT), (0x37, KBD_KP_KEY_ASTERISK), (0x38, KBD_KEY_LALT),
      (0x39, KBD_KEY_SPACE), (0x3A, KBD_KEY_CAPS_LOCK), (0x3B, KBD_KEY_F1), (0x3C, KBD_KEY_F2),
      (0x3D, KBD_KEY_F3), (0x3E, KBD_KEY_F4), (0x3F, KBD_KEY_F5), (0x40, KBD_KEY_F6),
      (0x41, KBD_KEY_F7), (0x42, KBD_KEY_F8), (0x43, KBD_KEY_F9), (0x44, KBD_KEY_F10),
      (0x45, KBD_KEY_NUMLOCK), (0x46, KBD_KEY_SCROLL_LOCK), (0x47, KBD_KP_KEY_7),
      (0x48, KBD_KP_KEY_8), (0x49, KBD_KP_KEY_9), (0x4A, KBD_KP_KEY_MINUS),
      (0x4B, KBD_KP_KEY_4), (0x4C, KBD_KP_KEY_5), (0x4D, KBD_KP_KEY_6),
      (0x4E, KBD_KP_KEY_PLUS), (0x4F, KBD_KP_KEY_1), (0x50, KBD_KP_KEY_2),
      (0x51, KBD_KP_KEY_3), (0x52, KBD_KP_KEY_0), (0x53, KBD_KP_KEY_PERIOD),
      (0x57, KBD_KEY_F11), (0x58, KBD_KEY_F12)]"

definition KBD_ESCAPED_SCAN_TABLE :: "u8 list" where
  "KBD_ESCAPED_SCAN_TABLE = scan_table
     [(0x1C, KBD_KP_KEY_ENTER), (0x1D, KBD_KEY_RCTRL), (0x35, KBD_KP_KEY_SLASH),
      (0x38, KBD_KEY_RALT), (0x48, KBD_KEY_UP), (0x49, KBD_KEY_PAGE_UP), (0x4B, KBD_KEY_LEFT),
      (0x4D, KBD_KEY_RIGHT), (0x4F, KBD_KEY_PAGE_DOWN), (0x50, KBD_KEY_DOWN),
      (0x51, KBD_KEY_PAGE_DOWN), (0x52, KBD_KEY_INSERT), (0x53, KBD_KEY_DELETE)]"

section \<open>Names\<close>

text \<open>The two halves of the \<open>switch\<close> of \<open>to_string\<close>.\<close>

definition key_names1 :: "(u8 \<times> string) list" where
  "key_names1 =
     [(KBD_KEY_ESC, ''ESC''), (KBD_KEY_F1, ''F1''), (KBD_KEY_F2, ''F2''), (KBD_KEY_F3, ''F3''),
      (KBD_KEY_F4, ''F4''), (KBD_KEY_F5, ''F5''), (KBD_KEY_F6, ''F6''), (KBD_KEY_F7, ''F7''),
      (KBD_KEY_F8, ''F8''), (KBD_KEY_F9, ''F9''), (KBD_KEY_F10, ''F10''),
      (KBD_KEY_F11, ''F11''), (KBD_KEY_F12, ''F12''), (KBD_KEY_PRTSCR, ''PRTSCR''),
      (KBD_KEY_SCROLL_LOCK, ''SCROLL_LOCK''), (KBD_KEY_PAUSE, ''PAUSE''),
      (KBD_KEY_GRAVE_ACCENT, ''GRAVE_ACCENT''), (KBD_KEY_1, ''1''), (KBD_KEY_2, ''2''),
      (KBD_KEY_3, ''3''), (KBD_KEY_4, ''4''), (KBD_KEY_5, ''5''), (KBD_KEY_6, ''6''),
      (KBD_KEY_7, ''7''), (KBD_KEY_8, ''8''), (KBD_KEY_9, ''9''), (KBD_KEY_0, ''0''),
      (KBD_KEY_MINUS, ''MINUS''), (KBD_KEY_EQUALS, ''EQUALS''),
      (KBD_KEY_BACKSPACE, ''BACKSPACE''), (KBD_KEY_NUMLOCK, ''NUMLOCK''),
      (KBD_KP_KEY_ASTERISK, ''(KP) ASTERISK''), (KBD_KP_KEY_MINUS, ''(KP) MINUS''),
      (KBD_KEY_TAB, ''TAB''), (KBD_KEY_Q, ''Q''), (KBD_KEY_W, ''W''), (KBD_KEY_E, ''E''),
      (KBD_KEY_R, ''R''), (KBD_KEY_T, ''T''), (KBD_KEY_Y, ''Y''), (KBD_KEY_U, ''U''),
      (KBD_KEY_I, ''I''), (KBD_KEY_O, ''O''), (KBD_KEY_P, ''P''),
      (KBD_KEY_LBRACKET, ''LBRACKET''), (KBD_KEY_RBRACKET, ''RBRACKET''),
      (KBD_KEY_BACK_SLASH, ''BACK_SLASH'')]"

definition key_names2 :: "(u8 \<times> string) list" where
  "key_names2 =
     [(KBD_KP_KEY_7, ''(KP) 7''), (KBD_KP_KEY_8, ''(KP) 8''), (KBD_KP_KEY_9, ''(KP) 9''),
      (KBD_KP_KEY_PLUS, ''(KP) PLUS''), (KBD_KEY_CAPS_LOCK, ''CAPS_LOCK''), (KBD_KEY_A, ''A''),
      (KBD_KEY_S, ''S''), (KBD_KEY_D, ''D''), (KBD_KEY_F, ''F''), (KBD_KEY_G, ''G''),
      (KBD_KEY_H, ''H''), (KBD_KEY_J, ''J''), (KBD_KEY_K, ''K''), (KBD_KEY_L, ''L''),
      (KBD_KEY_SEMICOLON, ''SEMICOLON''), (KBD_KEY_APOSTROPH, ''APOSTROPH''),
      (KBD_KEY_ENTER, ''ENTER''), (KBD_KP_KEY_4, ''(KP) 4''), (KBD_KP_KEY_5, ''(KP) 5''),
      (KBD_KP_KEY_6, ''(KP) 6''), (KBD_KEY_LSHIFT, ''LSHIFT''), (KBD_KEY_Z, ''Z''),
      (KBD_KEY_X, ''X''), (KBD_KEY_C, ''C''), (KBD_KEY_V, ''V''), (KBD_KEY_B, ''B''),
      (KBD_KEY_N, ''N''), (KBD_KEY_M, ''M''), (KBD_KEY_COMMA, ''COMMA''),
      (KBD_KEY_PERIOD, ''PERIOD''), (KBD_KEY_SLASH, ''SLASH''), (KBD_KEY_RSHIFT, ''RSHIFT''),
      (KBD_KP_KEY_1, ''(KP) 1''), (KBD_KP_KEY_2, ''(KP) 2''), (KBD_KP_KEY_3, ''(KP) 3''),
      (KBD_KEY_LCTRL, ''LCTRL''), (KBD_KEY_FN, ''FN''), (KBD_KEY_LALT, ''LALT''),
      (KBD_KEY_SPACE, ''SPACE''), (KBD_KEY_BACK_SLASH2, ''BACK_SLASH2''),
      (KBD_KEY_SUPER, ''SUPER''), (KBD_KP_KEY_0, ''(KP) 0''),
      (KBD_KP_KEY_PERIOD, ''(KP) PERIOD'')]"

definition to_string :: "u8 \<Rightarrow> string" where
  "to_string code = (case map_of (key_names1 @ key_names2) code of Some s \<Rightarrow> s | None \<Rightarrow> ''(NULL)'')"

text \<open>The \<open>switch\<close> of \<open>escaped_to_string\<close> has no default: for other codes \<open>str\<close> is uninitialised.\<close>

definition escaped_names :: "(u8 \<times> string) list" where
  "escaped_names =
     [(KBD_KP_KEY_ENTER, ''(KP) ENTER''), (KBD_KEY_RCTRL, ''RCTRL''),
      (KBD_KP_KEY_SLASH, ''(KP) SLASH''), (KBD_KEY_RALT, ''RALT''), (KBD_KEY_UP, ''UP''),
      (KBD_KEY_PAGE_UP, ''PAGE_UP''), (KBD_KEY_LEFT, ''LEFT''), (KBD_KEY_RIGHT, ''RIGHT''),
      (KBD_KEY_PAGE_DOWN, ''PAGE_DOWN''), (KBD_KEY_DOWN, ''DOWN''),
      (KBD_KEY_DELETE, ''DELETE''), (KBD_KEY_INSERT, ''INSERT'')]"

definition escaped_to_string :: "u8 \<Rightarrow> string res" where
  "escaped_to_string code = (case map_of escaped_names code of Some s \<Rightarrow> Inr s | None \<Rightarrow> Inl Uninitialised)"

section \<open>The handler\<close>

text \<open>
  The display of a name, at column 65 of row 1, between the save and the restore of the cursor.
  The bound of the loop is computed in \<open>size_t\<close>.
\<close>

definition show_key :: "string \<Rightarrow> vga \<Rightarrow> vga res" where
  "show_key name s =
     (let x = vga_get_x s; y = vga_get_y s
      in rbind (vga_set_x 65 s) (\<lambda>s.
         rbind (vga_set_y 1 s) (\<lambda>s.
         rbind (for_each (\<lambda>_. vga_putc 32) [0..<unat (15 - of_nat (length name) :: u32)] s) (\<lambda>s.
         rbind (printf (\<lambda>_. str name) (str ''%s'') [1]) (\<lambda>(out, n).
         rbind (vga_print out s) (\<lambda>s.
         rbind (vga_set_x x s) (\<lambda>s.
           vga_set_y y s)))))))"

text \<open>The result is the new \<open>state\<close> and the console. Whether the key was released is computed but not used.\<close>

definition keyboard_irq_handler :: "device \<Rightarrow> u8 \<Rightarrow> vga \<Rightarrow> (u8 \<times> vga) res" where
  "keyboard_irq_handler dev state s =
     (let (scancode, t) = inb dev KBD_PORT (ports s);
          s = s\<lparr>ports := t\<rparr>
      in if scancode = 0xE0 then Inr (1, s)
         else
           (let scancode = scancode AND NOT 0x80
            in if state = 0 then
                 rbind (show_key (to_string (KBD_SCAN_TABLE ! unat scancode)) s) (\<lambda>s. Inr (state, s))
               else if state = 1 then
                 (let code = KBD_ESCAPED_SCAN_TABLE ! unat scancode
                  in rbind
                       (if code = KBD_KEY_DOWN then vga_scroll_down s
                        else if code = KBD_KEY_UP then vga_scroll_up s
                        else rbind (escaped_to_string code) (\<lambda>name. show_key name s))
                       (\<lambda>s. Inr (0, s)))
               else Inr (state, s)))"

definition keyboard_init :: "addr \<Rightarrow> idt \<Rightarrow> idt" where
  "keyboard_init handler s = register_interrupt_handler (ucast IRQ1) handler s"

end
