(* ===== verification/KbdProps.thy ===== *)
theory KbdProps
  imports Kbd
begin

text \<open>
  What the keyboard handler does: every code of the tables has a name that fits the fifteen cells
  of its place on the screen, a key shows its name there and nothing else changes, the handler's
  state follows the prefix byte, and escaped keys that are not in the table are not handled.
\<close>

section \<open>Names\<close>

definition fitting :: "string \<Rightarrow> bool" where
  "fitting name \<longleftrightarrow> length name \<le> 15 \<and> list_all (\<lambda>c. c \<noteq> 0 \<and> c \<noteq> 9 \<and> c \<noteq> 10) (str name)"

lemma names_fit: "list_all (fitting \<circ> snd) (key_names1 @ key_names2 @ escaped_names)" "fitting ''(NULL)''"
  by code_simp+

lemma listed_fit: "(code, n) \<in> set (key_names1 @ key_names2 @ escaped_names) \<Longrightarrow> fitting n"
  using names_fit(1) unfolding list_all_iff by force

lemma to_string_fits: "fitting (to_string code)"
proof (cases "map_of (key_names1 @ key_names2) code")
  case (Some n)
  then have "(code, n) \<in> set (key_names1 @ key_names2)" by (rule map_of_SomeD)
  then have "fitting n" by (intro listed_fit [of code]) auto
  then show ?thesis using Some by (simp add: to_string_def del: map_of_append)
qed (simp add: to_string_def names_fit del: map_of_append)

lemma escaped_fits: "escaped_to_string code = Inr n \<Longrightarrow> fitting n"
  by (rule listed_fit [of code]) (auto simp: escaped_to_string_def split: option.splits dest!: map_of_SomeD)

text \<open>Every code of the tables has a name.\<close>

lemma scan_codes_named:
  "list_all (\<lambda>c. c = 0 \<or> map_of (key_names1 @ key_names2) c \<noteq> None) KBD_SCAN_TABLE"
  by code_simp

lemma escaped_codes_named:
  "list_all (\<lambda>c. c = 0 \<or> map_of escaped_names c \<noteq> None) KBD_ESCAPED_SCAN_TABLE"
  by code_simp

lemma tables_length: "length KBD_SCAN_TABLE = 128" "length KBD_ESCAPED_SCAN_TABLE = 128"
  by (simp_all add: KBD_SCAN_TABLE_def KBD_ESCAPED_SCAN_TABLE_def scan_table_def KBD_NSCANS_def)

lemma map_of_escaped_zero: "map_of escaped_names 0 = None"
  by code_simp

section \<open>Showing a name\<close>

text \<open>The name, right-aligned in fifteen cells.\<close>

definition shown :: "string \<Rightarrow> u8 list" where
  "shown name = replicate (15 - length name) 32 @ str name"

lemma length_str [simp]: "length (str s) = length s"
  by (simp add: str_def)

lemma print_name:
  assumes "fitting name"
  shows "printf (\<lambda>_. str name) (str ''%s'') [1] = Inr (str name, of_nat (length name))"
proof -
  have fmt: "str ''%s'' = [37, 115]" by code_simp
  have "length (str name) < 2 ^ 31" using assms by (simp add: fitting_def)
  from prints_eq [OF this, of 0 0] have "prints (str name) 0 0 = (str name, of_nat (length name))"
    by (simp add: field_def)
  then show ?thesis
    by (simp add: printf_def fmt print.simps parse_flags_def convert_def ch_values Let_def)
qed

lemma for_each_const: "for_each (\<lambda>_. f c) xs s = for_each f (map (\<lambda>_. c) xs) s"
proof (induction xs arbitrary: s)
  case (Cons x xs)
  then show ?case by (cases "f c s") simp_all
qed simp

lemma color_char_cursor [simp]:
  "color_char (s\<lparr>cur_x := x\<rparr>) c = color_char s c" "color_char (s\<lparr>cur_y := x\<rparr>) c = color_char s c"
  "color_char (s\<lparr>ports := t\<rparr>) c = color_char s c"
  by (simp_all add: color_char_def)

text \<open>The name ends up in the cells 65 to 79 of row 1; the cursor is back where it was.\<close>

lemma show_key_eq:
  assumes ok: "cursor_ok s" and name: "fitting name"
  shows "\<exists>t. show_key name s =
    Inr (s\<lparr>buf := text_at 145 (map (color_char s) (shown name)) (buf s), ports := t\<rparr>)"
proof -
  have s: "cur_x s < 80" "cur_y s < 25" "length (buf s) = 2000" using ok by (simp_all add: cursor_ok_def)
  let ?n = "15 - length name"
  have len: "length name \<le> 15" using name by (simp add: fitting_def)
  have n: "unat (15 - of_nat (length name) :: u32) = ?n"
  proof -
    have l: "unat (of_nat (length name) :: u32) = length name" using len by (simp add: unat_of_nat)
    then have "(of_nat (length name) :: u32) \<le> 15" using len by (simp add: word_le_nat_alt)
    from unat_diff [OF this] show ?thesis using l by simp
  qed
  have n_map: "map (\<lambda>_. 32 :: u8) [0..<?n] = replicate ?n 32" by (simp add: map_replicate_const)
  obtain t1 where x65: "vga_set_x 65 s = Inr (s\<lparr>cur_x := 65, ports := t1\<rparr>)"
    using set_cursor_eq(1) [OF ok, of 65] by simp
  have ok1: "cursor_ok (s\<lparr>cur_x := 65, ports := t1\<rparr>)" using s by (simp add: cursor_ok_def)
  define s2 where "s2 = s\<lparr>cur_x := 65, ports := t1, cur_y := 1,
    ports := t1 @ cursor_ports (1 * 80 + 65)\<rparr>"
  have y1: "vga_set_y 1 (s\<lparr>cur_x := 65, ports := t1\<rparr>) = Inr s2"
    using set_cursor_eq(2) [OF ok1, of 1] by (simp add: s2_def)
  have c2: "cur_x s2 = 65" "cur_y s2 = 1" "buf s2 = buf s" "color_char s2 = color_char s"
    by (simp_all add: s2_def fun_eq_iff)
  have chars: "list_all (\<lambda>c. c \<noteq> 9 \<and> c \<noteq> 10) (shown name)"
    using name by (auto simp: shown_def fitting_def list_all_iff)
  have "length (shown name) = 15" using len by (simp add: shown_def)
  then obtain t3 where t3: "vga_print (shown name) s2 =
      Inr (s2\<lparr>buf := text_at 145 (map (color_char s) (shown name)) (buf s), cur_x := 0, cur_y := 2, ports := t3\<rparr>)"
    using print_row [of s2 "shown name"] chars s(3) by (auto simp: c2)
  define s3 where "s3 = s2\<lparr>buf := text_at 145 (map (color_char s) (shown name)) (buf s), cur_x := 0, cur_y := 2, ports := t3\<rparr>"
  have two: "rbind (for_each (\<lambda>_. vga_putc 32) [0..<?n] s2) (vga_print (str name)) = Inr s3"
    using t3 unfolding vga_print_def shown_def for_each_append for_each_const [of vga_putc] n_map s3_def .
  have ok3: "cursor_ok s3" by (simp add: cursor_ok_def s3_def s2_def)
  obtain t4 where x: "vga_set_x (cur_x s) s3 = Inr (s3\<lparr>cur_x := cur_x s, ports := t4\<rparr>)"
    using set_cursor_eq(1) [OF ok3, of "cur_x s"] less_imp_le [OF s(1)] by auto
  have ok4: "cursor_ok (s3\<lparr>cur_x := cur_x s, ports := t4\<rparr>)" using ok3 s(1) by (simp add: cursor_ok_def)
  obtain t5 where y: "vga_set_y (cur_y s) (s3\<lparr>cur_x := cur_x s, ports := t4\<rparr>) =
      Inr (s3\<lparr>cur_x := cur_x s, ports := t4, cur_y := cur_y s, ports := t5\<rparr>)"
    using set_cursor_eq(2) [OF ok4, of "cur_y s"] less_imp_le [OF s(2)] by auto
  obtain s23 where "for_each (\<lambda>_. vga_putc 32) [0..<?n] s2 = Inr s23" "vga_print (str name) s23 = Inr s3"
    using two by (auto simp: rbind_eq_Inr)
  then have "show_key name s = Inr (s3\<lparr>cur_x := cur_x s, ports := t4, cur_y := cur_y s, ports := t5\<rparr>)"
    using x65 y1 x y by (simp add: show_key_def vga_get_x_def vga_get_y_def Let_def n print_name [OF name])
  then show ?thesis by (intro exI [of _ t5]) (simp add: s3_def s2_def)
qed

section \<open>The handler\<close>

lemma scan_byte: "unat (b AND NOT 0x80 :: u8) = unat b mod 128"
proof -
  have "b AND NOT 0x80 = take_bit 7 b"
  proof (rule bit_word_eqI)
    fix n assume "n < LENGTH(8)"
    then have n: "n < 8" by simp
    have "(0x80 :: u8) = 2 ^ 7" by simp
    then have "bit (0x80 :: u8) n \<longleftrightarrow> n = 7" using n by (simp only: bit_simps) auto
    then show "bit (b AND NOT 0x80) n = bit (take_bit 7 b) n" using n by (auto simp: bit_simps)
  qed
  then show ?thesis by (simp only: unsigned_take_bit_eq) (simp add: take_bit_eq_mod)
qed

lemma handler_cases:
  assumes "dev (ports s) KBD_PORT = b"
  shows "keyboard_irq_handler dev state s =
    (let s = s\<lparr>ports := ports s @ [Inb KBD_PORT b]\<rparr>; i = unat b mod 128; code = KBD_ESCAPED_SCAN_TABLE ! i
     in if b = 0xE0 then Inr (1, s)
        else if state = 0 then rbind (show_key (to_string (KBD_SCAN_TABLE ! i)) s) (\<lambda>s. Inr (0, s))
        else if state = 1 then
          rbind (if code = KBD_KEY_DOWN then vga_scroll_down s else if code = KBD_KEY_UP then vga_scroll_up s
                 else rbind (escaped_to_string code) (\<lambda>name. show_key name s)) (\<lambda>s. Inr (0, s))
        else Inr (state, s))"
  unfolding keyboard_irq_handler_def inb_def Let_def prod.case scan_byte assms by (cases "state = 0") simp_all

text \<open>The cells of the screen with a name in its place.\<close>

definition with_name :: "vga \<Rightarrow> string \<Rightarrow> u16 list" where
  "with_name s name = map (\<lambda>q. if 145 \<le> q \<and> q < 160
     then color_char s (shown name ! (q - 145)) else buf s ! q) [0..<2000]"

lemma with_name_eq:
  assumes "fitting name"
  shows "text_at 145 (map (color_char s) (shown name)) (buf s) = with_name s name"
proof -
  have "length (shown name) = 15" using assms by (simp add: shown_def fitting_def)
  then show ?thesis by (auto simp: text_at_def with_name_def)
qed

lemma show_key_shows:
  assumes "cursor_ok s" "fitting name"
  shows "\<exists>t'. show_key name (s\<lparr>ports := t\<rparr>) = Inr (s\<lparr>buf := with_name s name, ports := t'\<rparr>)"
proof -
  have "cursor_ok (s\<lparr>ports := t\<rparr>)" using assms(1) by (simp add: cursor_ok_def)
  moreover have "color_char (s\<lparr>ports := t\<rparr>) = color_char s" by (simp add: fun_eq_iff)
  ultimately show ?thesis
    using show_key_eq [of "s\<lparr>ports := t\<rparr>" name] assms(2) by (simp add: with_name_eq [OF assms(2), symmetric])
qed

text \<open>
  A scan code other than the prefix, in the initial state, shows the name of its key, with or
  without the release bit, in the last fifteen cells of row 1, and changes no other cell and not
  the cursor.
\<close>

lemma keyboard_shows_key:
  assumes "cursor_ok s" "dev (ports s) 0x60 = b" "b \<noteq> 0xE0"
  shows "\<exists>t. keyboard_irq_handler dev 0 s =
    Inr (0, s\<lparr>buf := with_name s (to_string (KBD_SCAN_TABLE ! (unat b mod 128))), ports := t\<rparr>)"
proof -
  have "dev (ports s) KBD_PORT = b" using assms(2) by (simp add: KBD_PORT_def)
  note run = handler_cases [of dev s b 0, OF this]
  obtain t where "show_key (to_string (KBD_SCAN_TABLE ! (unat b mod 128))) (s\<lparr>ports := ports s @ [Inb KBD_PORT b]\<rparr>) =
      Inr (s\<lparr>buf := with_name s (to_string (KBD_SCAN_TABLE ! (unat b mod 128))), ports := t\<rparr>)"
    using show_key_shows [OF assms(1) to_string_fits] by blast
  with assms(3) show ?thesis by (intro exI [of _ t]) (simp add: run Let_def)
qed

text \<open>
  An escaped key other than the arrows up and down, after the prefix, shows its name when the
  table of escaped codes lists it, and otherwise is read from a variable that was never assigned.
\<close>

lemma keyboard_escaped_key:
  assumes "cursor_ok s" "dev (ports s) 0x60 = b" "b \<noteq> 0xE0"
    and "code = KBD_ESCAPED_SCAN_TABLE ! (unat b mod 128)" "code \<noteq> KBD_KEY_UP" "code \<noteq> KBD_KEY_DOWN"
  shows "if code = 0 then keyboard_irq_handler dev 1 s = Inl Uninitialised
    else \<exists>name t. (code, name) \<in> set escaped_names \<and>
      keyboard_irq_handler dev 1 s = Inr (0, s\<lparr>buf := with_name s name, ports := t\<rparr>)"
proof -
  have "dev (ports s) KBD_PORT = b" using assms(2) by (simp add: KBD_PORT_def)
  note run = handler_cases [of dev s b 1, OF this]
  have "code \<in> set KBD_ESCAPED_SCAN_TABLE"
    unfolding assms(4) by (rule nth_mem) (simp add: tables_length)
  then have "code = 0 \<or> map_of escaped_names code \<noteq> None"
    using escaped_codes_named unfolding list_all_iff by blast
  then consider "code = 0" | name where "code \<noteq> 0" "map_of escaped_names code = Some name" by blast
  then show ?thesis
  proof cases
    case 1
    then show ?thesis
      using assms(3,5,6) by (simp add: run Let_def assms(4) [symmetric] escaped_to_string_def map_of_escaped_zero)
  next
    case 2
    have "fitting name" using 2(2) escaped_fits [of code name] by (simp add: escaped_to_string_def)
    from show_key_shows [OF assms(1) this] obtain t' where
      "show_key name (s\<lparr>ports := ports s @ [Inb KBD_PORT b]\<rparr>) = Inr (s\<lparr>buf := with_name s name, ports := t'\<rparr>)"
      by blast
    then have "keyboard_irq_handler dev 1 s = Inr (0, s\<lparr>buf := with_name s name, ports := t'\<rparr>)"
      using 2(2) assms(3,5,6) by (simp add: run Let_def assms(4) [symmetric] escaped_to_string_def)
    with 2 map_of_SomeD [OF 2(2)] show ?thesis by auto
  qed
qed

lemma keyboard_states:
  assumes "cursor_ok s" "state \<in> {0, 1}"
  shows "case keyboard_irq_handler dev state s of
      Inl e \<Rightarrow> state = 1 \<and> dev (ports s) 0x60 \<noteq> 0xE0
    | Inr (state', s') \<Rightarrow> cursor_ok s' \<and> state' = (if dev (ports s) 0x60 = 0xE0 then 1 else 0)"
proof -
  define b where "b = dev (ports s) 0x60"
  let ?s = "s\<lparr>ports := ports s @ [Inb KBD_PORT b]\<rparr>"
  have dev: "dev (ports s) KBD_PORT = b" by (simp add: b_def KBD_PORT_def)
  have ok: "cursor_ok ?s" using assms(1) by (simp add: cursor_ok_def)
  have scroll: "cursor_ok s'" if "vga_scroll_down ?s = Inr s' \<or> vga_scroll_up ?s = Inr s'" for s'
    using that ok scroll_keeps_cursor [of ?s s'] scroll_up_keeps_cursor [of ?s s']
    by (auto simp: cursor_of_def cursor_ok_def)
  have key: "\<exists>s'. show_key name ?s = Inr s' \<and> cursor_ok s'" if "fitting name" for name
    using show_key_shows [OF assms(1) that] ok by (fastforce simp: cursor_ok_def with_name_def)
  obtain s0 where s0: "show_key (to_string (KBD_SCAN_TABLE ! (unat b mod 128))) ?s = Inr s0" "cursor_ok s0"
    using key [OF to_string_fits] by blast
  show ?thesis
    unfolding handler_cases [of dev s, OF dev] b_def [symmetric] Let_def
    using assms(2) ok s0 scroll key escaped_fits
    by (auto simp: rbind_eq_Inr split: sum.splits if_splits dest: escaped_fits) (metis sum.inject(2))+
qed

text \<open>
  C24: the handler's state is 1 exactly after the prefix byte 0xE0, and the cursor stays on the
  screen, whatever bytes arrive.
\<close>

theorem keyboard_state_machine:
  assumes "cursor_ok s" "state \<in> {0, 1}"
  shows "case keyboard_irq_handler dev state s of
      Inl e \<Rightarrow> state = 1 \<and> dev (ports s) 0x60 \<noteq> 0xE0
    | Inr (state', s') \<Rightarrow> cursor_ok s' \<and> state' = (if dev (ports s) 0x60 = 0xE0 then 1 else 0)"
  using assms by (rule keyboard_states)

theorem keyboard_state_machine_witness:
  "\<exists>s. keyboard_irq_handler (\<lambda>_ _. 0xE0) 0 boot_vga = Inr (1, s) \<and> cursor_ok s"
proof -
  have "cursor_ok boot_vga" by (simp add: cursor_ok_def boot_vga_facts)
  from keyboard_state_machine [OF this, of 0 "\<lambda>_ _. 0xE0"] show ?thesis
    by (auto split: sum.splits)
qed

end
