(* ===== verification/Queue.thy ===== *)
theory Queue
  imports Prelude
begin

text \<open>
  The doubly linked lists of src/src/kernel/include/sys/queue.h, as sched/task.c uses them. A
  macro becomes a function on the memory: \<open>h\<close> is the address of the list head, whose only word
  is \<open>lh_first\<close>, and \<open>fld\<close> the offset of the \<open>LIST_ENTRY\<close> in an element, with \<open>le_next\<close> in its
  first word and \<open>le_prev\<close>, the address of the word that points to the element, in its second.
  The consistency checks of the macros are compiled out (\<open>_KERNEL\<close> is not defined). The list
  predicate relates a list in memory to the HOL list of its elements; each operation is shown
  to implement the corresponding operation on that list.
\<close>

section \<open>The macros\<close>

definition LIST_FIRST :: "mem \<Rightarrow> addr \<Rightarrow> addr" where
  "LIST_FIRST m h = load32 m h"

definition LIST_NEXT :: "mem \<Rightarrow> addr \<Rightarrow> u32 \<Rightarrow> addr" where
  "LIST_NEXT m elm fld = load32 m (elm + fld)"

definition LIST_EMPTY :: "mem \<Rightarrow> addr \<Rightarrow> bool" where
  "LIST_EMPTY m h \<longleftrightarrow> load32 m h = 0"

definition LIST_INIT :: "mem \<Rightarrow> addr \<Rightarrow> mem" where
  "LIST_INIT m h = store32 m h 0"

definition LIST_INSERT_HEAD :: "mem \<Rightarrow> addr \<Rightarrow> addr \<Rightarrow> u32 \<Rightarrow> mem" where
  "LIST_INSERT_HEAD m h elm fld =
     (let m = store32 m (elm + fld) (LIST_FIRST m h);
          m = (if LIST_NEXT m elm fld \<noteq> 0
               then store32 m (LIST_FIRST m h + fld + 4) (elm + fld) else m);
          m = store32 m h elm
      in store32 m (elm + fld + 4) h)"

definition LIST_INSERT_AFTER :: "mem \<Rightarrow> addr \<Rightarrow> addr \<Rightarrow> u32 \<Rightarrow> mem" where
  "LIST_INSERT_AFTER m listelm elm fld =
     (let m = store32 m (elm + fld) (LIST_NEXT m listelm fld);
          m = (if LIST_NEXT m elm fld \<noteq> 0
               then store32 m (LIST_NEXT m listelm fld + fld + 4) (elm + fld) else m);
          m = store32 m (listelm + fld) elm
      in store32 m (elm + fld + 4) (listelm + fld))"

definition LIST_INSERT_BEFORE :: "mem \<Rightarrow> addr \<Rightarrow> addr \<Rightarrow> u32 \<Rightarrow> mem" where
  "LIST_INSERT_BEFORE m listelm elm fld =
     (let m = store32 m (elm + fld + 4) (load32 m (listelm + fld + 4));
          m = store32 m (elm + fld) listelm;
          m = store32 m (load32 m (listelm + fld + 4)) elm
      in store32 m (listelm + fld + 4) (elm + fld))"

definition LIST_REMOVE :: "mem \<Rightarrow> addr \<Rightarrow> u32 \<Rightarrow> mem" where
  "LIST_REMOVE m elm fld =
     (let m = (if LIST_NEXT m elm fld \<noteq> 0
               then store32 m (LIST_NEXT m elm fld + fld + 4) (load32 m (elm + fld + 4)) else m)
      in store32 m (load32 m (elm + fld + 4)) (LIST_NEXT m elm fld))"

section \<open>Lists in memory\<close>

text \<open>The words an element occupies in the list, and the elements from a pointer on.\<close>

definition cell :: "u32 \<Rightarrow> addr \<Rightarrow> addr set" where
  "cell fld x = span (x + fld) 8"

fun links :: "mem \<Rightarrow> u32 \<Rightarrow> addr \<Rightarrow> addr \<Rightarrow> addr list \<Rightarrow> bool" where
  "links m fld c p [] \<longleftrightarrow> p = 0"
| "links m fld c p (x # xs) \<longleftrightarrow> p = x \<and> x \<noteq> 0 \<and> load32 m (x + fld + 4) = c \<and>
     links m fld (x + fld) (load32 m (x + fld)) xs"

definition list_at :: "mem \<Rightarrow> addr \<Rightarrow> u32 \<Rightarrow> addr list \<Rightarrow> bool" where
  "list_at m h fld xs \<longleftrightarrow> links m fld h (load32 m h) xs"

text \<open>The head and the elements do not overlap.\<close>

definition separate :: "addr \<Rightarrow> u32 \<Rightarrow> addr list \<Rightarrow> bool" where
  "separate h fld xs \<longleftrightarrow> distinct xs \<and> (\<forall>x \<in> set xs. span h 4 \<inter> cell fld x = {}) \<and>
     (\<forall>x \<in> set xs. \<forall>y \<in> set xs. x \<noteq> y \<longrightarrow> cell fld x \<inter> cell fld y = {})"

lemma span_word: "span b 4 \<subseteq> span b 8" "span (b + 4) 4 \<subseteq> span b 8" "span b 4 \<inter> span (b + 4) 4 = {}"
proof -
  have i: "a \<in> span (b + 4) 4 \<longleftrightarrow> 4 \<le> a - b \<and> a - b < 8" for a
    using in_span_offset [of 4 4 a b] by (simp add: word_less_nat_alt)
  show "span b 4 \<subseteq> span b 8" by (auto simp: in_span word_less_nat_alt)
  show "span (b + 4) 4 \<subseteq> span b 8" using i by (auto simp: in_span)
  show "span b 4 \<inter> span (b + 4) 4 = {}" using i by (auto simp: in_span word_le_nat_alt word_less_nat_alt)
qed

lemma load32_apart: "span a 4 \<inter> span b 4 = {} \<Longrightarrow> load32 (store32 m a v) b = load32 m b"
  by (rule load32_frame [of _ "span a 4"]) (auto simp: store32_outside)

lemma own_words:
  "load32 (store32 m (x + fld) v) (x + fld + 4) = load32 m (x + fld + 4)"
  "load32 (store32 m (x + fld + 4) v) (x + fld) = load32 m (x + fld)"
  using span_word(3) [of "x + fld"] by (auto intro!: load32_apart)

lemma other_words:
  assumes "cell fld x \<inter> cell fld y = {}"
  shows "load32 (store32 m (x + fld) v) (y + fld) = load32 m (y + fld)"
    "load32 (store32 m (x + fld) v) (y + fld + 4) = load32 m (y + fld + 4)"
    "load32 (store32 m (x + fld + 4) v) (y + fld) = load32 m (y + fld)"
    "load32 (store32 m (x + fld + 4) v) (y + fld + 4) = load32 m (y + fld + 4)"
  using assms span_word(1,2) [of "x + fld"] span_word(1,2) [of "y + fld"]
  unfolding cell_def by (auto intro!: load32_apart)

lemma head_words:
  assumes "span h 4 \<inter> cell fld x = {}"
  shows "load32 (store32 m (x + fld) v) h = load32 m h" "load32 (store32 m (x + fld + 4) v) h = load32 m h"
    "load32 (store32 m h v) (x + fld) = load32 m (x + fld)"
    "load32 (store32 m h v) (x + fld + 4) = load32 m (x + fld + 4)"
  using assms span_word(1,2) [of "x + fld"] unfolding cell_def by (auto intro!: load32_apart)

lemma links_cong:
  "(\<And>x. x \<in> set xs \<Longrightarrow> load32 m' (x + fld) = load32 m (x + fld) \<and> load32 m' (x + fld + 4) = load32 m (x + fld + 4)) \<Longrightarrow>
    links m' fld c p xs = links m fld c p xs"
  by (induction xs arbitrary: c p) auto

lemma cell_words:
  assumes "\<And>a. a \<in> cell fld x \<Longrightarrow> m' a = m a"
  shows "load32 m' (x + fld) = load32 m (x + fld)" "load32 m' (x + fld + 4) = load32 m (x + fld + 4)"
  using assms span_word(1,2) [of "x + fld"] unfolding cell_def by (auto intro!: load32_cong)

text \<open>Memory that keeps the head and the elements keeps the list.\<close>

lemma list_at_frame:
  assumes "\<And>a. a \<in> span h 4 \<Longrightarrow> m' a = m a" "\<And>x a. x \<in> set xs \<Longrightarrow> a \<in> cell fld x \<Longrightarrow> m' a = m a"
  shows "list_at m' h fld xs = list_at m h fld xs"
proof -
  have "load32 m' h = load32 m h" using assms(1) by (rule load32_cong)
  moreover have "links m' fld c p xs = links m fld c p xs" for c p
    using assms(2) by (intro links_cong conjI cell_words) blast+
  ultimately show ?thesis by (simp add: list_at_def)
qed

lemma list_at_first: "list_at m h fld xs \<Longrightarrow> LIST_FIRST m h = (if xs = [] then 0 else hd xs)"
  by (cases xs) (auto simp: list_at_def LIST_FIRST_def)

lemma links_append_next: "links m fld c p (ys @ x # zs) \<Longrightarrow> load32 m (x + fld) = (if zs = [] then 0 else hd zs)"
  by (induction ys arbitrary: c p) (cases zs; auto)+

lemma list_at_next: "list_at m h fld (ys @ x # zs) \<Longrightarrow> LIST_NEXT m x fld = (if zs = [] then 0 else hd zs)"
  unfolding list_at_def LIST_NEXT_def by (rule links_append_next)

lemma links_nonzero: "links m fld c p xs \<Longrightarrow> 0 \<notin> set xs"
  by (induction xs arbitrary: c p) auto

lemma list_at_nonzero: "list_at m h fld xs \<Longrightarrow> 0 \<notin> set xs"
  unfolding list_at_def by (rule links_nonzero)

text \<open>A list in memory has one reading.\<close>

lemma links_unique: "links m fld c p xs \<Longrightarrow> links m fld c' p ys \<Longrightarrow> xs = ys"
proof (induction xs arbitrary: c c' p ys)
  case Nil
  then show ?case by (cases ys) auto
next
  case (Cons x xs)
  then show ?case by (cases ys) auto
qed

lemma list_at_unique: "list_at m h fld xs \<Longrightarrow> list_at m h fld ys \<Longrightarrow> xs = ys"
  unfolding list_at_def by (rule links_unique)

section \<open>The operations\<close>

lemma separate_mono: "separate h fld xs \<Longrightarrow> set ys \<subseteq> set xs \<Longrightarrow> distinct ys \<Longrightarrow> separate h fld ys"
  unfolding separate_def by blast

lemma separateD:
  assumes "separate h fld xs"
  shows "distinct xs" "x \<in> set xs \<Longrightarrow> span h 4 \<inter> cell fld x = {}"
    "x \<in> set xs \<Longrightarrow> y \<in> set xs \<Longrightarrow> x \<noteq> y \<Longrightarrow> cell fld x \<inter> cell fld y = {}"
  using assms unfolding separate_def by blast+

lemma list_init: "list_at (LIST_INIT m h) h fld []"
  by (simp add: list_at_def LIST_INIT_def)

text \<open>The word that points to the element after \<open>ys\<close>.\<close>

definition pointing :: "addr \<Rightarrow> u32 \<Rightarrow> addr list \<Rightarrow> addr" where
  "pointing h fld ys = (if ys = [] then h else last ys + fld)"

lemma links_append_prev:
  "links m fld c p (ys @ x # zs) \<Longrightarrow> load32 m (x + fld + 4) = (if ys = [] then c else last ys + fld)"
  by (induction ys arbitrary: c p) auto

lemma list_at_prev: "list_at m h fld (ys @ x # zs) \<Longrightarrow> load32 m (x + fld + 4) = pointing h fld ys"
  unfolding list_at_def pointing_def by (rule links_append_prev)

lemma links_split: "links m fld c p (ys @ zs) \<Longrightarrow>
    links m fld (if ys = [] then c else last ys + fld) (if ys = [] then p else load32 m (last ys + fld)) zs"
  by (induction ys arbitrary: c p) auto

lemma list_at_split: "list_at m h fld (ys @ zs) \<Longrightarrow>
    links m fld (pointing h fld ys) (load32 m (pointing h fld ys)) zs"
  using links_split [of m fld h _ ys zs] by (auto simp: list_at_def pointing_def split: if_splits)

text \<open>A list whose tail after \<open>ys\<close> is replaced, through the word that points to the tail.\<close>

lemma links_replace:
  assumes "links m fld c p (ys @ w # zs)" "links m' fld (w + fld) (load32 m' (w + fld)) zs'"
    and "\<And>x. x \<in> set ys \<Longrightarrow> load32 m' (x + fld) = load32 m (x + fld)"
    and "\<And>x. x \<in> set (ys @ [w]) \<Longrightarrow> load32 m' (x + fld + 4) = load32 m (x + fld + 4)"
  shows "links m' fld c p (ys @ w # zs')"
  using assms by (induction ys arbitrary: c p) auto

lemma list_at_replace:
  assumes "list_at m h fld (ys @ zs)"
    and "links m' fld (pointing h fld ys) (load32 m' (pointing h fld ys)) zs'"
    and "ys \<noteq> [] \<Longrightarrow> load32 m' h = load32 m h"
    and "\<And>x. x \<in> set ys \<Longrightarrow> load32 m' (x + fld + 4) = load32 m (x + fld + 4)"
    and "\<And>x. x \<in> set (butlast ys) \<Longrightarrow> load32 m' (x + fld) = load32 m (x + fld)"
  shows "list_at m' h fld (ys @ zs')"
proof (cases ys rule: rev_cases)
  case Nil
  then show ?thesis using assms(2) by (simp add: list_at_def pointing_def)
next
  case (snoc us w)
  then show ?thesis
    using links_replace [of m fld h "load32 m h" us w zs m' zs'] assms by (simp add: list_at_def pointing_def)
qed

text \<open>A tail that gets another predecessor.\<close>

lemma links_reprev:
  assumes "links m fld c p xs"
    and "\<And>x. x \<in> set xs \<Longrightarrow> load32 m' (x + fld) = load32 m (x + fld)"
    and "\<And>x. x \<in> set (tl xs) \<Longrightarrow> load32 m' (x + fld + 4) = load32 m (x + fld + 4)"
    and "xs \<noteq> [] \<Longrightarrow> load32 m' (hd xs + fld + 4) = c'"
  shows "links m' fld c' p xs"
proof (cases xs)
  case (Cons x ys)
  have "links m' fld (x + fld) (load32 m (x + fld)) ys = links m fld (x + fld) (load32 m (x + fld)) ys"
    using assms(2,3) Cons by (intro links_cong) simp
  then show ?thesis using assms Cons by simp
qed (use assms(1) in simp)

text \<open>The word that points to the element after \<open>ys\<close> overlaps no other word of the list.\<close>

lemma pointing_cell:
  assumes "separate h fld xs" "set ys \<subseteq> set xs" "x \<in> set xs" "x \<notin> set ys"
  shows "span (pointing h fld ys) 4 \<inter> cell fld x = {}"
proof (cases "ys = []")
  case False
  then have "last ys \<in> set ys" by simp
  then have "last ys \<in> set xs" "last ys \<noteq> x" using assms(2,4) by blast+
  then show ?thesis
    using separateD(3) [OF assms(1), of "last ys" x] assms(3) span_word(1) [of "last ys + fld"] False
    unfolding pointing_def cell_def by auto
qed (use separateD(2) [OF assms(1,3)] in \<open>simp add: pointing_def\<close>)

lemma cells_apart:
  assumes "cell fld x \<inter> cell fld y = {}"
  shows "span (x + fld) 4 \<inter> cell fld y = {}" "span (x + fld) 4 \<inter> span (y + fld + 4) 4 = {}"
  using assms span_word(1) [of "x + fld"] span_word(2) [of "y + fld"] unfolding cell_def by blast+

lemma pointing_prev:
  assumes "separate h fld xs" "set ys \<subseteq> set xs" "x \<in> set ys"
  shows "span (pointing h fld ys) 4 \<inter> span (x + fld + 4) 4 = {}"
proof -
  have p: "pointing h fld ys = last ys + fld" using assms(3) by (auto simp: pointing_def)
  show ?thesis
  proof (cases "x = last ys")
    case False
    have "last ys \<in> set ys" using assms(3) by (intro last_in_set) auto
    then have "cell fld (last ys) \<inter> cell fld x = {}"
      using separateD(3) [OF assms(1), of "last ys" x] False assms(2,3) by blast
    then show ?thesis unfolding p by (rule cells_apart(2))
  qed (use span_word(3) [of "x + fld"] in \<open>simp add: p\<close>)
qed

lemma pointing_next:
  assumes "separate h fld xs" "set ys \<subseteq> set xs" "x \<in> set (butlast ys)" "distinct ys"
  shows "span (pointing h fld ys) 4 \<inter> cell fld x = {}"
proof -
  have ne: "ys \<noteq> []" using assms(3) by auto
  have "distinct (butlast ys @ [last ys])" using assms(4) ne by simp
  then have "x \<noteq> last ys" using assms(3) by auto
  moreover have "x \<in> set xs" "last ys \<in> set xs"
    using assms(2) in_set_butlastD [OF assms(3)] last_in_set [OF ne] by blast+
  ultimately have "cell fld (last ys) \<inter> cell fld x = {}" using separateD(3) [OF assms(1), of "last ys" x] by blast
  then show ?thesis using ne unfolding pointing_def by (simp add: cells_apart(1))
qed

text \<open>The words an insertion or a removal after \<open>ys\<close>, before \<open>zs\<close>, writes.\<close>

definition touched :: "addr \<Rightarrow> u32 \<Rightarrow> addr list \<Rightarrow> addr \<Rightarrow> addr list \<Rightarrow> addr set" where
  "touched h fld ys x zs = span (pointing h fld ys) 4 \<union> cell fld x \<union>
     (if zs = [] then {} else span (hd zs + fld + 4) 4)"

lemma cell_word: "span (y + fld) 4 \<subseteq> cell fld y" "span (y + fld + 4) 4 \<subseteq> cell fld y"
  using span_word(1,2) [of "y + fld"] by (simp_all add: cell_def)

lemma touched_cells:
  assumes "set ys \<union> {x} \<union> set zs \<subseteq> T"
  shows "touched h fld ys x zs \<subseteq> (if ys = [] then span h 4 else {}) \<union> (\<Union>t \<in> T. cell fld t)"
proof -
  have "span (pointing h fld ys) 4 \<subseteq> (if ys = [] then span h 4 else cell fld (last ys))"
    using cell_word(1) by (simp add: pointing_def)
  moreover have "last ys \<in> T" if "ys \<noteq> []" using last_in_set [OF that] assms by blast
  moreover have "hd zs \<in> T" if "zs \<noteq> []" using hd_in_set [OF that] assms by blast
  ultimately show ?thesis
    using cell_word(2) [where y = "hd zs" and fld = fld] assms unfolding touched_def
    by (cases "ys = []"; cases "zs = []") (simp, blast)+
qed

lemma touched_next:
  assumes sep: "separate h fld (ys @ x # zs)" and y: "y \<in> set (ys @ x # tl zs)"
  shows "cell fld y \<inter> (if zs = [] then {} else span (hd zs + fld + 4) 4) = {}"
proof (cases "zs = []")
  case False
  note d = separateD [OF sep]
  have "hd zs \<in> set zs" "hd zs \<noteq> y" using y d(1) False by (cases zs; auto)+
  then have "cell fld y \<inter> cell fld (hd zs) = {}" using y d(3) by (cases zs) auto
  then show ?thesis using cell_word(2) [where y = "hd zs"] by auto
qed simp

text \<open>A word of another element that neither of the two link words is, and the head, stay.\<close>

lemma untouched_word:
  assumes sep: "separate h fld (ys @ x # zs)" and frame: "\<forall>a. a \<notin> touched h fld ys x zs \<longrightarrow> m' a = m a"
    and b: "y \<in> set ys \<union> set zs" "span b 4 \<subseteq> cell fld y" "span (pointing h fld ys) 4 \<inter> span b 4 = {}"
      "span b 4 \<inter> (if zs = [] then {} else span (hd zs + fld + 4) 4) = {}"
  shows "load32 m' b = load32 m b"
proof (rule load32_frame [of b "touched h fld ys x zs"])
  have "cell fld y \<inter> cell fld x = {}" using b(1) separateD(1,3) [OF sep] by auto
  then show "span b 4 \<inter> touched h fld ys x zs = {}" using b(2-4) unfolding touched_def by (auto simp: Int_Un_distrib)
qed (use frame in auto)

lemma untouched_head:
  assumes sep: "separate h fld (ys @ x # zs)" and frame: "\<forall>a. a \<notin> touched h fld ys x zs \<longrightarrow> m' a = m a"
    and ys: "ys \<noteq> []"
  shows "load32 m' h = load32 m h"
proof (rule load32_frame [of h "touched h fld ys x zs"])
  note d = separateD(2) [OF sep]
  have "span h 4 \<inter> span (pointing h fld ys) 4 = {}"
    using ys d [of "last ys"] cell_word(1) [where y = "last ys"] by (auto simp: pointing_def)
  moreover have "span h 4 \<inter> (if zs = [] then {} else span (hd zs + fld + 4) 4) = {}"
    using d [of "hd zs"] cell_word(2) [where y = "hd zs"] by (cases zs; simp; blast)
  ultimately show "span h 4 \<inter> touched h fld ys x zs = {}"
    using d [of x] unfolding touched_def by (simp add: Int_Un_distrib)
qed (use frame in auto)

lemma untouched:
  assumes sep: "separate h fld (ys @ x # zs)" and frame: "\<forall>a. a \<notin> touched h fld ys x zs \<longrightarrow> m' a = m a"
  shows "ys \<noteq> [] \<Longrightarrow> load32 m' h = load32 m h"
    "y \<in> set ys \<Longrightarrow> load32 m' (y + fld + 4) = load32 m (y + fld + 4)"
    "y \<in> set (butlast ys) \<Longrightarrow> load32 m' (y + fld) = load32 m (y + fld)"
    "z \<in> set zs \<Longrightarrow> load32 m' (z + fld) = load32 m (z + fld)"
    "z \<in> set (tl zs) \<Longrightarrow> load32 m' (z + fld + 4) = load32 m (z + fld + 4)"
proof -
  note d = separateD(1) [OF sep] and keep = untouched_word [OF sep frame] and next_word = touched_next [OF sep]
  have point: "span (pointing h fld ys) 4 \<inter> cell fld z = {}" if "z \<in> set zs" for z
    using pointing_cell [OF sep, of ys z] that d by auto
  show "load32 m' h = load32 m h" if "ys \<noteq> []" by (rule untouched_head [OF sep frame that])
  show "load32 m' (y + fld + 4) = load32 m (y + fld + 4)" if "y \<in> set ys"
    using pointing_prev [OF sep, of ys y] that next_word [of y] cell_word(2) [of y fld]
    by (intro keep [of y]) auto
  show "load32 m' (y + fld) = load32 m (y + fld)" if "y \<in> set (butlast ys)"
    using pointing_next [OF sep, of ys y] in_set_butlastD [OF that] that d next_word [of y] cell_word(1) [of y fld]
    by (intro keep [of y]) auto
  show "load32 m' (z + fld + 4) = load32 m (z + fld + 4)" if "z \<in> set (tl zs)"
  proof -
    have "z \<in> set zs" using that by (cases zs) auto
    then show ?thesis using point [of z] that next_word [of z] cell_word(2) [of z fld] by (intro keep [of z]) auto
  qed
  show "load32 m' (z + fld) = load32 m (z + fld)" if "z \<in> set zs"
  proof -
    have "span (z + fld) 4 \<inter> (if zs = [] then {} else span (hd zs + fld + 4) 4) = {}"
    proof (cases "z = hd zs")
      case True
      then show ?thesis using span_word(3) [of "z + fld"] by simp
    next
      case False
      then have "z \<in> set (tl zs)" using that by (cases zs) auto
      then show ?thesis using next_word [of z] cell_word(1) [of z fld] by auto
    qed
    then show ?thesis using point [OF that] that cell_word(1) [of z fld] by (intro keep [of z]) auto
  qed
qed

lemma inserted:
  assumes list: "list_at m h fld (ys @ zs)" and sep: "separate h fld (ys @ x # zs)" and nz: "x \<noteq> 0"
    and frame: "\<forall>a. a \<notin> touched h fld ys x zs \<longrightarrow> m' a = m a"
    and new: "load32 m' (pointing h fld ys) = x" "load32 m' (x + fld) = load32 m (pointing h fld ys)"
      "load32 m' (x + fld + 4) = pointing h fld ys" "zs \<noteq> [] \<Longrightarrow> load32 m' (hd zs + fld + 4) = x + fld"
  shows "list_at m' h fld (ys @ x # zs)"
proof -
  note same = untouched [OF sep frame]
  have "links m' fld (x + fld) (load32 m (pointing h fld ys)) zs"
    using list_at_split [OF list] same(4,5) new(4) by (rule links_reprev)
  then have "links m' fld (pointing h fld ys) (load32 m' (pointing h fld ys)) (x # zs)"
    using nz new by simp
  from list_at_replace [OF list this] same(1-3) show ?thesis by blast
qed

lemma removed:
  assumes list: "list_at m h fld (ys @ x # zs)" and sep: "separate h fld (ys @ x # zs)"
    and frame: "\<forall>a. a \<notin> touched h fld ys x zs \<longrightarrow> m' a = m a"
    and new: "load32 m' (pointing h fld ys) = load32 m (x + fld)"
      "zs \<noteq> [] \<Longrightarrow> load32 m' (hd zs + fld + 4) = pointing h fld ys"
  shows "list_at m' h fld (ys @ zs)"
proof -
  note same = untouched [OF sep frame]
  have "links m fld (x + fld) (load32 m (x + fld)) zs"
    using list_at_split [OF list] by simp
  then have "links m' fld (pointing h fld ys) (load32 m (x + fld)) zs"
    using same(4,5) new(2) by (rule links_reprev)
  then have "links m' fld (pointing h fld ys) (load32 m' (pointing h fld ys)) zs" using new(1) by simp
  from list_at_replace [OF list this] same(1-3) show ?thesis by blast
qed

text \<open>Both insertions store through the word that is to point to the new element.\<close>

definition splice :: "mem \<Rightarrow> addr \<Rightarrow> addr \<Rightarrow> u32 \<Rightarrow> mem" where
  "splice m c x fld =
     (let m = store32 m (x + fld) (load32 m c);
          m = (if load32 m (x + fld) \<noteq> 0 then store32 m (load32 m c + fld + 4) (x + fld) else m);
          m = store32 m c x
      in store32 m (x + fld + 4) c)"

lemma insert_splice:
  "LIST_INSERT_HEAD m h x fld = splice m h x fld"
  "LIST_INSERT_AFTER m l x fld = splice m (l + fld) x fld"
  by (simp_all add: LIST_INSERT_HEAD_def LIST_INSERT_AFTER_def LIST_FIRST_def LIST_NEXT_def splice_def Let_def)

lemma splice_inserts:
  assumes list: "list_at m h fld (ys @ zs)" and sep: "separate h fld (ys @ x # zs)" and nz: "x \<noteq> 0"
  defines "m' \<equiv> splice m (pointing h fld ys) x fld"
  shows "list_at m' h fld (ys @ x # zs)" "\<forall>a. a \<notin> touched h fld ys x zs \<longrightarrow> m' a = m a"
proof -
  let ?c = "pointing h fld ys"
  note d = separateD [OF sep]
  have xs: "x \<notin> set ys" using d(1) by auto
  have "span ?c 4 \<inter> cell fld x = {}" by (rule pointing_cell [OF sep]) (use xs in auto)
  note cx = head_words [OF this]
  have next_zs: "load32 m ?c = (if zs = [] then 0 else hd zs)"
    using list_at_split [OF list] by (cases zs) auto
  show frame: "\<forall>a. a \<notin> touched h fld ys x zs \<longrightarrow> m' a = m a"
  proof (intro allI impI)
    fix a assume "a \<notin> touched h fld ys x zs"
    then have "a \<notin> span ?c 4" "a \<notin> span (x + fld) 4" "a \<notin> span (x + fld + 4) 4"
      "zs \<noteq> [] \<Longrightarrow> a \<notin> span (hd zs + fld + 4) 4"
      using span_word(1,2) [of "x + fld"] by (auto simp: touched_def cell_def)
    then show "m' a = m a" using next_zs by (auto simp: m'_def splice_def Let_def store32_outside cx)
  qed
  show "list_at m' h fld (ys @ x # zs)"
  proof (cases zs)
    case Nil
    have "m' = store32 (store32 (store32 m (x + fld) 0) ?c x) (x + fld + 4) ?c"
      using next_zs Nil by (simp add: m'_def splice_def)
    then show ?thesis
      using next_zs Nil by (intro inserted [OF list sep nz frame]) (simp_all add: cx own_words)
  next
    case (Cons z us)
    then have z: "z \<noteq> 0" "z \<noteq> x" "z \<notin> set ys" using list_at_nonzero [OF list] d(1) by auto
    then have "cell fld x \<inter> cell fld z = {}" "cell fld z \<inter> cell fld x = {}" using d(3) Cons by auto
    note xz = other_words [OF this(1)] other_words [OF this(2)]
    have "span ?c 4 \<inter> cell fld z = {}" by (rule pointing_cell [OF sep]) (use z Cons in auto)
    note cz = head_words [OF this]
    have "m' = store32 (store32 (store32 (store32 m (x + fld) z) (z + fld + 4) (x + fld)) ?c x) (x + fld + 4) ?c"
      using next_zs Cons z by (simp add: m'_def splice_def cx)
    then show ?thesis
      using next_zs Cons by (intro inserted [OF list sep nz frame]) (simp_all add: cx cz xz own_words)
  qed
qed

lemma insert_head:
  assumes "list_at m h fld xs" "separate h fld (x # xs)" "x \<noteq> 0"
  shows "list_at (LIST_INSERT_HEAD m h x fld) h fld (x # xs)"
    "\<forall>a. a \<notin> touched h fld [] x xs \<longrightarrow> LIST_INSERT_HEAD m h x fld a = m a"
  using splice_inserts [of m h fld "[]" xs x] assms by (simp_all add: insert_splice pointing_def)

lemma insert_after:
  assumes "list_at m h fld (ys @ l # zs)" "separate h fld (ys @ l # x # zs)" "x \<noteq> 0"
  shows "list_at (LIST_INSERT_AFTER m l x fld) h fld (ys @ l # x # zs)"
    "\<forall>a. a \<notin> touched h fld (ys @ [l]) x zs \<longrightarrow> LIST_INSERT_AFTER m l x fld a = m a"
  using splice_inserts [of m h fld "ys @ [l]" zs x] assms by (simp_all add: insert_splice pointing_def)

lemma insert_before:
  assumes list: "list_at m h fld (ys @ l # zs)" and sep: "separate h fld (ys @ x # l # zs)" and nz: "x \<noteq> 0"
  defines "m' \<equiv> LIST_INSERT_BEFORE m l x fld"
  shows "list_at m' h fld (ys @ x # l # zs)" "\<forall>a. a \<notin> touched h fld ys x (l # zs) \<longrightarrow> m' a = m a"
proof -
  let ?c = "pointing h fld ys"
  note d = separateD [OF sep]
  have ne: "x \<notin> set ys" "l \<notin> set ys" "x \<noteq> l" using d(1) by auto
  then have "cell fld x \<inter> cell fld l = {}" "cell fld l \<inter> cell fld x = {}" using d(3) by auto
  note xl = other_words [OF this(1)] other_words [OF this(2)]
  have "span ?c 4 \<inter> cell fld x = {}" by (rule pointing_cell [OF sep]) (use ne in auto)
  moreover have "span ?c 4 \<inter> cell fld l = {}" by (rule pointing_cell [OF sep]) (use ne in auto)
  ultimately have "span ?c 4 \<inter> cell fld x = {}" "span ?c 4 \<inter> cell fld l = {}" .
  note cx = head_words [OF this(1)] head_words [OF this(2)]
  have "load32 m (l + fld + 4) = ?c" using list_at_prev [OF list] .
  then have m': "m' = store32 (store32 (store32 (store32 m (x + fld + 4) ?c) (x + fld) l) ?c x) (l + fld + 4) (x + fld)"
    by (simp add: m'_def LIST_INSERT_BEFORE_def xl)
  show frame: "\<forall>a. a \<notin> touched h fld ys x (l # zs) \<longrightarrow> m' a = m a"
    using span_word(1,2) [of "x + fld"] unfolding m' touched_def cell_def
    by (simp add: store32_outside subset_iff) (metis store32_outside)
  have "load32 m ?c = l" using list_at_split [OF list] by simp
  then show "list_at m' h fld (ys @ x # l # zs)"
    by (intro inserted [OF list sep nz frame]) (simp_all add: m' cx xl own_words)
qed

lemma list_remove:
  assumes list: "list_at m h fld (ys @ x # zs)" and sep: "separate h fld (ys @ x # zs)"
  defines "m' \<equiv> LIST_REMOVE m x fld"
  shows "list_at m' h fld (ys @ zs) \<and> (\<forall>a. a \<notin> touched h fld ys x zs \<longrightarrow> m' a = m a)"
proof -
  let ?c = "pointing h fld ys"
  note d = separateD [OF sep]
  have prev: "load32 m (x + fld + 4) = ?c" using list_at_prev [OF list] .
  have next_zs: "load32 m (x + fld) = (if zs = [] then 0 else hd zs)"
    using list_at_next [OF list] by (simp add: LIST_NEXT_def)
  show ?thesis
  proof (cases zs)
    case Nil
    then have m': "m' = store32 m ?c 0" using next_zs prev by (simp add: m'_def LIST_REMOVE_def LIST_NEXT_def)
    then have frame: "\<forall>a. a \<notin> touched h fld ys x zs \<longrightarrow> m' a = m a"
      by (auto simp: touched_def store32_outside)
    show ?thesis
      using removed [OF list sep frame] next_zs Nil frame by (simp add: m')
  next
    case (Cons z us)
    then have z: "z \<noteq> 0" "z \<noteq> x" "z \<notin> set ys" using list_at_nonzero [OF list] d(1) by auto
    then have "cell fld z \<inter> cell fld x = {}" using d(3) Cons by auto
    note zx = other_words [OF this]
    have "span ?c 4 \<inter> cell fld z = {}" by (rule pointing_cell [OF sep]) (use z Cons in auto)
    note cz = head_words [OF this]
    have m': "m' = store32 (store32 m (z + fld + 4) ?c) ?c z"
      using next_zs prev Cons z by (simp add: m'_def LIST_REMOVE_def LIST_NEXT_def zx)
    then have frame: "\<forall>a. a \<notin> touched h fld ys x zs \<longrightarrow> m' a = m a"
      by (auto simp: touched_def Cons store32_outside)
    show ?thesis
      using removed [OF list sep frame] next_zs Cons frame by (simp add: m' cz)
  qed
qed

end
