(* ===== verification/KPages.thy ===== *)
theory KPages
  imports KMem
begin

text \<open>
  The part of the kernel's memory that is mapped but not the heap's, and the pages that
  sched/task.c takes directly from the page allocator: the interpretation discharges the
  contract \<open>paged\<close> for the kernel's own functions.
\<close>

text \<open>A page for the caller itself, the direct call of \<open>alloc_block\<close>.\<close>

definition kalloc_block :: "kmem \<Rightarrow> (addr \<times> kmem) res" where
  "kalloc_block k = rbind (alloc_block (pages k) (ram k)) (\<lambda>(v, p, m). Inr (v, k\<lparr>pages := p, ram := m\<rparr>))"

definition kstatic :: "kmem \<Rightarrow> addr set" where
  "kstatic k = {a. present (page_directory (pages k)) (unat a div 4194304) \<and>
     (\<forall>sbs sb. chain (ram k) (head (kheap k)) sbs \<longrightarrow> sb \<in> set sbs \<longrightarrow> unat sb div 4194304 \<noteq> unat a div 4194304)}"

lemma in_kstatic:
  assumes "kmem_ok k sbs"
  shows "a \<in> kstatic k \<longleftrightarrow> present (page_directory (pages k)) (unat a div 4194304) \<and>
    (\<forall>sb \<in> set sbs. unat sb div 4194304 \<noteq> unat a div 4194304)"
proof -
  have "chain (ram k) (head (kheap k)) ys \<longleftrightarrow> ys = sbs" for ys
    using chain_unique kmem_okD(2) [OF assms] by (auto simp: heap_ok_def)
  then show ?thesis by (auto simp: kstatic_def)
qed

lemma kstatic_outside:
  assumes "kmem_ok k sbs" "a \<in> kstatic k"
  shows "sb \<in> set sbs \<Longrightarrow> a \<notin> region (ram k) sb" "a \<notin> heap_metadata (ram k) sbs"
proof -
  show out: "a \<notin> region (ram k) sb" if "sb \<in> set sbs" for sb
    using assms that by (simp add: in_kstatic [OF assms(1)] page_block_region [OF kmem_okD(3) [OF assms(1) that]]) fastforce
  then show "a \<notin> heap_metadata (ram k) sbs"
    using metadata_region by (fastforce simp: heap_metadata_def)
qed

lemma kstatic_same:
  assumes "kmem_ok k sbs" "kmem_ok k' sbs" "pages k' = pages k"
  shows "kstatic k' = kstatic k"
  using assms by (auto simp: in_kstatic)

lemma kheap_alloc_static:
  assumes ok: "kmem_ok k sbs" and n: "0 < n" and call: "kheap_alloc k n = Inr (p, k')" and p: "p \<noteq> 0"
  shows "kstatic k' = kstatic k" "a \<in> kstatic k \<Longrightarrow> ram k' a = ram k a"
  using kheap_alloc_live(1,2) [OF assms] kstatic_same [OF ok] kheap_alloc_live(6) [OF assms] kstatic_outside(2) [OF ok]
  by blast+

lemma kmalloc_static:
  assumes inv: "kmem_inv k" and n: "0 < n" and call: "kmalloc k n = Inr (p, k')"
  shows "kstatic k' = kstatic k \<and> (\<forall>a \<in> kstatic k. ram k' a = ram k a)"
proof -
  obtain sbs where ok: "kmem_ok k sbs" using inv by (auto simp: kmem_inv_def)
  have le: "n \<le> PAGE_SIZE" using call by (auto simp: kmalloc_def split: if_splits)
  show ?thesis
  proof (rule kmalloc_cases [OF ok n le])
    fix q k2
    assume "kmalloc k n = Inr (q, k2)" "kheap_alloc k n = Inr (q, k2)" "q \<noteq> 0"
    then show ?thesis using call kheap_alloc_static [OF ok n, of p k'] by auto
  next
    fix v pg m k1 q k2
    assume "kmalloc k n = Inr (q, k2)" and page: "alloc_block (pages k) (ram k) = Inr (v, pg, m)" "v \<noteq> 0"
      and more: "more_memory k = Inr k1" and al: "kheap_alloc k1 n = Inr (q, k2)" "q \<noteq> 0"
    then have eq: "q = p" "k2 = k'" using call by auto
    obtain k1' where "more_memory k = Inr k1'" and k1': "kmem_ok k1' (v # sbs)" "pages k1' = pg"
      "\<And>a. unat a div 4194304 \<noteq> unat v div 4194304 \<Longrightarrow> ram k1' a = ram k a"
      using more_memory_page [OF ok page] by metis
    then have k1: "k1' = k1" using more by simp
    note new = alloc_block_new_page [OF kmem_okD(1) [OF ok] page(1)]
    have dir: "present (page_directory pg) i \<longleftrightarrow> present (page_directory (pages k)) i"
      if "i < 1024" "i \<noteq> unat v div 4194304" for i
      using new that by (simp add: present_def)
    have lt: "unat a div 4194304 < 1024" for a :: addr using unat32 [of a] by simp
    have "kstatic k1 = kstatic k"
      unfolding set_eq_iff in_kstatic [OF ok] in_kstatic [OF k1'(1), unfolded k1] k1'(2) [unfolded k1]
      using dir lt new by auto metis+
    moreover have "ram k1 a = ram k a" if "a \<in> kstatic k" for a
      using that new k1'(3) [of a] unfolding in_kstatic [OF ok] k1 by metis
    ultimately show ?thesis
      using kheap_alloc_static [OF k1'(1) [unfolded k1] n, of p k'] al unfolding eq by simp
  qed (use call in auto)
qed

lemma kfree_static:
  assumes inv: "kmem_inv k" and own: "(p, B) \<in> kowns k" and call: "kfree k p = Inr k'"
  shows "kstatic k' = kstatic k \<and> (\<forall>a \<in> kstatic k. ram k' a = ram k a)"
proof -
  obtain sbs where ok: "kmem_ok k sbs" using inv by (auto simp: kmem_inv_def)
  obtain sb i n where live: "(sb, i, n) \<in> heap_live (ram k) sbs" "p = block_ptr (ram k) sb i"
    using own by (auto simp: kowns_live [OF ok] kowned_def)
  obtain k2 where r: "kfree k p = Inr k2" "kmem_ok k2 sbs"
    "\<And>a. a \<notin> heap_metadata (ram k) sbs \<Longrightarrow> ram k2 a = ram k a"
    using kfree_live [OF ok live(1)] unfolding live(2) by metis
  then have "k2 = k'" using call by simp
  then show ?thesis
    using r kstatic_same [OF ok r(2)] kfree_pages [OF r(1)] kstatic_outside(2) [OF ok] by blast
qed

lemma kmem_update_data:
  assumes inv: "kmem_inv k" and f: "\<And>a. a \<notin> kstatic k \<Longrightarrow> a \<notin> \<Union> (snd ` kowns k) \<Longrightarrow> f (ram k) a = ram k a"
  shows "kmem_inv (ram_update f k) \<and> kowns (ram_update f k) = kowns k \<and> kstatic (ram_update f k) = kstatic k"
proof -
  obtain sbs where ok: "kmem_ok k sbs" using inv by (auto simp: kmem_inv_def)
  have "f (ram k) b = ram k b" if "b \<in> heap_metadata (ram k) sbs" for b
  proof (rule f)
    show "b \<notin> kstatic k" using kstatic_outside(2) [OF ok] that by blast
    show "b \<notin> \<Union> (snd ` kowns k)"
    proof
      assume "b \<in> \<Union> (snd ` kowns k)"
      then obtain x where "x \<in> heap_live (ram k) sbs" "b \<in> payload (ram k) x"
        by (auto simp: kowns_live [OF ok] kowned_def)
      then show False using live_region(2) [OF ok] \<open>b \<in> heap_metadata (ram k) sbs\<close> by blast
    qed
  qed
  then have same: "\<forall>b \<in> heap_metadata (ram k) sbs. f (ram k) b = ram k b" by blast
  note kept = ram_update_kept [OF ok, of f, OF same]
  then show ?thesis using kstatic_same [OF ok kept(1)] by (auto simp: kmem_inv_def)
qed

lemma kalloc_block_fresh:
  assumes inv: "kmem_inv k" and call: "kalloc_block k = Inr (v, k')"
  shows "kmem_inv k' \<and> kowns k' = kowns k \<and> kstatic k' = kstatic k \<union> span v PAGE_SIZE \<and>
    span v PAGE_SIZE \<inter> kstatic k = {} \<and> (\<forall>a. ram k' a = (if a \<in> span v PAGE_SIZE then 0 else ram k a))"
proof -
  obtain sbs where ok: "kmem_ok k sbs" using inv by (auto simp: kmem_inv_def)
  obtain pg m where page: "alloc_block (pages k) (ram k) = Inr (v, pg, m)" and k': "k' = k\<lparr>pages := pg, ram := m\<rparr>"
    using call by (auto simp: kalloc_block_def rbind_eq_Inr)
  let ?i = "unat v div 4194304"
  note new = alloc_block_new_page [OF kmem_okD(1) [OF ok] page]
  have sp: "a \<in> span v PAGE_SIZE \<longleftrightarrow> unat a div 4194304 = ?i" for a
  proof -
    have "v = page ?i" using new by (simp add: word_unat_eq_iff unat_page)
    then show ?thesis using page_span [of a ?i] new by simp
  qed
  have out: "unat sb div 4194304 \<noteq> ?i" if "sb \<in> set sbs" for sb
    using kmem_okD(3) [OF ok that] new by (auto simp: page_block_def)
  have "\<forall>b \<in> heap_metadata (ram k) sbs. m b = ram k b"
  proof
    fix b assume "b \<in> heap_metadata (ram k) sbs"
    then obtain sb where "sb \<in> set sbs" "b \<in> region (ram k) sb"
      using metadata_region by (fastforce simp: heap_metadata_def)
    then have "unat b div 4194304 \<noteq> ?i"
      using out page_block_region [OF kmem_okD(3) [OF ok]] by fastforce
    then show "m b = ram k b" using new by simp
  qed
  note kept = ram_update_kept [OF ok, of "\<lambda>_. m", OF this]
  have lt: "unat a div 4194304 < 1024" for a :: addr using unat32 [of a] by simp
  have dir: "page_directory pg ! j = page_directory (pages k) ! j" if "j < 1024" "j \<noteq> ?i" for j
    using new that by simp
  have blk: "page_block k' sb" if "sb \<in> set sbs" for sb
    using kmem_okD(3) [OF kept(1) that] dir [OF lt out [OF that]] by (simp add: k' page_block_def present_def)
  have ok': "kmem_ok k' sbs" using kept(1) new blk by (simp add: kmem_ok_def k')
  have own: "kowns k' = kowns k"
    using kept(2) unfolding kowns_live [OF ok'] kowns_live [OF kept(1)] by (simp add: k')
  have stat: "kstatic k' = kstatic k \<union> span v PAGE_SIZE"
    unfolding set_eq_iff Un_iff in_kstatic [OF ok] in_kstatic [OF ok'] sp
    using new out dir lt by (simp add: k' present_def) metis
  have "span v PAGE_SIZE \<inter> kstatic k = {}"
    using new unfolding disjoint_iff in_kstatic [OF ok] sp by auto
  then show ?thesis using ok' own stat new by (auto simp: kmem_inv_def sp k')
qed

interpretation kernel_pages: paged kmalloc kfree ram ram_update kmem_inv kowns kstatic kalloc_block PAGE_SIZE
proof unfold_locales
  show "B \<inter> kstatic k = {}" if "kmem_inv k" "(p, B) \<in> kowns k" for k p B
  proof -
    note pre = that
    obtain sbs where ok: "kmem_ok k sbs" using pre(1) by (auto simp: kmem_inv_def)
    then obtain x where "x \<in> heap_live (ram k) sbs" "B = payload (ram k) x"
      using pre(2) by (auto simp: kowns_live kowned_def)
    then show ?thesis using live_region(1) [OF ok] kstatic_outside(1) [OF ok] by blast
  qed
qed (fact kmalloc_static kfree_static kalloc_block_fresh | rule kmem_update_data, assumption, blast)+

section \<open>Pages since boot\<close>

lemma kalloc_block_running:
  assumes "running j k" "j < 1021"
  shows "\<exists>k'. kalloc_block k = Inr (page (slot j), k') \<and> running (Suc j) k'"
proof -
  obtain p where "alloc_block (pages k) (ram k) = Inr (page (slot j), p, memset (ram k) (page (slot j)) 0 PAGE_SIZE)"
    "after_boot (Suc j) p"
    using after_boot_step [of j "pages k" "ram k"] assms by (auto simp: running_def)
  then show ?thesis
    using kalloc_block_fresh [of k "page (slot j)"] assms(1) by (auto simp: running_def kalloc_block_def)
qed

text \<open>The pages of the kernel image and of its stack are static at boot.\<close>

lemma boot_static: "a \<in> kstatic (kboot m) \<longleftrightarrow> unat a div 4194304 \<in> {768, 769}"
proof -
  have "unat a div 4194304 < 1024" using unat32 [of a] by simp
  then show ?thesis using booted_facts by (auto simp: in_kstatic [OF kboot_ok] kboot_fields)
qed

end
