(* ===== verification/Task.thy ===== *)
theory Task
  imports Queue KPages Interrupts
begin

text \<open>
  The scheduler, src/src/kernel/sched/task.c, and the two assembly routines it calls. Tasks are
  structs on the kernel heap, in a list of queue.h whose head is the static \<open>tasks\<close>; the address of
  the head is a parameter, as are the addresses of the handlers. A value that the code reads from
  a CPU register is an argument: the stack pointer, the frame pointer and what \<open>read_eip\<close>
  returns, at the point where the code reads it. \<open>read_eip\<close> returns twice; the second time, after
  \<open>perform_task_switch\<close>, it returns \<open>DUMMY_EIP\<close>, the value that routine leaves in \<open>eax\<close>. The
  trace messages are compiled out (\<open>LOG_LEVEL\<close> is \<open>LEVEL_INFO\<close>).
\<close>

section \<open>Data\<close>

definition TICKS_PER_SLICE :: u32 where "TICKS_PER_SLICE = 50"
definition DUMMY_EIP :: u32 where "DUMMY_EIP = 0x12345"
definition IRQ_YIELD :: u8 where "IRQ_YIELD = 255"

text \<open>
  A \<open>task_t\<close> takes 32 bytes; the offsets of its fields are those of the struct's order, and
  \<open>next_task\<close>, the \<open>LIST_ENTRY\<close>, is at offset 24.
\<close>

record task =
  t_eip :: u32
  t_esp :: u32
  t_ebp :: u32
  t_stack_start :: u32
  t_id :: u32
  t_ticks :: u32

definition sizeof_task :: u32 where "sizeof_task = 32"
definition next_task :: u32 where "next_task = 24"

definition task_at :: "mem \<Rightarrow> addr \<Rightarrow> task" where
  "task_at m t =
     \<lparr>t_eip = load32 m t, t_esp = load32 m (t + 4), t_ebp = load32 m (t + 8),
      t_stack_start = load32 m (t + 12), t_id = load32 m (t + 16), t_ticks = load32 m (t + 20)\<rparr>"

text \<open>The kernel's memory, \<open>current\<close>, and the interrupt tables and ports the scheduler is wired to.\<close>

record sched =
  mm :: kmem
  current :: addr
  vectors :: idt
  io_log :: io

definition store :: "addr \<Rightarrow> u32 \<Rightarrow> kmem \<Rightarrow> kmem" where
  "store a v k = put32 ram_update k a v"

text \<open>The context that a jump to a task establishes, or the handler's plain return.\<close>

record cpu =
  c_eip :: u32
  c_esp :: u32
  c_ebp :: u32
  c_eax :: u32

datatype control = Return | Jump cpu

section \<open>Stacks\<close>

text \<open>
  The copying loops of \<open>move_stack\<close> and \<open>copy_stack\<close>: every word from \<open>a\<close> up to \<open>stop\<close> goes to
  \<open>offset\<close>, as it is or redirected. The addresses wrap, so a \<open>stop\<close> in the last word of the
  address space may never be reached.
\<close>

partial_function (option) copy_words ::
    "(mem \<Rightarrow> addr) \<Rightarrow> (mem \<Rightarrow> u32 \<Rightarrow> u32) \<Rightarrow> mem \<Rightarrow> addr \<Rightarrow> addr \<Rightarrow> mem option" where
  "copy_words stop redirect m a offset =
     (if a < stop m
      then copy_words stop redirect (store32 m offset (redirect m (load32 m a))) (a + 4) (offset + 4)
      else Some m)"

declare copy_words.simps [code]

definition move_redirect :: "u32 \<Rightarrow> u32 \<Rightarrow> u32 \<Rightarrow> u32 \<Rightarrow> u32" where
  "move_redirect stack_start sp new_stack word =
     (if word < stack_start \<and> word > sp then new_stack + (word - sp) else word)"

text \<open>
  \<open>move_stack\<close>, with the global \<open>STACK_START\<close>; \<open>sp\<close> is \<open>esp\<close> when the copying starts, \<open>old_esp\<close> and
  \<open>old_ebp\<close> are read after it. The result is the new stack, the new \<open>esp\<close> and \<open>ebp\<close>, and the memory.
\<close>

definition move_stack :: "u32 \<Rightarrow> u32 \<Rightarrow> u32 \<Rightarrow> u32 \<Rightarrow> mem \<Rightarrow> (u32 \<times> u32 \<times> u32 \<times> mem) res" where
  "move_stack stack_start sp old_esp old_ebp m =
     (let new_stack = PAGE_SIZE + 0xC0000000;
          offset = new_stack + PAGE_SIZE - (stack_start - sp)
      in rbind (run (map_option Inr
            (copy_words (\<lambda>_. stack_start) (\<lambda>_. move_redirect stack_start sp new_stack) m sp offset)))
          (\<lambda>m. Inr (new_stack, new_stack + PAGE_SIZE - (stack_start - old_esp),
                    new_stack + PAGE_SIZE - (stack_start - old_ebp), m)))"

definition copy_redirect :: "addr \<Rightarrow> u32 \<Rightarrow> mem \<Rightarrow> u32 \<Rightarrow> u32" where
  "copy_redirect parent new_stack m word =
     (let start = load32 m (parent + 12)
      in if word < start + PAGE_SIZE \<and> word > start then new_stack + (word - start) else word)"

definition copy_stack :: "addr \<Rightarrow> addr \<Rightarrow> u32 \<Rightarrow> kmem \<Rightarrow> kmem res" where
  "copy_stack child parent sp k =
     rbind (kalloc_block k) (\<lambda>(new_stack, k).
       let offset = new_stack + PAGE_SIZE - (load32 (ram k) (parent + 12) + PAGE_SIZE - sp)
       in rbind (run (map_option Inr
             (copy_words (\<lambda>m. load32 m (parent + 12) + PAGE_SIZE) (copy_redirect parent new_stack)
                (ram k) sp offset)))
           (\<lambda>m. Inr (store (child + 12) new_stack (k\<lparr>ram := m\<rparr>))))"

section \<open>Tasks\<close>

definition task_new :: "kmem \<Rightarrow> (addr \<times> kmem) res" where
  "task_new k =
     rbind (kmalloc k sizeof_task) (\<lambda>(task, k).
       Inr (task, ram_update (\<lambda>m. memset m task 0 sizeof_task) k))"

text \<open>\<open>handler\<close> is the address of \<open>task_switch\<close>.\<close>

definition task_init :: "addr \<Rightarrow> addr \<Rightarrow> u32 \<Rightarrow> u32 \<Rightarrow> u32 \<Rightarrow> u32 \<Rightarrow> sched \<Rightarrow> sched res" where
  "task_init tasks handler stack_start sp old_esp old_ebp s =
     rbind (move_stack stack_start sp old_esp old_ebp (ram (mm s))) (\<lambda>(stack, new_esp, new_ebp, m).
     rbind (kmalloc ((mm s)\<lparr>ram := m\<rparr>) sizeof_task) (\<lambda>(task, k).
     let k = ram_update (\<lambda>m. memset m task 0 sizeof_task) k;
         k = store (task + 12) stack k;
         k = store (task + 20) TICKS_PER_SLICE k;
         k = ram_update (\<lambda>m. LIST_INSERT_HEAD m tasks task next_task) k
     in rbind (timer_set_handler 1000 handler (vectors s) (io_log s)) (\<lambda>(v, t).
        Inr (s\<lparr>mm := k, current := task,
               vectors := register_interrupt_handler IRQ_YIELD handler v, io_log := t\<rparr>))))"

text \<open>\<open>thread_create\<close> up to \<open>read_eip\<close>; \<open>sp\<close> is \<open>esp\<close> inside \<open>copy_stack\<close>.\<close>

definition thread_create_fork :: "u32 \<Rightarrow> sched \<Rightarrow> (addr \<times> sched) res" where
  "thread_create_fork sp s =
     rbind (task_new (mm s)) (\<lambda>(child, k).
       let parent = current s
       in if parent = 0 then Inl NullDeref
          else
            (let k = store (child + 16) (load32 (ram k) (parent + 16) + 1) k
             in rbind (copy_stack child parent sp k) (\<lambda>k.
               Inr (child, s\<lparr>mm := ram_update (\<lambda>m. LIST_INSERT_AFTER m parent child next_task) k\<rparr>))))"

text \<open>
  \<open>thread_create\<close> after \<open>read_eip\<close>, which both tasks reach: the parent sets the child's registers up,
  the child runs the thread's function, from which it must not return.
\<close>

definition thread_create_resume ::
    "(sched \<Rightarrow> sched res) \<Rightarrow> u32 \<Rightarrow> u32 \<Rightarrow> u32 \<Rightarrow> addr \<Rightarrow> addr \<Rightarrow> sched \<Rightarrow> sched res" where
  "thread_create_resume task ip sp bp parent child s =
     (if current s = parent then
        let k = mm s;
            offset = load32 (ram k) (child + 12) - load32 (ram k) (parent + 12);
            k = store (child + 4) (offset + sp) k;
            k = store (child + 8) (offset + bp) k
        in Inr (s\<lparr>mm := store child ip k\<rparr>)
      else rbind (task s) (\<lambda>_.
        Inl (Panic ''Thread returned early! Currently no implemented way to return allocated stack!'')))"

definition thread_create ::
    "(sched \<Rightarrow> sched res) \<Rightarrow> u32 \<Rightarrow> u32 \<Rightarrow> u32 \<Rightarrow> u32 \<Rightarrow> sched \<Rightarrow> sched res" where
  "thread_create task copy_sp ip sp bp s =
     rbind (thread_create_fork copy_sp s) (\<lambda>(child, s').
       thread_create_resume task ip sp bp (current s) child s')"

section \<open>Switching\<close>

text \<open>task_helper.asm.\<close>

definition perform_task_switch :: "u32 \<Rightarrow> u32 \<Rightarrow> u32 \<Rightarrow> cpu" where
  "perform_task_switch ip bp sp = \<lparr>c_eip = ip, c_esp = sp, c_ebp = bp, c_eax = DUMMY_EIP\<rparr>"

text \<open>\<open>task_switch\<close> from \<open>read_eip\<close> on.\<close>

definition task_switch_resume :: "addr \<Rightarrow> u32 \<Rightarrow> u32 \<Rightarrow> u32 \<Rightarrow> sched \<Rightarrow> (control \<times> sched) res" where
  "task_switch_resume tasks ip sp bp s =
     (if ip = DUMMY_EIP then Inr (Return, s)
      else
        (let curr = current s;
             next = LIST_NEXT (ram (mm s)) curr next_task;
             next = (if next = 0 then LIST_FIRST (ram (mm s)) tasks else next)
         in if next = 0 then Inl NullDeref
            else
              (let k = store (next + 20) TICKS_PER_SLICE (mm s);
                   k = store curr ip k;
                   k = store (curr + 4) sp k;
                   k = store (curr + 8) bp k
               in Inr (Jump (perform_task_switch (load32 (ram k) next) (load32 (ram k) (next + 8)) (load32 (ram k) (next + 4))),
                       s\<lparr>mm := k, current := next\<rparr>))))"

definition task_switch :: "addr \<Rightarrow> u32 \<Rightarrow> u32 \<Rightarrow> u32 \<Rightarrow> sched \<Rightarrow> (control \<times> sched) res" where
  "task_switch tasks ip sp bp s =
     (if current s = 0 then Inl NullDeref
      else
        (let ticks = load32 (ram (mm s)) (current s + 20)
         in if ticks \<noteq> 0
            then Inr (Return, s\<lparr>mm := store (current s + 20) (ticks - 1) (mm s)\<rparr>)
            else task_switch_resume tasks ip sp bp s))"

text \<open>\<open>yield\<close>, whose interrupt 255 enters \<open>task_switch\<close>.\<close>

definition yield :: "addr \<Rightarrow> u32 \<Rightarrow> u32 \<Rightarrow> u32 \<Rightarrow> sched \<Rightarrow> (control \<times> sched) res" where
  "yield tasks ip sp bp s =
     (if current s = 0 then Inl NullDeref
      else task_switch tasks ip sp bp (s\<lparr>mm := store (current s + 20) 0 (mm s)\<rparr>))"

section \<open>The events of a running kernel\<close>

text \<open>
  What changes the scheduler's state between two moments of a running kernel: a timer interrupt, a
  task that yields, creates a thread or allocates memory, and a task that writes to memory that
  holds neither the heap's nor the scheduler's data. The contexts are arbitrary, with an
  instruction pointer that is not the dummy value; a thread is created on a stack pointer inside
  the creator's stack, word-aligned as the stack itself.
\<close>

inductive sched_step :: "addr \<Rightarrow> sched \<Rightarrow> sched \<Rightarrow> bool" for tasks where
  step_tick: "task_switch tasks ip sp bp s = Inr (c, s') \<Longrightarrow> ip \<noteq> DUMMY_EIP \<Longrightarrow> sched_step tasks s s'"
| step_yield: "yield tasks ip sp bp s = Inr (c, s') \<Longrightarrow> ip \<noteq> DUMMY_EIP \<Longrightarrow> sched_step tasks s s'"
| step_create: "thread_create task copy_sp ip sp bp s = Inr s' \<Longrightarrow> load32 (ram (mm s)) (current s + 12) \<le> copy_sp \<Longrightarrow>
    (unat copy_sp - unat (load32 (ram (mm s)) (current s + 12))) mod 4 = 0 \<Longrightarrow> sched_step tasks s s'"
| step_malloc: "kmalloc (mm s) n = Inr (p, k) \<Longrightarrow> 0 < n \<Longrightarrow> sched_step tasks s (s\<lparr>mm := k\<rparr>)"
| step_write: "(\<And>a. a \<notin> kstatic (mm s) - span tasks 4 \<Longrightarrow> f (ram (mm s)) a = ram (mm s) a) \<Longrightarrow>
    sched_step tasks s (s\<lparr>mm := ram_update f (mm s)\<rparr>)"

inductive_cases sched_stepE: "sched_step tasks s s'"

end
