(* ===== verification/TaskProps.thy ===== *)
theory TaskProps
  imports Task
begin

text \<open>
  The invariant of the scheduler and what each of its operations does to the task list: the
  client of the memory contract \<open>paged\<close>, whose interpretation in KPages gives the facts for the
  kernel's own memory.
\<close>

section \<open>The invariant of the task list\<close>

definition stack_of :: "mem \<Rightarrow> addr \<Rightarrow> addr" where
  "stack_of m t = load32 m (t + 12)"

text \<open>
  Every task is an object of the heap with a stack of its own, a page of the memory that is not
  the heap's, which does not hold the head of the list.
\<close>

definition queue_ok ::
    "u32 \<Rightarrow> mem \<Rightarrow> (addr \<times> addr set) set \<Rightarrow> addr set \<Rightarrow> addr \<Rightarrow> addr list \<Rightarrow> bool" where
  "queue_ok sz m own stat h ts \<longleftrightarrow>
     list_at m h next_task ts \<and> distinct ts \<and> span h 4 \<subseteq> stat \<and>
     (\<forall>t \<in> set ts. \<exists>B. (t, B) \<in> own \<and> span t sizeof_task \<subseteq> B) \<and>
     (\<forall>t \<in> set ts. span (stack_of m t) sz \<subseteq> stat \<and> span (stack_of m t) sz \<inter> span h 4 = {} \<and>
        unat (stack_of m t) mod unat sz = 0) \<and>
     (\<forall>t \<in> set ts. \<forall>u \<in> set ts. t \<noteq> u \<longrightarrow> span (stack_of m t) sz \<inter> span (stack_of m u) sz = {})"

lemma queue_okD:
  assumes "queue_ok sz m own stat h ts"
  shows "list_at m h next_task ts" "distinct ts" "span h 4 \<subseteq> stat"
    "t \<in> set ts \<Longrightarrow> \<exists>B. (t, B) \<in> own \<and> span t sizeof_task \<subseteq> B"
    "t \<in> set ts \<Longrightarrow> span (stack_of m t) sz \<subseteq> stat"
    "t \<in> set ts \<Longrightarrow> span (stack_of m t) sz \<inter> span h 4 = {}"
    "t \<in> set ts \<Longrightarrow> unat (stack_of m t) mod unat sz = 0"
    "t \<in> set ts \<Longrightarrow> u \<in> set ts \<Longrightarrow> t \<noteq> u \<Longrightarrow> span (stack_of m t) sz \<inter> span (stack_of m u) sz = {}"
  using assms unfolding queue_ok_def by blast+

text \<open>The words of a task: its fields do not overlap each other or the list entry.\<close>

lemma field_inside:
  assumes "unat i + unat n \<le> 32"
  shows "span (t + i) n \<subseteq> span t sizeof_task"
proof -
  have "unat i + unat n < 2 ^ 32" using assms by simp
  from in_span_offset [OF this] show ?thesis
    using assms by (auto simp: in_span sizeof_task_def word_less_nat_alt)
qed

lemma field_apart:
  assumes "unat i + unat n \<le> unat j" "unat j + unat l < 2 ^ 32"
  shows "span (t + i) n \<inter> span (t + j) l = {}" "span (t + j) l \<inter> span (t + i) n = {}"
proof -
  have "unat i + unat n < 2 ^ 32" using assms by simp
  from in_span_offset [OF this] in_span_offset [OF assms(2)]
  show "span (t + i) n \<inter> span (t + j) l = {}" "span (t + j) l \<inter> span (t + i) n = {}"
    using assms(1) by (auto simp: word_le_nat_alt)
qed

lemma words_of_task:
  "span t 4 \<subseteq> span t sizeof_task" "span (t + 4) 4 \<subseteq> span t sizeof_task" "span (t + 8) 4 \<subseteq> span t sizeof_task"
  "span (t + 12) 4 \<subseteq> span t sizeof_task" "span (t + 16) 4 \<subseteq> span t sizeof_task"
  "span (t + 20) 4 \<subseteq> span t sizeof_task" "cell next_task t \<subseteq> span t sizeof_task"
  using field_inside [of 0 4 t] by (simp_all add: field_inside cell_def next_task_def)

lemma task_at_cong: "(\<And>a. a \<in> span t 24 \<Longrightarrow> m' a = m a) \<Longrightarrow> task_at m' t = task_at m t"
proof -
  assume same: "\<And>a. a \<in> span t 24 \<Longrightarrow> m' a = m a"
  have "span (t + i) 4 \<subseteq> span t 24" if "unat i + 4 \<le> 24" for i
  proof -
    have "unat i + unat (4 :: u32) < 2 ^ 32" using that by simp
    from in_span_offset [OF this] show ?thesis using that by (auto simp: in_span word_less_nat_alt)
  qed
  then have "load32 m' (t + i) = load32 m (t + i)" if "unat i + 4 \<le> 24" for i
    using that same by (intro load32_cong) blast
  from this [of 0] this [of 4] this [of 8] this [of 12] this [of 16] this [of 20]
  show ?thesis by (simp add: task_at_def)
qed

lemma task_at_span: "(\<And>a. a \<in> span t sizeof_task \<Longrightarrow> m' a = m a) \<Longrightarrow> task_at m' t = task_at m t"
  by (rule task_at_cong) (auto simp: in_span sizeof_task_def word_less_nat_alt)

text \<open>Memory that keeps the head, the entries and the stack pointers keeps the invariant.\<close>

lemma queue_ok_change:
  assumes q: "queue_ok sz m own stat h ts"
    and own: "\<forall>t B. t \<in> set ts \<longrightarrow> (t, B) \<in> own \<longrightarrow> (t, B) \<in> own'" and stat: "stat \<subseteq> stat'"
    and head: "\<forall>a \<in> span h 4. m' a = m a"
    and entry: "\<forall>t \<in> set ts. \<forall>a \<in> cell next_task t \<union> span (t + 12) 4. m' a = m a"
  shows "queue_ok sz m' own' stat' h ts"
proof -
  have "list_at m' h next_task ts"
    using queue_okD(1) [OF q] list_at_frame [of h m' m ts next_task] head entry by blast
  moreover have st: "stack_of m' t = stack_of m t" if "t \<in> set ts" for t
    using that entry unfolding stack_of_def by (intro load32_cong) blast
  moreover have "span h 4 \<subseteq> stat'" using queue_okD(3) [OF q] stat by blast
  moreover have "\<forall>t \<in> set ts. \<exists>B. (t, B) \<in> own' \<and> span t sizeof_task \<subseteq> B"
    using queue_okD(4) [OF q] own by blast
  moreover have "\<forall>t \<in> set ts. span (stack_of m t) sz \<subseteq> stat'" using queue_okD(5) [OF q] stat by blast
  ultimately show ?thesis
    using queue_okD(2,6,7,8) [OF q] unfolding queue_ok_def by simp
qed

lemma queue_ok_kept:
  assumes q: "queue_ok sz m own stat h ts" and kept: "others_kept m own m' own' ps" "ps \<inter> set ts = {}"
    and stat: "stat \<subseteq> stat'" and head: "\<forall>a \<in> span h 4. m' a = m a"
  shows "queue_ok sz m' own' stat' h ts" "t \<in> set ts \<Longrightarrow> task_at m' t = task_at m t"
proof -
  have other: "t \<notin> ps" if "t \<in> set ts" for t using that kept(2) by blast
  have same: "m' a = m a" if "t \<in> set ts" "a \<in> span t sizeof_task" for t a
  proof -
    note pre = that
    obtain B where B: "(t, B) \<in> own" "span t sizeof_task \<subseteq> B" using queue_okD(4) [OF q pre(1)] by blast
    show ?thesis by (rule others_keptD(2) [OF kept(1) B(1) other [OF pre(1)]]) (use B(2) pre(2) in blast)
  qed
  have "\<forall>t B. t \<in> set ts \<longrightarrow> (t, B) \<in> own \<longrightarrow> (t, B) \<in> own'"
    by (intro allI impI others_keptD(1) [OF kept(1)] other)
  moreover have "\<forall>t \<in> set ts. \<forall>a \<in> cell next_task t \<union> span (t + 12) 4. m' a = m a"
    using same words_of_task(4,7) by blast
  ultimately show "queue_ok sz m' own' stat' h ts"
    using queue_ok_change [OF q _ stat head] by blast
  show "t \<in> set ts \<Longrightarrow> task_at m' t = task_at m t"
    using same by (intro task_at_span) blast
qed

context paged
begin

lemma queue_separate:
  assumes "inv s" "queue_ok sz (memory s) (owns s) (static s) h ts"
    and "\<forall>t \<in> set us. \<exists>B. (t, B) \<in> owns s \<and> span t sizeof_task \<subseteq> B" "distinct us"
  shows "separate h next_task us"
proof -
  note q = queue_okD [OF assms(2)]
  have "span h 4 \<inter> cell next_task t = {}" if "t \<in> set us" for t
  proof -
    note pre = that
    obtain B where "(t, B) \<in> owns s" "span t sizeof_task \<subseteq> B" using assms(3) pre by blast
    then show ?thesis using owned_not_static [OF assms(1), of t B] q(3) words_of_task(7) [of t] by blast
  qed
  moreover have "cell next_task t \<inter> cell next_task u = {}" if "t \<in> set us" "u \<in> set us" "t \<noteq> u" for t u
  proof -
    note pre = that
    obtain B where "(t, B) \<in> owns s" "span t sizeof_task \<subseteq> B" using assms(3) pre(1) by blast
    moreover obtain C where "(u, C) \<in> owns s" "span u sizeof_task \<subseteq> C" using assms(3) pre(2) by blast
    ultimately show ?thesis
      using owns_disjoint [OF assms(1), of t B u C] pre(3) words_of_task(7) [of t] words_of_task(7) [of u] by blast
  qed
  ultimately show ?thesis using assms(4) unfolding separate_def by blast
qed

text \<open>A store to a task that avoids its list entry and its stack pointer.\<close>

lemma queue_put:
  fixes v :: u32
  assumes "inv s" "queue_ok sz (memory s) (owns s) (static s) h ts" "t \<in> set ts"
    and "span a 4 \<subseteq> span t sizeof_task" "span a 4 \<inter> cell next_task t = {}" "span a 4 \<inter> span (t + 12) 4 = {}"
  defines "s' \<equiv> put32 update s a v"
  shows "inv s'" "owns s' = owns s" "static s' = static s" "memory s' = store32 (memory s) a v"
    "queue_ok sz (memory s') (owns s') (static s') h ts"
    "\<And>u. u \<in> set ts \<Longrightarrow> u \<noteq> t \<Longrightarrow> task_at (memory s') u = task_at (memory s) u"
    "\<And>b. b \<in> static s \<Longrightarrow> memory s' b = memory s b"
    "others_kept (memory s) (owns s) (memory s') (owns s') {t}"
proof -
  obtain B where B: "(t, B) \<in> owns s" "span t sizeof_task \<subseteq> B" using queue_okD(4) [OF assms(2,3)] by blast
  then have aB: "span a 4 \<subseteq> B" using assms(4) by blast
  note put = put32_kept [OF assms(1) B(1) aB, of v, folded s'_def]
  show "inv s'" "owns s' = owns s" "memory s' = store32 (memory s) a v" by (fact put)+
  have out: "store32 (memory s) a v b = memory s b" if "b \<notin> B" for b
    using aB that by (intro store32_outside) blast
  show stat: "static s' = static s"
    unfolding s'_def put32_def by (rule update_owned_static [OF assms(1) B(1)]) (rule out)
  show same: "memory s' b = memory s b" if "b \<in> static s" for b
    using that out owned_not_static [OF assms(1) B(1)] unfolding put(3) by blast
  have other: "memory s' b = memory s b" if "u \<in> set ts" "u \<noteq> t" "b \<in> span u sizeof_task" for u b
    using queue_okD(4) [OF assms(2) that(1)] others_keptD(2) [OF put(4)] that by blast
  show "others_kept (memory s) (owns s) (memory s') (owns s') {t}" by (rule put(4))
  have "memory s' b = memory s b" if "b \<in> cell next_task t \<union> span (t + 12) 4" for b
    unfolding put(3) by (rule store32_outside) (use that assms(5,6) in blast)
  then show "queue_ok sz (memory s') (owns s') (static s') h ts"
    using other words_of_task(4,7) same queue_okD(3) [OF assms(2)] unfolding put(2) stat
    by (intro queue_ok_change [OF assms(2)]) blast+
  show "task_at (memory s') u = task_at (memory s) u" if "u \<in> set ts" "u \<noteq> t" for u
    using other [OF that] by (rule task_at_span)
qed

text \<open>The insertion of a task that is not in the list yet, with a stack of its own, after the first ones.\<close>

lemma queue_insert:
  assumes inv: "inv s" and q: "queue_ok sz (memory s) (owns s) (static s) h (ys @ zs)"
    and x: "x \<notin> set (ys @ zs)" "x \<noteq> 0" "(x, B) \<in> owns s" "span x sizeof_task \<subseteq> B"
    and st: "span (stack_of (memory s) x) sz \<subseteq> static s" "span (stack_of (memory s) x) sz \<inter> span h 4 = {}"
      "unat (stack_of (memory s) x) mod unat sz = 0"
      "\<forall>u \<in> set (ys @ zs). span (stack_of (memory s) u) sz \<inter> span (stack_of (memory s) x) sz = {}"
    and f: "list_at (f (memory s)) h next_task (ys @ x # zs)"
      "\<forall>a. a \<notin> touched h next_task ys x zs \<longrightarrow> f (memory s) a = memory s a"
  shows "queue_ok sz (f (memory s)) (owns s) (static s) h (ys @ x # zs)"
    "u \<in> set (ys @ x # zs) \<Longrightarrow> task_at (f (memory s)) u = task_at (memory s) u"
proof -
  note qd = queue_okD [OF q]
  let ?us = "ys @ x # zs"
  have us: "\<forall>t \<in> set ?us. \<exists>B. (t, B) \<in> owns s \<and> span t sizeof_task \<subseteq> B" "distinct ?us"
    using qd(2,4) x by auto
  note sep = separateD [OF queue_separate [OF inv q us]]
  have head: "span h 4 \<inter> span u sizeof_task = {}" if "u \<in> set ?us" for u
  proof -
    note pre = that
    obtain C where "(u, C) \<in> owns s" "span u sizeof_task \<subseteq> C" using us(1) pre by blast
    then show ?thesis using owned_not_static [OF inv, of u C] qd(3) by blast
  qed
  have apart: "span t sizeof_task \<inter> span u sizeof_task = {}" if "t \<in> set ?us" "u \<in> set ?us" "t \<noteq> u" for t u
  proof -
    note pre = that
    obtain C where "(t, C) \<in> owns s" "span t sizeof_task \<subseteq> C" using us(1) pre(1) by blast
    moreover obtain D where "(u, D) \<in> owns s" "span u sizeof_task \<subseteq> D" using us(1) pre(2) by blast
    ultimately show ?thesis using owns_disjoint [OF inv, of t C u D] pre(3) by blast
  qed
  have entry: "span u 24 \<inter> cell next_task t = {}" if "t \<in> set ?us" "u \<in> set ?us" for t u
  proof (cases "t = u")
    case True
    then show ?thesis using field_apart(1) [of 0 24 24 8 u] by (simp add: cell_def next_task_def)
  next
    case False
    have "span u 24 \<subseteq> span u sizeof_task" using field_inside [of 0 24 u] by simp
    then show ?thesis using apart [OF that False] words_of_task(7) [of t] by blast
  qed
  have words: "touched h next_task ys x zs \<subseteq> span h 4 \<union> (\<Union>t \<in> set ?us. cell next_task t)"
    by (rule order_trans [OF touched_cells [of _ _ _ "set ?us"]]) auto
  have out: "f (memory s) a = memory s a" if "u \<in> set ?us" "a \<in> span u 24" for u a
  proof -
    have "a \<in> span u sizeof_task" using that(2) field_inside [of 0 24 u] by auto
    then have "a \<notin> span h 4" using head [OF that(1)] by blast
    moreover have "a \<notin> cell next_task t" if "t \<in> set ?us" for t
      using entry [OF that \<open>u \<in> set ?us\<close>] \<open>a \<in> span u 24\<close> by blast
    ultimately have "a \<notin> touched h next_task ys x zs" using words by blast
    then show ?thesis using f(2) by blast
  qed
  show same: "task_at (f (memory s)) u = task_at (memory s) u" if "u \<in> set ?us" for u
    using out [OF that] by (rule task_at_cong)
  have "stack_of (f (memory s)) u = stack_of (memory s) u" if "u \<in> set ?us" for u
    using same [OF that] by (simp add: task_at_def stack_of_def)
  then show "queue_ok sz (f (memory s)) (owns s) (static s) h ?us"
    unfolding queue_ok_def using f(1) us qd(3,5-8) st by (auto simp: Int_commute)
qed

end

section \<open>The scheduler's invariant\<close>

definition tasks_ok :: "addr \<Rightarrow> kmem \<Rightarrow> addr list \<Rightarrow> bool" where
  "tasks_ok h k ts \<longleftrightarrow> kmem_inv k \<and> queue_ok PAGE_SIZE (ram k) (kowns k) (kstatic k) h ts"

definition sched_ok :: "addr \<Rightarrow> sched \<Rightarrow> addr list \<Rightarrow> nat \<Rightarrow> bool" where
  "sched_ok h s ts i \<longleftrightarrow> tasks_ok h (mm s) ts \<and> i < length ts \<and> current s = ts ! i"

definition tasks_of :: "kmem \<Rightarrow> addr list \<Rightarrow> task list" where
  "tasks_of k ts = map (task_at (ram k)) ts"

lemma length_tasks_of [simp]: "length (tasks_of k ts) = length ts"
  by (simp add: tasks_of_def)

lemma tasks_of_nth [simp]: "i < length ts \<Longrightarrow> tasks_of k ts ! i = task_at (ram k) (ts ! i)"
  by (simp add: tasks_of_def)

lemma word_apart:
  assumes "unat i + 4 \<le> unat j \<or> unat j + 4 \<le> unat i" "unat i + 4 < 2 ^ 32" "unat j + 4 < 2 ^ 32"
  shows "load32 (store32 m (t + i) v) (t + j) = load32 m (t + j)"
  using field_apart [of i 4 j 4 t] field_apart [of j 4 i 4 t] assms by (intro load32_apart) auto

lemma word_apart_base: "4 \<le> unat j \<Longrightarrow> unat j + 4 < 2 ^ 32 \<Longrightarrow>
    load32 (store32 m (t + j) v) t = load32 m t \<and> load32 (store32 m t v) (t + j) = load32 m (t + j)"
  using word_apart [of 0 j m t v] word_apart [of j 0 m t v] by simp

lemma task_at_store:
  "task_at (store32 m t v) t = (task_at m t)\<lparr>t_eip := v\<rparr>"
  "task_at (store32 m (t + 4) v) t = (task_at m t)\<lparr>t_esp := v\<rparr>"
  "task_at (store32 m (t + 8) v) t = (task_at m t)\<lparr>t_ebp := v\<rparr>"
  "task_at (store32 m (t + 12) v) t = (task_at m t)\<lparr>t_stack_start := v\<rparr>"
  "task_at (store32 m (t + 16) v) t = (task_at m t)\<lparr>t_id := v\<rparr>"
  "task_at (store32 m (t + 20) v) t = (task_at m t)\<lparr>t_ticks := v\<rparr>"
  by (simp_all add: task_at_def word_apart word_apart_base)

section \<open>Steps of the kernel's memory\<close>

text \<open>Memory that evolved: nothing static changed, and no object but the given ones.\<close>

definition evolves :: "kmem \<Rightarrow> kmem \<Rightarrow> addr set \<Rightarrow> bool" where
  "evolves k k' ps \<longleftrightarrow> kmem_inv k' \<and> kstatic k \<subseteq> kstatic k' \<and> (\<forall>a \<in> kstatic k. ram k' a = ram k a) \<and>
     others_kept (ram k) (kowns k) (ram k') (kowns k') ps"

lemma evolves_trans:
  assumes "evolves k k' ps" "evolves k' k'' qs"
  shows "evolves k k'' (ps \<union> qs)"
proof -
  have "others_kept (ram k) (kowns k) (ram k') (kowns k') (ps \<union> qs)"
    "others_kept (ram k') (kowns k') (ram k'') (kowns k'') (ps \<union> qs)"
    using assms by (auto simp: evolves_def intro: others_kept_mono)
  from others_kept_trans [OF this] show ?thesis using assms unfolding evolves_def by (simp add: subset_iff)
qed

lemma evolves_objs:
  assumes "evolves k k' S" "\<And>q C. (q, C) \<in> kowns k \<Longrightarrow> q \<in> S \<Longrightarrow> q \<in> T"
  shows "evolves k k' T"
proof -
  have "others_kept (ram k) (kowns k) (ram k') (kowns k') S" using assms(1) by (simp add: evolves_def)
  then have "others_kept (ram k) (kowns k) (ram k') (kowns k') T"
    unfolding others_kept_def using assms(2) by blast
  then show ?thesis using assms(1) by (simp add: evolves_def)
qed

lemma evolves_tasks:
  assumes ev: "evolves k k' ps" and ok: "tasks_ok h k ts" and "ps \<inter> set ts = {}"
  shows "tasks_ok h k' ts" "tasks_of k' ts = tasks_of k ts"
proof -
  have q: "queue_ok PAGE_SIZE (ram k) (kowns k) (kstatic k) h ts" using ok by (simp add: tasks_ok_def)
  have e: "kmem_inv k'" "kstatic k \<subseteq> kstatic k'" "\<forall>a \<in> kstatic k. ram k' a = ram k a"
    "others_kept (ram k) (kowns k) (ram k') (kowns k') ps" using ev by (simp_all add: evolves_def)
  have "\<forall>a \<in> span h 4. ram k' a = ram k a" using queue_okD(3) [OF q] e(3) by blast
  note kept = queue_ok_kept [OF q e(4) assms(3) e(2) this]
  show "tasks_ok h k' ts" using kept(1) e(1) by (simp add: tasks_ok_def)
  show "tasks_of k' ts = tasks_of k ts" using kept(2) by (simp add: tasks_of_def)
qed

lemma kmalloc_evolves:
  assumes "kmem_inv k" "0 < n" "kmalloc k n = Inr (p, k')"
  obtains B where "evolves k k' {}" "kstatic k' = kstatic k" "kowns k' = insert (p, B) (kowns k)" "p \<noteq> 0"
    "span p n \<subseteq> B" "\<And>q C. (q, C) \<in> kowns k \<Longrightarrow> q \<noteq> p"
proof (rule kernel.malloc_new [OF assms])
  fix B assume B: "kmem_inv k'" "kowns k' = insert (p, B) (kowns k)" "p \<noteq> 0" "span p n \<subseteq> B"
    "\<And>q C. (q, C) \<in> kowns k \<Longrightarrow> q \<noteq> p \<and> B \<inter> C = {}" "others_kept (ram k) (kowns k) (ram k') (kowns k') {}"
  then show thesis using that kernel_pages.malloc_static [OF assms] by (simp add: evolves_def)
qed

lemma update_evolves:
  assumes "kmem_inv k" "(p, B) \<in> kowns k" "\<forall>a. a \<notin> B \<longrightarrow> f (ram k) a = ram k a"
  shows "evolves k (ram_update f k) {p}" "kowns (ram_update f k) = kowns k" "kstatic (ram_update f k) = kstatic k"
proof -
  have out: "f (ram k) a = ram k a" if "a \<notin> B" for a using assms(3) that by blast
  note u = kernel.update_kept [OF assms(1,2), of f, OF out]
  show own: "kowns (ram_update f k) = kowns k" by (rule u(2))
  show stat: "kstatic (ram_update f k) = kstatic k"
    by (rule kernel_pages.update_owned_static [OF assms(1,2)]) (rule out)
  have "f (ram k) a = ram k a" if "a \<in> kstatic k" for a
    using that out kernel_pages.owned_not_static [OF assms(1,2)] by blast
  then show "evolves k (ram_update f k) {p}" using u(1,3) unfolding evolves_def stat by simp
qed

lemma store_evolves:
  assumes "kmem_inv k" "(p, B) \<in> kowns k" "span a 4 \<subseteq> B"
  shows "evolves k (store a v k) {p}" "kowns (store a v k) = kowns k" "kstatic (store a v k) = kstatic k"
    "ram (store a v k) = store32 (ram k) a v" "pages (store a v k) = pages k"
proof -
  have "\<forall>b. b \<notin> B \<longrightarrow> store32 (ram k) a v b = ram k b" using assms(3) by (auto intro: store32_outside)
  from update_evolves [OF assms(1,2), of "\<lambda>m. store32 m a v", OF this]
  show "evolves k (store a v k) {p}" "kowns (store a v k) = kowns k" "kstatic (store a v k) = kstatic k"
    by (simp_all add: store_def put32_def)
qed (simp_all add: store_def put32_def)

section \<open>Stores to tasks\<close>

lemma map_update_one:
  assumes "distinct ts" "i < length ts" "\<And>u. u \<in> set ts \<Longrightarrow> u \<noteq> ts ! i \<Longrightarrow> f' u = f u"
  shows "map f' ts = (map f ts)[i := f' (ts ! i)]"
  using assms by (intro nth_equalityI) (auto simp: nth_list_update nth_eq_iff_index_eq)

lemma store_task:
  fixes v :: u32
  assumes ok: "tasks_ok h k ts" and i: "i < length ts" and off: "off \<in> {0, 4, 8, 16, 20}"
  defines "k' \<equiv> store (ts ! i + off) v k"
  shows "tasks_ok h k' ts" "kowns k' = kowns k" "kstatic k' = kstatic k" "pages k' = pages k"
    "ram k' = store32 (ram k) (ts ! i + off) v"
    "tasks_of k' ts = (tasks_of k ts)[i := task_at (ram k') (ts ! i)]"
    "evolves k k' {ts ! i}"
proof -
  let ?t = "ts ! i"
  have inv: "kmem_inv k" and q: "queue_ok PAGE_SIZE (ram k) (kowns k) (kstatic k) h ts"
    using ok by (auto simp: tasks_ok_def)
  have "unat off + 4 \<le> 24" "unat off + 4 \<le> 12 \<or> 12 + 4 \<le> unat off" using off by auto
  then have a: "span (?t + off) 4 \<subseteq> span ?t sizeof_task" "span (?t + off) 4 \<inter> cell next_task ?t = {}"
    "span (?t + off) 4 \<inter> span (?t + 12) 4 = {}"
    using field_inside [of off 4 ?t] field_apart(1) [of off 4 24 8 ?t] field_apart [of off 4 12 4 ?t]
      field_apart(2) [of 12 4 off 4 ?t]
    by (auto simp: cell_def next_task_def)
  have t: "?t \<in> set ts" using i by simp
  note put = kernel_pages.queue_put [OF inv q t a, where v = v, folded store_def, folded k'_def]
  show "tasks_ok h k' ts" using put(1,5) by (simp add: tasks_ok_def)
  show "kowns k' = kowns k" "kstatic k' = kstatic k" "ram k' = store32 (ram k) (?t + off) v" by (fact put)+
  obtain B where "(?t, B) \<in> kowns k" "span ?t sizeof_task \<subseteq> B" using queue_okD(4) [OF q t] by blast
  then show "evolves k k' {?t}" using store_evolves(1) [OF inv, of ?t B "?t + off"] a(1) unfolding k'_def by blast
  show "pages k' = pages k" by (simp add: k'_def store_def put32_def)
  show "tasks_of k' ts = (tasks_of k ts)[i := task_at (ram k') ?t]"
    unfolding tasks_of_def using queue_okD(2) [OF q] i put(6) by (intro map_update_one) auto
qed

text \<open>Several stores to one task, as one change of its record.\<close>

definition record_step :: "addr \<Rightarrow> addr list \<Rightarrow> nat \<Rightarrow> (task \<Rightarrow> task) \<Rightarrow> kmem \<Rightarrow> kmem \<Rightarrow> bool" where
  "record_step h ts i f k k' \<longleftrightarrow> tasks_ok h k' ts \<and> evolves k k' {ts ! i} \<and> kowns k' = kowns k \<and> kstatic k' = kstatic k \<and>
     pages k' = pages k \<and> tasks_of k' ts = (tasks_of k ts)[i := f (tasks_of k ts ! i)]"

lemma record_stepD:
  assumes "record_step h ts i f k k'"
  shows "tasks_ok h k' ts" "evolves k k' {ts ! i}" "kowns k' = kowns k" "kstatic k' = kstatic k" "pages k' = pages k"
    "tasks_of k' ts = (tasks_of k ts)[i := f (tasks_of k ts ! i)]"
  using assms by (simp_all add: record_step_def)

lemma record_step_trans [trans]:
  assumes "record_step h ts i f k k'" "record_step h ts i g k' k''" "i < length ts"
  shows "record_step h ts i (\<lambda>x. g (f x)) k k''"
  using assms evolves_trans [of k k' "{ts ! i}" k'' "{ts ! i}"] by (simp add: record_step_def)

lemma record_stores:
  assumes "tasks_ok h k ts" "i < length ts"
  shows "record_step h ts i (t_eip_update (\<lambda>_. v)) k (store (ts ! i) v k)"
    "record_step h ts i (t_esp_update (\<lambda>_. v)) k (store (ts ! i + 4) v k)"
    "record_step h ts i (t_ebp_update (\<lambda>_. v)) k (store (ts ! i + 8) v k)"
    "record_step h ts i (t_ticks_update (\<lambda>_. v)) k (store (ts ! i + 20) v k)"
  using store_task [OF assms, of 0 v] store_task [OF assms, of 4 v] store_task [OF assms, of 8 v] store_task [OF assms, of 20 v]
    assms(2)
  by (simp_all add: record_step_def task_at_store)

section \<open>Switching\<close>

text \<open>The round-robin discipline, on the list of the tasks' records and the index of the current one.\<close>

definition rr_switch :: "u32 \<Rightarrow> u32 \<Rightarrow> u32 \<Rightarrow> task list \<Rightarrow> nat \<Rightarrow> control \<times> task list \<times> nat" where
  "rr_switch ip sp bp xs i =
     (if t_ticks (xs ! i) \<noteq> 0
      then (Return, xs[i := (xs ! i)\<lparr>t_ticks := t_ticks (xs ! i) - 1\<rparr>], i)
      else
        (let j = Suc i mod length xs;
             xs = xs[j := (xs ! j)\<lparr>t_ticks := 50\<rparr>];
             xs = xs[i := (xs ! i)\<lparr>t_eip := ip, t_esp := sp, t_ebp := bp\<rparr>]
         in (Jump (perform_task_switch (t_eip (xs ! j)) (t_ebp (xs ! j)) (t_esp (xs ! j))), xs, j)))"

lemma next_of_list:
  assumes "list_at m h fld ts" "i < length ts"
  defines "nx \<equiv> LIST_NEXT m (ts ! i) fld"
  shows "(if nx = 0 then LIST_FIRST m h else nx) = ts ! (Suc i mod length ts)"
proof -
  have split: "ts = take i ts @ ts ! i # drop (Suc i) ts" using assms(2) by (rule id_take_nth_drop)
  have nx: "nx = (if drop (Suc i) ts = [] then 0 else hd (drop (Suc i) ts))"
    unfolding nx_def by (rule list_at_next [of m h fld "take i ts"]) (use assms(1) split in simp)
  show ?thesis
  proof (cases "Suc i < length ts")
    case True
    then have "nx = ts ! Suc i" using nx by (simp add: hd_drop_conv_nth)
    moreover have "ts ! Suc i \<noteq> 0" using list_at_nonzero [OF assms(1)] nth_mem [OF True] by metis
    ultimately show ?thesis using True by simp
  next
    case False
    then have "nx = 0" "Suc i = length ts" using nx assms(2) by auto
    moreover have "ts \<noteq> []" using assms(2) by auto
    ultimately show ?thesis using list_at_first [OF assms(1)] by (simp add: hd_conv_nth)
  qed
qed

text \<open>The stores of the switch itself: a full slice for the next task, the context of the current one.\<close>

lemma switch_stores:
  fixes ip sp bp :: u32
  assumes "tasks_ok h k ts" "i < length ts" "j < length ts"
  defines "k' \<equiv> store (ts ! i + 8) bp (store (ts ! i + 4) sp (store (ts ! i) ip (store (ts ! j + 20) TICKS_PER_SLICE k)))"
    and "xs \<equiv> (tasks_of k ts)[j := (tasks_of k ts ! j)\<lparr>t_ticks := 50\<rparr>]"
  shows "tasks_ok h k' ts" "evolves k k' (set ts)" "kowns k' = kowns k" "kstatic k' = kstatic k" "pages k' = pages k"
    "tasks_of k' ts = xs[i := (xs ! i)\<lparr>t_eip := ip, t_esp := sp, t_ebp := bp\<rparr>]"
proof -
  define k1 where "k1 = store (ts ! j + 20) TICKS_PER_SLICE k"
  note r1 = record_stepD [OF record_stores(4) [OF assms(1,3), of TICKS_PER_SLICE], folded k1_def]
  note s2 = record_stores(1) [OF r1(1) assms(2), of ip]
  note s3 = record_stores(2) [OF record_stepD(1) [OF s2] assms(2), of sp]
  note s4 = record_stores(3) [OF record_stepD(1) [OF s3] assms(2), of bp]
  note r4 = record_stepD [OF record_step_trans [OF record_step_trans [OF s2 s3 assms(2)] s4 assms(2)]]
  have k': "k' = store (ts ! i + 8) bp (store (ts ! i + 4) sp (store (ts ! i) ip k1))" by (simp add: k'_def k1_def)
  show "tasks_ok h k' ts" using r4(1) unfolding k' .
  show "kowns k' = kowns k" "kstatic k' = kstatic k" "pages k' = pages k" unfolding k' using r4(3-5) r1(3-5) by simp_all
  show "evolves k k' (set ts)"
    unfolding k' by (rule evolves_objs [OF evolves_trans [OF r1(2) r4(2)]]) (use assms(2,3) in auto)
  show "tasks_of k' ts = xs[i := (xs ! i)\<lparr>t_eip := ip, t_esp := sp, t_ebp := bp\<rparr>]"
    unfolding k' r4(6) using r1(6) by (simp add: xs_def TICKS_PER_SLICE_def)
qed

lemma task_switch_rr:
  assumes ok: "sched_ok h s ts i" and ip: "ip \<noteq> DUMMY_EIP"
  obtains s' c xs j where "task_switch h ip sp bp s = Inr (c, s')" "sched_ok h s' ts j"
    "rr_switch ip sp bp (tasks_of (mm s) ts) i = (c, xs, j)" "tasks_of (mm s') ts = xs"
    "kowns (mm s') = kowns (mm s)" "kstatic (mm s') = kstatic (mm s)" "pages (mm s') = pages (mm s)"
    "vectors s' = vectors s" "io_log s' = io_log s" "evolves (mm s) (mm s') (set ts)"
proof -
  let ?t = "ts ! i" and ?k = "mm s"
  have t: "tasks_ok h ?k ts" "i < length ts" "current s = ?t" using ok by (auto simp: sched_ok_def)
  have list: "list_at (ram ?k) h next_task ts" using t(1) queue_okD(1) by (auto simp: tasks_ok_def)
  have nz: "?t \<noteq> 0" using list_at_nonzero [OF list] nth_mem [OF t(2)] by metis
  have ticks: "t_ticks (task_at (ram ?k) ?t) = load32 (ram ?k) (?t + 20)" by (simp add: task_at_def)
  show thesis
  proof (cases "load32 (ram ?k) (?t + 20) = 0")
    case False
    let ?k' = "store (?t + 20) (load32 (ram ?k) (?t + 20) - 1) ?k"
    note st = record_stepD [OF record_stores(4) [OF t(1,2), of "load32 (ram ?k) (?t + 20) - 1"]]
    have "task_switch h ip sp bp s = Inr (Return, s\<lparr>mm := ?k'\<rparr>)"
      using nz t(3) False by (simp add: task_switch_def Let_def)
    moreover have "sched_ok h (s\<lparr>mm := ?k'\<rparr>) ts i" using st(1) t by (simp add: sched_ok_def)
    moreover have "evolves ?k ?k' (set ts)" by (rule evolves_objs [OF st(2)]) (use t(2) in auto)
    ultimately show thesis
      using that st t False by (auto simp: rr_switch_def ticks)
  next
    case True
    define j where "j = Suc i mod length ts"
    have j: "j < length ts" unfolding j_def by (rule mod_less_divisor) (use t(2) in linarith)
    have nx: "(if LIST_NEXT (ram ?k) ?t next_task = 0 then LIST_FIRST (ram ?k) h else LIST_NEXT (ram ?k) ?t next_task) = ts ! j"
      using next_of_list [OF list t(2)] by (simp add: j_def)
    have nz2: "ts ! j \<noteq> 0" using list_at_nonzero [OF list] nth_mem [OF j] by metis
    let ?k4 = "store (?t + 8) bp (store (?t + 4) sp (store ?t ip (store (ts ! j + 20) TICKS_PER_SLICE ?k)))"
    let ?xs = "(tasks_of ?k ts)[j := (tasks_of ?k ts ! j)\<lparr>t_ticks := 50\<rparr>]"
    let ?ys = "?xs[i := (?xs ! i)\<lparr>t_eip := ip, t_esp := sp, t_ebp := bp\<rparr>]"
    note sw = switch_stores [OF t(1,2) j, of bp sp ip]
    have "task_at (ram ?k4) (ts ! j) = ?ys ! j" using sw(6) j by (metis tasks_of_nth)
    then have ctx: "load32 (ram ?k4) (ts ! j) = t_eip (?ys ! j)" "load32 (ram ?k4) (ts ! j + 8) = t_ebp (?ys ! j)"
      "load32 (ram ?k4) (ts ! j + 4) = t_esp (?ys ! j)"
      by (metis (lifting) task.select_convs task_at_def)+
    have "task_switch h ip sp bp s =
        Inr (Jump (perform_task_switch (t_eip (?ys ! j)) (t_ebp (?ys ! j)) (t_esp (?ys ! j))), s\<lparr>mm := ?k4, current := ts ! j\<rparr>)"
      using nz nz2 t(3) True ip nx by (simp add: task_switch_def task_switch_resume_def Let_def ctx)
    moreover have "sched_ok h (s\<lparr>mm := ?k4, current := ts ! j\<rparr>) ts j"
      using sw(1) j by (simp add: sched_ok_def)
    moreover have "rr_switch ip sp bp (tasks_of ?k ts) i =
        (Jump (perform_task_switch (t_eip (?ys ! j)) (t_ebp (?ys ! j)) (t_esp (?ys ! j))), ?ys, j)"
      using t(2) j True by (simp add: rr_switch_def ticks Let_def j_def)
    ultimately show thesis
      by (rule that) (use sw in simp_all)
  qed
qed

end
