(* ===== verification/TaskStack.thy ===== *)
theory TaskStack
  imports TaskProps
begin

text \<open>
  The stacks: what the copying loops leave in memory, where \<open>copy_stack\<close> gives a new thread a
  relocated copy of its creator's stack, and where \<open>move_stack\<close> redirects pointers to the wrong end
  of the new stack; and what \<open>thread_create\<close> and \<open>task_init\<close> do as a whole.
\<close>

section \<open>The copying loop\<close>

text \<open>
  \<open>D\<close> is a set that contains everything the loop writes and nothing it reads, where the bound and
  the redirection do not depend on \<open>D\<close>.
\<close>

lemma span4: "b \<in> span p 4 \<longleftrightarrow> (\<exists>i < 4. b = p + of_nat i)" for b p :: addr
proof
  assume "b \<in> span p 4"
  then have "unat (b - p) < 4" "b = p + of_nat (unat (b - p))" by (simp_all add: in_span word_less_nat_alt)
  then show "\<exists>i < 4. b = p + of_nat i" by blast
next
  assume "\<exists>i < 4. b = p + of_nat i"
  then obtain i where "i < 4" "b = p + of_nat i" by blast
  then show "b \<in> span p 4" by (simp add: in_span word_less_nat_alt unat_of_nat)
qed

lemma first_word_apart:
  assumes "b \<in> span p 4" "i < 4 * n" "4 * Suc n < 2 ^ 32"
  shows "b \<noteq> p + 4 + of_nat i"
proof
  assume eq: "b = p + 4 + of_nat i"
  obtain k where k: "k < 4" "b = p + of_nat k" using assms(1) span4 by blast
  then have "(of_nat k :: addr) = of_nat (i + 4)" using eq by (simp add: add.commute)
  moreover have "unat (of_nat k :: addr) = k" using k(1) unfolding unat_of_nat by simp
  moreover have "unat (of_nat (i + 4) :: addr) = i + 4"
    using assms(2,3) unfolding unat_of_nat by simp
  ultimately have "k = i + 4" by metis
  then show False using k(1) by simp
qed

lemma copy_words_run:
  assumes "\<forall>m'. (\<forall>b. b \<notin> D \<longrightarrow> m' b = m0 b) \<longrightarrow> stop m' = st \<and> redirect m' = rd"
    and "\<forall>b. b \<notin> D \<longrightarrow> m b = m0 b" "unat st = unat a + 4 * n \<or> n = 0 \<and> st \<le> a"
    and "\<forall>i < 4 * n. offset + of_nat i \<in> D \<and> a + of_nat i \<notin> D" "4 * n < 2 ^ 32"
  shows "\<exists>m'. copy_words stop redirect m a offset = Some m' \<and>
    (\<forall>b. (\<forall>i < 4 * n. b \<noteq> offset + of_nat i) \<longrightarrow> m' b = m b) \<and>
    (\<forall>j < n. load32 m' (offset + of_nat (4 * j)) = rd (load32 m (a + of_nat (4 * j))))"
  using assms(2-)
proof (induction n arbitrary: a offset m)
  case 0
  then have "\<not> a < stop m" using assms(1) by (auto simp: word_less_nat_alt word_le_nat_alt)
  then show ?case by (simp add: copy_words.simps)
next
  case (Suc n)
  have st: "stop m = st" "redirect m = rd" using assms(1) Suc.prems(1) by auto
  have less: "a < st" "unat st = unat a + 4 + 4 * n" using Suc.prems(2) by (auto simp: word_less_nat_alt)
  then have a4: "unat (a + 4) = unat a + 4" using unat32 [of st] unat_add_small [of a 4] by simp
  let ?m = "store32 m offset (rd (load32 m a))"
  have dst: "b \<in> D" if "b \<in> span offset 4" for b
    using that Suc.prems(3) by (auto simp: span4)
  have frame: "?m b = m b" if "b \<notin> D" for b
    using that dst by (intro store32_outside) blast
  have m: "\<forall>b. b \<notin> D \<longrightarrow> ?m b = m0 b" using frame Suc.prems(1) by simp
  have next_range: "offset + 4 + of_nat i \<in> D \<and> a + 4 + of_nat i \<notin> D" if "i < 4 * n" for i
  proof -
    have "offset + 4 + of_nat i = offset + of_nat (i + 4)" "a + 4 + of_nat i = a + of_nat (i + 4)" by simp_all
    moreover have "i + 4 < 4 * Suc n" using that by simp
    ultimately show ?thesis using Suc.prems(3) by metis
  qed
  obtain m' where m': "copy_words stop redirect ?m (a + 4) (offset + 4) = Some m'"
    "\<forall>b. (\<forall>i < 4 * n. b \<noteq> offset + 4 + of_nat i) \<longrightarrow> m' b = ?m b"
    "\<forall>j < n. load32 m' (offset + 4 + of_nat (4 * j)) = rd (load32 ?m (a + 4 + of_nat (4 * j)))"
    using Suc.IH [OF m, of "a + 4" "offset + 4"] less(2) a4 next_range Suc.prems(4) by auto
  have "copy_words stop redirect m a offset = Some m'"
    using m'(1) less(1) by (subst copy_words.simps) (simp add: st)
  moreover have "m' b = m b" if "\<forall>i < 4 * Suc n. b \<noteq> offset + of_nat i" for b
  proof -
    have "b \<noteq> offset + 4 + of_nat i" if "i < 4 * n" for i
      using \<open>\<forall>i < 4 * Suc n. b \<noteq> offset + of_nat i\<close> [rule_format, of "i + 4"] that
      by (simp add: algebra_simps)
    moreover have "b \<notin> span offset 4" unfolding span4 using that by auto
    ultimately show ?thesis using m'(2) by (simp add: store32_outside)
  qed
  moreover have "load32 m' (offset + of_nat (4 * j)) = rd (load32 m (a + of_nat (4 * j)))" if "j < Suc n" for j
  proof (cases j)
    case 0
    have "m' b = ?m b" if "b \<in> span offset 4" for b
      using m'(2) first_word_apart [OF that] Suc.prems(4) by blast
    then have "load32 m' offset = load32 ?m offset" by (rule load32_cong)
    then show ?thesis using 0 by simp
  next
    case (Suc l)
    have "load32 ?m (a + 4 + of_nat (4 * l)) = load32 m (a + 4 + of_nat (4 * l))"
    proof (rule load32_cong)
      fix b assume "b \<in> span (a + 4 + of_nat (4 * l)) 4"
      then obtain k where "k < 4" "b = a + of_nat (4 + 4 * l + k)" by (auto simp: span4 add.assoc)
      moreover have "4 + 4 * l + k < 4 * Suc n" using that Suc calculation(1) by simp
      ultimately have "b \<notin> D" using Suc.prems(3) by metis
      then show "?m b = m b" by (rule frame)
    qed
    then show ?thesis using m'(3) that Suc by (simp add: add.assoc)
  qed
  ultimately show ?case by blast
qed


section \<open>Moving the boot stack\<close>

lemma offset_unat: "unat (b + of_nat i) = unat b + i" if "unat b + i < 2 ^ 32" for b :: addr
  using that by (simp add: unat_word_ariths unat_of_nat)

lemma move_stack_moves:
  assumes "unat S = unat sp + 4 * n" "4 * n \<le> 4194304" "unat S \<le> 0xC0400000"
  shows "\<exists>m'. move_stack S sp old_esp old_ebp m =
      Inr (0xC0400000, old_esp + (0xC0800000 - S), old_ebp + (0xC0800000 - S), m') \<and>
    (\<forall>b. unat b < 0xC0800000 - 4 * n \<or> 0xC0800000 \<le> unat b \<longrightarrow> m' b = m b) \<and>
    (\<forall>j < n. load32 m' (sp + of_nat (4 * j) + (0xC0800000 - S)) =
      move_redirect S sp 0xC0400000 (load32 m (sp + of_nat (4 * j))))"
proof -
  define off where "off = sp + (0xC0800000 - S)"
  have "unat (sp + of_nat (4 * n)) = unat sp + 4 * n" by (rule offset_unat) (use assms in simp)
  then have S: "S = sp + of_nat (4 * n)" using assms(1) by (simp only: word_unat_eq_iff)
  have "off = of_nat (0xC0800000 - 4 * n)" using assms(2) by (simp add: off_def S of_nat_diff)
  moreover have "unat (of_nat (0xC0800000 - 4 * n) :: addr) = 0xC0800000 - 4 * n"
    unfolding unat_of_nat by simp
  ultimately have uoff: "unat off = 0xC0800000 - 4 * n" by simp
  have dest: "unat (off + of_nat i) = 0xC0800000 - 4 * n + i" if "i < 4 * n" for i
    using that assms(2) uoff by (subst offset_unat) simp_all
  have src: "unat (sp + of_nat i) = unat sp + i" if "i < 4 * n" for i
    using that assms by (intro offset_unat) simp
  let ?D = "{b. 0xC0800000 - 4 * n \<le> unat b}"
  have D: "\<forall>i < 4 * n. off + of_nat i \<in> ?D \<and> sp + of_nat i \<notin> ?D"
    using dest src assms by auto
  obtain m' where m': "copy_words (\<lambda>_. S) (\<lambda>_. move_redirect S sp 0xC0400000) m sp off = Some m'"
    "\<forall>b. (\<forall>i < 4 * n. b \<noteq> off + of_nat i) \<longrightarrow> m' b = m b"
    "\<forall>j < n. load32 m' (off + of_nat (4 * j)) = move_redirect S sp 0xC0400000 (load32 m (sp + of_nat (4 * j)))"
    using copy_words_run [of ?D m "\<lambda>_. S" S "\<lambda>_. move_redirect S sp 0xC0400000" "move_redirect S sp 0xC0400000" m sp n off]
      assms D by auto
  have eqs: "PAGE_SIZE + 0xC0000000 = 0xC0400000" "0xC0400000 + PAGE_SIZE - (S - x) = x + (0xC0800000 - S)" for x
    by (simp_all add: PAGE_SIZE_def)
  have run: "move_stack S sp old_esp old_ebp m =
      Inr (0xC0400000, old_esp + (0xC0800000 - S), old_ebp + (0xC0800000 - S), m')"
    unfolding move_stack_def Let_def eqs off_def [symmetric] m'(1) by simp
  have "m' b = m b" if "unat b < 0xC0800000 - 4 * n \<or> 0xC0800000 \<le> unat b" for b
  proof -
    have "b \<noteq> off + of_nat i" if "i < 4 * n" for i
      using dest [OF that] \<open>unat b < _ \<or> _\<close> that assms(2) by auto
    then show ?thesis using m'(2) by blast
  qed
  moreover have "load32 m' (sp + of_nat (4 * j) + (0xC0800000 - S)) =
      move_redirect S sp 0xC0400000 (load32 m (sp + of_nat (4 * j)))" if "j < n" for j
    using m'(3) that by (simp add: off_def algebra_simps)
  ultimately show ?thesis using run by (intro exI [of _ m']) simp
qed

text \<open>The redirected pointer and the copy of its target are apart unless the stack fills the page.\<close>

lemma move_redirect_elsewhere:
  fixes S sp word :: u32
  assumes "unat S = unat sp + 4 * n" "4 * n < 4194304"
  shows "word - sp + 0xC0400000 \<noteq> word + (0xC0800000 - S)"
proof
  assume "word - sp + 0xC0400000 = word + (0xC0800000 - S)"
  then have "S - sp = 0x400000" by (simp add: algebra_simps)
  moreover have "unat (S - sp) = 4 * n" using assms(1) by (simp add: unat_diff word_le_nat_alt)
  ultimately show False using assms(2) by simp
qed

text \<open>
  C31: \<open>move_stack\<close> copies the stack in use, from \<open>esp\<close> up to \<open>STACK_START\<close>, to the end of the 4 MiB
  page at 0xC0400000, and computes \<open>esp\<close> and \<open>ebp\<close> for the copy; it changes no other memory. But it
  redirects a pointer into the old stack to an address counted from the beginning of that page,
  and that is never where the copy of its target is, unless the stack fills the page.
\<close>

theorem move_stack_correct:
  assumes "unat S = unat sp + 4 * n" "4 * n \<le> 4194304" "unat S \<le> 0xC0400000"
  shows "\<exists>m'. move_stack S sp old_esp old_ebp m =
      Inr (0xC0400000, old_esp + (0xC0800000 - S), old_ebp + (0xC0800000 - S), m') \<and>
    (\<forall>b. unat b < 0xC0800000 - 4 * n \<or> 0xC0800000 \<le> unat b \<longrightarrow> m' b = m b) \<and>
    (\<forall>j < n. let word = load32 m (sp + of_nat (4 * j)) in
      load32 m' (sp + of_nat (4 * j) + (0xC0800000 - S)) =
        (if sp < word \<and> word < S then word - sp + 0xC0400000 else word)) \<and>
    (4 * n < 4194304 \<longrightarrow> (\<forall>word. word - sp + 0xC0400000 \<noteq> word + (0xC0800000 - S)))"
proof -
  obtain m' where "move_stack S sp old_esp old_ebp m =
      Inr (0xC0400000, old_esp + (0xC0800000 - S), old_ebp + (0xC0800000 - S), m')"
    "\<forall>b. unat b < 0xC0800000 - 4 * n \<or> 0xC0800000 \<le> unat b \<longrightarrow> m' b = m b"
    "\<forall>j < n. load32 m' (sp + of_nat (4 * j) + (0xC0800000 - S)) =
      move_redirect S sp 0xC0400000 (load32 m (sp + of_nat (4 * j)))"
    using move_stack_moves [OF assms, of old_esp old_ebp m] by blast
  then show ?thesis
    using move_redirect_elsewhere [OF assms(1)] by (intro exI [of _ m']) (auto simp: move_redirect_def Let_def)
qed

theorem move_stack_correct_witness:
  "\<exists>m'. move_stack 0xC0010000 0xC000FFF8 0xC000FFF0 0xC000FFFC (store32 (\<lambda>_. 0) 0xC000FFF8 0xC000FFFC) =
      Inr (0xC0400000, 0xC07FFFF0, 0xC07FFFFC, m') \<and>
    load32 m' 0xC07FFFF8 = 0xC0400004"
proof -
  let ?m = "store32 (\<lambda>_. 0) 0xC000FFF8 0xC000FFFC"
  have "unat (0xC0010000 :: u32) = unat (0xC000FFF8 :: u32) + 4 * 2" "4 * 2 \<le> (4194304 :: nat)"
    "unat (0xC0010000 :: u32) \<le> 0xC0400000" by simp_all
  from move_stack_correct [OF this, of "0xC000FFF0" "0xC000FFFC" ?m]
  obtain m' where m': "move_stack 0xC0010000 0xC000FFF8 0xC000FFF0 0xC000FFFC ?m = Inr (0xC0400000, 0xC07FFFF0, 0xC07FFFFC, m')"
    "\<forall>j < 2. let word = load32 ?m (0xC000FFF8 + of_nat (4 * j)) in
      load32 m' (0xC000FFF8 + of_nat (4 * j) + (0xC0800000 - 0xC0010000)) =
        (if 0xC000FFF8 < word \<and> word < 0xC0010000 then word - 0xC000FFF8 + 0xC0400000 else word)"
    by auto
  from m'(2) [rule_format, of 0] m'(1) show ?thesis by simp
qed

section \<open>A new task\<close>

text \<open>A new task: zeroed, owned, and in no list yet.\<close>

lemma task_new_evolves:
  assumes "kmem_inv k" "task_new k = Inr (t, k')"
  obtains B where "evolves k k' {t}" "kstatic k' = kstatic k" "(t, B) \<in> kowns k'" "t \<noteq> 0" "span t sizeof_task \<subseteq> B"
    "\<And>q C. (q, C) \<in> kowns k \<Longrightarrow> q \<noteq> t" "\<And>a. a \<in> span t sizeof_task \<Longrightarrow> ram k' a = 0"
    "\<exists>k1. kmalloc k sizeof_task = Inr (t, k1) \<and> pages k' = pages k1"
proof -
  obtain k1 where k1: "kmalloc k sizeof_task = Inr (t, k1)" "k' = ram_update (\<lambda>m. memset m t 0 sizeof_task) k1"
    using assms(2) by (auto simp: task_new_def rbind_eq_Inr)
  have "0 < sizeof_task" by (simp add: sizeof_task_def)
  then obtain B where B: "evolves k k1 {}" "kstatic k1 = kstatic k" "kowns k1 = insert (t, B) (kowns k)" "t \<noteq> 0"
    "span t sizeof_task \<subseteq> B" "\<And>q C. (q, C) \<in> kowns k \<Longrightarrow> q \<noteq> t"
    using kmalloc_evolves [OF assms(1) _ k1(1)] by metis
  have inv1: "kmem_inv k1" "(t, B) \<in> kowns k1" using B(1,3) by (simp_all add: evolves_def)
  have "\<forall>a. a \<notin> B \<longrightarrow> memset (ram k1) t 0 sizeof_task a = ram k1 a"
    using B(5) by (auto intro: memset_outside)
  note u = update_evolves [OF inv1, of "\<lambda>m. memset m t 0 sizeof_task", OF this, folded k1(2)]
  show thesis
    by (rule that [of B]) (use B u evolves_trans [OF B(1) u(1)] inv1 k1 in \<open>auto simp: memset_inside\<close>)
qed

end
