(* ===== verification/TaskRun.thy ===== *)
theory TaskRun
  imports TaskProps
begin

text \<open>
  The scheduler over time: \<open>task_switch\<close> implements round robin on the list of task records, and
  under a stream of timer interrupts every task has its turn after a number of ticks that is known
  exactly, with the registers it was interrupted with.
\<close>

section \<open>Runs\<close>

type_synonym regs = "u32 \<times> u32 \<times> u32"

fun run_ticks :: "addr \<Rightarrow> regs list \<Rightarrow> sched \<Rightarrow> (control list \<times> sched) res" where
  "run_ticks h [] s = Inr ([], s)"
| "run_ticks h ((ip, sp, bp) # cxs) s =
     rbind (task_switch h ip sp bp s) (\<lambda>(c, s).
       rbind (run_ticks h cxs s) (\<lambda>(rs, s). Inr (c # rs, s)))"

fun rr_run :: "regs list \<Rightarrow> task list \<Rightarrow> nat \<Rightarrow> control list \<times> task list \<times> nat" where
  "rr_run [] xs i = ([], xs, i)"
| "rr_run ((ip, sp, bp) # cxs) xs i =
     (let (c, xs, i) = rr_switch ip sp bp xs i; (rs, xs, i) = rr_run cxs xs i in (c # rs, xs, i))"

definition live :: "regs list \<Rightarrow> bool" where
  "live cxs \<longleftrightarrow> (\<forall>(ip, sp, bp) \<in> set cxs. ip \<noteq> DUMMY_EIP)"

lemma live_Cons: "live ((ip, sp, bp) # cxs) \<longleftrightarrow> ip \<noteq> DUMMY_EIP \<and> live cxs"
  by (auto simp: live_def)

lemma run_ticks_rr:
  assumes "sched_ok h s ts i" "live cxs" "rr_run cxs (tasks_of (mm s) ts) i = (rs, xs, j)"
  shows "\<exists>s'. run_ticks h cxs s = Inr (rs, s') \<and> sched_ok h s' ts j \<and> tasks_of (mm s') ts = xs \<and>
    kowns (mm s') = kowns (mm s) \<and> kstatic (mm s') = kstatic (mm s)"
  using assms
proof (induction h cxs s arbitrary: i rs rule: run_ticks.induct)
  case (1 h s)
  then show ?case by simp
next
  case (2 h ip sp bp cxs s)
  have ip: "ip \<noteq> DUMMY_EIP" and cxs: "live cxs" using 2(3) by (simp_all add: live_Cons)
  obtain s1 c ys i' where sw: "task_switch h ip sp bp s = Inr (c, s1)" "sched_ok h s1 ts i'"
    "rr_switch ip sp bp (tasks_of (mm s) ts) i = (c, ys, i')" "tasks_of (mm s1) ts = ys"
    "kowns (mm s1) = kowns (mm s)" "kstatic (mm s1) = kstatic (mm s)"
    by (rule task_switch_rr [OF 2(2) ip])
  obtain rs' where rs: "rr_run cxs ys i' = (rs', xs, j)" "rs = c # rs'"
    using 2(4) sw(3) by (auto simp: Let_def split: prod.splits)
  from 2(1) [OF sw(2) cxs, of rs'] rs sw
  show ?case by auto
qed

section \<open>Slices\<close>

lemma rr_run_append:
  "rr_run (as @ bs) xs i =
    (let (rs, xs, i) = rr_run as xs i; (rs', xs, i) = rr_run bs xs i in (rs @ rs', xs, i))"
  by (induction as xs i rule: rr_run.induct) (auto simp: Let_def split: prod.splits)

lemma rr_counting:
  assumes "i < length xs" "length cxs \<le> unat (t_ticks (xs ! i))"
  shows "rr_run cxs xs i = (replicate (length cxs) Return,
    xs[i := (xs ! i)\<lparr>t_ticks := t_ticks (xs ! i) - of_nat (length cxs)\<rparr>], i)"
  using assms
proof (induction cxs arbitrary: xs)
  case (Cons c cxs)
  obtain ip sp bp where c: "c = (ip, sp, bp)" by (cases c)
  let ?t = "t_ticks (xs ! i)" and ?xs = "xs[i := (xs ! i)\<lparr>t_ticks := t_ticks (xs ! i) - 1\<rparr>]"
  have "?t \<noteq> 0" using Cons.prems(2) by auto
  then have "length cxs \<le> unat (t_ticks (?xs ! i))" using Cons.prems by (simp add: unat_minus_one)
  from Cons.IH [OF _ this] \<open>?t \<noteq> 0\<close> Cons.prems(1) show ?case
    by (simp add: c rr_switch_def Let_def algebra_simps)
qed simp

text \<open>The context a task is resumed with.\<close>

definition saved :: "task \<Rightarrow> cpu" where
  "saved t = perform_task_switch (t_eip t) (t_ebp t) (t_esp t)"

lemma rr_switch_zero:
  assumes "i < length xs" "t_ticks (xs ! i) = 0" "rr_switch ip sp bp xs i = (c, ys, j)"
  shows "j = Suc i mod length xs" "length ys = length xs" "c = Jump (saved (ys ! j))"
    "t_ticks (ys ! j) = 50" "saved (ys ! i) = perform_task_switch ip bp sp"
    "m < length xs \<Longrightarrow> m \<noteq> i \<Longrightarrow> saved (ys ! m) = saved (xs ! m)"
proof -
  have eqs: "j = Suc i mod length xs" "ys = (xs[j := (xs ! j)\<lparr>t_ticks := 50\<rparr>])
      [i := (xs[j := (xs ! j)\<lparr>t_ticks := 50\<rparr>] ! i)\<lparr>t_eip := ip, t_esp := sp, t_ebp := bp\<rparr>]"
    "c = Jump (perform_task_switch (t_eip (ys ! j)) (t_ebp (ys ! j)) (t_esp (ys ! j)))"
    using assms by (auto simp: rr_switch_def Let_def)
  have j: "j < length xs" unfolding eqs(1) by (rule mod_less_divisor) (use assms(1) in linarith)
  show "j = Suc i mod length xs" "length ys = length xs" by (simp_all add: eqs(1,2))
  show "c = Jump (saved (ys ! j))" by (simp only: eqs(3) saved_def)
  show "t_ticks (ys ! j) = 50" "saved (ys ! i) = perform_task_switch ip bp sp"
    using assms(1) j by (auto simp: eqs(2) saved_def nth_list_update)
  show "saved (ys ! m) = saved (xs ! m)" if "m < length xs" "m \<noteq> i"
    using that j by (auto simp: eqs(2) saved_def nth_list_update)
qed

lemma rr_slice:
  assumes "i < length xs" "length cxs = Suc (unat (t_ticks (xs ! i)))"
  obtains rs ys where "rr_run cxs xs i = (rs, ys, Suc i mod length xs)" "length ys = length xs"
    "rs = replicate (unat (t_ticks (xs ! i))) Return @ [Jump (saved (ys ! (Suc i mod length xs)))]"
    "t_ticks (ys ! (Suc i mod length xs)) = 50"
    "\<And>m. m < length xs \<Longrightarrow> m \<noteq> i \<Longrightarrow> saved (ys ! m) = saved (xs ! m)"
proof -
  obtain bs c where cxs: "cxs = bs @ [c]" using assms(2) by (cases cxs rule: rev_cases) auto
  obtain ip sp bp where c: "c = (ip, sp, bp)" by (cases c)
  let ?t = "t_ticks (xs ! i)" and ?zs = "xs[i := (xs ! i)\<lparr>t_ticks := 0\<rparr>]"
  have bs: "length bs = unat ?t" using assms(2) cxs by simp
  have count: "rr_run bs xs i = (replicate (unat ?t) Return, ?zs, i)"
    using rr_counting [OF assms(1), of bs] bs by simp
  obtain d ys j where sw: "rr_switch ip sp bp ?zs i = (d, ys, j)" by (metis prod_cases3)
  have "i < length ?zs" "t_ticks (?zs ! i) = 0" using assms(1) by simp_all
  note z = rr_switch_zero [OF this sw]
  have "saved (ys ! m) = saved (xs ! m)" if "m < length xs" "m \<noteq> i" for m
    using z(6) [of m] that by simp
  then show thesis
    using that [of "replicate (unat ?t) Return @ [d]" ys] count sw z(1-4) by (simp add: cxs c rr_run_append Let_def)
qed

lemma rr_slices:
  assumes "i < length xs" "length cxs = Suc (unat (t_ticks (xs ! i))) + 51 * d"
  shows "\<exists>rs ys. rr_run cxs xs i = (rs, ys, Suc (i + d) mod length xs) \<and> length ys = length xs \<and>
    t_ticks (ys ! (Suc (i + d) mod length xs)) = 50 \<and>
    rs \<noteq> [] \<and> last rs = Jump (saved (ys ! (Suc (i + d) mod length xs))) \<and>
    (\<forall>m < length xs. (\<forall>e \<le> d. m \<noteq> (i + e) mod length xs) \<longrightarrow> saved (ys ! m) = saved (xs ! m))"
  using assms
proof (induction d arbitrary: cxs)
  case 0
  then obtain rs ys where "rr_run cxs xs i = (rs, ys, Suc i mod length xs)" "length ys = length xs"
    "rs = replicate (unat (t_ticks (xs ! i))) Return @ [Jump (saved (ys ! (Suc i mod length xs)))]"
    "t_ticks (ys ! (Suc i mod length xs)) = 50"
    "\<And>m. m < length xs \<Longrightarrow> m \<noteq> i \<Longrightarrow> saved (ys ! m) = saved (xs ! m)"
    using rr_slice [of i xs cxs] by auto
  then show ?case using 0 by (intro exI [of _ rs] exI [of _ ys]) simp
next
  case (Suc d)
  let ?n = "length xs" and ?j = "Suc (i + d) mod length xs"
  define as where "as = take (Suc (unat (t_ticks (xs ! i))) + 51 * d) cxs"
  define bs where "bs = drop (Suc (unat (t_ticks (xs ! i))) + 51 * d) cxs"
  have len: "length as = Suc (unat (t_ticks (xs ! i))) + 51 * d" "length bs = 51" "cxs = as @ bs"
    using Suc.prems(2) by (simp_all add: as_def bs_def)
  obtain rs ys where r: "rr_run as xs i = (rs, ys, ?j)" "length ys = ?n" "t_ticks (ys ! ?j) = 50"
    "\<forall>m < ?n. (\<forall>e \<le> d. m \<noteq> (i + e) mod ?n) \<longrightarrow> saved (ys ! m) = saved (xs ! m)"
    using Suc.IH [OF Suc.prems(1) len(1)] by auto
  have j: "?j < length ys" unfolding r(2) by (rule mod_less_divisor) (use Suc.prems(1) in linarith)
  have "length bs = Suc (unat (t_ticks (ys ! ?j)))" using len(2) r(3) by simp
  then obtain rs' zs where r': "rr_run bs ys ?j = (rs', zs, Suc ?j mod length ys)" "length zs = length ys"
    "rs' = replicate (unat (t_ticks (ys ! ?j))) Return @ [Jump (saved (zs ! (Suc ?j mod length ys)))]"
    "t_ticks (zs ! (Suc ?j mod length ys)) = 50"
    "\<And>m. m < length ys \<Longrightarrow> m \<noteq> ?j \<Longrightarrow> saved (zs ! m) = saved (ys ! m)"
    by (rule rr_slice [OF j]) (rule that)
  have eq: "Suc ?j mod length ys = Suc (i + Suc d) mod ?n" unfolding r(2) by (simp add: mod_Suc_eq)
  have "saved (zs ! m) = saved (xs ! m)" if "m < ?n" "\<forall>e \<le> Suc d. m \<noteq> (i + e) mod ?n" for m
  proof -
    have "m \<noteq> (i + Suc d) mod ?n" using that(2) by blast
    moreover have "\<forall>e \<le> d. m \<noteq> (i + e) mod ?n" using that(2) by simp
    ultimately have "m \<noteq> ?j" "\<forall>e \<le> d. m \<noteq> (i + e) mod ?n" by simp_all
    then show ?thesis using r(4) r'(5) [of m] that(1) r(2) by simp
  qed
  then show ?case
    using r r' by (intro exI [of _ "rs @ rs'"] exI [of _ zs]) (simp add: len(3) rr_run_append eq mod_Suc_eq)
qed

section \<open>What the scheduler guarantees\<close>

text \<open>
  C4: under the invariant, a call of \<open>task_switch\<close> returns and implements round robin: it counts
  the current task's time slice down, and when the slice has expired it saves the registers in the
  current task, gives the next task of the list, cyclically, a new slice, and jumps to that
  task's saved registers; nothing else of any task changes and the invariant is kept.
\<close>

theorem task_switch_refines:
  assumes "sched_ok h s ts i" "ip \<noteq> DUMMY_EIP"
  shows "\<exists>c s' j. task_switch h ip sp bp s = Inr (c, s') \<and> sched_ok h s' ts j \<and>
    (c, tasks_of (mm s') ts, j) = rr_switch ip sp bp (tasks_of (mm s) ts) i"
  by (rule task_switch_rr [OF assms, of sp bp]) auto

text \<open>
  When a task runs again: from any state of the invariant, the \<open>j\<close>-th task of the list is the
  current one after the rest of the current slice and 51 ticks for each task in between, whatever
  the interrupted tasks' registers are.
\<close>

lemma turn_comes:
  assumes "sched_ok h s ts i" "j < length ts" "\<forall>(ip, sp, bp) \<in> set cxs. ip \<noteq> DUMMY_EIP"
    and "length cxs = unat (t_ticks (task_at (ram (mm s)) (current s))) + 1 + 51 * ((length ts + j - Suc i) mod length ts)"
  shows "\<exists>rs s'. run_ticks h cxs s = Inr (rs, s') \<and> sched_ok h s' ts j \<and> current s' = ts ! j \<and>
    t_ticks (task_at (ram (mm s')) (current s')) = 50"
proof -
  let ?n = "length ts" and ?xs = "tasks_of (mm s) ts"
  define d where "d = (?n + j - Suc i) mod ?n"
  have i: "i < ?n" "current s = ts ! i" using assms(1) by (simp_all add: sched_ok_def)
  have "Suc (i + d) mod ?n = (Suc i + (?n + j - Suc i)) mod ?n" unfolding d_def
    by (metis mod_add_right_eq add_Suc)
  also have "Suc i + (?n + j - Suc i) = ?n + j" using i(1) by linarith
  also have "(?n + j) mod ?n = j" using assms(2) by simp
  finally have idx: "Suc (i + d) mod ?n = j" .
  have "length cxs = Suc (unat (t_ticks (?xs ! i))) + 51 * d" using assms(4) i by (simp add: d_def)
  then obtain rs ys where r: "rr_run cxs ?xs i = (rs, ys, j)" "t_ticks (ys ! j) = 50"
    using rr_slices [of i ?xs cxs d] i(1) idx by auto
  obtain s' where "run_ticks h cxs s = Inr (rs, s')" "sched_ok h s' ts j" "tasks_of (mm s') ts = ys"
    using run_ticks_rr [OF assms(1) _ r(1)] assms(3) by (auto simp: live_def)
  then show ?thesis using r(2) assms(2) by (auto simp: sched_ok_def)
qed

text \<open>
  C11: a task that is switched out is switched in again after one round of 51 ticks for each other
  task, with exactly the registers it was switched out with; there \<open>read_eip\<close> returns the dummy
  value, on which \<open>task_switch\<close> returns to the interrupted code without any further effect.
\<close>

theorem context_round_trip:
  assumes "sched_ok h s ts i" "t_ticks (task_at (ram (mm s)) (current s)) = 0"
    and "\<forall>(ip, sp, bp) \<in> set ((ip, sp, bp) # cxs). ip \<noteq> DUMMY_EIP" "length cxs = 51 * (length ts - 1)"
  shows "\<exists>rs s'. run_ticks h ((ip, sp, bp) # cxs) s = Inr (rs, s') \<and> sched_ok h s' ts i \<and>
    current s' = current s \<and>
    last rs = Jump \<lparr>c_eip = ip, c_esp = sp, c_ebp = bp, c_eax = 0x12345\<rparr> \<and>
    task_switch_resume h 0x12345 sp bp s' = Inr (Return, s')"
proof -
  let ?n = "length ts" and ?xs = "tasks_of (mm s) ts" and ?j = "Suc i mod length ts"
  have i: "i < ?n" "current s = ts ! i" using assms(1) by (simp_all add: sched_ok_def)
  obtain c ys j where sw: "rr_switch ip sp bp ?xs i = (c, ys, j)" by (metis prod_cases3)
  have "t_ticks (?xs ! i) = 0" using assms(2) i by simp
  note z = rr_switch_zero [OF _ this sw, simplified, OF i(1)]
  have jn: "j < ?n" unfolding z(1) by (rule mod_less_divisor) (use i(1) in linarith)
  have "\<exists>rs zs. rr_run ((ip, sp, bp) # cxs) ?xs i = (rs, zs, i) \<and> last rs = Jump (perform_task_switch ip bp sp)"
  proof (cases "?n = 1")
    case True
    then show ?thesis using z sw i(1) assms(4) by simp
  next
    case False
    define d where "d = ?n - 2"
    have n: "?n = Suc (Suc d)" using False i(1) by (simp add: d_def)
    have "length cxs = Suc (unat (t_ticks (ys ! j))) + 51 * d" using assms(4) z(4) n by simp
    moreover have idx: "Suc (j + d) mod ?n = i"
    proof -
      have "Suc (j + d) mod ?n = (Suc d + Suc i) mod ?n" unfolding z(1) by (metis add.commute add_Suc mod_add_left_eq)
      also have "Suc d + Suc i = i + ?n" using n by simp
      finally show ?thesis using i(1) by simp
    qed
    ultimately obtain rs zs where r: "rr_run cxs ys j = (rs, zs, i)" "rs \<noteq> []" "last rs = Jump (saved (zs ! i))"
      "\<forall>m < ?n. (\<forall>e \<le> d. m \<noteq> (j + e) mod ?n) \<longrightarrow> saved (zs ! m) = saved (ys ! m)"
      using rr_slices [of j ys cxs d] jn z(2) by auto
    have "i \<noteq> (j + e) mod ?n" if "e \<le> d" for e
    proof
      assume "i = (j + e) mod ?n"
      then have "(Suc e + i) mod ?n = i mod ?n" unfolding z(1) using i(1)
        by (metis add.commute add_Suc_right mod_add_left_eq mod_less)
      then have "?n dvd Suc e" using mod_eq_dvd_iff_nat [of i "Suc e + i" ?n] by simp
      then show False using that n by (auto dest: dvd_imp_le)
    qed
    then have "saved (zs ! i) = perform_task_switch ip bp sp" using r(4) i(1) z(5) by auto
    then show ?thesis using r sw by simp
  qed
  then obtain rs zs where r: "rr_run ((ip, sp, bp) # cxs) ?xs i = (rs, zs, i)" "last rs = Jump (perform_task_switch ip bp sp)"
    by blast
  obtain s' where "run_ticks h ((ip, sp, bp) # cxs) s = Inr (rs, s')" "sched_ok h s' ts i"
    using run_ticks_rr [OF assms(1) _ r(1)] assms(3) by (auto simp: live_def)
  then show ?thesis
    using r(2) i by (auto simp: sched_ok_def perform_task_switch_def DUMMY_EIP_def task_switch_resume_def)
qed

end
