(* ===== verification/TaskCreate.thy ===== *)
theory TaskCreate
  imports TaskStack TaskRun
begin

text \<open>
  \<open>copy_stack\<close>, \<open>thread_create\<close> and \<open>task_init\<close> as a whole, on the invariant of the scheduler, and the
  invariant of every state that a booted kernel reaches.
\<close>

section \<open>Copying a stack\<close>

text \<open>A pointer into the creator's stack is moved to the same place of the new one.\<close>

definition relocated :: "u32 \<Rightarrow> u32 \<Rightarrow> u32 \<Rightarrow> u32" where
  "relocated st v w = (if st < w \<and> w < st + PAGE_SIZE then w - st + v else w)"

lemma page_word: "4 * q < 4194304 \<Longrightarrow> span (v + of_nat (4 * q)) 4 \<subseteq> span v PAGE_SIZE"
proof -
  assume q: "4 * q < 4194304"
  then have u: "unat (of_nat (4 * q) :: u32) = 4 * q" unfolding unat_of_nat by simp
  then have "unat (of_nat (4 * q) :: u32) + unat (4 :: u32) < 2 ^ 32" using q by simp
  from in_span_offset [OF this] show ?thesis
    using q u by (auto simp: in_span PAGE_SIZE_def word_less_nat_alt simp del: of_nat_mult)
qed

text \<open>The words from \<open>sp\<close> to the top of the page of \<open>st\<close>: how many the loop copies, and where.\<close>

definition copied :: "u32 \<Rightarrow> u32 \<Rightarrow> nat" where
  "copied st sp = (if unat st < 0xFFC00000 then (4194304 - (unat sp - unat st)) div 4 else 0)"

lemma copied_words:
  assumes "(unat sp - unat st) mod 4 = 0"
  shows "4 * copied st sp = (if unat st < 0xFFC00000 then 4194304 - (unat sp - unat st) else 0)" "4 * copied st sp < 2 ^ 32"
proof -
  have "\<exists>c. unat sp - unat st = 4 * c" using assms by presburger
  then show "4 * copied st sp = (if unat st < 0xFFC00000 then 4194304 - (unat sp - unat st) else 0)"
    by (auto simp: copied_def)
  then show "4 * copied st sp < 2 ^ 32" by (simp split: if_splits)
qed

lemma copy_stops:
  assumes "unat st mod 4194304 = 0" "st \<le> sp" "(unat sp - unat st) mod 4 = 0"
  shows "unat (st + PAGE_SIZE) = unat sp + 4 * copied st sp \<or> copied st sp = 0 \<and> st + PAGE_SIZE \<le> sp"
proof (cases "unat st < 0xFFC00000")
  case True
  then have "unat (st + PAGE_SIZE) = unat st + 4194304"
    by (subst unat_add_small) (simp_all add: PAGE_SIZE_def)
  then show ?thesis using copied_words(1) [OF assms(3)] True assms(2) by (auto simp: word_le_nat_alt copied_def)
next
  case False
  then have "unat st div 4194304 = 1023" using unat32 [of st] by simp
  then have "unat st = 0xFFC00000" using assms(1) mult_div_mod_eq [of 4194304 "unat st"] by simp
  then have "st = 0xFFC00000" by (simp add: word_unat_eq_iff)
  then have "st + PAGE_SIZE = 0" by (simp add: PAGE_SIZE_def)
  then show ?thesis using False by (simp add: copied_def)
qed

lemma copy_inside:
  assumes "st \<le> sp" "(unat sp - unat st) mod 4 = 0" "i < 4 * copied st sp"
  shows "v + (sp - st) + of_nat i \<in> span v PAGE_SIZE" "sp + of_nat i \<in> span st PAGE_SIZE"
proof -
  let ?d = "unat sp - unat st"
  have "?d + i < 4194304" using assms(3) copied_words(1) [OF assms(2)] by (simp split: if_splits)
  moreover have "unat (sp - st) = ?d" using assms(1) by (rule unat_diff)
  ultimately have "unat ((sp - st) + of_nat i) < 4194304" by (subst offset_unat) simp_all
  then have "(sp - st) + of_nat i < PAGE_SIZE" by (simp add: word_less_nat_alt PAGE_SIZE_def)
  moreover have "sp + of_nat i - st = (sp - st) + of_nat i" "v + (sp - st) + of_nat i - v = (sp - st) + of_nat i" by simp_all
  ultimately show "v + (sp - st) + of_nat i \<in> span v PAGE_SIZE" "sp + of_nat i \<in> span st PAGE_SIZE"
    by (simp_all only: in_span)
qed

lemma copy_word_index:
  assumes "st \<le> sp" "(unat sp - unat st) mod 4 = 0" "unat st < 0xFFC00000" "unat sp - unat st \<le> 4 * q" "4 * q < 4194304"
  obtains j where "j < copied st sp" "v + (sp - st) + of_nat (4 * j) = v + of_nat (4 * q)" "sp + of_nat (4 * j) = st + of_nat (4 * q)"
proof -
  have "\<exists>c. unat sp - unat st = 4 * c" using assms(2) by presburger
  then obtain c where c: "unat sp - unat st = 4 * c" by blast
  define j where "j = q - c"
  have j: "j < copied st sp" "4 * q = (unat sp - unat st) + 4 * j"
    using assms(4,5) c copied_words(1) [OF assms(2)] assms(3) by (auto simp: j_def)
  have "unat (sp - st) = unat sp - unat st" using assms(1) by (rule unat_diff)
  then have "sp - st = of_nat (unat sp - unat st)" by (metis of_nat_unat ucast_id)
  then have eq: "sp - st + of_nat (4 * j) = of_nat (4 * q)" unfolding j(2) of_nat_add by simp
  have "v + (sp - st) + of_nat (4 * j) = v + of_nat (4 * q)" unfolding eq [symmetric] by (simp only: add.assoc)
  moreover have "sp + of_nat (4 * j) = st + of_nat (4 * q)" unfolding eq [symmetric] by simp
  ultimately show thesis using that j(1) by blast
qed

text \<open>The loop in its place: it reads the creator's stack, and writes into the new page only.\<close>

lemma copy_stack_words:
  assumes inv: "kmem_inv k" and page: "kalloc_block k = Inr (v, k1)"
    and parent: "(parent, C) \<in> kowns k" "span parent sizeof_task \<subseteq> C"
    and st: "load32 (ram k) (parent + 12) = st" "span st PAGE_SIZE \<subseteq> kstatic k" "unat st mod 4194304 = 0"
    and sp: "st \<le> sp" "(unat sp - unat st) mod 4 = 0"
  obtains m' where
    "copy_words (\<lambda>m. load32 m (parent + 12) + PAGE_SIZE) (copy_redirect parent v) (ram k1) sp (v + (sp - st)) = Some m'"
    "\<forall>b. b \<notin> span v PAGE_SIZE \<longrightarrow> m' b = ram k1 b" "load32 (ram k1) (parent + 12) = st"
    "\<forall>j < copied st sp. load32 m' (v + (sp - st) + of_nat (4 * j)) = relocated st v (load32 (ram k1) (sp + of_nat (4 * j)))"
proof -
  let ?D = "span v PAGE_SIZE"
  note new = kernel_pages.new_page_fresh [OF inv page] and kept = kernel_pages.new_page_kept [OF inv page]
  have C1: "(parent, C) \<in> kowns k1" using new parent(1) by auto
  have "C \<inter> ?D = {}" using kernel_pages.owned_not_static [OF kept(1) C1] kept(4) by blast
  then have pD: "span (parent + 12) 4 \<inter> ?D = {}" using words_of_task(4) [of parent] parent(2) by blast
  have ps: "load32 m' (parent + 12) = st" if "\<forall>b. b \<notin> ?D \<longrightarrow> m' b = ram k1 b" for m'
  proof -
    have "m' b = ram k b" if "b \<in> span (parent + 12) 4" for b
      using that pD \<open>\<forall>b. b \<notin> ?D \<longrightarrow> m' b = ram k1 b\<close> new by auto
    then show ?thesis using st(1) load32_cong [of "parent + 12" m' "ram k"] by simp
  qed
  have stop: "\<forall>m'. (\<forall>b. b \<notin> ?D \<longrightarrow> m' b = ram k1 b) \<longrightarrow>
      load32 m' (parent + 12) + PAGE_SIZE = st + PAGE_SIZE \<and> copy_redirect parent v m' = relocated st v"
    using ps by (auto simp: copy_redirect_def relocated_def fun_eq_iff Let_def)
  have range: "\<forall>i < 4 * copied st sp. v + (sp - st) + of_nat i \<in> ?D \<and> sp + of_nat i \<notin> ?D"
    using copy_inside [OF sp] st(2) new by blast
  obtain m' where m': "copy_words (\<lambda>m. load32 m (parent + 12) + PAGE_SIZE) (copy_redirect parent v) (ram k1) sp (v + (sp - st)) = Some m'"
    "\<forall>b. (\<forall>i < 4 * copied st sp. b \<noteq> v + (sp - st) + of_nat i) \<longrightarrow> m' b = ram k1 b"
    "\<forall>j < copied st sp. load32 m' (v + (sp - st) + of_nat (4 * j)) = relocated st v (load32 (ram k1) (sp + of_nat (4 * j)))"
    using copy_words_run [OF stop, of "ram k1" sp "copied st sp" "v + (sp - st)",
        OF _ copy_stops [OF st(3) sp] range copied_words(2) [OF sp(2)]] by blast
  have "\<forall>b. b \<notin> ?D \<longrightarrow> m' b = ram k1 b" using m'(2) range by metis
  then show thesis using that m'(1,3) ps [of "ram k1"] by blast
qed

lemma copy_stack_evolves:
  assumes inv: "kmem_inv k" and page: "kalloc_block k = Inr (v, k1)"
    and child: "(child, B) \<in> kowns k" "span child sizeof_task \<subseteq> B"
    and parent: "(parent, C) \<in> kowns k" "span parent sizeof_task \<subseteq> C"
    and st: "load32 (ram k) (parent + 12) = st" "span st PAGE_SIZE \<subseteq> kstatic k" "unat st mod 4194304 = 0"
    and sp: "st \<le> sp" "(unat sp - unat st) mod 4 = 0"
  obtains k' where "copy_stack child parent sp k = Inr k'" "evolves k k' {child}" "kowns k' = kowns k"
    "kstatic k' = kstatic k \<union> span v PAGE_SIZE" "span v PAGE_SIZE \<inter> kstatic k = {}" "pages k' = pages k1"
    "\<forall>a \<in> B. ram k' a = store32 (ram k) (child + 12) v a"
    "unat st < 0xFFC00000 \<Longrightarrow> \<forall>q. unat sp - unat st \<le> 4 * q \<longrightarrow> 4 * q < 4194304 \<longrightarrow>
      load32 (ram k') (v + of_nat (4 * q)) = relocated st v (load32 (ram k) (st + of_nat (4 * q)))"
proof -
  let ?D = "span v PAGE_SIZE"
  note new = kernel_pages.new_page_fresh [OF inv page] and kept = kernel_pages.new_page_kept [OF inv page]
  obtain m' where m': "copy_words (\<lambda>m. load32 m (parent + 12) + PAGE_SIZE) (copy_redirect parent v) (ram k1) sp (v + (sp - st)) = Some m'"
    "\<forall>b. b \<notin> ?D \<longrightarrow> m' b = ram k1 b" "load32 (ram k1) (parent + 12) = st"
    "\<forall>j < copied st sp. load32 m' (v + (sp - st) + of_nat (4 * j)) = relocated st v (load32 (ram k1) (sp + of_nat (4 * j)))"
    by (rule copy_stack_words [OF inv page parent st sp])
  have B1: "(child, B) \<in> kowns k1" using new child(1) by auto
  let ?k2 = "k1\<lparr>ram := m'\<rparr>"
  have "m' a = ram k1 a" if "a \<notin> kstatic k1" for a using m'(2) that kept(4) by blast
  note u = kernel_pages.static_kept [OF kept(1), of "\<lambda>_. m'", OF this]
  have ev2: "evolves k ?k2 {}"
  proof -
    have "ram ?k2 a = ram k a" if "a \<in> kstatic k" for a
      using that new kept(6) [OF that] m'(2) by auto
    moreover have "others_kept (ram k) (kowns k) (ram ?k2) (kowns ?k2) {}"
      using others_kept_trans [OF kept(5) u(4)] by simp
    ultimately show ?thesis using u(1,3) kept(3) by (auto simp: evolves_def)
  qed
  have word: "span (child + 12) 4 \<subseteq> B" using words_of_task(4) [of child] child(2) by blast
  have B2: "(child, B) \<in> kowns ?k2" using u(2) B1 by simp
  let ?k' = "store (child + 12) v ?k2"
  note s = store_evolves [OF u(1) B2 word, of v]
  have s': "ram ?k' = store32 m' (child + 12) v" "pages ?k' = pages k1" using s by simp_all
  have BD: "B \<inter> kstatic k1 = {}" by (rule kernel_pages.owned_not_static [OF kept(1) B1])
  have onB: "ram ?k' a = store32 (ram k) (child + 12) v a" if "a \<in> B" for a
  proof -
    have "m' a = ram k a" using that BD m'(2) kept(4) new by (metis disjoint_iff subsetD)
    then show ?thesis unfolding s'(1) by (simp add: store32_def)
  qed
  have words: "load32 (ram ?k') (v + of_nat (4 * q)) = relocated st v (load32 (ram k) (st + of_nat (4 * q)))"
    if q: "unat st < 0xFFC00000" "unat sp - unat st \<le> 4 * q" "4 * q < 4194304" for q
  proof -
    obtain j where j: "j < copied st sp" "v + (sp - st) + of_nat (4 * j) = v + of_nat (4 * q)" "sp + of_nat (4 * j) = st + of_nat (4 * q)"
      by (rule copy_word_index [OF sp q])
    have "ram ?k' b = m' b" if "b \<in> span (v + of_nat (4 * q)) 4" for b
      unfolding s'(1) using that page_word [OF q(3), of v] kept(4) BD word by (intro store32_outside) blast
    then have "load32 (ram ?k') (v + of_nat (4 * q)) = load32 m' (v + of_nat (4 * q))" by (rule load32_cong)
    moreover have "load32 (ram k1) (st + of_nat (4 * q)) = load32 (ram k) (st + of_nat (4 * q))"
      using page_word [OF q(3), of st] st(2) by (intro load32_cong kept(6)) blast
    ultimately show ?thesis using m'(4) j by metis
  qed
  have "copy_stack child parent sp k = Inr ?k'"
    using page m'(1) by (simp add: copy_stack_def m'(3))
  then show thesis
  proof (rule that)
    show "evolves k ?k' {child}" using evolves_trans [OF ev2 s(1)] by simp
    show "kowns ?k' = kowns k" using s(2) u(2) new by simp
    show "kstatic ?k' = kstatic k \<union> ?D" "?D \<inter> kstatic k = {}" using s(3) u(3) new by auto
  qed (use s'(2) onB words in auto)
qed


section \<open>Creating a thread\<close>

lemma load32_zero: "(\<And>b. b \<in> span a 4 \<Longrightarrow> m b = 0) \<Longrightarrow> load32 m a = 0"
  by (simp add: load32_def in_span)

lemma task_at_zero:
  assumes "\<And>a. a \<in> span t sizeof_task \<Longrightarrow> m a = 0"
  shows "task_at m t = \<lparr>t_eip = 0, t_esp = 0, t_ebp = 0, t_stack_start = 0, t_id = 0, t_ticks = 0\<rparr>"
  using assms words_of_task [of t] unfolding task_at_def
  by (simp add: load32_zero subset_iff)

text \<open>An update of the list fields of tasks changes nothing else of the kernel's memory.\<close>

lemma cell_updates:
  assumes inv: "kmem_inv k" and own: "\<forall>t \<in> T. \<exists>B. (t, B) \<in> kowns k \<and> span t sizeof_task \<subseteq> B"
    and f: "\<forall>a. a \<notin> (\<Union>t \<in> T. cell next_task t) \<longrightarrow> f (ram k) a = ram k a"
  shows "evolves k (ram_update f k) T" "kowns (ram_update f k) = kowns k" "kstatic (ram_update f k) = kstatic k"
proof -
  have cell: "\<exists>B. (t, B) \<in> kowns k \<and> cell next_task t \<subseteq> B" if t: "t \<in> T" for t
  proof -
    obtain B where "(t, B) \<in> kowns k" "span t sizeof_task \<subseteq> B" using own t by blast
    then show ?thesis using words_of_task(7) [of t] by blast
  qed
  have heap: "f (ram k) a = ram k a" if a: "\<And>p B. (p, B) \<in> kowns k \<Longrightarrow> a \<notin> B" for a
  proof -
    have "a \<notin> cell next_task t" if "t \<in> T" for t using cell [OF that] a by blast
    then show ?thesis using f by simp
  qed
  have static: "f (ram k) a = ram k a" if "a \<in> kstatic k" for a
    using heap kernel_pages.owned_not_static [OF inv] that by blast
  have up: "kmem_inv (ram_update f k) \<and> kowns (ram_update f k) = kowns k \<and> kstatic (ram_update f k) = kstatic k"
  proof (rule kernel_pages.update_data [OF inv])
    fix a assume "a \<notin> kstatic k" "a \<notin> \<Union> (snd ` kowns k)"
    then show "f (ram k) a = ram k a" by (intro heap) force
  qed
  have "f (ram k) a = ram k a" if own: "(p, C) \<in> kowns k" "p \<notin> T" "a \<in> C" for p C a
  proof -
    have "a \<notin> cell next_task t" if t: "t \<in> T" for t
    proof -
      obtain B where "(t, B) \<in> kowns k" "cell next_task t \<subseteq> B" using cell [OF t] by blast
      moreover from this(1) have "B \<inter> C = {}" using kernel.owns_disjoint [OF inv _ own(1)] own(2) t by blast
      ultimately show ?thesis using own(3) by blast
    qed
    then show ?thesis using f by simp
  qed
  then have "others_kept (ram k) (kowns k) (ram (ram_update f k)) (kowns (ram_update f k)) T"
    using up by (simp add: others_kept_def)
  then show "evolves k (ram_update f k) T" using up static unfolding evolves_def by simp
  show "kowns (ram_update f k) = kowns k" "kstatic (ram_update f k) = kstatic k" using up by simp_all
qed

text \<open>A new task joins the list after the creator.\<close>

lemma insert_task:
  assumes ok: "tasks_ok h k ts" and i: "i < length ts"
    and x: "x \<notin> set ts" "x \<noteq> 0" "(x, B) \<in> kowns k" "span x sizeof_task \<subseteq> B"
    and st: "span (stack_of (ram k) x) PAGE_SIZE \<subseteq> kstatic k"
      "span (stack_of (ram k) x) PAGE_SIZE \<inter> span h 4 = {}" "unat (stack_of (ram k) x) mod unat PAGE_SIZE = 0"
      "\<forall>u \<in> set ts. span (stack_of (ram k) u) PAGE_SIZE \<inter> span (stack_of (ram k) x) PAGE_SIZE = {}"
  defines "k' \<equiv> ram_update (\<lambda>m. LIST_INSERT_AFTER m (ts ! i) x next_task) k"
    and "ts' \<equiv> take (Suc i) ts @ x # drop (Suc i) ts"
  shows "tasks_ok h k' ts'" "kowns k' = kowns k" "kstatic k' = kstatic k" "pages k' = pages k"
    "\<And>a. a \<in> kstatic k \<Longrightarrow> ram k' a = ram k a" "\<And>u. u \<in> set ts' \<Longrightarrow> task_at (ram k') u = task_at (ram k) u"
    "evolves k k' (insert x (set ts))"
proof -
  have inv: "kmem_inv k" and q: "queue_ok PAGE_SIZE (ram k) (kowns k) (kstatic k) h ts"
    using ok by (auto simp: tasks_ok_def)
  let ?ys = "take (Suc i) ts" and ?zs = "drop (Suc i) ts" and ?f = "\<lambda>m. LIST_INSERT_AFTER m (ts ! i) x next_task"
  have ys: "?ys = take i ts @ [ts ! i]" using i by (simp add: take_Suc_conv_app_nth)
  note qd = queue_okD [OF q]
  have "set ts = set ?ys \<union> set ?zs" by (metis append_take_drop_id set_append)
  then have sub: "set ts' = insert x (set ts)" by (simp add: ts'_def)
  have "distinct (?ys @ ?zs)" using qd(2) by simp
  moreover have "x \<notin> set ?ys" "x \<notin> set ?zs" using x(1) in_set_takeD in_set_dropD by fast+
  ultimately have d: "distinct ts'" unfolding ts'_def by (simp del: append_take_drop_id)
  have owned: "\<forall>t \<in> set ts'. \<exists>B. (t, B) \<in> kowns k \<and> span t sizeof_task \<subseteq> B"
    using qd(4) x(3,4) unfolding sub by blast
  have "separate h next_task ts'" using kernel_pages.queue_separate [OF inv q owned d] .
  then have sep: "separate h next_task (take i ts @ ts ! i # x # ?zs)" unfolding ts'_def ys by simp
  have list: "list_at (ram k) h next_task (take i ts @ ts ! i # ?zs)"
    using qd(1) i by (simp add: id_take_nth_drop [symmetric])
  note ins = insert_after [OF list sep x(2)]
  have f: "list_at (?f (ram k)) h next_task (?ys @ x # ?zs)"
    "\<forall>a. a \<notin> touched h next_task ?ys x ?zs \<longrightarrow> ?f (ram k) a = ram k a"
    using ins unfolding ys by simp_all
  have "?ys \<noteq> []" "set ?ys \<union> {x} \<union> set ?zs \<subseteq> set ts'" using i by (auto simp: ts'_def)
  then have "touched h next_task ?ys x ?zs \<subseteq> (\<Union>t \<in> set ts'. cell next_task t)"
    using touched_cells [of ?ys x ?zs "set ts'" h next_task] by simp
  then have "\<forall>a. a \<notin> (\<Union>t \<in> set ts'. cell next_task t) \<longrightarrow> ?f (ram k) a = ram k a"
    using f(2) by blast
  note up = cell_updates [OF inv owned, of ?f, OF this, folded k'_def]
  show "evolves k k' (insert x (set ts))" using up(1) unfolding sub .
  show "kowns k' = kowns k" "kstatic k' = kstatic k" by (fact up(2), fact up(3))
  show "pages k' = pages k" by (simp add: k'_def)
  show "ram k' a = ram k a" if "a \<in> kstatic k" for a using up(1) that by (simp add: evolves_def)
  have q2: "queue_ok PAGE_SIZE (ram k) (kowns k) (kstatic k) h (?ys @ ?zs)" "x \<notin> set (?ys @ ?zs)"
    "\<forall>u \<in> set (?ys @ ?zs). span (stack_of (ram k) u) PAGE_SIZE \<inter> span (stack_of (ram k) x) PAGE_SIZE = {}"
    using q x(1) st(4) by simp_all
  note qi = kernel_pages.queue_insert [where f = ?f, OF inv q2(1,2) x(2-4) st(1-3) q2(3) f]
  show "tasks_ok h k' ts'"
    using qi(1) up unfolding tasks_ok_def evolves_def by (simp add: ts'_def) (simp add: k'_def)
  show "task_at (ram k') u = task_at (ram k) u" if "u \<in> set ts'" for u
    using qi(2) [of u] that by (simp add: ts'_def k'_def)
qed


lemma disjoint_mono: "A \<inter> B = {} \<Longrightarrow> C \<subseteq> B \<Longrightarrow> A \<inter> C = {}"
  by blast

lemma kalloc_block_aligned:
  assumes "kmem_inv k" "kalloc_block k = Inr (v, k')"
  shows "unat v mod 4194304 = 0"
proof -
  obtain p m where "alloc_block (pages k) (ram k) = Inr (v, p, m)" "palloc_ok (pages k)"
    using assms by (auto simp: kalloc_block_def rbind_eq_Inr kmem_inv_def kmem_ok_def)
  then have "unat v = unat v div 4194304 * 4194304" using alloc_block_new_page by blast
  then show ?thesis by (metis mod_mult_self2_is_0)
qed

text \<open>\<open>thread_create\<close> up to the insertion: a new task with a stack of its own.\<close>

lemma fork_child:
  assumes ok: "tasks_ok h k ts" "t \<in> set ts" and new: "task_new k = Inr (child, k1)"
    and page: "kalloc_block (store (child + 16) i k1) = Inr (v, k2)"
    and st: "stack_of (ram k) t = st" and csp: "st \<le> csp" "(unat csp - unat st) mod 4 = 0"
  obtains k3 B where "copy_stack child t csp (store (child + 16) i k1) = Inr k3" "evolves k k3 {child}"
    "(child, B) \<in> kowns k3" "span child sizeof_task \<subseteq> B" "kstatic k3 = kstatic k \<union> span v PAGE_SIZE"
    "span v PAGE_SIZE \<inter> kstatic k = {}" "unat v mod 4194304 = 0" "pages k3 = pages k2"
    "task_at (ram k3) child = \<lparr>t_eip = 0, t_esp = 0, t_ebp = 0, t_stack_start = v, t_id = i, t_ticks = 0\<rparr>"
    "unat st < 0xFFC00000 \<Longrightarrow> \<forall>q. unat csp - unat st \<le> 4 * q \<longrightarrow> 4 * q < 4194304 \<longrightarrow>
      load32 (ram k3) (v + of_nat (4 * q)) = relocated st v (load32 (ram k) (st + of_nat (4 * q)))"
proof -
  have inv: "kmem_inv k" and q: "queue_ok PAGE_SIZE (ram k) (kowns k) (kstatic k) h ts"
    using ok(1) by (simp_all add: tasks_ok_def)
  obtain B where n: "evolves k k1 {child}" "kstatic k1 = kstatic k" "(child, B) \<in> kowns k1" "span child sizeof_task \<subseteq> B"
    "\<And>p C. (p, C) \<in> kowns k \<Longrightarrow> p \<noteq> child" "\<And>a. a \<in> span child sizeof_task \<Longrightarrow> ram k1 a = 0"
    by (rule task_new_evolves [OF inv new]) (rule that)
  define k1' where "k1' = store (child + 16) i k1"
  have "kmem_inv k1" "span (child + 16) 4 \<subseteq> B" using n(1) words_of_task(5) [of child] n(4) by (auto simp: evolves_def)
  note e1 = store_evolves [OF this(1) n(3) this(2), of i, folded k1'_def]
  have ev1: "evolves k k1' {child}" using evolves_trans [OF n(1) e1(1)] by simp
  have B1: "(child, B) \<in> kowns k1'" and static1: "kstatic k1' = kstatic k" using e1(2,3) n(2,3) by simp_all
  have "{child} \<inter> set ts = {}" using n(5) queue_okD(4) [OF q] by blast
  note t1 = evolves_tasks [OF ev1 ok(1) this]
  then have q1: "kmem_inv k1'" "queue_ok PAGE_SIZE (ram k1') (kowns k1') (kstatic k1') h ts" by (simp_all add: tasks_ok_def)
  have "task_at (ram k1') t = task_at (ram k) t" using t1(2) ok(2) by (simp add: tasks_of_def)
  then have st1: "load32 (ram k1') (t + 12) = st" using st by (simp add: task_at_def stack_of_def)
  obtain C where C: "(t, C) \<in> kowns k1'" "span t sizeof_task \<subseteq> C" using queue_okD(4) [OF q1(2) ok(2)] by blast
  have stk: "span st PAGE_SIZE \<subseteq> kstatic k1'" "unat st mod 4194304 = 0"
    using queue_okD(5,7) [OF q1(2) ok(2)] st1 by (simp_all add: stack_of_def PAGE_SIZE_def)
  note page' = page [folded k1'_def]
  obtain k3 where c: "copy_stack child t csp k1' = Inr k3" "evolves k1' k3 {child}" "kowns k3 = kowns k1'"
    "kstatic k3 = kstatic k1' \<union> span v PAGE_SIZE" "span v PAGE_SIZE \<inter> kstatic k1' = {}" "pages k3 = pages k2"
    "\<forall>a \<in> B. ram k3 a = store32 (ram k1') (child + 12) v a"
    "unat st < 0xFFC00000 \<Longrightarrow> \<forall>q. unat csp - unat st \<le> 4 * q \<longrightarrow> 4 * q < 4194304 \<longrightarrow>
      load32 (ram k3) (v + of_nat (4 * q)) = relocated st v (load32 (ram k1') (st + of_nat (4 * q)))"
    by (rule copy_stack_evolves [OF q1(1) page' B1 n(4) C st1 stk csp]) (rule that)
  have "task_at (ram k3) child = task_at (store32 (ram k1') (child + 12) v) child"
    using c(7) n(4) by (intro task_at_span) blast
  then have rec: "task_at (ram k3) child = \<lparr>t_eip = 0, t_esp = 0, t_ebp = 0, t_stack_start = v, t_id = i, t_ticks = 0\<rparr>"
    using task_at_zero [of child "ram k1", OF n(6)] by (simp add: task_at_store e1(4))
  have same: "load32 (ram k1') (st + of_nat (4 * q)) = load32 (ram k) (st + of_nat (4 * q))" if "4 * q < 4194304" for q
    using page_word [OF that, of st] stk(1) ev1 static1 by (intro load32_cong) (auto simp: evolves_def)
  show thesis
    by (rule that [OF c(1) [unfolded k1'_def]])
      (use evolves_trans [OF ev1 c(2)] c(3-6,8) B1 n(4) static1 kalloc_block_aligned [OF q1(1) page'] rec same in simp_all)
qed

lemma new_stack_apart:
  assumes ok: "tasks_ok h k ts" "tasks_ok h k3 ts" "tasks_of k3 ts = tasks_of k ts"
    and v: "stack_of (ram k3) child = v" "kstatic k3 = kstatic k \<union> span v PAGE_SIZE" "span v PAGE_SIZE \<inter> kstatic k = {}"
      "unat v mod 4194304 = 0"
  shows "span (stack_of (ram k3) child) PAGE_SIZE \<subseteq> kstatic k3" "span (stack_of (ram k3) child) PAGE_SIZE \<inter> span h 4 = {}"
    "unat (stack_of (ram k3) child) mod unat PAGE_SIZE = 0"
    "\<forall>u \<in> set ts. span (stack_of (ram k3) u) PAGE_SIZE \<inter> span (stack_of (ram k3) child) PAGE_SIZE = {}"
proof -
  have q: "queue_ok PAGE_SIZE (ram k) (kowns k) (kstatic k) h ts" using ok(1) by (simp add: tasks_ok_def)
  show "span (stack_of (ram k3) child) PAGE_SIZE \<subseteq> kstatic k3" unfolding v(1,2) by (rule Un_upper2)
  show "span (stack_of (ram k3) child) PAGE_SIZE \<inter> span h 4 = {}"
    unfolding v(1) using v(3) queue_okD(3) [OF q] by (rule disjoint_mono)
  show "unat (stack_of (ram k3) child) mod unat PAGE_SIZE = 0" unfolding v(1) using v(4) by (simp add: PAGE_SIZE_def)
  show "\<forall>u \<in> set ts. span (stack_of (ram k3) u) PAGE_SIZE \<inter> span (stack_of (ram k3) child) PAGE_SIZE = {}"
  proof
    fix u assume u: "u \<in> set ts"
    have "task_at (ram k3) u = task_at (ram k) u" using ok(3) u by (simp add: tasks_of_def)
    then have "stack_of (ram k3) u = stack_of (ram k) u" by (simp add: task_at_def stack_of_def)
    moreover have "span v PAGE_SIZE \<inter> span (stack_of (ram k) u) PAGE_SIZE = {}"
      using v(3) queue_okD(5) [OF q u] by (rule disjoint_mono)
    ultimately show "span (stack_of (ram k3) u) PAGE_SIZE \<inter> span (stack_of (ram k3) child) PAGE_SIZE = {}"
      unfolding v(1) by (simp add: Int_commute)
  qed
qed

text \<open>The end of \<open>thread_create\<close> in the creator: the child joins the list and gets its registers.\<close>

lemma join_child:
  fixes ip sp bp :: u32
  assumes ok: "tasks_ok h k ts" "i < length ts"
    and x: "x \<notin> set ts" "x \<noteq> 0" "(x, B) \<in> kowns k" "span x sizeof_task \<subseteq> B"
    and st: "span (stack_of (ram k) x) PAGE_SIZE \<subseteq> kstatic k"
      "span (stack_of (ram k) x) PAGE_SIZE \<inter> span h 4 = {}" "unat (stack_of (ram k) x) mod unat PAGE_SIZE = 0"
      "\<forall>u \<in> set ts. span (stack_of (ram k) u) PAGE_SIZE \<inter> span (stack_of (ram k) x) PAGE_SIZE = {}"
  defines "k4 \<equiv> ram_update (\<lambda>m. LIST_INSERT_AFTER m (ts ! i) x next_task) k"
    and "ts' \<equiv> take (Suc i) ts @ x # drop (Suc i) ts"
  defines "k7 \<equiv> store x ip (store (x + 8) bp (store (x + 4) sp k4))"
  shows "tasks_ok h k7 ts'" "evolves k k7 (insert x (set ts))" "kstatic k7 = kstatic k" "pages k7 = pages k"
    "task_at (ram k4) x = task_at (ram k) x" "task_at (ram k4) (ts ! i) = task_at (ram k) (ts ! i)"
    "tasks_of k7 ts' = take (Suc i) (tasks_of k ts) @ (task_at (ram k) x)\<lparr>t_eip := ip, t_esp := sp, t_ebp := bp\<rparr> # drop (Suc i) (tasks_of k ts)"
proof -
  note i4 = insert_task [OF ok x st, folded k4_def ts'_def]
  have len: "Suc i < length ts'" and at: "ts' ! Suc i = x" using ok(2) by (simp_all add: ts'_def nth_append)
  note s1 = record_stores(2) [OF i4(1) len, of sp, unfolded at]
  note s2 = record_stores(3) [OF record_stepD(1) [OF s1] len, of bp, unfolded at]
  note s3 = record_stores(1) [OF record_stepD(1) [OF s2] len, of ip, unfolded at]
  note r = record_stepD [OF record_step_trans [OF record_step_trans [OF s1 s2 len] s3 len], unfolded at, folded k7_def]
  show "tasks_ok h k7 ts'" "kstatic k7 = kstatic k" "pages k7 = pages k" using r(1,4,5) i4(3,4) by simp_all
  show "evolves k k7 (insert x (set ts))" using evolves_trans [OF i4(7) r(2)] by simp
  have "x \<in> set ts'" "ts ! i \<in> set ts'" using ok(2) by (auto simp: ts'_def take_Suc_conv_app_nth)
  then show "task_at (ram k4) x = task_at (ram k) x" "task_at (ram k4) (ts ! i) = task_at (ram k) (ts ! i)" using i4(6) by blast+
  have "tasks_of k4 ts' = map (task_at (ram k)) ts'" unfolding tasks_of_def using i4(6) by (intro map_cong) auto
  also have "\<dots> = take (Suc i) (tasks_of k ts) @ task_at (ram k) x # drop (Suc i) (tasks_of k ts)"
    by (simp add: tasks_of_def ts'_def take_map drop_map)
  finally have l4: "tasks_of k4 ts' = take (Suc i) (tasks_of k ts) @ task_at (ram k) x # drop (Suc i) (tasks_of k ts)" .
  have "length (take (Suc i) (tasks_of k ts)) = Suc i" using ok(2) by simp
  then show "tasks_of k7 ts' =
      take (Suc i) (tasks_of k ts) @ (task_at (ram k) x)\<lparr>t_eip := ip, t_esp := sp, t_ebp := bp\<rparr> # drop (Suc i) (tasks_of k ts)"
    unfolding r(6) l4 by (simp add: list_update_append nth_append)
qed

text \<open>The whole of \<open>thread_create\<close> in the creator, once its two allocations have succeeded.\<close>

lemma thread_create_steps:
  assumes ok: "sched_ok h s ts i" and new: "task_new (mm s) = Inr (child, k1)"
    and page: "kalloc_block (store (child + 16) (load32 (ram k1) (current s + 16) + 1) k1) = Inr (v, k2)"
    and st: "t_stack_start (task_at (ram (mm s)) (current s)) = st"
    and csp: "st \<le> csp" "(unat csp - unat st) mod 4 = 0"
  obtains s' where "thread_create task csp ip sp bp s = Inr s'" "child \<notin> set ts"
    "sched_ok h s' (take (Suc i) ts @ child # drop (Suc i) ts) i"
    "tasks_of (mm s') (take (Suc i) ts @ child # drop (Suc i) ts) =
      take (Suc i) (tasks_of (mm s) ts) @
      \<lparr>t_eip = ip, t_esp = v - st + sp, t_ebp = v - st + bp, t_stack_start = v,
       t_id = t_id (task_at (ram (mm s)) (current s)) + 1, t_ticks = 0\<rparr> # drop (Suc i) (tasks_of (mm s) ts)"
    "kstatic (mm s') = kstatic (mm s) \<union> span v PAGE_SIZE" "pages (mm s') = pages k2"
    "evolves (mm s) (mm s') (set ts)" "s' = s\<lparr>mm := mm s'\<rparr>" "\<And>p C. (p, C) \<in> kowns (mm s) \<Longrightarrow> p \<noteq> child"
    "\<And>q. unat st < 0xFFC00000 \<Longrightarrow> unat csp - unat st \<le> 4 * q \<Longrightarrow> 4 * q < 4194304 \<Longrightarrow>
      load32 (ram (mm s')) (v + of_nat (4 * q)) = relocated st v (load32 (ram (mm s)) (st + of_nat (4 * q)))"
proof -
  let ?k = "mm s" and ?t = "ts ! i" and ?ts = "take (Suc i) ts @ child # drop (Suc i) ts"
  have s: "tasks_ok h ?k ts" "i < length ts" "current s = ?t" using ok by (auto simp: sched_ok_def)
  have inv: "kmem_inv ?k" and q: "queue_ok PAGE_SIZE (ram ?k) (kowns ?k) (kstatic ?k) h ts"
    using s(1) by (simp_all add: tasks_ok_def)
  have t: "?t \<in> set ts" using s(2) by simp
  have tnz: "?t \<noteq> 0" using list_at_nonzero [OF queue_okD(1) [OF q]] t by metis
  have "child \<noteq> 0 \<and> evolves ?k k1 {child} \<and> (\<forall>p C. (p, C) \<in> kowns ?k \<longrightarrow> p \<noteq> child)"
    by (rule task_new_evolves [OF inv new]) blast
  then have n: "child \<noteq> 0" "evolves ?k k1 {child}" "\<And>p C. (p, C) \<in> kowns ?k \<Longrightarrow> p \<noteq> child" by blast+
  have cts: "child \<notin> set ts" using n(3) queue_okD(4) [OF q] by blast
  then have disj: "{child} \<inter> set ts = {}" by simp
  define id where "id = t_id (task_at (ram ?k) ?t)"
  have "task_at (ram k1) ?t = task_at (ram ?k) ?t"
    using evolves_tasks(2) [OF n(2) s(1) disj] t by (simp add: tasks_of_def)
  then have id1: "load32 (ram k1) (?t + 16) = id" by (simp add: id_def task_at_def)
  have page': "kalloc_block (store (child + 16) (id + 1) k1) = Inr (v, k2)" using page by (simp add: id1 s(3))
  have st': "stack_of (ram ?k) ?t = st" using st s(3) by (simp add: stack_of_def task_at_def)
  obtain k3 B where c: "copy_stack child ?t csp (store (child + 16) (id + 1) k1) = Inr k3" "evolves ?k k3 {child}"
    "(child, B) \<in> kowns k3" "span child sizeof_task \<subseteq> B" "kstatic k3 = kstatic ?k \<union> span v PAGE_SIZE"
    "span v PAGE_SIZE \<inter> kstatic ?k = {}" "unat v mod 4194304 = 0" "pages k3 = pages k2"
    "task_at (ram k3) child = \<lparr>t_eip = 0, t_esp = 0, t_ebp = 0, t_stack_start = v, t_id = id + 1, t_ticks = 0\<rparr>"
    "unat st < 0xFFC00000 \<Longrightarrow> \<forall>q. unat csp - unat st \<le> 4 * q \<longrightarrow> 4 * q < 4194304 \<longrightarrow>
      load32 (ram k3) (v + of_nat (4 * q)) = relocated st v (load32 (ram ?k) (st + of_nat (4 * q)))"
    by (rule fork_child [OF s(1) t new page' st' csp]) (rule that)
  note t3 = evolves_tasks [OF c(2) s(1) disj]
  have "stack_of (ram k3) child = v" using c(9) by (simp add: stack_of_def task_at_def)
  note stacks = new_stack_apart [OF s(1) t3 this c(5-7)]
  note j = join_child(1-4,7) [OF t3(1) s(2) cts n(1) c(3,4) stacks, of ip "v - st + bp" "v - st + sp"]
  note at4 = join_child(5,6) [OF t3(1) s(2) cts n(1) c(3,4) stacks]
  let ?k4 = "ram_update (\<lambda>m. LIST_INSERT_AFTER m ?t child next_task) k3"
  let ?k7 = "store child ip (store (child + 8) (v - st + bp) (store (child + 4) (v - st + sp) ?k4))"
  have "task_at (ram k3) ?t = task_at (ram ?k) ?t" using t3(2) t by (simp add: tasks_of_def)
  then have f: "load32 (ram ?k4) (child + 12) - load32 (ram ?k4) (?t + 12) = v - st"
    using at4 c(9) st' by (simp add: task_at_def stack_of_def)
  have res: "thread_create task csp ip sp bp s = Inr (s\<lparr>mm := ?k7\<rparr>)"
    using new c(1) tnz f by (simp add: thread_create_def thread_create_fork_def thread_create_resume_def s(3) id1 Let_def)
  have ok7: "sched_ok h (s\<lparr>mm := ?k7\<rparr>) ?ts i" using j(1) s(2,3) by (simp add: sched_ok_def nth_append)
  have ev: "evolves ?k ?k7 (set ts)" by (rule evolves_objs [OF evolves_trans [OF c(2) j(2)]]) (use n(3) in auto)
  have words: "load32 (ram ?k7) (v + of_nat (4 * q)) = relocated st v (load32 (ram ?k) (st + of_nat (4 * q)))"
    if "unat st < 0xFFC00000" "unat csp - unat st \<le> 4 * q" "4 * q < 4194304" for q
  proof -
    have "load32 (ram ?k7) (v + of_nat (4 * q)) = load32 (ram k3) (v + of_nat (4 * q))"
      using page_word [OF that(3), of v] c(5) j(2) by (intro load32_cong) (auto simp: evolves_def)
    then show ?thesis using c(10) that by simp
  qed
  show thesis
    by (rule that [OF res cts ok7]) (use j(3,4,5) c(5,8,9) t3(2) ev n(3) words s(3) in \<open>simp_all add: id_def\<close>)
qed


lemma thread_create_total:
  assumes "sched_ok h s ts i" "kmem_inv (mm s)" "after_boot n (pages (mm s))" "n < 1020"
    and "st = t_stack_start (task_at (ram (mm s)) (current s))"
    and "st \<le> csp" "(unat csp - unat st) mod 4 = 0"
  shows "\<exists>child v s'. thread_create task csp ip sp bp s = Inr s' \<and> child \<notin> set ts \<and>
    sched_ok h s' (take (Suc i) ts @ child # drop (Suc i) ts) i \<and>
    tasks_of (mm s') (take (Suc i) ts @ child # drop (Suc i) ts) =
      take (Suc i) (tasks_of (mm s) ts) @
      \<lparr>t_eip = ip, t_esp = v - st + sp, t_ebp = v - st + bp, t_stack_start = v,
       t_id = t_id (task_at (ram (mm s)) (current s)) + 1, t_ticks = 0\<rparr> # drop (Suc i) (tasks_of (mm s) ts) \<and>
    evolves (mm s) (mm s') (set ts) \<and> s' = s\<lparr>mm := mm s'\<rparr> \<and> (\<forall>p C. (p, C) \<in> kowns (mm s) \<longrightarrow> p \<noteq> child) \<and>
    (unat st < 0xFFC00000 \<longrightarrow> (\<forall>q. unat csp - unat st \<le> 4 * q \<longrightarrow> 4 * q < 4194304 \<longrightarrow>
      load32 (ram (mm s')) (v + of_nat (4 * q)) =
        (let w = load32 (ram (mm s)) (st + of_nat (4 * q))
         in if st < w \<and> w < st + 0x400000 then w - st + v else w)))"
proof -
  let ?k = "mm s"
  have "running n ?k" using assms(2,3) by (simp add: running_def)
  then obtain child k0 j where k0: "kmalloc ?k sizeof_task = Inr (child, k0)" "running j k0" "j \<le> Suc n"
    using kmalloc_running [of n ?k sizeof_task] assms(4) by (auto simp: sizeof_task_def max_request_def)
  define k1 where "k1 = ram_update (\<lambda>m. memset m child 0 sizeof_task) k0"
  have new: "task_new ?k = Inr (child, k1)" using k0(1) by (simp add: task_new_def k1_def)
  obtain B where B: "evolves ?k k1 {child}" "(child, B) \<in> kowns k1" "span child sizeof_task \<subseteq> B"
    by (rule task_new_evolves [OF assms(2) new]) (rule that)
  have inv1: "kmem_inv k1" using B(1) by (simp add: evolves_def)
  let ?k2 = "store (child + 16) (load32 (ram k1) (current s + 16) + 1) k1"
  have "span (child + 16) 4 \<subseteq> B" using words_of_task(5) [of child] B(3) by blast
  note st2 = store_evolves [OF inv1 B(2) this]
  have "running j ?k2" using k0(2) st2(1,5) by (simp add: running_def evolves_def k1_def)
  then obtain k3 where k3: "kalloc_block ?k2 = Inr (page (slot j), k3)"
    using kalloc_block_running [of j ?k2] k0(3) assms(4) by auto
  obtain s' where "thread_create task csp ip sp bp s = Inr s'" "child \<notin> set ts"
    "sched_ok h s' (take (Suc i) ts @ child # drop (Suc i) ts) i"
    "tasks_of (mm s') (take (Suc i) ts @ child # drop (Suc i) ts) =
      take (Suc i) (tasks_of ?k ts) @
      \<lparr>t_eip = ip, t_esp = page (slot j) - st + sp, t_ebp = page (slot j) - st + bp, t_stack_start = page (slot j),
       t_id = t_id (task_at (ram ?k) (current s)) + 1, t_ticks = 0\<rparr> # drop (Suc i) (tasks_of ?k ts)"
    "evolves ?k (mm s') (set ts)" "s' = s\<lparr>mm := mm s'\<rparr>" "\<And>p C. (p, C) \<in> kowns ?k \<Longrightarrow> p \<noteq> child"
    "\<And>q. unat st < 0xFFC00000 \<Longrightarrow> unat csp - unat st \<le> 4 * q \<Longrightarrow> 4 * q < 4194304 \<Longrightarrow>
      load32 (ram (mm s')) (page (slot j) + of_nat (4 * q)) =
        relocated st (page (slot j)) (load32 (ram ?k) (st + of_nat (4 * q)))"
    by (rule thread_create_steps [OF assms(1) new k3 assms(5) [symmetric] assms(6,7), where task = task and ip = ip and sp = sp and bp = bp])
      (rule that)
  then show ?thesis
    by (intro exI [of _ child] exI [of _ "page (slot j)"] exI [of _ s'])
      (simp add: relocated_def PAGE_SIZE_def Let_def)
qed

text \<open>
  C12: in a kernel that has handed out fewer than 1020 pages, \<open>thread_create\<close> succeeds: a new task
  joins the list right after the current one, with a page of its own as its stack, the registers
  relocated by the distance of the two stacks, the next identifier and no time slice; every other
  task is as it was and the invariant is kept. The new stack holds the creator's stack from the
  stack pointer on, word for word, with the pointers into it relocated, unless that stack is the
  last page of the address space.
\<close>

theorem thread_create_correct:
  assumes "sched_ok h s ts i" "kmem_inv (mm s)" "after_boot n (pages (mm s))" "n < 1020"
    and "st = t_stack_start (task_at (ram (mm s)) (current s))"
    and "st \<le> csp" "(unat csp - unat st) mod 4 = 0"
  shows "\<exists>child v s'. thread_create task csp ip sp bp s = Inr s' \<and> child \<notin> set ts \<and>
    sched_ok h s' (take (Suc i) ts @ child # drop (Suc i) ts) i \<and>
    tasks_of (mm s') (take (Suc i) ts @ child # drop (Suc i) ts) =
      take (Suc i) (tasks_of (mm s) ts) @
      \<lparr>t_eip = ip, t_esp = v - st + sp, t_ebp = v - st + bp, t_stack_start = v,
       t_id = t_id (task_at (ram (mm s)) (current s)) + 1, t_ticks = 0\<rparr> # drop (Suc i) (tasks_of (mm s) ts) \<and>
    (unat st < 0xFFC00000 \<longrightarrow> (\<forall>q. unat csp - unat st \<le> 4 * q \<longrightarrow> 4 * q < 4194304 \<longrightarrow>
      load32 (ram (mm s')) (v + of_nat (4 * q)) =
        (let w = load32 (ram (mm s)) (st + of_nat (4 * q))
         in if st < w \<and> w < st + 0x400000 then w - st + v else w)))"
  using thread_create_total [OF assms, of task ip sp bp] by (elim exE conjE) (intro exI conjI; assumption)

section \<open>Starting the scheduler\<close>

lemma task_init_new:
  "task_init h handler S sp old_esp old_ebp s =
     rbind (move_stack S sp old_esp old_ebp (ram (mm s))) (\<lambda>(stack, new_esp, new_ebp, m).
     rbind (task_new ((mm s)\<lparr>ram := m\<rparr>)) (\<lambda>(task, k).
     let k = store (task + 20) TICKS_PER_SLICE (store (task + 12) stack k);
         k = ram_update (\<lambda>m. LIST_INSERT_HEAD m h task next_task) k
     in rbind (timer_set_handler 1000 handler (vectors s) (io_log s)) (\<lambda>(v, t).
        Inr (s\<lparr>mm := k, current := task,
               vectors := register_interrupt_handler IRQ_YIELD handler v, io_log := t\<rparr>))))"
proof -
  have "rbind (rbind r (\<lambda>(t, k). Inr (t, g t k))) (\<lambda>(t, k). f t k) = rbind r (\<lambda>(t, k). f t (g t k))"
    for r :: "(addr \<times> kmem) res" and g and f :: "addr \<Rightarrow> kmem \<Rightarrow> sched res"
    by (cases r) auto
  then show ?thesis by (simp add: task_init_def task_new_def Let_def)
qed

lemma boot_stack_page: "a \<in> span 0xC0400000 PAGE_SIZE \<longleftrightarrow> unat a div 4194304 = 769"
  using page_span [of a 769] by (simp add: page_def PAGE_SIZE_def)

lemma head_page:
  assumes "unat h div 4194304 = 768" "unat h mod 4194304 \<le> 4194300" "a \<in> span h 4"
  shows "unat a div 4194304 = 768"
proof -
  have h: "unat h = 768 * 4194304 + unat h mod 4194304" using assms(1) mult_div_mod_eq [of 4194304 "unat h"] by simp
  then have "unat h + unat (4 :: u32) \<le> 2 ^ 32" using assms(2) by simp
  from in_span_nat [OF this] have "unat h \<le> unat a" "unat a < unat h + 4" using assms(3) by simp_all
  then show ?thesis using h assms(2) by (intro div_nat_eqI) simp_all
qed

lemma first_task:
  assumes inv: "kmem_inv k" and head: "load32 (ram k) h = 0" "span h 4 \<subseteq> kstatic k"
    and x: "x \<noteq> 0" "(x, B) \<in> kowns k" "span x sizeof_task \<subseteq> B"
    and st: "span (stack_of (ram k) x) PAGE_SIZE \<subseteq> kstatic k"
      "span (stack_of (ram k) x) PAGE_SIZE \<inter> span h 4 = {}" "unat (stack_of (ram k) x) mod unat PAGE_SIZE = 0"
  defines "k' \<equiv> ram_update (\<lambda>m. LIST_INSERT_HEAD m h x next_task) k"
  shows "tasks_ok h k' [x]" "task_at (ram k') x = task_at (ram k) x" "pages k' = pages k" "kstatic k' = kstatic k"
    "kowns k' = kowns k" "kmem_inv k'" "others_kept (ram k) (kowns k) (ram k') (kowns k') {x}"
    "a \<in> kstatic k \<Longrightarrow> a \<notin> span h 4 \<Longrightarrow> ram k' a = ram k a"
proof -
  let ?f = "\<lambda>m. LIST_INSERT_HEAD m h x next_task"
  have list: "list_at (ram k) h next_task []" using head(1) by (simp add: list_at_def)
  have q: "queue_ok PAGE_SIZE (ram k) (kowns k) (kstatic k) h ([] @ [])"
    using list head(2) by (simp add: queue_ok_def)
  have sep: "separate h next_task [x]"
    by (rule kernel_pages.queue_separate [OF inv q]) (use x in auto)
  note ins = insert_head [OF list sep x(1)]
  have tch: "touched h next_task [] x [] \<subseteq> span h 4 \<union> span x sizeof_task"
    using words_of_task(7) [of x] by (auto simp: touched_def pointing_def)
  have out: "?f (ram k) a = ram k a" if "a \<notin> kstatic k" "a \<notin> \<Union> (snd ` kowns k)" for a
  proof -
    have "B \<subseteq> \<Union> (snd ` kowns k)" using image_eqI [of B snd "(x, B)"] x(2) by (intro Union_upper) simp
    then have "a \<notin> touched h next_task [] x []" using tch that head(2) x(3) by (meson Un_iff subsetD)
    then show ?thesis using ins(2) by blast
  qed
  have up: "kmem_inv k' \<and> kowns k' = kowns k \<and> kstatic k' = kstatic k"
    unfolding k'_def using kernel_pages.update_data [OF inv, of ?f] out by metis
  show "pages k' = pages k" by (simp add: k'_def)
  show "kstatic k' = kstatic k" "kowns k' = kowns k" "kmem_inv k'" using up by simp_all
  have same: "ram k' a = ram k a" if "a \<notin> span h 4" "a \<notin> B" for a
  proof -
    have "a \<notin> touched h next_task [] x []" using tch x(3) that by blast
    then show ?thesis using ins(2) by (simp add: k'_def)
  qed
  show "a \<in> kstatic k \<Longrightarrow> a \<notin> span h 4 \<Longrightarrow> ram k' a = ram k a"
    using same kernel_pages.owned_not_static [OF inv x(2)] by blast
  have "ram k' a = ram k a" if "(p, C) \<in> kowns k" "p \<noteq> x" "a \<in> C" for p C a
  proof (rule same)
    show "a \<notin> span h 4" using kernel_pages.owned_not_static [OF inv that(1)] head(2) that(3) by blast
    show "a \<notin> B" using kernel.owns_disjoint [OF inv x(2) that(1)] that(2,3) by blast
  qed
  then show "others_kept (ram k) (kowns k) (ram k') (kowns k') {x}" using up by (simp add: others_kept_def)
  show "tasks_ok h k' [x]" "task_at (ram k') x = task_at (ram k) x"
    using kernel_pages.queue_insert [where f = ?f and ys = "[]" and zs = "[]", OF inv q _ x st] ins up
    by (simp_all add: tasks_ok_def) (simp_all add: k'_def)
qed

end
