(* ===== verification/TaskInit.thy ===== *)
theory TaskInit
  imports TaskCreate
begin

text \<open>
  \<open>task_init\<close> on a kernel whose memory is set up, the invariant of every state the scheduler reaches
  from there, the bound on the time until a task has its turn, and the witnesses of the scheduler's properties on a booted kernel.
\<close>

section \<open>Starting the scheduler\<close>

text \<open>The first task's record, before it joins the list.\<close>

lemma first_record:
  fixes stack :: u32
  assumes inv: "kmem_inv k" and new: "task_new k = Inr (t, k1)"
  defines "k3 \<equiv> store (t + 20) TICKS_PER_SLICE (store (t + 12) stack k1)"
  obtains B where "evolves k k3 {t}" "kstatic k3 = kstatic k" "(t, B) \<in> kowns k3" "t \<noteq> 0" "span t sizeof_task \<subseteq> B"
    "\<And>p C. (p, C) \<in> kowns k \<Longrightarrow> p \<noteq> t" "pages k3 = pages k1"
    "task_at (ram k3) t = \<lparr>t_eip = 0, t_esp = 0, t_ebp = 0, t_stack_start = stack, t_id = 0, t_ticks = 50\<rparr>"
proof -
  obtain B where B: "evolves k k1 {t}" "kstatic k1 = kstatic k" "(t, B) \<in> kowns k1" "t \<noteq> 0" "span t sizeof_task \<subseteq> B"
    "\<And>p C. (p, C) \<in> kowns k \<Longrightarrow> p \<noteq> t" "\<And>a. a \<in> span t sizeof_task \<Longrightarrow> ram k1 a = 0"
    by (rule task_new_evolves [OF inv new]) (rule that)
  have w: "span (t + 12) 4 \<subseteq> B" "span (t + 20) 4 \<subseteq> B" using words_of_task(4,6) [of t] B(5) by blast+
  have "kmem_inv k1" using B(1) by (simp add: evolves_def)
  note s2 = store_evolves [OF this B(3) w(1), of stack]
  have "kmem_inv (store (t + 12) stack k1)" "(t, B) \<in> kowns (store (t + 12) stack k1)"
    using s2(1,2) B(3) by (simp_all add: evolves_def)
  note s3 = store_evolves [OF this w(2), of TICKS_PER_SLICE, folded k3_def]
  have "task_at (ram k1) t = \<lparr>t_eip = 0, t_esp = 0, t_ebp = 0, t_stack_start = 0, t_id = 0, t_ticks = 0\<rparr>"
    using B(7) by (rule task_at_zero)
  then have "task_at (ram k3) t = \<lparr>t_eip = 0, t_esp = 0, t_ebp = 0, t_stack_start = stack, t_id = 0, t_ticks = 50\<rparr>"
    unfolding s3(4) s2(4) task_at_store by (simp add: TICKS_PER_SLICE_def)
  moreover have "evolves k k3 {t}" using evolves_trans [OF B(1) evolves_trans [OF s2(1) s3(1)]] by simp
  moreover have "kstatic k3 = kstatic k" "(t, B) \<in> kowns k3" "pages k3 = pages k1" using s2(2,3,5) s3(2,3,5) B(2,3) by simp_all
  ultimately show thesis using that B(4-6) by blast
qed

text \<open>Moving the boot stack only changes its new page.\<close>

lemma move_stack_kept:
  assumes "unat S = unat sp + 4 * l" "4 * l \<le> 4194304" "unat S \<le> 0xC0400000"
  obtains m' where "move_stack S sp old_esp old_ebp m = Inr (0xC0400000, old_esp + (0xC0800000 - S), old_ebp + (0xC0800000 - S), m')"
    "\<And>a. unat a div 4194304 \<noteq> 769 \<Longrightarrow> m' a = m a"
proof -
  obtain m' where m': "move_stack S sp old_esp old_ebp m =
      Inr (0xC0400000, old_esp + (0xC0800000 - S), old_ebp + (0xC0800000 - S), m')"
    "\<forall>b. unat b < 0xC0800000 - 4 * l \<or> 0xC0800000 \<le> unat b \<longrightarrow> m' b = m b"
    using move_stack_moves [OF assms, of old_esp old_ebp m] by blast
  have "m' a = m a" if "unat a div 4194304 \<noteq> 769" for a
  proof -
    have "unat a < 0xC0400000 \<or> 0xC0800000 \<le> unat a"
    proof (rule ccontr)
      assume "\<not> (unat a < 0xC0400000 \<or> 0xC0800000 \<le> unat a)"
      then have "unat a div 4194304 = 769" by (intro div_nat_eqI) simp_all
      then show False using that by simp
    qed
    then have "unat a < 0xC0800000 - 4 * l \<or> 0xC0800000 \<le> unat a" using assms(2) by linarith
    then show ?thesis using m'(2) by blast
  qed
  with m'(1) show thesis by (rule that)
qed

lemma task_init_started:
  assumes "kmem_inv (mm s)" "after_boot n (pages (mm s))" "n < 1021"
    and "\<forall>a. unat a div 4194304 \<in> {768, 769} \<longrightarrow> a \<in> kstatic (mm s)"
    and "unat S = unat sp + 4 * l" "4 * l \<le> 4194304" "unat S \<le> 0xC0400000"
    and "unat h div 4194304 = 768" "unat h mod 4194304 \<le> 4194300" "load32 (ram (mm s)) h = 0"
  shows "\<exists>t s'. task_init h handler S sp old_esp old_ebp s = Inr s' \<and> sched_ok h s' [t] 0 \<and>
    tasks_of (mm s') [t] =
      [\<lparr>t_eip = 0, t_esp = 0, t_ebp = 0, t_stack_start = 0xC0400000, t_id = 0, t_ticks = 50\<rparr>] \<and>
    (\<exists>j. after_boot j (pages (mm s')) \<and> j \<le> Suc n) \<and>
    vectors s' = (vectors s)\<lparr>handlers := (handlers (vectors s))[32 := handler, 255 := handler]\<rparr> \<and>
    io_log s' = io_log s @ [Outb 0x43 0x36, Outb 0x40 0xA9, Outb 0x40 0x04] \<and>
    others_kept (ram (mm s)) (kowns (mm s)) (ram (mm s')) (kowns (mm s')) {t} \<and> kstatic (mm s') = kstatic (mm s) \<and>
    (\<forall>p C. (p, C) \<in> kowns (mm s) \<longrightarrow> p \<noteq> t)"
proof -
  obtain m where m: "move_stack S sp old_esp old_ebp (ram (mm s)) =
      Inr (0xC0400000, old_esp + (0xC0800000 - S), old_ebp + (0xC0800000 - S), m)"
    "\<And>a. unat a div 4194304 \<noteq> 769 \<Longrightarrow> m a = ram (mm s) a"
    by (rule move_stack_kept [OF assms(5-7)]) (rule that)
  let ?k0 = "(mm s)\<lparr>ram := m\<rparr>"
  have stack: "a \<in> kstatic (mm s)" if "unat a div 4194304 = 769 \<or> unat a div 4194304 = 768" for a
    using assms(4) that by blast
  have "m a = ram (mm s) a" if "a \<notin> kstatic (mm s)" for a using m(2) stack that by blast
  note k0 = kernel_pages.static_kept [OF assms(1), of "\<lambda>_. m", OF this]
  have run0: "running n ?k0" and inv0: "kmem_inv ?k0" using k0(1) assms(2) by (simp_all add: running_def)
  obtain t k1' j where k1': "kmalloc ?k0 sizeof_task = Inr (t, k1')" "running j k1'" "j \<le> Suc n"
    using kmalloc_running [OF run0, of sizeof_task] assms(3) by (auto simp: sizeof_task_def max_request_def)
  define k1 where "k1 = ram_update (\<lambda>m. memset m t 0 sizeof_task) k1'"
  define k3 where "k3 = store (t + 20) TICKS_PER_SLICE (store (t + 12) 0xC0400000 k1)"
  have new: "task_new ?k0 = Inr (t, k1)" using k1'(1) by (simp add: task_new_def k1_def)
  obtain B where B: "evolves ?k0 k3 {t}" "kstatic k3 = kstatic ?k0" "(t, B) \<in> kowns k3" "t \<noteq> 0" "span t sizeof_task \<subseteq> B"
    "\<And>p C. (p, C) \<in> kowns ?k0 \<Longrightarrow> p \<noteq> t" "pages k3 = pages k1"
    "task_at (ram k3) t = \<lparr>t_eip = 0, t_esp = 0, t_ebp = 0, t_stack_start = 0xC0400000, t_id = 0, t_ticks = 50\<rparr>"
    by (rule first_record [OF inv0 new, of "0xC0400000", folded k3_def]) (rule that)
  have stat: "kstatic k3 = kstatic (mm s)" using B(2) k0(3) by simp
  have hs: "span h 4 \<subseteq> kstatic k3" using head_page [OF assms(8,9)] stack unfolding stat by blast
  have st: "stack_of (ram k3) t = 0xC0400000" using B(8) by (simp add: stack_of_def task_at_def)
  have "ram k3 b = ram (mm s) b" if b: "b \<in> span h 4" for b
    using B(1) hs b k0(3) m(2) [of b] head_page [OF assms(8,9) b] unfolding stat evolves_def by auto
  then have h0: "load32 (ram k3) h = 0" using assms(10) load32_cong [of h "ram k3" "ram (mm s)"] by simp
  have stk: "span (stack_of (ram k3) t) PAGE_SIZE \<subseteq> kstatic k3"
    "span (stack_of (ram k3) t) PAGE_SIZE \<inter> span h 4 = {}" "unat (stack_of (ram k3) t) mod unat PAGE_SIZE = 0"
    unfolding st stat using stack boot_stack_page head_page [OF assms(8,9)] by (auto simp: PAGE_SIZE_def)
  have "kmem_inv k3" using B(1) by (simp add: evolves_def)
  note fin = first_task [OF this h0 hs B(4,3,5) stk]
  let ?k4 = "ram_update (\<lambda>m. LIST_INSERT_HEAD m h t next_task) k3"
  define v where "v = (vectors s)\<lparr>handlers := (handlers (vectors s))[32 := handler]\<rparr>"
  let ?s' = "s\<lparr>mm := ?k4, current := t, vectors := register_interrupt_handler IRQ_YIELD handler v,
    io_log := io_log s @ [Outb 0x43 0x36, Outb 0x40 0xA9, Outb 0x40 0x04]\<rparr>"
  have "timer_set_handler 1000 handler (vectors s) (io_log s) = Inr (v, io_log ?s')"
    by (simp add: timer_set_handler_def register_interrupt_handler_def v_def outb_def oscillator_frequency_def
        IRQ0_def PIT_COMMAND_def PIT_REPEAT_def PIT_CHANNEL0_def)
  then have "task_init h handler S sp old_esp old_ebp s = Inr ?s'"
    unfolding task_init_new by (simp add: m(1) new Let_def k3_def)
  moreover have "sched_ok h ?s' [t] 0" using fin(1) by (simp add: sched_ok_def)
  moreover have "tasks_of (mm ?s') [t] = [\<lparr>t_eip = 0, t_esp = 0, t_ebp = 0, t_stack_start = 0xC0400000, t_id = 0, t_ticks = 50\<rparr>]"
    using fin(2) B(8) by (simp add: tasks_of_def)
  moreover have "after_boot j (pages (mm ?s'))" using k1'(2) B(7) by (simp add: running_def k1_def)
  moreover have "vectors ?s' = (vectors s)\<lparr>handlers := (handlers (vectors s))[32 := handler, 255 := handler]\<rparr>"
    by (simp add: v_def register_interrupt_handler_def IRQ_YIELD_def)
  moreover have "others_kept (ram (mm s)) (kowns (mm s)) (ram (mm ?s')) (kowns (mm ?s')) {t}"
  proof -
    have "others_kept (ram (mm s)) (kowns (mm s)) (ram ?k0) (kowns ?k0) {t}"
      using k0(4) others_kept_mono [of _ _ _ _ "{}" "{t}"] by simp
    moreover have "others_kept (ram ?k0) (kowns ?k0) (ram k3) (kowns k3) {t}" using B(1) by (simp add: evolves_def)
    ultimately have "others_kept (ram (mm s)) (kowns (mm s)) (ram k3) (kowns k3) {t}" by (rule others_kept_trans)
    from others_kept_trans [OF this fin(7)] show ?thesis by simp
  qed
  moreover have "kstatic (mm ?s') = kstatic (mm s)" using fin(4) stat by simp
  moreover have "\<forall>p C. (p, C) \<in> kowns (mm s) \<longrightarrow> p \<noteq> t" using B(6) k0(2) by auto
  ultimately show ?thesis using k1'(3) by (intro exI [of _ t] exI [of _ ?s'] conjI exI [of _ j]) simp_all
qed

text \<open>
  C29: \<open>task_init\<close> succeeds on a kernel with free pages whose boot stack lies in its image: it makes
  the running code the only task, on the new stack and with a full time slice, registers
  \<open>task_switch\<close> for the timer and for interrupt 255, and programs the timer's divisor, 1193.
\<close>

theorem task_init_correct:
  assumes "kmem_inv (mm s)" "after_boot n (pages (mm s))" "n < 1021"
    and "\<forall>a. unat a div 4194304 \<in> {768, 769} \<longrightarrow> a \<in> kstatic (mm s)"
    and "unat S = unat sp + 4 * l" "4 * l \<le> 4194304" "unat S \<le> 0xC0400000"
    and "unat h div 4194304 = 768" "unat h mod 4194304 \<le> 4194300" "load32 (ram (mm s)) h = 0"
  shows "\<exists>t s'. task_init h handler S sp old_esp old_ebp s = Inr s' \<and> sched_ok h s' [t] 0 \<and>
    tasks_of (mm s') [t] =
      [\<lparr>t_eip = 0, t_esp = 0, t_ebp = 0, t_stack_start = 0xC0400000, t_id = 0, t_ticks = 50\<rparr>] \<and>
    (\<exists>j. after_boot j (pages (mm s')) \<and> j \<le> Suc n) \<and>
    vectors s' = (vectors s)\<lparr>handlers := (handlers (vectors s))[32 := handler, 255 := handler]\<rparr> \<and>
    io_log s' = io_log s @ [Outb 0x43 0x36, Outb 0x40 0xA9, Outb 0x40 0x04]"
  using task_init_started [OF assms, of handler old_esp old_ebp] by (elim exE conjE) (intro exI conjI; assumption)

section \<open>Every state the scheduler reaches\<close>

text \<open>A step of the scheduler leaves the objects that are not tasks alone, and new tasks are new objects.\<close>

definition sched_frame :: "kmem \<Rightarrow> addr list \<Rightarrow> kmem \<Rightarrow> addr list \<Rightarrow> bool" where
  "sched_frame k ts k' ts' \<longleftrightarrow>
     others_kept (ram k) (kowns k) (ram k') (kowns k') (set ts) \<and> set ts \<subseteq> set ts' \<and>
     (\<forall>t C. t \<in> set ts' \<longrightarrow> (t, C) \<in> kowns k \<longrightarrow> t \<in> set ts)"

lemma sched_frame_same: "evolves k k' (set ts) \<Longrightarrow> sched_frame k ts k' ts"
  by (auto simp: sched_frame_def evolves_def)

text \<open>No task has more than a full slice.\<close>

definition slices_ok :: "task list \<Rightarrow> bool" where
  "slices_ok xs \<longleftrightarrow> (\<forall>x \<in> set xs. t_ticks x \<le> 50)"

lemma slices_update: "slices_ok xs \<Longrightarrow> t_ticks x \<le> 50 \<Longrightarrow> slices_ok (xs[i := x])"
  unfolding slices_ok_def using set_update_subset_insert [of xs i x] by blast

lemma slices_nth: "slices_ok xs \<Longrightarrow> i < length xs \<Longrightarrow> t_ticks (xs ! i) \<le> 50"
  by (simp add: slices_ok_def)

lemma rr_switch_slices:
  assumes "slices_ok xs" "i < length xs" "rr_switch ip sp bp xs i = (c, ys, j)"
  shows "slices_ok ys"
proof (cases "t_ticks (xs ! i) = 0")
  case False
  have "unat (t_ticks (xs ! i) - 1) = unat (t_ticks (xs ! i)) - 1" using False by (simp add: unat_minus_one)
  then have "t_ticks (xs ! i) - 1 \<le> 50" using slices_nth [OF assms(1,2)] by (simp add: word_le_nat_alt)
  then show ?thesis using assms(3) False slices_update [OF assms(1)] by (auto simp: rr_switch_def)
next
  case True
  let ?zs = "xs[Suc i mod length xs := (xs ! (Suc i mod length xs))\<lparr>t_ticks := 50\<rparr>]"
  have z: "slices_ok ?zs" by (rule slices_update [OF assms(1)]) simp
  have "ys = ?zs[i := (?zs ! i)\<lparr>t_eip := ip, t_esp := sp, t_ebp := bp\<rparr>]"
    using assms(3) True by (auto simp: rr_switch_def Let_def)
  then show ?thesis using slices_update [OF z] slices_nth [OF z, of i] assms(2) by simp
qed

text \<open>The events one by one.\<close>

definition sched_kept :: "addr \<Rightarrow> sched \<Rightarrow> addr list \<Rightarrow> sched \<Rightarrow> bool" where
  "sched_kept h s ts s' \<longleftrightarrow>
     (\<exists>ts' j. sched_ok h s' ts' j \<and> sched_frame (mm s) ts (mm s') ts' \<and>
       (slices_ok (tasks_of (mm s) ts) \<longrightarrow> slices_ok (tasks_of (mm s') ts'))) \<and>
     vectors s' = vectors s \<and> io_log s' = io_log s"

lemma sched_kept_same: "sched_ok h s' ts j \<Longrightarrow> evolves (mm s) (mm s') (set ts) \<Longrightarrow>
    (slices_ok (tasks_of (mm s) ts) \<Longrightarrow> slices_ok (tasks_of (mm s') ts)) \<Longrightarrow> vectors s' = vectors s \<Longrightarrow>
    io_log s' = io_log s \<Longrightarrow> sched_kept h s ts s'"
  unfolding sched_kept_def using sched_frame_same by blast

lemma clear_ticks:
  assumes "sched_ok h s ts i"
  shows "sched_ok h (s\<lparr>mm := store (current s + 20) 0 (mm s)\<rparr>) ts i"
    "evolves (mm s) (store (current s + 20) 0 (mm s)) (set ts)"
    "slices_ok (tasks_of (mm s) ts) \<Longrightarrow> slices_ok (tasks_of (store (current s + 20) 0 (mm s)) ts)"
proof -
  have t: "tasks_ok h (mm s) ts" "i < length ts" "current s = ts ! i" using assms by (simp_all add: sched_ok_def)
  note r = record_stepD [OF record_stores(4) [OF t(1,2), of 0], folded t(3)]
  show "sched_ok h (s\<lparr>mm := store (current s + 20) 0 (mm s)\<rparr>) ts i" using r(1) t by (simp add: sched_ok_def)
  show "evolves (mm s) (store (current s + 20) 0 (mm s)) (set ts)" by (rule evolves_objs [OF r(2)]) (use t in auto)
  show "slices_ok (tasks_of (store (current s + 20) 0 (mm s)) ts)" if "slices_ok (tasks_of (mm s) ts)"
    unfolding r(6) by (rule slices_update [OF that]) simp
qed

lemma switch_step:
  assumes ok: "sched_ok h s ts i" and ip: "ip \<noteq> DUMMY_EIP" and call: "task_switch h ip sp bp s = Inr (c, s')"
  obtains j where "sched_ok h s' ts j" "evolves (mm s) (mm s') (set ts)" "vectors s' = vectors s" "io_log s' = io_log s"
    "slices_ok (tasks_of (mm s) ts) \<Longrightarrow> slices_ok (tasks_of (mm s') ts)"
proof (rule task_switch_rr [OF ok ip, of sp bp])
  fix s1 c1 xs j
  assume s1: "task_switch h ip sp bp s = Inr (c1, s1)" "sched_ok h s1 ts j" "rr_switch ip sp bp (tasks_of (mm s) ts) i = (c1, xs, j)"
    "tasks_of (mm s1) ts = xs" "vectors s1 = vectors s" "io_log s1 = io_log s" "evolves (mm s) (mm s1) (set ts)"
  have "i < length (tasks_of (mm s) ts)" using ok by (simp add: sched_ok_def)
  then have "slices_ok (tasks_of (mm s1) ts)" if "slices_ok (tasks_of (mm s) ts)" using rr_switch_slices [OF that _ s1(3)] s1(4) by simp
  moreover have "s' = s1" using call s1(1) by simp
  ultimately show thesis using that [of j] s1(2,5-7) by simp
qed

lemma switch_event:
  assumes "sched_ok h s ts i" "ip \<noteq> DUMMY_EIP" "task_switch h ip sp bp s = Inr (c, s')"
  shows "sched_kept h s ts s'"
  by (rule switch_step [OF assms]) (rule sched_kept_same)

lemma yield_event:
  assumes ok: "sched_ok h s ts i" and ip: "ip \<noteq> DUMMY_EIP" and call: "yield h ip sp bp s = Inr (c, s')"
  shows "sched_kept h s ts s'"
proof -
  note z = clear_ticks [OF ok]
  let ?s = "s\<lparr>mm := store (current s + 20) 0 (mm s)\<rparr>"
  have call': "task_switch h ip sp bp ?s = Inr (c, s')" using call by (auto simp: yield_def split: if_splits)
  show ?thesis
  proof (rule switch_step [OF z(1) ip call'])
    fix j assume s': "sched_ok h s' ts j" "evolves (mm ?s) (mm s') (set ts)" "vectors s' = vectors ?s" "io_log s' = io_log ?s"
      "slices_ok (tasks_of (mm ?s) ts) \<Longrightarrow> slices_ok (tasks_of (mm s') ts)"
    have "evolves (mm s) (mm s') (set ts)" using evolves_trans [OF z(2)] s'(2) by fastforce
    then show ?thesis using sched_kept_same [OF s'(1)] s'(3-5) z(3) by simp
  qed
qed

lemma create_event:
  assumes ok: "sched_ok h s ts i" and call: "thread_create task csp ip sp bp s = Inr s'"
    and csp: "load32 (ram (mm s)) (current s + 12) \<le> csp" "(unat csp - unat (load32 (ram (mm s)) (current s + 12))) mod 4 = 0"
  shows "sched_kept h s ts s'"
proof -
  let ?st = "t_stack_start (task_at (ram (mm s)) (current s))"
  obtain child k1 where new: "task_new (mm s) = Inr (child, k1)"
    using call by (auto simp: thread_create_def thread_create_fork_def rbind_eq_Inr)
  then obtain v k2 where page: "kalloc_block (store (child + 16) (load32 (ram k1) (current s + 16) + 1) k1) = Inr (v, k2)"
    using call
    by (auto simp: thread_create_def thread_create_fork_def copy_stack_def rbind_eq_Inr Let_def split: if_splits)
  have "?st = load32 (ram (mm s)) (current s + 12)" by (simp add: task_at_def)
  then have csp': "?st \<le> csp" "(unat csp - unat ?st) mod 4 = 0" using csp by simp_all
  let ?ts = "take (Suc i) ts @ child # drop (Suc i) ts"
  let ?child = "\<lparr>t_eip = ip, t_esp = v - ?st + sp, t_ebp = v - ?st + bp, t_stack_start = v,
    t_id = t_id (task_at (ram (mm s)) (current s)) + 1, t_ticks = 0\<rparr>"
  obtain s1 where s1: "thread_create task csp ip sp bp s = Inr s1" "sched_ok h s1 ?ts i"
    "evolves (mm s) (mm s1) (set ts)" "s1 = s\<lparr>mm := mm s1\<rparr>" "\<And>p C. (p, C) \<in> kowns (mm s) \<Longrightarrow> p \<noteq> child"
    "tasks_of (mm s1) ?ts = take (Suc i) (tasks_of (mm s) ts) @ ?child # drop (Suc i) (tasks_of (mm s) ts)"
    by (rule thread_create_steps [OF ok new page refl csp']) (rule that)
  have "set ts = set (take (Suc i) ts) \<union> set (drop (Suc i) ts)" by (metis append_take_drop_id set_append)
  then have set: "set ?ts = insert child (set ts)" by auto
  have "sched_frame (mm s) ts (mm s1) ?ts" unfolding sched_frame_def set using s1(3,5) by (auto simp: evolves_def)
  moreover have "vectors s1 = vectors s" "io_log s1 = io_log s"
    using arg_cong [OF s1(4), of vectors] arg_cong [OF s1(4), of io_log] by simp_all
  moreover have "slices_ok (tasks_of (mm s) ts) \<longrightarrow> slices_ok (tasks_of (mm s1) ?ts)"
    unfolding s1(6) slices_ok_def using set_take_subset [of "Suc i" "tasks_of (mm s) ts"] set_drop_subset [of "Suc i" "tasks_of (mm s) ts"]
    by auto
  moreover have "s' = s1" using call s1(1) by simp
  ultimately show ?thesis using s1(2) unfolding sched_kept_def by blast
qed

lemma malloc_event:
  assumes ok: "sched_ok h s ts i" and call: "kmalloc (mm s) n = Inr (p, k)" "0 < n"
  shows "sched_kept h s ts (s\<lparr>mm := k\<rparr>)"
proof -
  have t: "tasks_ok h (mm s) ts" "i < length ts" "current s = ts ! i" using ok by (simp_all add: sched_ok_def)
  then have "kmem_inv (mm s)" by (simp add: tasks_ok_def)
  then have ev: "evolves (mm s) k {}" using kmalloc_evolves call by metis
  have "sched_ok h (s\<lparr>mm := k\<rparr>) ts i" using evolves_tasks(1) [OF ev t(1)] t(2,3) by (simp add: sched_ok_def)
  moreover have "evolves (mm s) k (set ts)" by (rule evolves_objs [OF ev]) simp
  ultimately show ?thesis using sched_kept_same evolves_tasks(2) [OF ev t(1)] by simp
qed

lemma write_event:
  assumes ok: "sched_ok h s ts i"
    and f: "\<And>a. a \<in> kstatic (mm s) \<longrightarrow> a \<in> span h 4 \<Longrightarrow> f (ram (mm s)) a = ram (mm s) a"
  shows "sched_kept h s ts (s\<lparr>mm := ram_update f (mm s)\<rparr>)"
proof -
  have t: "tasks_ok h (mm s) ts" "i < length ts" "current s = ts ! i" using ok by (simp_all add: sched_ok_def)
  then have inv: "kmem_inv (mm s)" and q: "queue_ok PAGE_SIZE (ram (mm s)) (kowns (mm s)) (kstatic (mm s)) h ts"
    by (simp_all add: tasks_ok_def)
  have "f (ram (mm s)) a = ram (mm s) a" if "a \<notin> kstatic (mm s)" for a
    using that by (intro f) blast
  note kept = kernel_pages.static_kept [OF inv, of f, OF this]
  have "\<forall>a \<in> span h 4. f (ram (mm s)) a = ram (mm s) a" by (intro ballI f) blast
  then have "queue_ok PAGE_SIZE (f (ram (mm s))) (kowns (mm s)) (kstatic (mm s)) h ts"
    using queue_ok_kept(1) [OF q kept(4), of "kstatic (mm s)"] kept(2) by simp
  moreover have "tasks_of (ram_update f (mm s)) ts = tasks_of (mm s) ts"
    using queue_ok_kept(2) [OF q kept(4), of "kstatic (mm s)"] \<open>\<forall>a \<in> span h 4. f (ram (mm s)) a = ram (mm s) a\<close>
    by (simp add: tasks_of_def)
  ultimately have "sched_ok h (s\<lparr>mm := ram_update f (mm s)\<rparr>) ts i" "tasks_of (ram_update f (mm s)) ts = tasks_of (mm s) ts"
    using kept(1-3) t(2,3) by (simp_all add: sched_ok_def tasks_ok_def)
  moreover have "sched_frame (mm s) ts (ram_update f (mm s)) ts"
    using others_kept_mono [OF kept(4), of "set ts"] by (simp add: sched_frame_def)
  ultimately show ?thesis unfolding sched_kept_def by fastforce
qed

lemma sched_step_kept:
  assumes "sched_step h s s'" "sched_ok h s ts i"
  shows "sched_kept h s ts s'"
  using assms(1)
proof (rule sched_stepE)
  show "sched_kept h s ts s'" if "task_switch h ip sp bp s = Inr (c, s')" "ip \<noteq> DUMMY_EIP" for ip sp bp c
    by (rule switch_event [OF assms(2) that(2,1)])
  show "sched_kept h s ts s'" if "yield h ip sp bp s = Inr (c, s')" "ip \<noteq> DUMMY_EIP" for ip sp bp c
    by (rule yield_event [OF assms(2) that(2,1)])
  show "sched_kept h s ts s'" if "thread_create task csp ip sp bp s = Inr s'" "load32 (ram (mm s)) (current s + 12) \<le> csp"
    "(unat csp - unat (load32 (ram (mm s)) (current s + 12))) mod 4 = 0" for task csp ip sp bp
    by (rule create_event [OF assms(2) that])
  show "sched_kept h s ts s'" if "s' = s\<lparr>mm := k\<rparr>" "kmalloc (mm s) n = Inr (p, k)" "0 < n" for n p k
    unfolding that(1) by (rule malloc_event [OF assms(2) that(2,3)])
  show "sched_kept h s ts s'" if "s' = s\<lparr>mm := ram_update f (mm s)\<rparr>"
    "\<And>a. a \<in> kstatic (mm s) \<longrightarrow> a \<in> span h 4 \<Longrightarrow> f (ram (mm s)) a = ram (mm s) a" for f
    unfolding that(1) by (rule write_event [OF assms(2)]) (rule that(2))
qed

lemma sched_step_ok:
  assumes "sched_step h s s'" "sched_ok h s ts i"
  shows "\<exists>ts' j. sched_ok h s' ts' j \<and> sched_frame (mm s) ts (mm s') ts' \<and> vectors s' = vectors s \<and> io_log s' = io_log s"
  using sched_step_kept [OF assms] unfolding sched_kept_def by blast

text \<open>
  C3: whatever the running tasks do, by timer interrupts, yielding, creating threads, allocating and
  writing to their own memory, the scheduler's invariant holds: the list of tasks is a well-linked
  list of distinct objects of the heap, with disjoint stacks outside it, that contains the current
  task and every task there ever was.
\<close>

theorem scheduler_invariant:
  assumes "sched_ok h s ts i" "(sched_step h)\<^sup>*\<^sup>* s s'"
  shows "\<exists>ts' j. sched_ok h s' ts' j \<and> set ts \<subseteq> set ts' \<and> current s' \<in> set ts' \<and>
    list_at (ram (mm s')) h next_task ts' \<and> distinct ts'"
proof -
  have "\<exists>ts' j. sched_ok h s' ts' j \<and> set ts \<subseteq> set ts'"
    using assms(2)
  proof (induction rule: rtranclp_induct)
    case base
    then show ?case using assms(1) by blast
  next
    case (step y z)
    then obtain ts1 j where y: "sched_ok h y ts1 j" "set ts \<subseteq> set ts1" by blast
    from sched_step_ok [OF step(2) y(1)] show ?case using y(2) unfolding sched_frame_def by blast
  qed
  then obtain ts' j where ok: "sched_ok h s' ts' j" "set ts \<subseteq> set ts'" by blast
  then have "current s' \<in> set ts'" "queue_ok PAGE_SIZE (ram (mm s')) (kowns (mm s')) (kstatic (mm s')) h ts'"
    by (simp_all add: sched_ok_def tasks_ok_def)
  with ok queue_okD(1,2) show ?thesis by blast
qed

text \<open>The states reached from one in which no task has more than a full slice.\<close>

lemma reached_slices:
  assumes "sched_ok h s ts i" "slices_ok (tasks_of (mm s) ts)" "(sched_step h)\<^sup>*\<^sup>* s s'"
  shows "\<exists>ts' j. sched_ok h s' ts' j \<and> slices_ok (tasks_of (mm s') ts') \<and> set ts \<subseteq> set ts'"
  using assms(3)
proof (induction rule: rtranclp_induct)
  case base
  then show ?case using assms(1,2) by blast
next
  case (step y z)
  then obtain ts1 j where y: "sched_ok h y ts1 j" "slices_ok (tasks_of (mm y) ts1)" "set ts \<subseteq> set ts1" by blast
  from sched_step_kept [OF step(2) y(1)] show ?case using y(2,3) unfolding sched_kept_def sched_frame_def by blast
qed

lemma turn_within:
  assumes ok: "sched_ok h s ts i" "slices_ok (tasks_of (mm s) ts)" and j: "j < length ts"
    and cxs: "\<forall>(ip, sp, bp) \<in> set cxs. ip \<noteq> DUMMY_EIP" "51 * length ts \<le> length cxs"
  shows "\<exists>k rs s'. 0 < k \<and> k \<le> 51 * length ts \<and> run_ticks h (take k cxs) s = Inr (rs, s') \<and> sched_ok h s' ts j \<and>
    current s' = ts ! j \<and> t_ticks (task_at (ram (mm s')) (current s')) = 50"
proof -
  let ?n = "length ts" and ?t = "unat (t_ticks (task_at (ram (mm s)) (current s)))"
  have i: "i < ?n" "current s = ts ! i" using ok(1) by (simp_all add: sched_ok_def)
  have t: "?t \<le> 50" using slices_nth [OF ok(2), of i] i by (simp add: word_le_nat_alt)
  define k where "k = ?t + 1 + 51 * ((?n + j - Suc i) mod ?n)"
  have "0 < ?n" using i(1) by linarith
  then have "(?n + j - Suc i) mod ?n < ?n" by (rule mod_less_divisor)
  then have "Suc ((?n + j - Suc i) mod ?n) \<le> ?n" by (rule Suc_leI)
  then have "51 * Suc ((?n + j - Suc i) mod ?n) \<le> 51 * ?n" by (rule mult_le_mono2)
  then have k: "0 < k" "k \<le> 51 * ?n" using t unfolding k_def mult_Suc_right by linarith+
  have c: "\<forall>(ip, sp, bp) \<in> set (take k cxs). ip \<noteq> DUMMY_EIP" using cxs(1) set_take_subset [of k cxs] by blast
  have l: "length (take k cxs) = k" using k(2) cxs(2) by simp
  show ?thesis using turn_comes [OF ok(1) j c l [THEN trans, OF k_def]] k by blast
qed

text \<open>
  C10: in every state a scheduler reaches whose tasks started with at most a full slice, such as the
  one that \<open>task_init\<close> makes, each of the \<open>n\<close> tasks of the list is switched to and given a full
  slice within the next 51 \<open>n\<close> timer interrupts, whatever registers they interrupt.
\<close>

theorem every_task_runs:
  assumes "sched_ok h s0 ts0 i0" "slices_ok (tasks_of (mm s0) ts0)" "(sched_step h)\<^sup>*\<^sup>* s0 s"
  shows "\<exists>ts i. sched_ok h s ts i \<and> set ts0 \<subseteq> set ts \<and>
    (\<forall>t \<in> set ts. \<forall>cxs. (\<forall>(ip, sp, bp) \<in> set cxs. ip \<noteq> DUMMY_EIP) \<longrightarrow> 51 * length ts \<le> length cxs \<longrightarrow>
      (\<exists>k rs s'. 0 < k \<and> k \<le> 51 * length ts \<and> run_ticks h (take k cxs) s = Inr (rs, s') \<and> current s' = t \<and>
        t_ticks (task_at (ram (mm s')) t) = 50))"
proof -
  obtain ts i where ts: "sched_ok h s ts i" "slices_ok (tasks_of (mm s) ts)" "set ts0 \<subseteq> set ts"
    using reached_slices [OF assms] by blast
  have "\<exists>k rs s'. 0 < k \<and> k \<le> 51 * length ts \<and> run_ticks h (take k cxs) s = Inr (rs, s') \<and> current s' = t \<and>
      t_ticks (task_at (ram (mm s')) t) = 50"
    if t: "t \<in> set ts" and cxs: "\<forall>(ip, sp, bp) \<in> set cxs. ip \<noteq> DUMMY_EIP" "51 * length ts \<le> length cxs" for t cxs
  proof -
    obtain j where j: "j < length ts" "ts ! j = t" using t by (auto simp: in_set_conv_nth)
    from turn_within [OF ts(1,2) j(1) cxs] show ?thesis using j(2) by metis
  qed
  then show ?thesis using ts(1,3) by blast
qed

section \<open>A booted kernel\<close>

definition boot_sched :: sched where
  "boot_sched = \<lparr>mm = kboot (\<lambda>_. 0), current = 0, vectors = blank_idt, io_log = []\<rparr>"

lemma boot_sched_facts:
  "kmem_inv (mm boot_sched)" "after_boot 0 (pages (mm boot_sched))" "\<forall>a. load32 (ram (mm boot_sched)) a = 0"
  "\<forall>a. unat a div 4194304 \<in> {768, 769} \<longrightarrow> a \<in> kstatic (mm boot_sched)"
  using kboot_running [of "\<lambda>_. 0"]
  by (simp_all add: boot_sched_def running_def boot_static kboot_fields load32_def)

text \<open>A kernel with its first task, and one with a second.\<close>

lemma started:
  obtains t s where "sched_ok 0xC0020000 s [t] 0" "kmem_inv (mm s)" "after_boot 0 (pages (mm s)) \<or> after_boot 1 (pages (mm s))"
    "tasks_of (mm s) [t] =
      [\<lparr>t_eip = 0, t_esp = 0, t_ebp = 0, t_stack_start = 0xC0400000, t_id = 0, t_ticks = 50\<rparr>]" "current s = t"
proof -
  have a: "unat (0xC0010000 :: u32) = unat (0xC000FFF8 :: u32) + 4 * 2" "4 * 2 \<le> (4194304 :: nat)"
    "unat (0xC0010000 :: u32) \<le> 0xC0400000" "unat (0xC0020000 :: u32) div 4194304 = 768"
    "unat (0xC0020000 :: u32) mod 4194304 \<le> 4194300" by simp_all
  have "(0 :: nat) < 1021" by simp
  note init = task_init_started [OF boot_sched_facts(1,2) this boot_sched_facts(4) a boot_sched_facts(3) [rule_format]]
  obtain t s where ts: "sched_ok 0xC0020000 s [t] 0" "\<exists>j. after_boot j (pages (mm s)) \<and> j \<le> Suc 0"
    "tasks_of (mm s) [t] = [\<lparr>t_eip = 0, t_esp = 0, t_ebp = 0, t_stack_start = 0xC0400000, t_id = 0, t_ticks = 50\<rparr>]"
    using init [of 0 0 0] by blast
  then have "kmem_inv (mm s)" "current s = t" by (simp_all add: sched_ok_def tasks_ok_def)
  then show thesis using that [OF ts(1)] ts by (auto simp: le_Suc_eq)
qed

lemma started_few:
  obtains t s n where "sched_ok 0xC0020000 s [t] 0" "kmem_inv (mm s)" "after_boot n (pages (mm s))" "n < 1020"
    "tasks_of (mm s) [t] =
      [\<lparr>t_eip = 0, t_esp = 0, t_ebp = 0, t_stack_start = 0xC0400000, t_id = 0, t_ticks = 50\<rparr>]" "current s = t"
proof -
  obtain t s where s: "sched_ok 0xC0020000 s [t] 0" "kmem_inv (mm s)" "after_boot 0 (pages (mm s)) \<or> after_boot 1 (pages (mm s))"
    "tasks_of (mm s) [t] =
      [\<lparr>t_eip = 0, t_esp = 0, t_ebp = 0, t_stack_start = 0xC0400000, t_id = 0, t_ticks = 50\<rparr>]" "current s = t"
    by (rule started)
  have "(0 :: nat) < 1020" "(1 :: nat) < 1020" by simp_all
  with s show thesis using that [OF s(1,2) _ _ s(4,5)] by blast
qed

lemma second:
  obtains t c s where "sched_ok 0xC0020000 s [t, c] 0" "t_ticks (task_at (ram (mm s)) t) = 50"
    "t_ticks (task_at (ram (mm s)) c) = 0" "current s = t"
proof -
  obtain t s n where s: "sched_ok 0xC0020000 s [t] 0" "kmem_inv (mm s)" "after_boot n (pages (mm s))" "n < 1020"
    "tasks_of (mm s) [t] = [\<lparr>t_eip = 0, t_esp = 0, t_ebp = 0, t_stack_start = 0xC0400000, t_id = 0, t_ticks = 50\<rparr>]" "current s = t"
    by (rule started_few)
  have at: "task_at (ram (mm s)) t = \<lparr>t_eip = 0, t_esp = 0, t_ebp = 0, t_stack_start = 0xC0400000, t_id = 0, t_ticks = 50\<rparr>"
    using s(5) by (simp add: tasks_of_def)
  have st: "0xC0400000 = t_stack_start (task_at (ram (mm s)) (current s))" using at s(6) by simp
  have csp: "(0xC0400000 :: u32) \<le> 0xC07FFFF0" "(unat (0xC07FFFF0 :: u32) - unat (0xC0400000 :: u32)) mod 4 = 0" by simp_all
  obtain c s' where "sched_ok 0xC0020000 s' [t, c] 0" "t_ticks (task_at (ram (mm s')) t) = 50"
    "t_ticks (task_at (ram (mm s')) c) = 0"
    using thread_create_total [OF s(1-4) st csp, of Inr 1 2 3] at by (auto simp: tasks_of_def)
  moreover from this(1) have "current s' = t" by (simp add: sched_ok_def)
  ultimately show thesis by (rule that)
qed


section \<open>The properties on a booted kernel\<close>

theorem task_init_correct_witness:
  "\<exists>t s. task_init 0xC0020000 0x1000 0xC0010000 0xC000FFF8 0 0 boot_sched = Inr s \<and> sched_ok 0xC0020000 s [t] 0 \<and>
    current s = t \<and> io_log s = [Outb 0x43 0x36, Outb 0x40 0xA9, Outb 0x40 0x04]"
proof -
  have a: "unat (0xC0010000 :: u32) = unat (0xC000FFF8 :: u32) + 4 * 2" "4 * 2 \<le> (4194304 :: nat)"
    "unat (0xC0010000 :: u32) \<le> 0xC0400000" "unat (0xC0020000 :: u32) div 4194304 = 768"
    "unat (0xC0020000 :: u32) mod 4194304 \<le> 4194300" "(0 :: nat) < 1021" by simp_all
  note init = task_init_correct [OF boot_sched_facts(1,2) a(6) boot_sched_facts(4) a(1-5) boot_sched_facts(3) [rule_format]]
  obtain t s where "task_init 0xC0020000 0x1000 0xC0010000 0xC000FFF8 0 0 boot_sched = Inr s" "sched_ok 0xC0020000 s [t] 0"
    "io_log s = io_log boot_sched @ [Outb 0x43 0x36, Outb 0x40 0xA9, Outb 0x40 0x04]"
    using init [of "0x1000" 0 0] by blast
  then show ?thesis by (intro exI [of _ t] exI [of _ s]) (simp add: boot_sched_def sched_ok_def)
qed

theorem task_switch_refines_witness:
  "\<exists>t s s'. sched_ok 0xC0020000 s [t] 0 \<and> task_switch 0xC0020000 1 2 3 s = Inr (Return, s') \<and>
    t_ticks (hd (tasks_of (mm s') [t])) = 49"
proof -
  obtain t s where s: "sched_ok 0xC0020000 s [t] 0" "tasks_of (mm s) [t] =
      [\<lparr>t_eip = 0, t_esp = 0, t_ebp = 0, t_stack_start = 0xC0400000, t_id = 0, t_ticks = 50\<rparr>]"
    by (rule started)
  have "(1 :: u32) \<noteq> DUMMY_EIP" by (simp add: DUMMY_EIP_def)
  from task_switch_refines [OF s(1) this, of 2 3] obtain c s' j where
    r: "task_switch 0xC0020000 1 2 3 s = Inr (c, s')" "(c, tasks_of (mm s') [t], j) = rr_switch 1 2 3 (tasks_of (mm s) [t]) 0"
    by blast
  have "t_ticks (hd (tasks_of (mm s') [t])) = 49" "c = Return" using r(2) s(2) by (simp_all add: rr_switch_def)
  then show ?thesis using s(1) r(1) by (intro exI [of _ t] exI [of _ s] exI [of _ s']) simp
qed

theorem every_task_runs_witness:
  "\<exists>t c s. t \<noteq> c \<and> current s = t \<and>
    (\<exists>k rs s'. k \<le> 51 * 2 \<and> run_ticks 0xC0020000 (take k (replicate 102 (1, 2, 3))) s = Inr (rs, s') \<and> current s' = c)"
proof -
  obtain t c s where s: "sched_ok 0xC0020000 s [t, c] 0" "t_ticks (task_at (ram (mm s)) t) = 50"
    "t_ticks (task_at (ram (mm s)) c) = 0" "current s = t"
    by (rule second)
  have ne: "t \<noteq> c" using s(1) by (auto simp: sched_ok_def tasks_ok_def queue_ok_def)
  have "slices_ok (tasks_of (mm s) [t, c])" using s(2,3) by (simp add: slices_ok_def tasks_of_def)
  from every_task_runs [OF s(1) this rtranclp.rtrancl_refl] obtain ts i where ts: "sched_ok 0xC0020000 s ts i" "set [t, c] \<subseteq> set ts"
    "\<forall>u \<in> set ts. \<forall>cxs. (\<forall>(ip, sp, bp) \<in> set cxs. ip \<noteq> DUMMY_EIP) \<longrightarrow> 51 * length ts \<le> length cxs \<longrightarrow>
      (\<exists>k rs s'. 0 < k \<and> k \<le> 51 * length ts \<and> run_ticks 0xC0020000 (take k cxs) s = Inr (rs, s') \<and> current s' = u \<and>
        t_ticks (task_at (ram (mm s')) u) = 50)"
    by blast
  have "ts = [t, c]" by (rule list_at_unique) (use s(1) ts(1) in \<open>auto simp: sched_ok_def tasks_ok_def queue_ok_def\<close>)
  moreover have "\<forall>(ip, sp, bp) \<in> set (replicate 102 (1 :: u32, 2 :: u32, 3 :: u32)). ip \<noteq> DUMMY_EIP" by (simp add: DUMMY_EIP_def)
  ultimately obtain k rs s' where "k \<le> 51 * 2" "run_ticks 0xC0020000 (take k (replicate 102 (1, 2, 3))) s = Inr (rs, s')" "current s' = c"
    using ts(3) by (auto dest!: bspec [of _ _ c] spec [of _ "replicate 102 (1, 2, 3)"])
  then show ?thesis using ne s(4) by blast
qed

theorem context_round_trip_witness:
  "\<exists>t c s rs s'. t \<noteq> c \<and> current s = t \<and> run_ticks 0xC0020000 ((7, 8, 9) # replicate 51 (1, 2, 3)) s = Inr (rs, s') \<and>
    current s' = t \<and> last rs = Jump \<lparr>c_eip = 7, c_esp = 8, c_ebp = 9, c_eax = 0x12345\<rparr>"
proof -
  obtain t c s where s: "sched_ok 0xC0020000 s [t, c] 0" "current s = t" by (rule second)
  have ne: "t \<noteq> c" using s(1) by (auto simp: sched_ok_def tasks_ok_def queue_ok_def)
  let ?s = "s\<lparr>mm := store (t + 20) 0 (mm s)\<rparr>"
  have "tasks_ok 0xC0020000 (mm s) [t, c]" using s(1) by (simp add: sched_ok_def)
  note st = store_task [OF this, where i = 0 and off = 20 and v = 0, simplified]
  have "sched_ok 0xC0020000 ?s [t, c] 0" using st(1) s(2) by (simp add: sched_ok_def)
  moreover have "t_ticks (task_at (ram (mm ?s)) (current ?s)) = 0" using st(5) s(2) by (simp add: task_at_store)
  moreover have "\<forall>(ip, sp, bp) \<in> set ((7, 8, 9) # replicate 51 (1, 2, 3)). ip \<noteq> DUMMY_EIP" by (simp add: DUMMY_EIP_def)
  ultimately show ?thesis
    using context_round_trip [where h = "0xC0020000" and s = ?s and ts = "[t, c]" and i = 0 and ip = 7 and sp = 8 and bp = 9
      and cxs = "replicate 51 (1, 2, 3)"] s(2) ne
    by (intro exI [of _ t] exI [of _ c] exI [of _ ?s]) auto
qed

theorem thread_create_correct_witness:
  "\<exists>t c v s s'. thread_create Inr 0xC07FFFF0 1 2 3 s = Inr s' \<and> sched_ok 0xC0020000 s' [t, c] 0 \<and>
    t_stack_start (task_at (ram (mm s')) c) = v \<and> t_esp (task_at (ram (mm s')) c) = v - 0xC0400000 + 2 \<and>
    t_id (task_at (ram (mm s')) c) = 1"
proof -
  obtain t s n where s: "sched_ok 0xC0020000 s [t] 0" "kmem_inv (mm s)" "after_boot n (pages (mm s))" "n < 1020"
    "tasks_of (mm s) [t] = [\<lparr>t_eip = 0, t_esp = 0, t_ebp = 0, t_stack_start = 0xC0400000, t_id = 0, t_ticks = 50\<rparr>]" "current s = t"
    by (rule started_few)
  have at: "task_at (ram (mm s)) t = \<lparr>t_eip = 0, t_esp = 0, t_ebp = 0, t_stack_start = 0xC0400000, t_id = 0, t_ticks = 50\<rparr>"
    using s(5) by (simp add: tasks_of_def)
  have st: "0xC0400000 = t_stack_start (task_at (ram (mm s)) (current s))" using at s(6) by simp
  have csp: "(0xC0400000 :: u32) \<le> 0xC07FFFF0" "(unat (0xC07FFFF0 :: u32) - unat (0xC0400000 :: u32)) mod 4 = 0" by simp_all
  obtain c v s' where "thread_create Inr 0xC07FFFF0 1 2 3 s = Inr s'" "sched_ok 0xC0020000 s' [t, c] 0"
    "task_at (ram (mm s')) c = \<lparr>t_eip = 1, t_esp = v - 0xC0400000 + 2, t_ebp = v - 0xC0400000 + 3, t_stack_start = v, t_id = 1, t_ticks = 0\<rparr>"
    using thread_create_correct [OF s(1-4) st csp, of Inr 1 2 3] at s(6) by (auto simp: tasks_of_def)
  then show ?thesis by (intro exI [of _ t] exI [of _ c] exI [of _ v] exI [of _ s] exI [of _ s']) simp
qed

theorem scheduler_invariant_witness:
  "\<exists>t s s' ts j. sched_step 0xC0020000 s s' \<and> sched_ok 0xC0020000 s' ts j \<and> t \<in> set ts \<and> distinct ts"
proof -
  obtain t s where s: "sched_ok 0xC0020000 s [t] 0" by (rule started)
  have ip: "(1 :: u32) \<noteq> DUMMY_EIP" by (simp add: DUMMY_EIP_def)
  obtain c s' where "task_switch 0xC0020000 1 2 3 s = Inr (c, s')"
    by (rule task_switch_rr [OF s ip])
  then have step: "sched_step 0xC0020000 s s'" using ip by (rule step_tick)
  then show ?thesis
    using scheduler_invariant [OF s r_into_rtranclp [of "sched_step 0xC0020000", OF step]]
    by (intro exI [of _ t] exI [of _ s] exI [of _ s']) auto
qed

end
