(* ===== verification/Rtc.thy ===== *)
theory Rtc
  imports Interrupts Printf "HOL-Library.Signed_Division"
begin

text \<open>
  The real-time clock driver, src/src/kernel/drivers/rtc.c: register reads through the port pair
  0x70/0x71, the conversion from binary-coded decimal, and the clock line that \<open>rtc_print\<close>
  prints. The specification is the twelve-hour clock of the time zone the code names.
\<close>

section \<open>The code\<close>

definition RTC_OUT :: u16 where "RTC_OUT = 0x70"
definition RTC_IN :: u16 where "RTC_IN = 0x71"

definition as_binary :: "u8 \<Rightarrow> u8" where
  "as_binary bcd = drop_bit 4 bcd * 10 + (bcd AND 0x0F)"

definition rtc_read :: "device \<Rightarrow> u8 \<Rightarrow> io \<Rightarrow> u8 \<times> io" where
  "rtc_read dev register t =
     (let t = outb RTC_OUT register t; (v, t) = inb dev RTC_IN t in (as_binary v, t))"

definition rtc_get_second :: "device \<Rightarrow> io \<Rightarrow> u8 \<times> io" where
  "rtc_get_second dev t = rtc_read dev 0x00 t"

definition rtc_get_minute :: "device \<Rightarrow> io \<Rightarrow> u8 \<times> io" where
  "rtc_get_minute dev t = rtc_read dev 0x02 t"

definition rtc_get_hour :: "device \<Rightarrow> io \<Rightarrow> u8 \<times> io" where
  "rtc_get_hour dev t = rtc_read dev 0x04 t"

definition rtc_get_day :: "device \<Rightarrow> io \<Rightarrow> u8 \<times> io" where
  "rtc_get_day dev t = rtc_read dev 0x07 t"

definition rtc_get_month :: "device \<Rightarrow> io \<Rightarrow> u8 \<times> io" where
  "rtc_get_month dev t = rtc_read dev 0x08 t"

definition rtc_get_year :: "device \<Rightarrow> io \<Rightarrow> u8 \<times> io" where
  "rtc_get_year dev t = rtc_read dev 0x09 t"

text \<open>
  The hour is an \<open>int16_t\<close> that never leaves -12..165 here, so it is an integer; \<open>%\<close> truncates
  towards zero as in C.
\<close>

definition rtc_hour :: "u8 \<Rightarrow> int \<times> bool" where
  "rtc_hour utc =
     (let hour = (uint utc - 5) smod 24;
          (pm, hour) = (if hour > 12 then (True, hour - 12) else (False, hour));
          hour = (if hour < 0 then hour + 12 else hour)
      in (hour, pm))"

text \<open>The string literals of \<open>rtc_print\<close>, at addresses that stand for the linker's.\<close>

definition rtc_literals :: "addr \<Rightarrow> u8 list" where
  "rtc_literals a = (if a = 1 then str ''0'' else if a = 2 then str '''' else if a = 3 then str ''PM'' else str ''AM'')"

definition rtc_print :: "device \<Rightarrow> io \<Rightarrow> (u8 list \<times> u32) res \<times> io" where
  "rtc_print dev t =
     (let (utc, t) = rtc_get_hour dev t;
          (hour, pm) = rtc_hour utc;
          (min, t) = rtc_get_minute dev t;
          (sec, t) = rtc_get_second dev t
      in (printf rtc_literals (str ''%d:%s%d:%s%d%s'')
            [of_int hour, if min < 10 then 1 else 2, ucast min, if sec < 10 then 1 else 2, ucast sec,
             if pm then 3 else 4], t))"

section \<open>Binary-coded decimal\<close>

text \<open>The encoding of a number below 100 by its two decimal digits.\<close>

definition bcd_of :: "nat \<Rightarrow> u8" where
  "bcd_of n = of_nat (n div 10 * 16 + n mod 10)"

text \<open>
  \<open>as_binary\<close> inverts the binary-coded decimal encoding of every number below 100, which is
  what the clock's registers hold, and its result never overflows the byte it is computed in.
\<close>

lemma as_binary_bcd:
  "map (\<lambda>n. unat (as_binary (bcd_of n))) [0..<100] = [0..<100] \<and> unat (as_binary b) = unat b div 16 * 10 + unat b mod 16"
proof
  show "map (\<lambda>n. unat (as_binary (bcd_of n))) [0..<100] = [0..<100]" by code_simp
  have "unat (b AND 0x0F) = unat b mod 16"
  proof -
    have eq: "b AND 0x0F = take_bit 4 b" by (simp add: take_bit_eq_mask mask_eq_exp_minus_1)
    show ?thesis unfolding eq unsigned_take_bit_eq by (simp add: take_bit_eq_mod)
  qed
  moreover have "unat (drop_bit 4 b) = unat b div 16" by (simp add: drop_bit_eq_div unat_div_distrib)
  moreover have "unat b div 16 < 16" proof -
    have "unat b < 2 ^ LENGTH(8)" by (rule unsigned_less)
    then show ?thesis by (simp add: div_less_iff_less_mult)
  qed
  ultimately show "unat (as_binary b) = unat b div 16 * 10 + unat b mod 16"
    by (simp add: as_binary_def unat_add_small unat_mult_small)
qed

section \<open>The clock\<close>

text \<open>The twelve-hour clock, five hours behind the given hour.\<close>

definition est_hour :: "nat \<Rightarrow> int \<times> bool" where
  "est_hour utc =
     (let h = (utc + 19) mod 24 in (if h mod 12 = 0 then 12 else int (h mod 12), 12 \<le> h))"

text \<open>
  What \<open>rtc_print\<close> makes of the hours of a day: the hour of that clock from 6 to 16 and from 18 to
  23 UTC; between midnight and 4 UTC an afternoon hour is called AM, at 17 UTC noon is called AM, and
  at 5 UTC midnight is shown as hour 0.
\<close>

definition shown_hour :: "nat \<Rightarrow> int \<times> bool" where
  "shown_hour utc =
     (if utc = 5 then (0, False) else if utc < 5 \<or> utc = 17 then (fst (est_hour utc), False) else est_hour utc)"

lemma rtc_hour_shown:
  assumes "utc < 24"
  shows "rtc_hour (of_nat utc) = shown_hour utc"
proof -
  have "list_all (\<lambda>u. rtc_hour (of_nat u) = shown_hour u) [0..<24]" by code_simp
  then show ?thesis using assms by (simp add: list_all_iff)
qed

lemma shown_hour_correct:
  assumes "utc < 24"
  shows "shown_hour utc = est_hour utc \<longleftrightarrow> 6 \<le> utc \<and> utc \<noteq> 17"
proof -
  have "list_all (\<lambda>u. (shown_hour u = est_hour u) = (6 \<le> u \<and> u \<noteq> 17)) [0..<24]" by code_simp
  then show ?thesis using assms by (simp add: list_all_iff)
qed

end
