(* ===== verification/Multiboot.thy ===== *)
theory Multiboot
  imports Prelude
begin

text \<open>
  The boot loader's memory map (include/kernel/multiboot.h): the two structures GRUB leaves in
  memory, read at their offsets, and \<open>multiboot_RAM\<close>, which walks the table of memory ranges.
  The step from one entry to the next is the entry's own size, so the walk is a loop that may
  not end.
\<close>

section \<open>The code\<close>

record multiboot_info =
  mb_flags :: u32
  mem_low :: u32
  mem_high :: u32
  boot_device :: u32
  cmdline :: u32
  mod_count :: u32
  mod_addr :: u32
  sym_table :: "u8 list"
  mmap_length :: u32
  mmap_addr :: u32

definition multiboot_info_at :: "mem \<Rightarrow> addr \<Rightarrow> multiboot_info" where
  "multiboot_info_at m a =
     \<lparr>mb_flags = load32 m a, mem_low = load32 m (a + 4), mem_high = load32 m (a + 8),
      boot_device = load32 m (a + 12), cmdline = load32 m (a + 16),
      mod_count = load32 m (a + 20), mod_addr = load32 m (a + 24),
      sym_table = map (\<lambda>i. m (a + 28 + of_nat i)) [0..<16],
      mmap_length = load32 m (a + 44), mmap_addr = load32 m (a + 48)\<rparr>"

record multiboot_mmap =
  mm_size :: u32
  start_low :: u32
  start_high :: u32
  length_low :: u32
  length_high :: u32
  mm_type :: u32

definition multiboot_mmap_at :: "mem \<Rightarrow> addr \<Rightarrow> multiboot_mmap" where
  "multiboot_mmap_at m a =
     \<lparr>mm_size = load32 m a, start_low = load32 m (a + 4), start_high = load32 m (a + 8),
      length_low = load32 m (a + 12), length_high = load32 m (a + 16), mm_type = load32 m (a + 20)\<rparr>"

definition MULTIBOOT_MMAP_RAM :: u32 where
  "MULTIBOOT_MMAP_RAM = 1"

partial_function (option) mmap_loop ::
    "mem \<Rightarrow> multiboot_info \<Rightarrow> addr \<Rightarrow> bool \<Rightarrow> u32 \<Rightarrow> u32 \<Rightarrow> (bool \<times> u32 \<times> u32) option" where
  "mmap_loop m mbinfo mmap found start stop =
     (if mmap - 0xC0000000 < mmap_addr mbinfo + mmap_length mbinfo then
        (let entry = multiboot_mmap_at m mmap;
             nxt = mmap + mm_size entry + 4
         in if mm_type entry = MULTIBOOT_MMAP_RAM then
              mmap_loop m mbinfo nxt True (start_low entry) (start_low entry + length_low entry)
            else mmap_loop m mbinfo nxt found start stop)
      else Some (found, start, stop))"

declare mmap_loop.simps [code]

text \<open>The result is \<open>found\<close> with the two words the caller passed by reference.\<close>

definition multiboot_RAM :: "mem \<Rightarrow> addr \<Rightarrow> u32 \<Rightarrow> u32 \<Rightarrow> (bool \<times> u32 \<times> u32) res" where
  "multiboot_RAM m info start stop =
     (let mbinfo = multiboot_info_at m info
      in if mb_flags mbinfo AND push_bit 6 1 \<noteq> 0 then
           (case mmap_loop m mbinfo (0xC0000000 + mmap_addr mbinfo) False start stop of
              None \<Rightarrow> Inl NoReturn
            | Some r \<Rightarrow> Inr r)
         else Inr (False, start, stop))"

section \<open>What the walk computes\<close>

text \<open>The table at an address: entries laid out one after the other, each \<open>mm_size + 4\<close> bytes apart.\<close>

fun mmap_table :: "mem \<Rightarrow> addr \<Rightarrow> multiboot_mmap list \<Rightarrow> bool" where
  "mmap_table m a [] \<longleftrightarrow> True"
| "mmap_table m a (e # es) \<longleftrightarrow> multiboot_mmap_at m a = e \<and> mmap_table m (a + mm_size e + 4) es"

definition table_bytes :: "multiboot_mmap list \<Rightarrow> nat" where
  "table_bytes es = (\<Sum>e\<leftarrow>es. unat (mm_size e) + 4)"

definition last_ram :: "multiboot_mmap list \<Rightarrow> bool \<times> u32 \<times> u32 \<Rightarrow> bool \<times> u32 \<times> u32" where
  "last_ram es r =
     (case filter (\<lambda>e. mm_type e = MULTIBOOT_MMAP_RAM) es of
        [] \<Rightarrow> r
      | rams \<Rightarrow> (True, start_low (last rams), start_low (last rams) + length_low (last rams)))"

lemma last_ram_simps [simp]:
  "last_ram [] r = r"
  "last_ram (e # es) r =
     last_ram es (if mm_type e = MULTIBOOT_MMAP_RAM then (True, start_low e, start_low e + length_low e) else r)"
  by (auto simp: last_ram_def split: list.splits)

lemma mmap_loop_table:
  assumes "mmap_table m a es" "a - 0xC0000000 = p"
    "unat p + table_bytes es = unat (mmap_addr i + mmap_length i)"
  shows "mmap_loop m i a found start stop = Some (last_ram es (found, start, stop))"
  using assms
proof (induction es arbitrary: a p found start stop)
  case Nil
  then have "p = mmap_addr i + mmap_length i" by (simp add: table_bytes_def word_unat_eq_iff)
  then show ?case using Nil(2) by (subst mmap_loop.simps) simp
next
  case (Cons e es)
  have e: "multiboot_mmap_at m a = e" and es: "mmap_table m (a + mm_size e + 4) es"
    using Cons.prems(1) by simp_all
  have sum: "unat p + (unat (mm_size e) + 4) + table_bytes es = unat (mmap_addr i + mmap_length i)"
    using Cons.prems(3) by (simp add: table_bytes_def)
  have lt: "a - 0xC0000000 < mmap_addr i + mmap_length i"
    using sum Cons.prems(2) by (simp add: word_less_nat_alt)
  have u: "unat (p + mm_size e + 4) = unat p + (unat (mm_size e) + 4)"
  proof -
    have b: "unat p + (unat (mm_size e) + 4) < 4294967296"
      using sum unat32 [of "mmap_addr i + mmap_length i"] by linarith
    have "unat (p + mm_size e) = unat p + unat (mm_size e)" using b by (intro unat_add_small) simp
    moreover have "unat (p + mm_size e + 4) = unat (p + mm_size e) + unat (4 :: u32)"
      using b calculation by (intro unat_add_small) simp
    ultimately show ?thesis by simp
  qed
  have rest: "mmap_loop m i (a + mm_size e + 4) f s t = Some (last_ram es (f, s, t))" for f s t
    by (rule Cons.IH [OF es, of "p + mm_size e + 4"]) (use Cons.prems(2) u sum in \<open>auto simp: algebra_simps\<close>)
  show ?case using lt by (subst mmap_loop.simps) (simp add: e rest Let_def)
qed

lemma multiboot_table:
  assumes "i = multiboot_info_at m info" "mmap_table m (0xC0000000 + mmap_addr i) es"
    and "table_bytes es = unat (mmap_length i)" "unat (mmap_addr i) + unat (mmap_length i) < 2 ^ 32"
  shows "multiboot_RAM m info start stop =
    Inr (if bit (mb_flags i) 6 then last_ram es (False, start, stop) else (False, start, stop))"
proof -
  have "unat (mmap_addr i) + table_bytes es = unat (mmap_addr i + mmap_length i)"
    using assms(3,4) by (simp add: unat_add_small)
  then have "mmap_loop m i (0xC0000000 + mmap_addr i) False start stop = Some (last_ram es (False, start, stop))"
    by (intro mmap_loop_table [OF assms(2), of "mmap_addr i"]) simp_all
  moreover have "mb_flags i AND push_bit 6 1 \<noteq> 0 \<longleftrightarrow> bit (mb_flags i) 6"
    by (simp only: push_bit_of_1 and_exp_eq_0_iff_not_bit not_not)
  ultimately show ?thesis by (simp add: multiboot_RAM_def assms(1))
qed

text \<open>
  On a table that fills exactly the announced number of bytes, without wrapping the address
  space, \<open>multiboot_RAM\<close> returns: it finds RAM when some entry is RAM, and reports the range of
  the last such entry, not of the first or the largest. The caller's words are left as they
  were when there is none, or when the boot loader gave no map at all.
\<close>

lemma multiboot_RAM_correct:
  assumes "i = multiboot_info_at m info" "mmap_table m (0xC0000000 + mmap_addr i) es"
    and "table_bytes es = unat (mmap_length i)" "unat (mmap_addr i) + unat (mmap_length i) < 2 ^ 32"
  shows "multiboot_RAM m info start stop =
    Inr (if bit (mb_flags i) 6 then last_ram es (False, start, stop) else (False, start, stop))"
  using assms by (rule multiboot_table)

text \<open>The table a small machine boots with: 639 KiB of low memory and 127 MiB above 1 MiB.\<close>

definition small_table :: "multiboot_mmap list" where
  "small_table =
     [\<lparr>mm_size = 20, start_low = 0, start_high = 0, length_low = 0x9FC00, length_high = 0, mm_type = 1\<rparr>,
      \<lparr>mm_size = 20, start_low = 0xF0000, start_high = 0, length_low = 0x10000, length_high = 0, mm_type = 2\<rparr>,
      \<lparr>mm_size = 20, start_low = 0x100000, start_high = 0, length_low = 0x7EE0000, length_high = 0, mm_type = 1\<rparr>]"

definition small_words :: "nat \<Rightarrow> u32" where
  "small_words n =
     (let info = [0x40, 0, 0, 0, 0, 0, 0, 0, 0, 0, 0, 72, 0x10000];
          table = concat (map (\<lambda>e. [mm_size e, start_low e, start_high e, length_low e, length_high e, mm_type e]) small_table)
      in if 0x30002400 \<le> n \<and> n < 0x30002400 + length info then info ! (n - 0x30002400)
         else if 0x30004000 \<le> n \<and> n < 0x30004000 + length table then table ! (n - 0x30004000)
         else 0)"

definition words_mem :: "(nat \<Rightarrow> u32) \<Rightarrow> mem" where
  "words_mem f a = ucast (drop_bit (8 * (unat a mod 4)) (f (unat a div 4)))"

lemma load32_words_mem:
  assumes "unat a mod 4 = 0"
  shows "load32 (words_mem f) a = f (unat a div 4)"
proof -
  have "unat a = 4 * (unat a div 4)" using assms by presburger
  then have "unat a \<le> 4294967292" using unat32 [of a] by presburger
  then have "unat (a + 1) = unat a + 1" "unat (a + 2) = unat a + 2" "unat (a + 3) = unat a + 3"
    using unat_add_small [of a 1] unat_add_small [of a 2] unat_add_small [of a 3] by simp_all
  moreover have "(unat a + 1) mod 4 = 1" "(unat a + 2) mod 4 = 2" "(unat a + 3) mod 4 = 3"
    "(unat a + 1) div 4 = unat a div 4" "(unat a + 2) div 4 = unat a div 4" "(unat a + 3) div 4 = unat a div 4"
    using assms by presburger+
  ultimately show ?thesis using assms bytes_of_word [of "f (unat a div 4)"] by (simp add: load32_def words_mem_def)
qed

lemma small_words_info: "load32 (words_mem small_words) 0xC0009000 = 0x40"
  "load32 (words_mem small_words) 0xC000902C = 72" "load32 (words_mem small_words) 0xC0009030 = 0x10000"
  by (simp_all add: load32_words_mem small_words_def)

lemma small_words_table: "mmap_table (words_mem small_words) 0xC0010000 small_table"
  by (simp add: small_table_def multiboot_mmap_at_def load32_words_mem small_words_def)

lemma small_machine_facts:
  defines "i \<equiv> multiboot_info_at (words_mem small_words) 0xC0009000"
  shows "mmap_table (words_mem small_words) (0xC0000000 + mmap_addr i) small_table"
    "table_bytes small_table = unat (mmap_length i)" "unat (mmap_addr i) + unat (mmap_length i) < 2 ^ 32"
    "bit (mb_flags i) 6" "last_ram small_table (False, start, stop) = (True, 0x100000, 0x7FE0000)"
proof -
  have i: "mmap_length i = 72" "mmap_addr i = 0x10000" "mb_flags i = 0x40"
    using small_words_info by (simp_all add: multiboot_info_at_def i_def)
  show "mmap_table (words_mem small_words) (0xC0000000 + mmap_addr i) small_table" using small_words_table by (simp add: i)
  show "table_bytes small_table = unat (mmap_length i)" by (simp add: i table_bytes_def small_table_def)
  show "unat (mmap_addr i) + unat (mmap_length i) < 2 ^ 32" by (simp add: i)
  show "bit (mb_flags i) 6" unfolding i by code_simp
  show "last_ram small_table (False, start, stop) = (True, 0x100000, 0x7FE0000)"
    by (simp add: small_table_def MULTIBOOT_MMAP_RAM_def)
qed

lemma small_machine: "multiboot_RAM (words_mem small_words) 0xC0009000 start stop = Inr (True, 0x100000, 0x7FE0000)"
  using multiboot_table [OF refl small_machine_facts(1-3)] small_machine_facts(4,5) by simp

section \<open>A malformed table\<close>

lemma mmap_loop_stuck_aux:
  assumes "mmap_loop m i a found start stop = Some r"
  shows "mm_size (multiboot_mmap_at m a) = - 4 \<Longrightarrow> \<not> a - 0xC0000000 < mmap_addr i + mmap_length i"
  by (rule mmap_loop.raw_induct [rotated, OF assms, where
        P = "\<lambda>m i a found start stop r.
          mm_size (multiboot_mmap_at m a) = - 4 \<longrightarrow> \<not> a - 0xC0000000 < mmap_addr i + mmap_length i", THEN mp])
    (auto simp: Let_def split: if_splits)

text \<open>An entry of size \<open>2 ^ 32 - 4\<close> is its own successor, and the walk never leaves it.\<close>

lemma mmap_loop_stuck:
  assumes "mm_size (multiboot_mmap_at m a) = - 4" "a - 0xC0000000 < mmap_addr i + mmap_length i"
  shows "mmap_loop m i a found start stop = None"
  using mmap_loop_stuck_aux [of m i a found start stop] assms by (cases "mmap_loop m i a found start stop") auto

end
