(* ===== verification/Kernel.thy ===== *)
theory Kernel
  imports KbdProps TaskInit Rtc Multiboot
begin

text \<open>
  The kernel as a whole, src/src/kernel/kernel/kernel.c: the log macros of
  include/kernel/logger.h over the console, the order in which \<open>kernel_init\<close> and \<open>kernel_main\<close>
  bring the components up, the clock thread, and the interrupt stubs of x86/idt_handler.asm that
  lead from a vector to the handlers of the other components. The console, the scheduler and the
  heap share one memory, which is part of the console's state.
\<close>

section \<open>The state\<close>

text \<open>The addresses that the linker decides.\<close>

record linkage =
  gdt_at :: addr
  idt_at :: addr
  isr_at :: "nat \<Rightarrow> addr"
  irq_at :: "nat \<Rightarrow> addr"
  page_fault_at :: addr
  timer_at :: addr
  switch_at :: addr
  keyboard_at :: addr
  tasks_at :: addr

text \<open>
  The console with the memory and the ports, the two descriptor tables, the interrupt flag of
  the processor, \<open>current\<close> of task.c, \<open>state\<close> of kbd.c, and the three globals of kernel.c.
\<close>

record kernel =
  con :: vga
  segs :: gdt
  ints :: idt
  int_flag :: bool
  cur_task :: addr
  kbd_state :: u8
  STACK_START :: u32
  PHYSICAL_MEMORY_START :: u32
  PHYSICAL_MEMORY_END :: u32

text \<open>What the scheduler sees of it.\<close>

definition sched_of :: "kernel \<Rightarrow> sched" where
  "sched_of K = \<lparr>mm = kern (con K), current = cur_task K, vectors = ints K, io_log = ports (con K)\<rparr>"

definition with_sched :: "sched \<Rightarrow> kernel \<Rightarrow> kernel" where
  "with_sched s K =
     K\<lparr>con := (con K)\<lparr>kern := mm s, ports := io_log s\<rparr>, cur_task := current s, ints := vectors s\<rparr>"

section \<open>The log\<close>

definition LEVEL_TRACE :: nat where "LEVEL_TRACE = 1"
definition LEVEL_DEBUG :: nat where "LEVEL_DEBUG = 2"
definition LEVEL_INFO :: nat where "LEVEL_INFO = 3"
definition LOG_LEVEL :: nat where "LOG_LEVEL = LEVEL_INFO"

text \<open>The value that \<open>putchar\<close> returns, its argument, is left out.\<close>

definition putchar :: "u32 \<Rightarrow> vga \<Rightarrow> vga res" where
  "putchar c s = vga_putc (ucast c) s"

definition console_printf :: "(addr \<Rightarrow> u8 list) \<Rightarrow> u8 list \<Rightarrow> u32 list \<Rightarrow> vga \<Rightarrow> vga res" where
  "console_printf strings format args s =
     rbind (printf strings format args) (\<lambda>(out, n). for_each (\<lambda>c. putchar (ucast c)) out s)"

text \<open>\<open>abort\<close> of the library prints and does not come back.\<close>

definition abort :: "vga \<Rightarrow> vga res" where
  "abort s = rbind (console_printf (\<lambda>_. []) (str ''Kernel Panic: abort()'' @ [10]) [] s) (\<lambda>_. Inl NoReturn)"

definition KLOG :: "(addr \<Rightarrow> u8 list) \<Rightarrow> string \<Rightarrow> vga_color \<Rightarrow> string \<Rightarrow> u32 list \<Rightarrow> kernel \<Rightarrow> kernel res" where
  "KLOG strings level col format args K =
     (let K = K\<lparr>int_flag := False\<rparr>
      in rbind (vga_print (str ''['') (con K)) (\<lambda>c.
         rbind (vga_print_color col (str level) c) (\<lambda>c.
         rbind (vga_print (str ''] '') c) (\<lambda>c.
         rbind (console_printf strings (str format @ [10]) args c) (\<lambda>c.
           Inr (K\<lparr>con := c, int_flag := True\<rparr>))))))"

text \<open>A level below \<open>LOG_LEVEL\<close> is compiled to \<open>printf("")\<close>.\<close>

definition no_message :: "kernel \<Rightarrow> kernel res" where
  "no_message K = rbind (console_printf (\<lambda>_. []) [] [] (con K)) (\<lambda>c. Inr (K\<lparr>con := c\<rparr>))"

definition KTRACE :: "string \<Rightarrow> u32 list \<Rightarrow> kernel \<Rightarrow> kernel res" where
  "KTRACE format args K =
     (if LOG_LEVEL \<le> LEVEL_TRACE then KLOG (\<lambda>_. []) ''TRACE'' COLOR_BROWN format args K else no_message K)"

definition KDEBUG :: "string \<Rightarrow> u32 list \<Rightarrow> kernel \<Rightarrow> kernel res" where
  "KDEBUG format args K =
     (if LOG_LEVEL \<le> LEVEL_DEBUG then KLOG (\<lambda>_. []) ''DEBUG'' COLOR_BLUE format args K else no_message K)"

definition KINFO :: "string \<Rightarrow> u32 list \<Rightarrow> kernel \<Rightarrow> kernel res" where
  "KINFO format args K =
     (if LOG_LEVEL \<le> LEVEL_INFO then KLOG (\<lambda>_. []) ''INFO'' COLOR_GREEN format args K else no_message K)"

text \<open>\<open>KPANIC\<close> prints and halts for ever.\<close>

definition KPANIC :: "string \<Rightarrow> u32 list \<Rightarrow> kernel \<Rightarrow> kernel res" where
  "KPANIC format args K =
     rbind (KLOG (\<lambda>_. []) ''PANIC'' COLOR_RED format args K) (\<lambda>_. Inl (Panic format))"

section \<open>Starting\<close>

text \<open>
  \<open>directory\<close> is the page directory that boot.asm leaves in \<open>cr3\<close>, \<open>info\<close> and \<open>sp\<close> are the arguments
  boot.asm passes.
\<close>

definition kernel_init :: "linkage \<Rightarrow> u32 list \<Rightarrow> addr \<Rightarrow> u32 \<Rightarrow> kernel \<Rightarrow> kernel res" where
  "kernel_init l directory info sp K =
     (let K = K\<lparr>STACK_START := sp\<rparr>;
          K = K\<lparr>con := vga_init (con K)\<rparr>
      in rbind (KTRACE ''Stack Start: %x'' [sp] K) (\<lambda>K.
         rbind (KINFO ''Virtual Memory (Paging) Initialized...'' [] K) (\<lambda>K.
         rbind (KINFO ''Video Graphics Array (VGA) Initialized...'' [] K) (\<lambda>K.
         rbind (gdt_init (gdt_at l) (segs K)) (\<lambda>g.
         rbind (KINFO ''Global Descriptor Table (GDT) Initialized...'' [] (K\<lparr>segs := g\<rparr>)) (\<lambda>K.
         let (v, t) = idt_init (idt_at l) (isr_at l) (irq_at l) (page_fault_at l) (ints K) (ports (con K));
             K = K\<lparr>ints := v, con := (con K)\<lparr>ports := t\<rparr>\<rparr>
         in rbind (KINFO ''Interrupt Descriptor Table (IDT) Initialized...'' [] K) (\<lambda>K.
         rbind (KINFO ''System Timer (PIT) Initialized...'' [] (K\<lparr>ints := timer_init (timer_at l) (ints K)\<rparr>)) (\<lambda>K.
         rbind (multiboot_RAM (ram (kern (con K))) info (PHYSICAL_MEMORY_START K) (PHYSICAL_MEMORY_END K))
           (\<lambda>(found, start, stop).
         let K = K\<lparr>PHYSICAL_MEMORY_START := start, PHYSICAL_MEMORY_END := stop\<rparr>
         in rbind (if found then Inr K else KPANIC ''Failed to detect physical memory (RAM)!!!'' [] K) (\<lambda>K.
         rbind (KDEBUG ''Detected => RAM {Start: %d, End: %d, Total: %d}''
             [PHYSICAL_MEMORY_START K, PHYSICAL_MEMORY_END K, PHYSICAL_MEMORY_END K - PHYSICAL_MEMORY_START K] K) (\<lambda>K.
         rbind (KINFO ''Memory Heap and Allocators (kmalloc & kfree) Initialized...'' []
             (K\<lparr>con := (con K)\<lparr>kern := mem_init directory (kern (con K))\<rparr>\<rparr>)) (\<lambda>K.
         rbind (vga_dynamic_init (con K)) (\<lambda>c. Inr (K\<lparr>con := c\<rparr>))))))))))))))"

text \<open>
  \<open>kernel_main\<close> up to its last loop, which only halts. \<open>task_init\<close> (in \<open>move_stack\<close>) and
  \<open>thread_create\<close> end with \<open>sti\<close>. The arguments are what the code reads from registers: in
  \<open>move_stack\<close>, in \<open>copy_stack\<close>, and in \<open>thread_create\<close>, where the parent goes on; the function of
  the thread, which the parent does not call, does not return.
\<close>

definition kernel_main ::
    "linkage \<Rightarrow> u32 \<Rightarrow> u32 \<Rightarrow> u32 \<Rightarrow> u32 \<Rightarrow> u32 \<Rightarrow> u32 \<Rightarrow> u32 \<Rightarrow> kernel \<Rightarrow> kernel res" where
  "kernel_main l sp old_esp old_ebp copy_sp ip sp' bp K =
     rbind (KINFO ''Initializing Multitasking...'' [] K) (\<lambda>K.
     rbind (task_init (tasks_at l) (switch_at l) (STACK_START K) sp old_esp old_ebp (sched_of K)) (\<lambda>s.
     let K = (with_sched s K)\<lparr>int_flag := True\<rparr>
     in rbind (thread_create (\<lambda>_. Inl NoReturn) copy_sp ip sp' bp (sched_of K)) (\<lambda>s.
     let K = (with_sched s K)\<lparr>int_flag := True\<rparr>;
         K = K\<lparr>ints := keyboard_init (keyboard_at l) (ints K)\<rparr>
     in rbind (KINFO ''Keyboard Initialized...'' [] K) (\<lambda>K.
        KINFO ''Kernel Fully Initialized!'' [] K))))"

section \<open>Running\<close>

text \<open>One pass of the loop of \<open>thread_task\<close>, up to its call of \<open>yield\<close>.\<close>

definition thread_task :: "device \<Rightarrow> kernel \<Rightarrow> kernel res" where
  "thread_task dev K =
     (let K = K\<lparr>int_flag := False\<rparr>;
          x = vga_get_x (con K);
          y = vga_get_y (con K)
      in rbind (vga_set_x 70 (con K)) (\<lambda>c.
         rbind (vga_set_y 0 c) (\<lambda>c.
         let (out, t) = rtc_print dev (ports c)
         in rbind out (\<lambda>(bytes, n).
         rbind (for_each (\<lambda>b. putchar (ucast b)) bytes (c\<lparr>ports := t\<rparr>)) (\<lambda>c.
         rbind (vga_set_x x c) (\<lambda>c.
         rbind (vga_set_y y c) (\<lambda>c.
           Inr (K\<lparr>con := c, int_flag := True\<rparr>))))))))"

text \<open>
  The call of the handler with the given address. The default handler of the timer is empty, and
  the one for page faults panics with a message of that start. \<open>ip\<close>, \<open>sp\<close> and \<open>bp\<close> are what \<open>task_switch\<close> reads.
\<close>

definition run_handler ::
    "linkage \<Rightarrow> device \<Rightarrow> u32 \<times> u32 \<times> u32 \<Rightarrow> addr \<Rightarrow> kernel \<Rightarrow> (control \<times> kernel) res" where
  "run_handler l dev = (\<lambda>(ip, sp, bp) a K.
     if a = switch_at l then
       rbind (task_switch (tasks_at l) ip sp bp (sched_of K)) (\<lambda>(c, s). Inr (c, with_sched s K))
     else if a = keyboard_at l then
       rbind (keyboard_irq_handler dev (kbd_state K) (con K)) (\<lambda>(st, c).
         Inr (Return, K\<lparr>kbd_state := st, con := c\<rparr>))
     else if a = timer_at l then Inr (Return, K)
     else Inl (Panic ''Segmentation Fault...''))"

definition after_dispatch ::
    "linkage \<Rightarrow> device \<Rightarrow> u32 \<times> u32 \<times> u32 \<Rightarrow> dispatch \<Rightarrow> kernel \<Rightarrow> (control \<times> kernel) res" where
  "after_dispatch l dev context d K =
     (case d of Ignored \<Rightarrow> Inr (Return, K) | Unexpected n \<Rightarrow> Inr (Return, K)
      | Called a \<Rightarrow> run_handler l dev context a K)"

text \<open>
  An interrupt request of line \<open>n\<close> and a service request of vector \<open>n\<close>: the stub pushes the number
  it was generated with (the remapped one for a request), and the common part calls the C
  function with the pushed registers.
\<close>

definition irq_setup ::
    "linkage \<Rightarrow> device \<Rightarrow> u32 \<times> u32 \<times> u32 \<Rightarrow> registers \<Rightarrow> nat \<Rightarrow> kernel \<Rightarrow> (control \<times> kernel) res" where
  "irq_setup l dev context r n K =
     (let r = r\<lparr>int_num := of_nat (32 + n), err_code := 0\<rparr>;
          (d, t) = irq_handler dev (ints K) r (ports (con K));
          K = K\<lparr>con := (con K)\<lparr>ports := t\<rparr>\<rparr>
      in rbind d (\<lambda>d. after_dispatch l dev context d K))"

definition idt_setup ::
    "linkage \<Rightarrow> device \<Rightarrow> u32 \<times> u32 \<times> u32 \<Rightarrow> registers \<Rightarrow> nat \<Rightarrow> kernel \<Rightarrow> (control \<times> kernel) res" where
  "idt_setup l dev context r n K =
     rbind (idt_handler (ints K) (r\<lparr>int_num := of_nat n\<rparr>)) (\<lambda>d. after_dispatch l dev context d K)"

text \<open>\<open>yield\<close> with the trap it ends in, which the processor takes to the service request of vector 255.\<close>

definition kernel_yield ::
    "linkage \<Rightarrow> device \<Rightarrow> u32 \<times> u32 \<times> u32 \<Rightarrow> registers \<Rightarrow> kernel \<Rightarrow> (control \<times> kernel) res" where
  "kernel_yield l dev context r K =
     (if cur_task K = 0 then Inl NullDeref
      else
        (let s = sched_of K
         in idt_setup l dev context r 255
              ((with_sched (s\<lparr>mm := store (current s + 20) 0 (mm s)\<rparr>) K)\<lparr>int_flag := True\<rparr>)))"

text \<open>
  What happens in a running kernel: an interrupt request, when interrupts are enabled; a pass of
  the clock thread and its \<open>yield\<close>; and a thread that logs a message, creates a thread, allocates,
  or writes to memory of its own. The contexts are arbitrary, but for the dummy value.
\<close>

inductive kernel_step :: "linkage \<Rightarrow> device \<Rightarrow> kernel \<Rightarrow> kernel \<Rightarrow> bool" for l dev where
  k_irq: "int_flag K \<Longrightarrow> n < 16 \<Longrightarrow> ip \<noteq> DUMMY_EIP \<Longrightarrow> irq_setup l dev (ip, sp, bp) r n K = Inr (c, K') \<Longrightarrow>
    kernel_step l dev K K'"
| k_clock: "thread_task dev K = Inr K' \<Longrightarrow> kernel_step l dev K K'"
| k_yield: "ip \<noteq> DUMMY_EIP \<Longrightarrow> kernel_yield l dev (ip, sp, bp) r K = Inr (c, K') \<Longrightarrow> kernel_step l dev K K'"
| k_log: "KLOG strings level col format args K = Inr K' \<Longrightarrow> kernel_step l dev K K'"
| k_sched: "sched_step (tasks_at l) (sched_of K) s \<Longrightarrow> kernel_step l dev K (with_sched s K)"

inductive_cases kernel_stepE: "kernel_step l dev K K'"

end
