(* ===== verification/KernelLog.thy ===== *)
theory KernelLog
  imports Kernel
begin

text \<open>
  What the log macros and the clock thread put on the screen: a message fills one row, and the
  clock is written at the right end of row 0 with the cursor restored.
\<close>

section \<open>Pieces of text\<close>

lemma text_at_append:
  "text_at (p + length vs) ws (text_at p vs b) = text_at p (vs @ ws) b"
proof (rule nth_equalityI)
  fix q assume "q < length (text_at (p + length vs) ws (text_at p vs b))"
  then have "q < 2000" by simp
  then show "text_at (p + length vs) ws (text_at p vs b) ! q = text_at p (vs @ ws) b ! q"
    by (auto simp: text_at_def nth_append)
qed simp

lemma blank_rest_text: "x \<le> 80 \<Longrightarrow> blank_rest v y x b = text_at (y * 80 + x) (replicate (80 - x) v) b"
  by (auto simp: blank_rest_def text_at_def)

lemma putchar_eq: "for_each (\<lambda>c. putchar (ucast c)) out s = vga_print out s"
proof -
  have "(\<lambda>c. putchar (ucast (c :: u8))) = vga_putc" by (simp add: putchar_def fun_eq_iff)
  then show ?thesis by (simp add: vga_print_def)
qed

lemma console_printf_eq: "console_printf strings format args s = rbind (printf strings format args) (\<lambda>(out, n). vga_print out s)"
  by (simp add: console_printf_def putchar_eq)

text \<open>Text behind the cursor that leaves it in its row.\<close>

lemma print_within:
  assumes "unat (cur_x s) + length chars < 80" "cur_y s < 24" "length (buf s) = 2000"
    "list_all (\<lambda>c. c \<noteq> 9 \<and> c \<noteq> 10) chars"
  shows "\<exists>t. vga_print chars s =
    Inr (s\<lparr>buf := text_at (unat (cur_y s) * 80 + unat (cur_x s)) (map (color_char s) chars) (buf s),
      cur_x := cur_x s + of_nat (length chars), ports := t\<rparr>)"
proof -
  have "cur_x s < 80" using assms(1) by (simp add: word_less_nat_alt)
  from print_row [OF this assms(2-4)] show ?thesis using assms(1) by simp
qed

lemma print_newline:
  assumes "cur_x s < 80" "cur_y s < 24" "length (buf s) = 2000"
  shows "\<exists>t. vga_print [10] s =
    Inr (s\<lparr>buf := text_at (unat (cur_y s) * 80 + unat (cur_x s)) (replicate (80 - unat (cur_x s)) (color_char s 32)) (buf s),
      cur_x := 0, cur_y := cur_y s + 1, ports := t\<rparr>)"
proof -
  have "cur_y s < 25" using assms(2) by (simp add: word_less_nat_alt)
  moreover have "unat (cur_x s) \<le> 80" using assms(1) by (simp add: word_less_nat_alt)
  ultimately show ?thesis
    using assms
    by (intro exI [of _ "ports s @ cursor_ports (cur_y s * 80 + 80)"])
      (simp add: vga_print_def putc_ref put_ref_def Let_def blank_rest_text)
qed

lemma print_append: "vga_print (xs @ ys) s = rbind (vga_print xs s) (vga_print ys)"
  by (cases "for_each vga_putc xs s") (simp_all add: vga_print_def for_each_append)

section \<open>A message\<close>

text \<open>The cells of a row with a message.\<close>

definition log_line :: "u8 \<Rightarrow> vga_color \<Rightarrow> string \<Rightarrow> u8 list \<Rightarrow> u16 list" where
  "log_line c col level out =
     (let cell = (\<lambda>c b. (scast b :: u16) OR push_bit 8 (ucast (c :: u8)))
      in map (cell c) (str ''['') @ map (cell (make_color col COLOR_BLACK)) (str level) @
         map (cell c) (str ''] '' @ out @ replicate (77 - length level - length out) 32))"

lemma color_char_cell: "color_char s = (\<lambda>b. (scast b :: u16) OR push_bit 8 (ucast (color s)))"
  by (simp add: color_char_def fun_eq_iff)

lemma length_log_line: "length level + length out \<le> 76 \<Longrightarrow> length (log_line c col level out) = 80"
  by (simp add: log_line_def Let_def)

lemma klog_line:
  assumes "cur_x (con K) = 0" "cur_y (con K) < 24" "length (buf (con K)) = 2000"
    and out: "printf strings (str format @ [10]) args = Inr (out @ [10], n)"
    and plain: "list_all (\<lambda>c. c \<noteq> 9 \<and> c \<noteq> 10) (str level @ out)" and len: "length level + length out \<le> 76"
  shows "\<exists>t. KLOG strings level col format args K =
    Inr (K\<lparr>con := (con K)\<lparr>buf := text_at (unat (cur_y (con K)) * 80) (log_line (color (con K)) col level out) (buf (con K)),
      cur_y := cur_y (con K) + 1, ports := t\<rparr>, int_flag := True\<rparr>)"
proof -
  define s where "s = con K"
  define m where "m = length level"
  let ?y = "unat (cur_y s)" and ?g = "make_color col COLOR_BLACK"
  let ?cell = "\<lambda>c b. (scast (b :: u8) :: u16) OR push_bit 8 (ucast (c :: u8))"
  have s: "cur_x s = 0" "cur_y s < 24" "length (buf s) = 2000" using assms(1-3) by (simp_all add: s_def)
  have m: "m \<le> 76" "m + length out \<le> 76" using len by (simp_all add: m_def)
  have lits: "str ''['' = [91]" "str ''] '' = [93, 32]" by code_simp+
  have ofn: "unat (of_nat q :: u32) = q" if "q \<le> 80" for q using that by (simp add: unat_of_nat)
  let ?A = "map (?cell (color s)) (str ''['')" and ?B = "map (?cell ?g) (str level)"
  let ?C = "map (?cell (color s)) (str ''] '')" and ?D = "map (?cell (color s)) out"
  obtain t1 where t1: "vga_print (str ''['') s = Inr (s\<lparr>buf := text_at (?y * 80) ?A (buf s), cur_x := 1, ports := t1\<rparr>)"
    using print_within [of s "str ''[''"] s lits by (auto simp: color_char_cell)
  define s1 where "s1 = s\<lparr>buf := text_at (?y * 80) ?A (buf s), cur_x := 1, ports := t1\<rparr>"
  have "list_all (\<lambda>c. c \<noteq> 9 \<and> c \<noteq> 10) (str level)" using plain by simp
  then obtain t2 where t2: "vga_print (str level) (s1\<lparr>color := ?g\<rparr>) =
      Inr (s1\<lparr>color := ?g, buf := text_at (?y * 80 + 1) ?B (buf s1), cur_x := 1 + of_nat m, ports := t2\<rparr>)"
    using print_within [of "s1\<lparr>color := ?g\<rparr>" "str level"] s m by (auto simp: color_char_cell s1_def m_def)
  define s2 where "s2 = s1\<lparr>buf := text_at (?y * 80 + 1) ?B (buf s1), cur_x := 1 + of_nat m, ports := t2\<rparr>"
  have c2: "vga_print_color col (str level) s1 = Inr s2"
    using t2 by (simp add: vga_print_color_def Let_def s2_def)
  have x2: "unat (cur_x s2) = 1 + m" using ofn [of "1 + m"] m by (simp add: s2_def)
  obtain t3 where t3: "vga_print (str ''] '') s2 =
      Inr (s2\<lparr>buf := text_at (?y * 80 + (1 + m)) ?C (buf s2), cur_x := cur_x s2 + 2, ports := t3\<rparr>)"
    using print_within [of s2 "str ''] ''"] s m x2 lits by (auto simp: color_char_cell s2_def s1_def)
  define s3 where "s3 = s2\<lparr>buf := text_at (?y * 80 + (1 + m)) ?C (buf s2), cur_x := cur_x s2 + 2, ports := t3\<rparr>"
  have x3: "unat (cur_x s3) = 3 + m" using ofn [of "3 + m"] m by (simp add: s3_def s2_def add.commute)
  obtain t4 where t4: "vga_print out s3 =
      Inr (s3\<lparr>buf := text_at (?y * 80 + (3 + m)) ?D (buf s3), cur_x := cur_x s3 + of_nat (length out), ports := t4\<rparr>)"
    using print_within [of s3 out] s m x3 plain by (auto simp: color_char_cell s3_def s2_def s1_def)
  define s4 where "s4 = s3\<lparr>buf := text_at (?y * 80 + (3 + m)) ?D (buf s3), cur_x := cur_x s3 + of_nat (length out), ports := t4\<rparr>"
  have "cur_x s3 = of_nat (3 + m)" by (simp add: s3_def s2_def)
  then have "cur_x s4 = of_nat (3 + m + length out)" by (simp add: s4_def)
  then have x4: "unat (cur_x s4) = 3 + m + length out" using ofn [of "3 + m + length out"] m by simp
  have "cur_x s4 < 80" using x4 m by (simp add: word_less_nat_alt)
  then obtain t5 where t5: "vga_print [10] s4 =
      Inr (s4\<lparr>buf := text_at (?y * 80 + (3 + m + length out)) (replicate (80 - (3 + m + length out)) (color_char s4 32)) (buf s4),
        cur_x := 0, cur_y := cur_y s4 + 1, ports := t5\<rparr>)"
    using print_newline [of s4] s x4 by (auto simp: s4_def s3_def s2_def s1_def)
  let ?R = "replicate (77 - m - length out) (?cell (color s) 32)"
  have r: "replicate (80 - (3 + m + length out)) (color_char s4 32) = ?R"
    by (simp add: color_char_cell s4_def s3_def s2_def s1_def)
  have row: "text_at (?y * 80 + (3 + m + length out)) ?R (text_at (?y * 80 + (3 + m)) ?D
      (text_at (?y * 80 + (1 + m)) ?C (text_at (?y * 80 + 1) ?B (text_at (?y * 80) ?A (buf s))))) =
    text_at (?y * 80) (log_line (color s) col level out) (buf s)"
    using text_at_append [of "?y * 80" ?A ?B "buf s"] text_at_append [of "?y * 80" "?A @ ?B" ?C "buf s"]
      text_at_append [of "?y * 80" "?A @ ?B @ ?C" ?D "buf s"] text_at_append [of "?y * 80" "?A @ ?B @ ?C @ ?D" ?R "buf s"]
    by (simp add: lits log_line_def Let_def m_def numeral_3_eq_3 add.assoc add.commute add.left_commute)
  have "rbind (vga_print out s3) (vga_print [10]) =
      Inr (s\<lparr>buf := text_at (?y * 80) (log_line (color s) col level out) (buf s), cur_y := cur_y s + 1, ports := t5\<rparr>)"
    using t4 t5 row s(1) unfolding r by (simp add: s4_def [symmetric]) (simp add: s4_def s3_def s2_def s1_def)
  moreover have "vga_print (str ''['') s = Inr s1" "vga_print (str ''] '') s2 = Inr s3"
    using t1 t3 by (simp_all only: s1_def s3_def)
  ultimately show ?thesis
    using c2 out
    by (intro exI [of _ t5]) (simp add: KLOG_def Let_def console_printf_eq print_append s_def [symmetric])
qed

section \<open>The clock\<close>

definition dec :: "nat \<Rightarrow> u8 list" where
  "dec n = (if n < 10 then [of_nat (48 + n)] else [of_nat (48 + n div 10), of_nat (48 + n mod 10)])"

definition two_digits :: "nat \<Rightarrow> u8 list" where
  "two_digits n = [of_nat (48 + n div 10), of_nat (48 + n mod 10)]"

text \<open>The clock's line for an hour, with its half of the day, a minute and a second.\<close>

definition clock_text :: "int \<times> bool \<Rightarrow> nat \<Rightarrow> nat \<Rightarrow> u8 list" where
  "clock_text = (\<lambda>(hour, pm) mi se. dec (nat hour) @ [58] @ two_digits mi @ [58] @ two_digits se @ str (if pm then ''PM'' else ''AM''))"

lemma printi_dec:
  assumes "n < 100"
  shows "printi (of_nat n) 10 True 0 0 97 = Inr (dec n, of_nat (length (dec n)))"
proof -
  have "list_all (\<lambda>n. printi (of_nat n) 10 True 0 0 97 = Inr (dec n, of_nat (length (dec n)))) [0..<100]" by code_simp
  then show ?thesis using assms by (simp add: list_all_iff)
qed

lemma two_digits_dec: "n < 100 \<Longrightarrow> two_digits n = (if n < 10 then 48 # dec n else dec n)"
  by (auto simp: two_digits_def dec_def)

lemma print_string: "length s < 2 ^ 31 \<Longrightarrow> prints s 0 0 = (s, of_nat (length s))"
  using prints_eq [of s 0 0] by (simp add: field_def)

text \<open>The hours that are shown.\<close>

lemma rtc_hours:
  assumes "utc < 24"
  shows "0 \<le> fst (rtc_hour (of_nat utc))" "fst (rtc_hour (of_nat utc)) \<le> 12"
proof -
  have "list_all (\<lambda>u. 0 \<le> fst (rtc_hour (of_nat u)) \<and> fst (rtc_hour (of_nat u)) \<le> 12) [0..<24]" by code_simp
  then show "0 \<le> fst (rtc_hour (of_nat utc))" "fst (rtc_hour (of_nat utc)) \<le> 12"
    using assms by (simp_all add: list_all_iff)
qed

lemma clock_format:
  assumes "h < 100" "mi < 100" "se < 100"
  shows "printf rtc_literals (str ''%d:%s%d:%s%d%s'')
      [of_nat h, if mi < 10 then 1 else 2, of_nat mi, if se < 10 then 1 else 2, of_nat se, if pm then 3 else 4] =
    Inr (clock_text (int h, pm) mi se, of_nat (length (clock_text (int h, pm) mi se)))"
proof -
  have fmt: "str ''%d:%s%d:%s%d%s'' = [37, 100, 58, 37, 115, 37, 100, 58, 37, 115, 37, 100, 37, 115]" by code_simp
  have lits: "rtc_literals 1 = [48]" "rtc_literals 2 = []" "rtc_literals 3 = [80, 77]" "rtc_literals 4 = [65, 77]" by code_simp+
  have ampm: "str ''PM'' = [80, 77]" "str ''AM'' = [65, 77]" by code_simp+
  note p = printi_dec [OF assms(1)] printi_dec [OF assms(2)] printi_dec [OF assms(3)]
  show ?thesis
    using p two_digits_dec [OF assms(2)] two_digits_dec [OF assms(3)]
    by (cases pm; cases "mi < 10"; cases "se < 10")
      (simp_all add: printf_def fmt print.simps parse_flags_def convert_def ch_values Let_def lits ampm print_string clock_text_def)
qed

text \<open>A clock chip that holds a time of day, in binary-coded decimal, whatever was asked before.\<close>

definition clock_holds :: "device \<Rightarrow> nat \<Rightarrow> nat \<Rightarrow> nat \<Rightarrow> bool" where
  "clock_holds dev utc mi se \<longleftrightarrow>
     (\<forall>t. dev (t @ [Outb 0x70 4]) 0x71 = bcd_of utc \<and> dev (t @ [Outb 0x70 2]) 0x71 = bcd_of mi \<and>
          dev (t @ [Outb 0x70 0]) 0x71 = bcd_of se)"

lemma as_binary_of_bcd: "n < 100 \<Longrightarrow> as_binary (bcd_of n) = of_nat n"
proof -
  assume n: "n < 100"
  have "map (\<lambda>n. unat (as_binary (bcd_of n))) [0..<100] = [0..<100]" by (rule conjunct1 [OF as_binary_bcd])
  then have "unat (as_binary (bcd_of n)) = n"
    using n by (metis (no_types, lifting) add.left_neutral diff_zero length_upt nth_map nth_upt)
  then show ?thesis by (metis of_nat_unat ucast_id)
qed

lemma rtc_print_clock:
  assumes "clock_holds dev utc mi se" "utc < 24" "mi < 60" "se < 60"
  shows "\<exists>t'. rtc_print dev t = (Inr (clock_text (rtc_hour (of_nat utc)) mi se,
    of_nat (length (clock_text (rtc_hour (of_nat utc)) mi se))), t')"
proof -
  obtain h pm where h: "rtc_hour (of_nat utc) = (h, pm)" by (cases "rtc_hour (of_nat utc)")
  then have hh: "0 \<le> h" "h \<le> 12" using rtc_hours [OF assms(2)] by simp_all
  then have hn: "(of_int h :: u32) = of_nat (nat h)" "int (nat h) = h" "nat h < 100" by simp_all
  have b: "as_binary (bcd_of utc) = of_nat utc" "as_binary (bcd_of mi) = of_nat mi" "as_binary (bcd_of se) = of_nat se"
    using assms(2-4) by (simp_all add: as_binary_of_bcd)
  have "list_all (\<lambda>n. (ucast (of_nat n :: u8) :: u32) = of_nat n \<and> ((of_nat n :: u8) < 10) = (n < 10)) [0..<60]" by code_simp
  then have c: "(ucast (of_nat n :: u8) :: u32) = of_nat n" "(of_nat n :: u8) < 10 \<longleftrightarrow> n < 10" if "n < 60" for n
    using that by (simp_all add: list_all_iff)
  have rd: "fst (rtc_read dev r t) = as_binary (dev (t @ [Outb 0x70 r]) 0x71)" for r t
    by (simp add: rtc_read_def RTC_OUT_def RTC_IN_def outb_def inb_def Let_def)
  obtain t1 t2 t3 where t: "rtc_read dev 4 t = (of_nat utc, t1)" "rtc_read dev 2 t1 = (of_nat mi, t2)"
    "rtc_read dev 0 t2 = (of_nat se, t3)"
    using rd [of 4 t] rd [of 2] rd [of 0] assms(1) b unfolding clock_holds_def by (metis prod.collapse)
  have "rtc_print dev t = (printf rtc_literals (str ''%d:%s%d:%s%d%s'')
      [of_nat (nat h), if mi < 10 then 1 else 2, of_nat mi, if se < 10 then 1 else 2, of_nat se, if pm then 3 else 4], t3)"
    unfolding rtc_print_def rtc_get_hour_def rtc_get_minute_def rtc_get_second_def t h Let_def prod.case c [OF assms(3)]
      c [OF assms(4)] hn(1) by (rule refl)
  also have "printf rtc_literals (str ''%d:%s%d:%s%d%s'')
      [of_nat (nat h), if mi < 10 then 1 else 2, of_nat mi, if se < 10 then 1 else 2, of_nat se, if pm then 3 else 4] =
    Inr (clock_text (h, pm) mi se, of_nat (length (clock_text (h, pm) mi se)))"
    by (rule clock_format [OF hn(3), of mi se pm, unfolded hn(2)]) (use assms(3,4) in simp_all)
  finally show ?thesis unfolding h by blast
qed

lemma clock_text_fits:
  assumes "utc < 24" "mi < 60" "se < 60"
  shows "length (clock_text (rtc_hour (of_nat utc)) mi se) = (if fst (rtc_hour (of_nat utc)) < 10 then 9 else 10)"
    "list_all (\<lambda>c. c \<noteq> 9 \<and> c \<noteq> 10) (clock_text (rtc_hour (of_nat utc)) mi se)"
proof -
  obtain h pm where h: "rtc_hour (of_nat utc) = (h, pm)" by (cases "rtc_hour (of_nat utc)")
  then have hh: "0 \<le> h" "h \<le> 12" using rtc_hours [OF assms(1)] by simp_all
  have ampm: "str ''PM'' = [80, 77]" "str ''AM'' = [65, 77]" by code_simp+
  show "length (clock_text (rtc_hour (of_nat utc)) mi se) = (if fst (rtc_hour (of_nat utc)) < 10 then 9 else 10)"
    using hh by (simp add: h clock_text_def dec_def two_digits_def ampm) linarith
  have "list_all (\<lambda>n. list_all (\<lambda>c. c \<noteq> 9 \<and> c \<noteq> 10) (dec n @ two_digits n)) [0..<60]" by code_simp
  then have "list_all (\<lambda>c. c \<noteq> 9 \<and> c \<noteq> 10) (dec n) \<and> list_all (\<lambda>c. c \<noteq> 9 \<and> c \<noteq> 10) (two_digits n)" if "n < 60" for n
    using that by (simp add: list_all_iff)
  then show "list_all (\<lambda>c. c \<noteq> 9 \<and> c \<noteq> 10) (clock_text (rtc_hour (of_nat utc)) mi se)"
    using assms(2,3) hh by (simp add: h clock_text_def ampm)
qed

text \<open>A pass of the clock thread, by the hour that the code computes.\<close>

lemma thread_task_pass:
  assumes "cursor_ok (con K)" "clock_holds dev utc mi se" "utc < 24" "mi < 60" "se < 60"
  shows "\<exists>t. thread_task dev K =
      Inr (K\<lparr>con := (con K)\<lparr>buf := text_at 70 (map (color_char (con K)) (clock_text (rtc_hour (of_nat utc)) mi se)) (buf (con K)),
        ports := t\<rparr>, int_flag := True\<rparr>)"
proof -
  define shown_time where "shown_time = clock_text (rtc_hour (of_nat utc)) mi se"
  have len: "length shown_time = (if fst (rtc_hour (of_nat utc)) < 10 then 9 else 10)"
    unfolding shown_time_def using clock_text_fits(1) assms(3-5) .
  define s where "s = con K"
  have ok: "cursor_ok s" and s: "cur_x s < 80" "cur_y s < 25" "length (buf s) = 2000"
    using assms(1) by (simp_all add: cursor_ok_def s_def)
  obtain t1 where x70: "vga_set_x 70 s = Inr (s\<lparr>cur_x := 70, ports := t1\<rparr>)"
    using set_cursor_eq(1) [OF ok, of 70] by simp
  have ok1: "cursor_ok (s\<lparr>cur_x := 70, ports := t1\<rparr>)" using s by (simp add: cursor_ok_def)
  define t2 where "t2 = t1 @ cursor_ports (0 * 80 + 70)"
  define s2 where "s2 = s\<lparr>cur_x := 70, cur_y := 0, ports := t2\<rparr>"
  have y0: "vga_set_y 0 (s\<lparr>cur_x := 70, ports := t1\<rparr>) = Inr s2"
    using set_cursor_eq(2) [OF ok1, of 0] by (simp add: s2_def t2_def)
  obtain t3 n where rtc: "rtc_print dev (ports s2) = (Inr (shown_time, n), t3)"
    using rtc_print_clock [OF assms(2-5), of "ports s2"] unfolding shown_time_def by blast
  have plain: "list_all (\<lambda>c. c \<noteq> 9 \<and> c \<noteq> 10) shown_time"
    unfolding shown_time_def using clock_text_fits(2) assms(3-5) .
  have le: "length shown_time \<le> 10" using len by (simp split: if_splits)
  have cc: "color_char (s2\<lparr>ports := t3\<rparr>) = color_char s" by (simp add: s2_def color_char_cell)
  obtain x y t4 where p: "vga_print shown_time (s2\<lparr>ports := t3\<rparr>) =
      Inr (s2\<lparr>buf := text_at 70 (map (color_char s) shown_time) (buf s), cur_x := x, cur_y := y, ports := t4\<rparr>)"
    "x < 80" "y < 25"
  proof -
    let ?l = "length shown_time"
    have a: "cur_x (s2\<lparr>ports := t3\<rparr>) = 70" "cur_y (s2\<lparr>ports := t3\<rparr>) = 0" "buf (s2\<lparr>ports := t3\<rparr>) = buf s" by (simp_all add: s2_def)
    obtain t4 where t4: "vga_print shown_time (s2\<lparr>ports := t3\<rparr>) =
      Inr (s2\<lparr>buf := text_at 70 (map (color_char s) shown_time) (buf s),
        cur_x := (if 70 + ?l < 80 then 70 + of_nat ?l else 0), cur_y := (if 70 + ?l < 80 then 0 else 1), ports := t4\<rparr>)"
      using print_row [of "s2\<lparr>ports := t3\<rparr>" shown_time] a plain le s(3) unfolding a cc by (auto split: if_splits)
    have "(if 70 + ?l < 80 then 70 + of_nat ?l else 0 :: u32) < 80"
      using le by (auto simp: word_less_nat_alt unat_of_nat unat_word_ariths)
    then show thesis using that t4 by simp
  qed
  define s3 where "s3 = s2\<lparr>buf := text_at 70 (map (color_char s) shown_time) (buf s), cur_x := x, cur_y := y, ports := t4\<rparr>"
  have ok3: "cursor_ok s3" using p(2,3) by (simp add: cursor_ok_def s3_def)
  obtain t5 where x: "vga_set_x (cur_x s) s3 = Inr (s3\<lparr>cur_x := cur_x s, ports := t5\<rparr>)"
    using set_cursor_eq(1) [OF ok3, of "cur_x s"] less_imp_le [OF s(1)] by auto
  have ok4: "cursor_ok (s3\<lparr>cur_x := cur_x s, ports := t5\<rparr>)" using ok3 s(1) by (simp add: cursor_ok_def)
  obtain t6 where y: "vga_set_y (cur_y s) (s3\<lparr>cur_x := cur_x s, ports := t5\<rparr>) =
      Inr (s3\<lparr>cur_x := cur_x s, ports := t5, cur_y := cur_y s, ports := t6\<rparr>)"
    using set_cursor_eq(2) [OF ok4, of "cur_y s"] less_imp_le [OF s(2)] by auto
  have "thread_task dev K = Inr (K\<lparr>con := s3\<lparr>cur_x := cur_x s, ports := t5, cur_y := cur_y s, ports := t6\<rparr>, int_flag := True\<rparr>)"
    using x70 y0 rtc p(1) x y
    by (simp add: thread_task_def Let_def putchar_eq vga_get_x_def vga_get_y_def s_def [symmetric] s3_def [symmetric])
  then show ?thesis
    unfolding shown_time_def [symmetric] by (intro exI [of _ t6]) (simp add: s3_def s2_def s_def [symmetric])
qed


text \<open>
  C32: a pass of the clock thread shows the clock chip's time, five hours back on a twelve-hour
  clock, at the right end of row 0, changes no other cell, and puts the cursor back. The hour is
  the right one but at seven hours of the day: from midnight to 4 UTC and at 17 UTC it says AM for
  PM, and at 5 UTC midnight is hour 0 instead of 12. The text has nine characters for an hour of one
  digit, and the tenth cell is not blanked: it keeps the last letter of the hour before.
\<close>

theorem thread_task_shows_time:
  assumes "cursor_ok (con K)" "clock_holds dev utc mi se" "utc < 24" "mi < 60" "se < 60"
  shows "(shown_hour utc = est_hour utc \<longleftrightarrow> 6 \<le> utc \<and> utc \<noteq> 17) \<and>
    length (clock_text (shown_hour utc) mi se) = (if fst (shown_hour utc) < 10 then 9 else 10) \<and>
    (\<exists>t. thread_task dev K =
      Inr (K\<lparr>con := (con K)\<lparr>buf := text_at 70 (map (color_char (con K)) (clock_text (shown_hour utc) mi se)) (buf (con K)),
        ports := t\<rparr>, int_flag := True\<rparr>))"
  unfolding rtc_hour_shown [OF assms(3), symmetric]
  using clock_text_fits(1) [OF assms(3-5)] thread_task_pass [OF assms]
    shown_hour_correct [OF assms(3), folded rtc_hour_shown [OF assms(3)]]
  by blast

end
