(* ===== verification/ConsoleMem.thy ===== *)
theory ConsoleMem
  imports VgaCursor TaskInit
begin

text \<open>
  What the console's operations do to the rest of the kernel's memory: the array of lines and the
  line buffers are objects of the heap among others, and scrolling leaves the other objects and
  the static memory alone. This is what lets the console and the scheduler share one heap.
\<close>

section \<open>A sealed view of the heap\<close>

text \<open>
  The heap keeps its contract under a stronger invariant, which also fixes the static memory and
  its contents; a client verified against the contract therefore preserves them too.
\<close>

definition sealed :: "addr set \<Rightarrow> mem \<Rightarrow> kmem \<Rightarrow> bool" where
  "sealed S c k \<longleftrightarrow> kmem_inv k \<and> kstatic k = S \<and> (\<forall>a \<in> S. ram k a = c a)"

lemma sealed_update:
  assumes "sealed S c k" "(p, B) \<in> kowns k" "\<And>a. a \<notin> B \<Longrightarrow> f (ram k) a = ram k a"
  shows "sealed S c (ram_update f k) \<and> kowns (ram_update f k) = kowns k"
proof -
  have k: "kmem_inv k" "kstatic k = S" "\<forall>a \<in> S. ram k a = c a" using assms(1) by (simp_all add: sealed_def)
  have "\<forall>a. a \<notin> B \<longrightarrow> f (ram k) a = ram k a" using assms(3) by blast
  note u = update_evolves [OF k(1) assms(2), of f, OF this]
  have "f (ram k) a = c a" if "a \<in> S" for a
  proof -
    have "a \<notin> B" using kernel_pages.owned_not_static [OF k(1) assms(2)] that k(2) by blast
    then show ?thesis using assms(3) k(3) that by simp
  qed
  then show ?thesis using u k(2) by (simp add: sealed_def evolves_def)
qed

interpretation sealed_heap: allocator kmalloc kfree ram ram_update "sealed S c" kowns
  for S :: "addr set" and c :: mem
proof unfold_locales
  fix s s' n p assume a: "sealed S c s" "0 < n" "kmalloc s n = Inr (p, s')"
  then have inv: "kmem_inv s" by (simp add: sealed_def)
  show "sealed S c s' \<and> p \<noteq> 0 \<and> (\<exists>B. (p, B) \<notin> kowns s \<and> kowns s' = insert (p, B) (kowns s) \<and> (\<forall>i < n. p + i \<in> B))"
    using kernel.malloc_fresh [OF inv a(2,3)] kernel_pages.malloc_static [OF inv a(2,3)] a(1) by (auto simp: sealed_def)
  show "ram s' b = ram s b" if "(q, B) \<in> kowns s" "b \<in> B" for q B b
    using kernel.malloc_frame [OF inv a(2,3) that] .
next
  fix s p B assume a: "sealed S c s" "(p, B) \<in> kowns s"
  then have inv: "kmem_inv s" by (simp add: sealed_def)
  show "\<exists>s'. kfree s p = Inr s' \<and> sealed S c s' \<and> kowns s - {(p, B)} \<subseteq> kowns s' \<and> kowns s' \<subseteq> kowns s \<and>
        (\<forall>q C a. (q, C) \<in> kowns s \<longrightarrow> a \<in> C \<longrightarrow> ram s' a = ram s a)"
    using kernel.mfree_owned [OF inv a(2)] kernel_pages.mfree_static [OF inv a(2)] a(1) by (auto simp: sealed_def)
  show "p \<in> B" using kernel.owns_base [OF inv a(2)] .
  show "sealed S c (ram_update f s) \<and> kowns (ram_update f s) = kowns s" if "\<And>a. a \<notin> B \<Longrightarrow> f (ram s) a = ram s a" for f
    by (rule sealed_update [OF a]) (rule that)
  show "B \<inter> C = {}" if "(q, C) \<in> kowns s" "(p, B) \<noteq> (q, C)" for q C
    using kernel.owns_disjoint [OF inv a(2) that] .
qed (simp_all add: kernel.mfree_null)

lemma sealed_self: "kmem_inv k \<Longrightarrow> sealed (kstatic k) (ram k) k"
  by (simp add: sealed_def)

lemma sealed_evolves:
  "sealed (kstatic k) (ram k) k' \<Longrightarrow> others_kept (ram k) (kowns k) (ram k') (kowns k') ps \<Longrightarrow> evolves k k' ps"
  by (simp add: sealed_def evolves_def)

section \<open>Growing the array of lines\<close>

lemma array_add_size:
  assumes "array_add kmalloc kfree ram ram_update k arr x = Inr k'" "arr_used (ram k) arr = arr_size (ram k) arr"
  shows "unat (arr_size (ram k) arr * 2 * 4) \<le> 4194304"
proof -
  have "arr_size (ram k) arr * 2 * 4 \<le> PAGE_SIZE"
    using assms
    by (auto simp: array_add_def grow_def rbind_eq_Inr Let_def kmalloc_def put32_def arr_size_def growth_factor_def
        not_less mult.commute split: if_splits)
  then show ?thesis by (simp add: word_le_nat_alt PAGE_SIZE_def)
qed

lemma array_add_evolves:
  assumes inv: "kmem_inv k" and arr: "array_in (ram k) (kowns k) arr B D xs"
    and small: "unat (arr_size (ram k) arr) * 8 < 2 ^ 32"
    and call: "array_add kmalloc kfree ram ram_update k arr x = Inr k'"
  shows "evolves k k' {arr, arr_data (ram k) arr}" "kstatic k' = kstatic k" "unat (arr_size (ram k') arr) * 8 < 2 ^ 32"
    "arr_data (ram k') arr = arr_data (ram k) arr \<or> (\<forall>q C. (q, C) \<in> kowns k \<longrightarrow> q \<noteq> arr_data (ram k') arr)"
proof -
  note h = sealed_heap.add_holds [OF sealed_self [OF inv] arr small, of x, unfolded call sum.case]
  show "evolves k k' {arr, arr_data (ram k) arr}" using h sealed_evolves by blast
  show "kstatic k' = kstatic k" using h by (auto simp: sealed_def)
  show "arr_data (ram k') arr = arr_data (ram k) arr \<or> (\<forall>q C. (q, C) \<in> kowns k \<longrightarrow> q \<noteq> arr_data (ram k') arr)"
    using h by blast
  show "unat (arr_size (ram k') arr) * 8 < 2 ^ 32"
  proof (cases "length xs = unat (arr_size (ram k) arr)")
    case True
    let ?n = "arr_size (ram k) arr"
    have "arr_used (ram k) arr = ?n" using True array_inD(10) [OF arr] by (simp add: word_unat_eq_iff)
    then have le: "unat (?n * 2 * 4) \<le> 4194304" by (rule array_add_size [OF call])
    have u: "unat (?n * 2) = unat ?n * 2" "unat (?n * 2 * 4) = unat ?n * 8"
      using small unat_mult_small [of ?n "2 :: u32"] unat_mult_small [of "?n * 2" "4 :: u32"] by simp_all
    have "arr_size (ram k') arr = ?n * 2" using h True by simp
    then show ?thesis using le u by simp
  next
    case False
    then show ?thesis using h small by simp
  qed
qed

section \<open>The objects of the console\<close>

definition console_objs :: "vga \<Rightarrow> addr list \<Rightarrow> addr set" where
  "console_objs s ps = insert (lines_arr s) (insert (arr_data (ram (kern s)) (lines_arr s)) (set ps))"

text \<open>
  A step of the console: it leaves the static memory and the other objects alone, and takes over no
  object that was there before.
\<close>

definition console_step :: "vga \<Rightarrow> addr list \<Rightarrow> vga \<Rightarrow> addr list \<Rightarrow> bool" where
  "console_step s ps s' ps' \<longleftrightarrow>
     evolves (kern s) (kern s') (console_objs s ps) \<and> kstatic (kern s') = kstatic (kern s) \<and>
     (\<forall>q C. (q, C) \<in> kowns (kern s) \<longrightarrow> q \<in> console_objs s' ps' \<longrightarrow> q \<in> console_objs s ps)"

lemma console_step_trans [trans]:
  assumes a: "console_step s ps s' ps'" and b: "console_step s' ps' s'' ps''"
  shows "console_step s ps s'' ps''"
proof -
  have old: "q \<in> console_objs s ps" if "(q, C) \<in> kowns (kern s)" "q \<in> console_objs s' ps' \<or> q \<in> console_objs s'' ps''" for q C
  proof (rule ccontr)
    assume n: "q \<notin> console_objs s ps"
    then have "(q, C) \<in> kowns (kern s')" using a that(1) by (auto simp: console_step_def evolves_def others_kept_def)
    then have "q \<in> console_objs s' ps'" using that(2) b unfolding console_step_def by blast
    then show False using n a that(1) unfolding console_step_def by blast
  qed
  have "evolves (kern s) (kern s'') (console_objs s ps \<union> console_objs s' ps')"
    using a b evolves_trans by (auto simp: console_step_def)
  from evolves_objs [OF this] have "evolves (kern s) (kern s'') (console_objs s ps)" using old by blast
  then show ?thesis using a b old by (auto simp: console_step_def)
qed

lemma evolves_self: "kmem_inv k \<Longrightarrow> evolves k k ps"
  by (simp add: evolves_def others_kept_refl)

lemma console_step_same:
  assumes "kmem_inv (kern s)" "kern s' = kern s" "lines_arr s' = lines_arr s"
  shows "console_step s ps s' ps"
  using assms by (simp add: console_step_def console_objs_def evolves_self)

text \<open>The size of the array stays far from overflow: its block is at most a page.\<close>

definition room :: "vga \<Rightarrow> bool" where
  "room s \<longleftrightarrow> unat (arr_size (ram (kern s)) (lines_arr s)) * 8 < 2 ^ 32"

lemma save_buffer_step:
  assumes ok: "screen_ok s B D ps" and call: "save_buffer s = Inr s'"
  shows "console_step s ps s' ps"
proof -
  let ?k = "kern s" and ?n = "unat (line_number s)"
  let ?P = "\<lambda>c s'. \<exists>k. s' = s\<lparr>kern := k\<rparr> \<and> screen_ok s' B D ps \<and> evolves ?k k (set ps) \<and> kstatic k = kstatic ?k \<and>
      arr_data (ram k) (lines_arr s) = arr_data (ram ?k) (lines_arr s)"
  let ?f = "\<lambda>i s. rbind (get_line s i) (\<lambda>line. Inr (s\<lparr>kern := ram_update (save_row (buf s) i line 0) (kern s)\<rparr>))"
  have "\<exists>s'. for_each ?f [0..<25] s = Inr s' \<and> ?P 25 s'"
  proof (rule for_each_invariant)
    show "?P 0 s"
      using ok evolves_self [OF lines_atD(1) [OF screen_okD(1) [OF ok]]] by (intro exI [of _ ?k]) simp
  next
    fix c :: nat and s' assume c: "c < 25" and "?P c s'"
    then obtain k where k: "s' = s\<lparr>kern := k\<rparr>" "screen_ok s' B D ps" "evolves ?k k (set ps)" "kstatic k = kstatic ?k"
      "arr_data (ram k) (lines_arr s) = arr_data (ram ?k) (lines_arr s)" by blast
    define q where "q = ?n + c"
    have q: "q < length ps" using screen_okD(3) [OF ok] c by (simp add: q_def)
    have lk: "lines_at k (lines_arr s) B D ps" using screen_okD(1) [OF k(2)] by (simp add: k(1))
    let ?g = "save_row (buf s) c (ps ! q) 0"
    have out: "?g m a = m a" if "a \<notin> span (ps ! q) 160" for m a
      using save_row_line [of c 0 "buf s" "ps ! q" m] c that by simp
    note u = line_update [OF lk q, of ?g, OF out]
    note d = lines_atD [OF lk]
    obtain C where C: "(ps ! q, C) \<in> kowns k" "span (ps ! q) 160 \<subseteq> C" using d(8) [of "ps ! q"] q by auto
    have "\<forall>a. a \<notin> C \<longrightarrow> ?g (ram k) a = ram k a" using C(2) out by blast
    note e = update_evolves [OF d(1) C(1), of ?g, OF this]
    have ev: "evolves ?k (ram_update ?g k) (set ps)"
      by (rule evolves_objs [OF evolves_trans [OF k(3) e(1)]]) (use q in auto)
    have "arr_data (?g (ram k)) (lines_arr s) = arr_data (ram k) (lines_arr s)"
    proof -
      note ad = array_inD [OF d(3)]
      have "lines_arr s \<noteq> ps ! q" using d(5) q by (metis nth_mem)
      then have "?g (ram k) a = ram k a" if "a \<in> B" for a
        using others_keptD(2) [of "ram k" "kowns k" "?g (ram k)" "kowns k" "{ps ! q}", OF _ ad(1) _ that] e(1,2)
        by (simp add: evolves_def)
      then show ?thesis using fields_kept(1) [OF ad(4), of "?g (ram k)" "ram k"] by blast
    qed
    moreover have "?f c s' = Inr (s\<lparr>kern := ram_update ?g k\<rparr>)"
      using get_line_ok(1) [OF k(2) c] by (simp add: k(1) q_def)
    moreover have "screen_ok (s\<lparr>kern := ram_update ?g k\<rparr>) B D ps" using u(1) ok by (simp add: screen_ok_def)
    ultimately show "\<exists>s''. ?f c s' = Inr s'' \<and> ?P (Suc c) s''"
      using ev e(3) k(4,5) by (intro exI [of _ "s\<lparr>kern := ram_update ?g k\<rparr>"] conjI exI [of _ "ram_update ?g k"]) simp_all
  qed
  then obtain k where k: "s' = s\<lparr>kern := k\<rparr>" "evolves ?k k (set ps)" "kstatic k = kstatic ?k"
    "arr_data (ram k) (lines_arr s) = arr_data (ram ?k) (lines_arr s)"
    using call unfolding save_buffer_def by auto
  have "evolves ?k k (console_objs s ps)" by (rule evolves_objs [OF k(2)]) (auto simp: console_objs_def)
  then show ?thesis using k by (simp add: console_step_def console_objs_def)
qed

lemma save_buffer_room:
  assumes "screen_ok s B D ps" "save_buffer s = Inr s'"
  shows "screen_ok s' B D ps" "room s' = room s" "s' = s\<lparr>kern := kern s'\<rparr>" "arr_used (ram (kern s')) (lines_arr s) = arr_used (ram (kern s)) (lines_arr s)"
  using save_buffer_ok [OF assms(1)] assms(2) by (auto simp: room_def)

lemma add_blank_line_step:
  assumes ok: "screen_ok s B D ps" and small: "room s" and call: "add_blank_line s = Inr s'"
  shows "\<exists>D' p. screen_ok s' B D' (ps @ [p]) \<and> room s' \<and> console_step s ps s' (ps @ [p]) \<and> s' = s\<lparr>kern := kern s'\<rparr>"
proof -
  let ?arr = "lines_arr s"
  note l = screen_okD [OF ok]
  note d = lines_atD [OF l(1)]
  obtain p k1 where m: "kmalloc (kern s) 160 = Inr (p, k1)"
    using call by (auto simp: add_blank_line_def rbind_eq_Inr vga_width_def)
  have "(0 :: u32) < 160" by simp
  obtain P where P: "evolves (kern s) k1 {}" "kstatic k1 = kstatic (kern s)" "kowns k1 = insert (p, P) (kowns (kern s))"
    "p \<noteq> 0" "span p 160 \<subseteq> P" "\<And>q C. (q, C) \<in> kowns (kern s) \<Longrightarrow> q \<noteq> p"
    by (rule kmalloc_evolves [OF d(1) \<open>0 < 160\<close> m]) (rule that)
  have Q: "lines_at k1 ?arr B D ps" "p \<noteq> ?arr" "p \<noteq> arr_data (ram k1) ?arr" "p \<notin> set ps"
    "arr_size (ram k1) ?arr = arr_size (ram (kern s)) ?arr"
    using fresh_line [OF l(1) m] by blast+
  have dat1: "arr_data (ram k1) ?arr = arr_data (ram (kern s)) ?arr"
    using lines_kept(4) [OF l(1) _ _ Int_empty_left, of k1] P(1) by (simp add: evolves_def)
  define f where "f = fill_line (color_char s 32) p"
  have "\<forall>a. a \<notin> P \<longrightarrow> f (ram k1) a = ram k1 a"
    unfolding f_def using P(5) by (auto intro!: fill_line_words(2))
  note u = update_evolves [OF lines_atD(1) [OF Q(1)], of p P f, OF _ this]
  let ?k2 = "ram_update f k1"
  have u1: "evolves k1 ?k2 {p}" "kowns ?k2 = kowns k1" "kstatic ?k2 = kstatic k1" using u P(3) by simp_all
  have sep: "{p} \<inter> insert ?arr (insert (arr_data (ram k1) ?arr) (set ps)) = {}" using Q(2-4) by simp
  have k2: "lines_at ?k2 ?arr B D ps" "arr_size (ram ?k2) ?arr = arr_size (ram k1) ?arr"
    "arr_data (ram ?k2) ?arr = arr_data (ram k1) ?arr"
    using lines_kept [OF Q(1) _ _ sep, of ?k2] u1(1) by (simp_all add: evolves_def)
  obtain k3 where add: "array_add kmalloc kfree ram ram_update ?k2 ?arr p = Inr k3" and s': "s' = s\<lparr>kern := k3\<rparr>"
    using call m by (auto simp: add_blank_line_def rbind_eq_Inr Let_def f_def vga_width_def)
  have small2: "unat (arr_size (ram ?k2) ?arr) * 8 < 2 ^ 32" using small k2(2) Q(5) by (simp add: room_def)
  note a = array_add_evolves [OF lines_atD(1) [OF k2(1)] lines_atD(3) [OF k2(1)] small2 add]
  obtain D' where D': "lines_at k3 ?arr B D' (ps @ [p])"
    using lines_add [OF k2(1) _ P(5,4) Q(2) _ Q(4) small2 add] P(3) u1(2) Q(3) k2(3) by auto
  have ev: "evolves (kern s) k3 ({} \<union> {p} \<union> {?arr, arr_data (ram ?k2) ?arr})"
    using evolves_trans [OF evolves_trans [OF P(1) u1(1)] a(1)] .
  have "evolves (kern s) k3 (console_objs s ps)"
    by (rule evolves_objs [OF ev]) (use P(6) k2(3) dat1 in \<open>auto simp: console_objs_def\<close>)
  moreover have "q \<noteq> arr_data (ram k3) ?arr" if "(q, C) \<in> kowns (kern s)" "q \<noteq> arr_data (ram (kern s)) ?arr" for q C
    using a(4) that P(3) u1(2) k2(3) dat1 by auto
  ultimately have "console_step s ps s' (ps @ [p])"
    using a(2) u1(3) P(2,6) by (auto simp: console_step_def console_objs_def s')
  then show ?thesis
    using D' l(2,3) a(3) by (intro exI [of _ D'] exI [of _ p]) (simp add: s' screen_ok_def room_def)
qed

lemma draw_buffer_keeps: "draw_buffer s = Inr s' \<Longrightarrow> kern s' = kern s \<and> lines_arr s' = lines_arr s"
proof -
  assume "draw_buffer s = Inr s'"
  then have "(kern s', lines_arr s') = (kern s, lines_arr s)"
    unfolding draw_buffer_def by (rule for_each_keeps [rotated]) (auto simp: rbind_eq_Inr)
  then show ?thesis by simp
qed

text \<open>The array says which lines there are.\<close>

lemma lines_unique: "lines_at k arr B D ps \<Longrightarrow> lines_at k arr B' D' ps' \<Longrightarrow> ps = ps'"
  by (simp add: lines_at_def array_in_def)

lemma scroll_down_step:
  assumes ok: "screen_ok s B D ps" and small: "room s" and call: "vga_scroll_down s = Inr s'"
  shows "\<exists>D' ps'. screen_ok s' B D' ps' \<and> room s' \<and> console_step s ps s' ps'"
proof -
  obtain s1 where c1: "save_buffer s = Inr s1" using call by (auto simp: vga_scroll_down_def rbind_eq_Inr)
  note sv = save_buffer_room [OF ok c1]
  obtain s2 where c2: "(if arr_used (ram (kern s1)) (lines_arr s1) \<le> line_number s1 + vga_height then add_blank_line s1 else Inr s1) = Inr s2"
    "draw_buffer (s2\<lparr>line_number := line_number s2 + 1\<rparr>) = Inr s'"
    using call c1 by (simp add: vga_scroll_down_def rbind_eq_Inr) blast
  have r1: "room s1" using sv(2) small by simp
  have "\<exists>D' ps'. screen_ok s2 B D' ps' \<and> room s2 \<and> console_step s1 ps s2 ps'"
  proof (cases "arr_used (ram (kern s1)) (lines_arr s1) \<le> line_number s1 + vga_height")
    case True
    then have "add_blank_line s1 = Inr s2" using c2(1) by simp
    then show ?thesis using add_blank_line_step [OF sv(1) r1] by blast
  next
    case False
    then have "s2 = s1" using c2(1) by simp
    moreover have "kmem_inv (kern s1)" using lines_atD(1) [OF screen_okD(1) [OF sv(1)]] .
    ultimately show ?thesis using sv(1) r1 console_step_same [of s1 s1 ps] by blast
  qed
  then obtain D' ps' where r2: "screen_ok s2 B D' ps'" "room s2" "console_step s1 ps s2 ps'" by blast
  have same: "kern s' = kern s2" "lines_arr s' = lines_arr s2" using draw_buffer_keeps [OF c2(2)] by simp_all
  obtain D2 ps2 where fin: "screen_ok s' B D2 ps2" using scroll_down_ok [OF ok _ call] small by (auto simp: room_def)
  have "ps2 = ps'" using lines_unique screen_okD(1) [OF fin] screen_okD(1) [OF r2(1)] unfolding same by blast
  moreover have "console_step s ps s' ps'"
  proof -
    note save_buffer_step [OF ok c1]
    also note r2(3)
    also have "console_step s2 ps' s' ps'"
      using lines_atD(1) [OF screen_okD(1) [OF r2(1)]] same by (rule console_step_same)
    finally show ?thesis .
  qed
  moreover have "room s'" using r2(2) by (simp add: room_def same)
  ultimately show ?thesis using fin by blast
qed

lemma scroll_up_step:
  assumes ok: "screen_ok s B D ps" and small: "room s" and call: "vga_scroll_up s = Inr s'"
  shows "screen_ok s' B D ps" "room s'" "console_step s ps s' ps"
proof -
  have inv: "kmem_inv (kern s)" using lines_atD(1) [OF screen_okD(1) [OF ok]] .
  have "screen_ok s' B D ps \<and> room s' \<and> console_step s ps s' ps"
  proof (cases "line_number s = 0")
    case True
    then show ?thesis using call ok small console_step_same [OF inv, of s] by (simp add: vga_scroll_up_def)
  next
    case False
    obtain s1 where c: "save_buffer s = Inr s1" "draw_buffer (s1\<lparr>line_number := line_number s1 - 1\<rparr>) = Inr s'"
      using call False by (auto simp: vga_scroll_up_def rbind_eq_Inr)
    note sv = save_buffer_room [OF ok c(1)]
    have same: "kern s' = kern s1" "lines_arr s' = lines_arr s1" using draw_buffer_keeps [OF c(2)] by simp_all
    note save_buffer_step [OF ok c(1)]
    also have "console_step s1 ps s' ps"
      using lines_atD(1) [OF screen_okD(1) [OF sv(1)]] same by (rule console_step_same)
    finally have "console_step s ps s' ps" .
    moreover have "room s'" using sv(2) small by (simp add: room_def same)
    ultimately show ?thesis using scroll_up_ok [OF ok False] call by auto
  qed
  then show "screen_ok s' B D ps" "room s'" "console_step s ps s' ps" by simp_all
qed

text \<open>The lines that \<open>vga_dynamic_init\<close> allocates are new objects.\<close>

lemma for_each_result:
  assumes "for_each f [0..<n] s = Inr s'" "P 0 s"
    and "\<And>i s s'. i < n \<Longrightarrow> P i s \<Longrightarrow> f i s = Inr s' \<Longrightarrow> P (Suc i) s'"
  shows "P n s'"
proof -
  have "P (m + length xs) s'" if "for_each f xs s = Inr s'" "P m s" "xs = [m..<m + length xs]" "m + length xs \<le> n" for xs m s
    using that
  proof (induction xs arbitrary: m s)
    case (Cons x xs)
    have "[m..<m + length (x # xs)] = m # [Suc m..<m + length (x # xs)]" by (rule upt_conv_Cons) simp
    then have x: "x = m" "xs = [Suc m..<Suc m + length xs]" using Cons.prems(3) by (simp_all del: upt_Suc)
    obtain s1 where s1: "f x s = Inr s1" "for_each f xs s1 = Inr s'" using Cons.prems(1) by (auto simp: rbind_eq_Inr)
    have "P (Suc m) s1" using assms(3) [of m s s1] Cons.prems(2,4) s1(1) x(1) by simp
    from Cons.IH [OF s1(2) this x(2)] show ?case using Cons.prems(4) by simp
  qed simp
  from this [of "[0..<n]" s 0] assms(1,2) show ?thesis by simp
qed

lemma dynamic_init_static:
  assumes inv: "kmem_inv (kern s)" and call: "vga_dynamic_init s = Inr s'"
  shows "sealed (kstatic (kern s)) (ram (kern s)) (kern s')"
proof -
  let ?S = "kstatic (kern s)" and ?c = "ram (kern s)"
  obtain arr k0 where a: "array_create kmalloc ram_update (kern s) 25 = Inr (arr, k0)"
    using call by (auto simp: vga_dynamic_init_def rbind_eq_Inr vga_height_def)
  obtain B D0 where k0: "sealed ?S ?c k0" "arr \<noteq> 0" "array_in (ram k0) (kowns k0) arr B D0 []" "arr_size (ram k0) arr = 25"
    using sealed_heap.create_holds [OF sealed_self [OF inv] _ _ a] by auto
  let ?P = "\<lambda>i s'. lines_arr s' = arr \<and> sealed ?S ?c (kern s') \<and>
      (\<exists>D ps. lines_at (kern s') arr B D ps \<and> length ps = i) \<and> arr_size (ram (kern s')) arr = 25"
  let ?f = "\<lambda>_ s. rbind (kmalloc (kern s) (2 * vga_width)) (\<lambda>(line, k).
      rbind (array_add kmalloc kfree ram ram_update k (lines_arr s) line) (\<lambda>k. Inr (s\<lparr>kern := k\<rparr>)))"
  have loop: "for_each ?f [0..<25] (s\<lparr>lines_arr := arr, kern := k0\<rparr>) = Inr s'"
    using call a by (simp add: vga_dynamic_init_def vga_height_def)
  have "?P 25 s'"
  proof (rule for_each_result [OF loop])
    have "lines_at k0 arr B D0 []" using k0 array_inD(3) [OF k0(3)] by (simp add: lines_at_def sealed_def)
    then show "?P 0 (s\<lparr>lines_arr := arr, kern := k0\<rparr>)" using k0 by auto
  next
    fix i s1 s2 assume i: "i < 25" and P: "?P i s1" and step: "?f i s1 = Inr s2"
    obtain D ps where r: "lines_at (kern s1) arr B D ps" "length ps = i" using P by blast
    obtain p k1 where m: "kmalloc (kern s1) 160 = Inr (p, k1)"
      "array_add kmalloc kfree ram ram_update k1 arr p = Inr (kern s2)" and s2: "s2 = s1\<lparr>kern := kern s2\<rparr>"
      using step P by (auto simp: rbind_eq_Inr vga_width_def)
    obtain Q where Q: "lines_at k1 arr B D ps" "(p, Q) \<in> kowns k1" "span p 160 \<subseteq> Q" "p \<noteq> 0" "p \<noteq> arr"
      "p \<noteq> arr_data (ram k1) arr" "p \<notin> set ps" "arr_size (ram k1) arr = 25"
      using fresh_line [OF r(1) m(1)] P by auto
    have seal: "sealed ?S ?c k1" using sealed_heap.malloc_fresh [OF _ _ m(1)] P by simp
    have small: "unat (arr_size (ram k1) arr) * 8 < 2 ^ 32" by (simp add: Q(8))
    have "\<exists>D'. lines_at (kern s2) arr B D' (ps @ [p]) \<and> arr_size (ram (kern s2)) arr = 25"
      using lines_add [OF Q(1-7) small m(2)] r(2) i Q(8) by auto
    moreover have "sealed ?S ?c (kern s2)"
      using sealed_heap.add_holds [OF seal lines_atD(3) [OF Q(1)] small, of p] m(2) by auto
    moreover have "lines_arr s2 = arr" using P by (subst s2) simp
    ultimately show "?P (Suc i) s2" using r(2) by fastforce
  qed
  then show ?thesis by simp
qed

end
