(* ===== verification/KernelRun.thy ===== *)
theory KernelRun
  imports KernelLog ConsoleMem
begin

text \<open>
  The running kernel: the invariant that joins the console, the scheduler, the heap and the
  interrupt table, and that every interrupt and everything a thread does preserves it.
\<close>

section \<open>The console\<close>

definition con_ok :: "vga \<Rightarrow> addr set \<Rightarrow> addr set \<Rightarrow> addr list \<Rightarrow> bool" where
  "con_ok s B D ps \<longleftrightarrow> screen_ok s B D ps \<and> room s \<and> cursor_ok s"

lemma con_okD:
  assumes "con_ok s B D ps"
  shows "screen_ok s B D ps" "room s" "cursor_ok s" "kmem_inv (kern s)"
proof -
  show ok: "screen_ok s B D ps" "room s" "cursor_ok s" using assms by (simp_all add: con_ok_def)
  show "kmem_inv (kern s)" by (rule lines_atD(1) [OF screen_okD(1) [OF ok(1)]])
qed

text \<open>A change of the screen, the cursor and the ports only.\<close>

lemma con_ok_screen:
  assumes "con_ok s B D ps" "cursor_ok s'" "kern s' = kern s" "lines_arr s' = lines_arr s" "line_number s' = line_number s"
  shows "con_ok s' B D ps" "console_step s ps s' ps"
  using assms console_step_same [OF con_okD(4)] by (auto simp: con_ok_def screen_ok_def room_def cursor_ok_def)

lemma scroll_down_con:
  assumes "con_ok s B D ps" "vga_scroll_down s = Inr s'"
  shows "\<exists>D' ps'. con_ok s' B D' ps' \<and> console_step s ps s' ps'"
proof -
  note s = con_okD [OF assms(1)]
  have "cursor_ok s'" using scroll_keeps_cursor [OF assms(2)] s(3) by (simp add: cursor_of_def cursor_ok_def)
  then show ?thesis using scroll_down_step [OF s(1,2) assms(2)] by (auto simp: con_ok_def)
qed

lemma scroll_up_con:
  assumes "con_ok s B D ps" "vga_scroll_up s = Inr s'"
  shows "con_ok s' B D ps" "console_step s ps s' ps"
proof -
  note s = con_okD [OF assms(1)]
  have "cursor_ok s'" using scroll_up_keeps_cursor [OF assms(2)] s(3) by (simp add: cursor_of_def cursor_ok_def)
  then show "con_ok s' B D ps" "console_step s ps s' ps"
    using scroll_up_step [OF s(1,2) assms(2)] by (simp_all add: con_ok_def)
qed

lemma putc_con:
  assumes ok: "con_ok s B D ps" and call: "vga_putc c s = Inr s'"
  shows "\<exists>D' ps'. con_ok s' B D' ps' \<and> console_step s ps s' ps'"
proof -
  note s = con_okD [OF ok]
  have cur: "cur_x s < 80" "cur_y s < 25" "length (buf s) = 2000" using s(3) by (simp_all add: cursor_ok_def)
  have cur': "cursor_ok s'" using putc_cursor [OF s(3) call] by simp
  let ?b = "if c = 10 then blank_rest (color_char s 32) (unat (cur_y s)) (unat (cur_x s)) (buf s)
      else (buf s)[unat (cur_y s) * 80 + unat (cur_x s) := color_char s (if c = 9 then 32 else c)]"
  have b: "length ?b = 2000" using cur(3) by (simp add: blank_rest_def)
  have ref: "put_ref c s = Inr s'" using putc_ref [OF cur] call by simp
  show ?thesis
  proof (cases "(c \<noteq> 10 \<and> cur_x s < 79) \<or> cur_y s < 24")
    case True
    then have "kern s' = kern s \<and> lines_arr s' = lines_arr s \<and> line_number s' = line_number s"
      using ref by (auto simp: put_ref_def Let_def split: if_splits)
    then show ?thesis using con_ok_screen [OF ok cur'] by blast
  next
    case False
    define s0 where "s0 = s\<lparr>buf := ?b, cur_x := 0\<rparr>"
    obtain s1 where s1: "vga_scroll_down s0 = Inr s1" and s': "s' = s1\<lparr>ports := ports s1 @ cursor_ports (cur_y s1 * 80 + cur_x s1)\<rparr>"
      using ref False by (auto simp: put_ref_def Let_def s0_def rbind_eq_Inr split: if_splits)
    have "cursor_ok s0" using cur b by (simp add: s0_def cursor_ok_def)
    note o0 = con_ok_screen [OF ok this, unfolded s0_def, simplified, folded s0_def]
    obtain D' ps' where o1: "con_ok s1 B D' ps'" "console_step s0 ps s1 ps'" using scroll_down_con [OF _ s1] o0(1) by blast
    have "cursor_ok s'" using cur' .
    note o2 = con_ok_screen [OF o1(1) this, unfolded s', simplified]
    show ?thesis using console_step_trans [OF console_step_trans [OF o0(2) o1(2)]] o2 unfolding s' by blast
  qed
qed

lemma print_con:
  assumes "con_ok s B D ps" "vga_print chars s = Inr s'"
  shows "\<exists>D' ps'. con_ok s' B D' ps' \<and> console_step s ps s' ps'"
  using assms
proof (induction chars arbitrary: s D ps)
  case Nil
  then show ?case using con_ok_screen [OF Nil(1), of s'] con_okD(3) [OF Nil(1)] by (auto simp: vga_print_def)
next
  case (Cons c chars)
  obtain s1 where s1: "vga_putc c s = Inr s1" "vga_print chars s1 = Inr s'"
    using Cons.prems(2) by (auto simp: vga_print_def rbind_eq_Inr)
  obtain D1 ps1 where o1: "con_ok s1 B D1 ps1" "console_step s ps s1 ps1" using putc_con [OF Cons.prems(1) s1(1)] by blast
  from Cons.IH [OF o1(1) s1(2)] show ?case using console_step_trans [OF o1(2)] by blast
qed

section \<open>The invariant of the kernel\<close>

text \<open>The handlers of a running kernel, at the addresses of the functions that were registered.\<close>

definition installed :: "linkage \<Rightarrow> addr list" where
  "installed l = (replicate 256 0)[14 := page_fault_at l, 32 := switch_at l, 33 := keyboard_at l, 255 := switch_at l]"

definition linked :: "linkage \<Rightarrow> bool" where
  "linked l \<longleftrightarrow> switch_at l \<noteq> 0 \<and> keyboard_at l \<noteq> 0 \<and> switch_at l \<noteq> keyboard_at l"

definition kernel_ok :: "linkage \<Rightarrow> kernel \<Rightarrow> addr set \<Rightarrow> addr set \<Rightarrow> addr list \<Rightarrow> addr list \<Rightarrow> nat \<Rightarrow> bool" where
  "kernel_ok l K B D ps ts i \<longleftrightarrow>
     con_ok (con K) B D ps \<and> sched_ok (tasks_at l) (sched_of K) ts i \<and> console_objs (con K) ps \<inter> set ts = {} \<and>
     kbd_state K \<in> {0, 1} \<and> handlers (ints K) = installed l"

lemma sched_of_simps [simp]:
  "mm (sched_of K) = kern (con K)" "current (sched_of K) = cur_task K" "vectors (sched_of K) = ints K"
  "io_log (sched_of K) = ports (con K)"
  by (simp_all add: sched_of_def)

lemma sched_of_with [simp]: "sched_of (with_sched s K) = s"
  by (simp add: sched_of_def with_sched_def)

lemma with_sched_simps [simp]:
  "con (with_sched s K) = (con K)\<lparr>kern := mm s, ports := io_log s\<rparr>" "ints (with_sched s K) = vectors s"
  "kbd_state (with_sched s K) = kbd_state K" "cur_task (with_sched s K) = current s"
  "int_flag (with_sched s K) = int_flag K" "STACK_START (with_sched s K) = STACK_START K"
  by (simp_all add: with_sched_def)

lemma kernel_okD:
  assumes "kernel_ok l K B D ps ts i"
  shows "con_ok (con K) B D ps" "sched_ok (tasks_at l) (sched_of K) ts i" "console_objs (con K) ps \<inter> set ts = {}"
    "kbd_state K \<in> {0, 1}" "handlers (ints K) = installed l" "tasks_ok (tasks_at l) (kern (con K)) ts"
  using assms by (simp_all add: kernel_ok_def sched_ok_def)

lemma tasks_owned:
  assumes "tasks_ok h k ts" "t \<in> set ts"
  shows "\<exists>C. (t, C) \<in> kowns k"
proof -
  have "queue_ok PAGE_SIZE (ram k) (kowns k) (kstatic k) h ts" using assms(1) by (simp add: tasks_ok_def)
  then show ?thesis using queue_okD(4) assms(2) by blast
qed

lemma console_owned:
  assumes "screen_ok s B D ps" "q \<in> console_objs s ps"
  shows "\<exists>C. (q, C) \<in> kowns (kern s)"
proof -
  note d = lines_atD [OF screen_okD(1) [OF assms(1)]]
  show ?thesis using assms(2) d(8) array_inD(1,2) [OF d(3)] unfolding console_objs_def by blast
qed

text \<open>A step of the console does not touch the tasks.\<close>

lemma con_step_kernel:
  assumes ok: "kernel_ok l K B D ps ts i" and c: "con_ok c B D' ps'" "console_step (con K) ps c ps'" and st: "st \<in> {0, 1}"
  shows "kernel_ok l (K\<lparr>con := c, kbd_state := st, int_flag := f\<rparr>) B D' ps' ts i"
proof -
  note k = kernel_okD [OF ok]
  have "evolves (kern (con K)) (kern c) (console_objs (con K) ps)" using c(2) by (simp add: console_step_def)
  from evolves_tasks(1) [OF this k(6,3)] have "tasks_ok (tasks_at l) (kern c) ts" .
  moreover have "console_objs c ps' \<inter> set ts = {}"
  proof (rule ccontr)
    assume "console_objs c ps' \<inter> set ts \<noteq> {}"
    then obtain t where t: "t \<in> console_objs c ps'" "t \<in> set ts" by blast
    obtain C where "(t, C) \<in> kowns (kern (con K))" using tasks_owned [OF k(6) t(2)] by blast
    then have "t \<in> console_objs (con K) ps" using c(2) t(1) unfolding console_step_def by blast
    then show False using t(2) k(3) by blast
  qed
  ultimately show ?thesis using k(2,5) c(1) st by (simp add: kernel_ok_def sched_ok_def)
qed

text \<open>A change of objects that are not the console's.\<close>

lemma con_kept:
  assumes ok: "con_ok s B D ps" and inv: "kmem_inv k"
    and kept: "others_kept (ram (kern s)) (kowns (kern s)) (ram k) (kowns k) T" "console_objs s ps \<inter> T = {}"
  shows "con_ok (s\<lparr>kern := k, ports := t\<rparr>) B D ps" "console_objs (s\<lparr>kern := k, ports := t\<rparr>) ps = console_objs s ps"
proof -
  note c = con_okD [OF ok]
  have "T \<inter> insert (lines_arr s) (insert (arr_data (ram (kern s)) (lines_arr s)) (set ps)) = {}"
    using kept(2) by (auto simp: console_objs_def)
  note l = lines_kept [OF screen_okD(1) [OF c(1)] inv kept(1) this]
  show "con_ok (s\<lparr>kern := k, ports := t\<rparr>) B D ps"
    using l(1,3) c(1-3) by (simp add: con_ok_def screen_ok_def room_def cursor_ok_def)
  show "console_objs (s\<lparr>kern := k, ports := t\<rparr>) ps = console_objs s ps" using l(4) by (simp add: console_objs_def)
qed

text \<open>A step of the scheduler does not touch the console.\<close>

lemma sched_step_kernel:
  assumes ok: "kernel_ok l K B D ps ts i" and s: "sched_ok (tasks_at l) s ts' j" "sched_frame (kern (con K)) ts (mm s) ts'"
    and h: "handlers (vectors s) = installed l"
  shows "kernel_ok l (with_sched s K) B D ps ts' j"
proof -
  note k = kernel_okD [OF ok]
  note c = con_okD [OF k(1)]
  have inv: "kmem_inv (mm s)" using s(1) by (simp add: sched_ok_def tasks_ok_def)
  have kept: "others_kept (ram (kern (con K))) (kowns (kern (con K))) (ram (mm s)) (kowns (mm s)) (set ts)"
    using s(2) by (simp add: sched_frame_def)
  note c' = con_kept [OF k(1) inv kept k(3)]
  have "console_objs (con K) ps \<inter> set ts' = {}"
  proof (rule ccontr)
    assume "console_objs (con K) ps \<inter> set ts' \<noteq> {}"
    then obtain t where t: "t \<in> console_objs (con K) ps" "t \<in> set ts'" by blast
    obtain C where "(t, C) \<in> kowns (kern (con K))" using console_owned [OF c(1) t(1)] by blast
    then have "t \<in> set ts" using s(2) t(2) unfolding sched_frame_def by blast
    then show False using t(1) k(3) by blast
  qed
  then show ?thesis using s(1) k(4) h c' by (simp add: kernel_ok_def)
qed

section \<open>Interrupts\<close>

lemma installed_nth:
  assumes "n < 256"
  shows "installed l ! n = (if n = 32 \<or> n = 255 then switch_at l else if n = 33 then keyboard_at l
    else if n = 14 then page_fault_at l else 0)" "length (installed l) = 256"
  using assms by (simp_all add: installed_def nth_list_update)

lemma call_installed:
  assumes "handlers v = installed l" "n < 256"
  shows "call_handler v (of_nat n) = Inr (if installed l ! n \<noteq> 0 then Called (installed l ! n) else Unexpected (of_nat n))"
proof -
  have "unat (of_nat n :: u32) = n" using assms(2) by (simp add: unat_of_nat)
  then show ?thesis using assms installed_nth(2) [OF assms(2)] by (simp add: call_handler_def)
qed

lemma irq_dispatch:
  assumes "handlers v = installed l" "n < 16" "linked l"
  obtains t' where "irq_handler dev v (r\<lparr>int_num := of_nat (32 + n), err_code := 0\<rparr>) t =
      (Inr (if n = 0 then Called (switch_at l) else if n = 1 then Called (keyboard_at l)
            else if n = 7 \<and> dev (t @ [Outb 0x20 0x0B]) 0x20 AND 0x80 \<noteq> 0 then Ignored else Unexpected (of_nat (32 + n))), t @ t')"
    "n = 1 \<longrightarrow> t' = [Outb 0x20 0x20]"
proof -
  let ?r = "r\<lparr>int_num := of_nat (32 + n), err_code := 0\<rparr>"
  have n: "32 + n < 256" using assms(2) by simp
  have u: "unat (of_nat (32 + n) :: u32) = 32 + n" using assms(2) by (simp only: unat_of_nat) simp
  have i7: "int_num ?r = IRQ7 \<longleftrightarrow> n = 7" using u by (simp only: IRQ7_def word_unat_eq_iff) simp
  have slave: "\<not> int_num ?r \<ge> ucast PIC_SLAVE_START_OFFSET" if "n = 1"
    using that by (simp add: PIC_SLAVE_START_OFFSET_def)
  have nz: "switch_at l \<noteq> 0" "keyboard_at l \<noteq> 0" using assms(3) by (simp_all add: linked_def)
  have call: "call_handler v (int_num ?r) = Inr (if n = 0 then Called (switch_at l)
      else if n = 1 then Called (keyboard_at l) else Unexpected (of_nat (32 + n)))"
    using call_installed [OF assms(1) n] installed_nth(1) [OF n, of l] nz assms(2) by auto
  have eoi: "\<exists>t'. irq_eoi v ?r t = (call_handler v (int_num ?r), t @ t') \<and> (n = 1 \<longrightarrow> t' = [Outb 0x20 0x20])" for t
    using slave by (auto simp: irq_eoi_def Let_def outb_def PIC_MASTER_COMMAND_def PIC_EOI_def)
  show thesis
  proof (cases "n = 7")
    case False
    obtain t' where "irq_eoi v ?r t = (call_handler v (int_num ?r), t @ t')" "n = 1 \<longrightarrow> t' = [Outb 0x20 0x20]"
      using eoi by blast
    then show thesis using that [of t'] False i7 call by (simp add: irq_handler_def)
  next
    case True
    let ?t = "t @ [Outb 0x20 0x0B, Inb 0x20 (dev (t @ [Outb 0x20 0x0B]) 0x20)]"
    obtain t' where t': "irq_eoi v ?r ?t = (call_handler v (int_num ?r), ?t @ t')" using eoi by blast
    show thesis
      using that [of "[Outb 0x20 0x0B, Inb 0x20 (dev (t @ [Outb 0x20 0x0B]) 0x20)]"]
        that [of "[Outb 0x20 0x0B, Inb 0x20 (dev (t @ [Outb 0x20 0x0B]) 0x20)] @ t'"] True i7 call t'
      by (cases "dev (t @ [Outb 0x20 0x0B]) 0x20 AND 0x80 \<noteq> 0")
        (auto simp: irq_handler_def Let_def outb_def inb_def PIC_MASTER_COMMAND_def)
  qed
qed


lemma ports_kernel:
  assumes "kernel_ok l K B D ps ts i"
  shows "kernel_ok l (K\<lparr>con := (con K)\<lparr>ports := t\<rparr>\<rparr>) B D ps ts i"
proof -
  note k = kernel_okD [OF assms]
  have "cursor_ok ((con K)\<lparr>ports := t\<rparr>)" using con_okD(3) [OF k(1)] by (simp add: cursor_ok_def)
  note c = con_ok_screen [OF k(1) this, simplified]
  have "K\<lparr>con := (con K)\<lparr>ports := t\<rparr>\<rparr> = K\<lparr>con := (con K)\<lparr>ports := t\<rparr>, kbd_state := kbd_state K, int_flag := int_flag K\<rparr>" by simp
  then show ?thesis using con_step_kernel [OF assms c k(4)] by metis
qed

lemma switch_kernel:
  assumes ok: "kernel_ok l K B D ps ts i" and ip: "ip \<noteq> DUMMY_EIP"
  shows "\<exists>c s j. task_switch (tasks_at l) ip sp bp (sched_of K) = Inr (c, s) \<and> kernel_ok l (with_sched s K) B D ps ts j"
proof -
  note k = kernel_okD [OF ok]
  show ?thesis
  proof (rule task_switch_rr [OF k(2) ip, of sp bp])
    fix s c xs j
    assume s: "task_switch (tasks_at l) ip sp bp (sched_of K) = Inr (c, s)" "sched_ok (tasks_at l) s ts j"
      "vectors s = vectors (sched_of K)" "evolves (mm (sched_of K)) (mm s) (set ts)"
    have "sched_frame (kern (con K)) ts (mm s) ts" using sched_frame_same [OF s(4)] by simp
    from sched_step_kernel [OF ok s(2) this] show ?thesis using s(1,3) k(5) by auto
  qed
qed

lemma show_key_con:
  assumes "con_ok s B D ps" "show_key name s = Inr s'" "fitting name"
  shows "con_ok s' B D ps" "console_step s ps s' ps"
proof -
  note c = con_okD(3) [OF assms(1)]
  have "s\<lparr>ports := ports s\<rparr> = s" by simp
  then obtain t where s': "s' = s\<lparr>buf := with_name s name, ports := t\<rparr>"
    using show_key_shows [OF c assms(3), of "ports s"] assms(2) by auto
  have "cursor_ok s'" using c by (simp add: s' cursor_ok_def with_name_def)
  from con_ok_screen [OF assms(1) this] show "con_ok s' B D ps" "console_step s ps s' ps" by (simp_all add: s')
qed

lemma keyboard_kernel:
  assumes ok: "kernel_ok l K B D ps ts i" and run: "keyboard_irq_handler dev (kbd_state K) (con K) = Inr (st, c)"
  shows "\<exists>D' ps'. kernel_ok l (K\<lparr>kbd_state := st, con := c\<rparr>) B D' ps' ts i"
proof -
  note k = kernel_okD [OF ok]
  define b where "b = dev (ports (con K)) KBD_PORT"
  define s where "s = (con K)\<lparr>ports := ports (con K) @ [Inb KBD_PORT b]\<rparr>"
  note cases = handler_cases [of dev "con K" b "kbd_state K", OF b_def [symmetric], unfolded Let_def, folded s_def]
  have "cursor_ok s" using con_okD(3) [OF k(1)] by (simp add: s_def cursor_ok_def)
  from con_ok_screen [OF k(1) this]
  have s: "con_ok s B D ps" "console_step (con K) ps s ps" by (simp_all add: s_def)
  have c: "\<exists>D' ps'. con_ok c B D' ps' \<and> console_step s ps c ps'" "st \<in> {0, 1}"
  proof -
    consider "c = s" | name where "fitting name" "show_key name s = Inr c"
      | "vga_scroll_down s = Inr c" | "vga_scroll_up s = Inr c"
      using run to_string_fits escaped_fits unfolding cases by (auto simp: rbind_eq_Inr split: if_splits)
    then show "\<exists>D' ps'. con_ok c B D' ps' \<and> console_step s ps c ps'"
      using s(1) console_step_same [OF con_okD(4) [OF s(1)]] show_key_con [OF s(1)] scroll_down_con [OF s(1)] scroll_up_con [OF s(1)]
      by cases blast+
    show "st \<in> {0, 1}" using run k(4) unfolding cases by (auto simp: rbind_eq_Inr split: if_splits)
  qed
  then obtain D' ps' where c': "con_ok c B D' ps'" "console_step s ps c ps'" by blast
  from con_step_kernel [OF ok c'(1) console_step_trans [OF s(2) c'(2)] c(2), of "int_flag K"]
  have "kernel_ok l (K\<lparr>con := c, kbd_state := st, int_flag := int_flag K\<rparr>) B D' ps' ts i" .
  moreover have "K\<lparr>con := c, kbd_state := st, int_flag := int_flag K\<rparr> = K\<lparr>kbd_state := st, con := c\<rparr>" by simp
  ultimately show ?thesis by metis
qed

text \<open>An interrupt request. Only the keyboard's can fail, on a byte after the prefix.\<close>

lemma irq_kernel:
  assumes ok: "kernel_ok l K B D ps ts i" and l: "linked l" and n: "n < 16" and ip: "ip \<noteq> DUMMY_EIP"
  shows "case irq_setup l dev (ip, sp, bp) r n K of
      Inl e \<Rightarrow> n = 1 \<and> kbd_state K = 1 \<and> dev (ports (con K) @ [Outb 0x20 0x20]) 0x60 \<noteq> 0xE0
    | Inr (c, K') \<Rightarrow> \<exists>D' ps' j. kernel_ok l K' B D' ps' ts j"
proof -
  note k = kernel_okD [OF ok]
  let ?d = "if n = 0 then Called (switch_at l) else if n = 1 then Called (keyboard_at l)
    else if n = 7 \<and> dev (ports (con K) @ [Outb 0x20 0x0B]) 0x20 AND 0x80 \<noteq> 0 then Ignored else Unexpected (of_nat (32 + n))"
  obtain t' where t': "irq_handler dev (ints K) (r\<lparr>int_num := of_nat (32 + n), err_code := 0\<rparr>) (ports (con K)) = (Inr ?d, ports (con K) @ t')"
    "n = 1 \<longrightarrow> t' = [Outb 0x20 0x20]"
    by (rule irq_dispatch [OF k(5) n l, of dev r "ports (con K)"])
  define K1 where "K1 = K\<lparr>con := (con K)\<lparr>ports := ports (con K) @ t'\<rparr>\<rparr>"
  have ok1: "kernel_ok l K1 B D ps ts i" using ports_kernel [OF ok] by (simp add: K1_def)
  have run: "irq_setup l dev (ip, sp, bp) r n K = after_dispatch l dev (ip, sp, bp) ?d K1"
    using t'(1) by (simp add: irq_setup_def Let_def K1_def)
  have ne: "keyboard_at l \<noteq> switch_at l" using l by (auto simp: linked_def)
  consider "n = 0" | "n = 1" | "1 < n" by linarith
  then show ?thesis
  proof cases
    case 1
    obtain c s j where "task_switch (tasks_at l) ip sp bp (sched_of K1) = Inr (c, s)" "kernel_ok l (with_sched s K1) B D ps ts j"
      using switch_kernel [OF ok1 ip] by blast
    moreover from this(1) have "irq_setup l dev (ip, sp, bp) r n K = Inr (c, with_sched s K1)"
      unfolding run using 1 by (simp add: after_dispatch_def run_handler_def)
    ultimately show ?thesis by auto
  next
    case 2
    have key: "irq_setup l dev (ip, sp, bp) r n K =
      rbind (keyboard_irq_handler dev (kbd_state K1) (con K1)) (\<lambda>(st, c). Inr (Return, K1\<lparr>kbd_state := st, con := c\<rparr>))"
      unfolding run using 2 ne by (simp add: after_dispatch_def run_handler_def)
    have "cursor_ok (con K1)" using con_okD(3) [OF kernel_okD(1) [OF ok1]] .
    note states = keyboard_states [OF this kernel_okD(4) [OF ok1], of dev]
    show ?thesis
    proof (cases "keyboard_irq_handler dev (kbd_state K1) (con K1)")
      case (Inl e)
      then show ?thesis unfolding key using states 2 t'(2) by (simp add: K1_def)
    next
      case (Inr q)
      obtain st c where q: "q = (st, c)" by (cases q)
      then show ?thesis unfolding key using keyboard_kernel [OF ok1, of dev st c] Inr by auto
    qed
  next
    case 3
    then have "irq_setup l dev (ip, sp, bp) r n K = Inr (Return, K1)"
      unfolding run by (simp add: after_dispatch_def)
    then show ?thesis using ok1 by auto
  qed
qed

section \<open>Threads\<close>

lemma clock_kernel:
  assumes ok: "kernel_ok l K B D ps ts i" and run: "thread_task dev K = Inr K'"
  shows "\<exists>D' ps'. kernel_ok l K' B D' ps' ts i"
proof -
  note k = kernel_okD [OF ok]
  let ?s = "con K"
  have s: "cursor_ok ?s" "cur_x ?s < 80" "cur_y ?s < 25" using con_okD(3) [OF k(1)] by (simp_all add: cursor_ok_def)
  obtain s1 s2 where c12: "vga_set_x 70 ?s = Inr s1" "vga_set_y 0 s1 = Inr s2"
    using run by (auto simp: thread_task_def Let_def rbind_eq_Inr)
  obtain q t where q: "rtc_print dev (ports s2) = (q, t)" by (cases "rtc_print dev (ports s2)")
  obtain bytes s3 s4 s5 where
    c: "vga_print bytes (s2\<lparr>ports := t\<rparr>) = Inr s3" "vga_set_x (cur_x ?s) s3 = Inr s4" "vga_set_y (cur_y ?s) s4 = Inr s5"
      "K' = K\<lparr>con := s5, int_flag := True\<rparr>"
    using run c12 q by (auto simp: thread_task_def Let_def rbind_eq_Inr putchar_eq vga_get_x_def vga_get_y_def)
  have x1: "s1 = ?s\<lparr>cur_x := 70, ports := ports s1\<rparr>" using c12(1) set_cursor_eq(1) [OF s(1), of 70] by auto
  have k1: "cursor_ok s1" by (subst x1) (use s in \<open>simp add: cursor_ok_def\<close>)
  have x2: "s2 = s1\<lparr>cur_y := 0, ports := ports s2\<rparr>" using c12(2) set_cursor_eq(2) [OF k1, of 0] by auto
  have "cursor_ok (s2\<lparr>ports := t\<rparr>)" by (subst x2) (use k1 in \<open>simp add: cursor_ok_def\<close>)
  moreover have "kern s2 = kern ?s" "lines_arr s2 = lines_arr ?s" "line_number s2 = line_number ?s"
    by (subst x2, simp, subst x1, simp)+
  ultimately have o2: "con_ok (s2\<lparr>ports := t\<rparr>) B D ps" "console_step ?s ps (s2\<lparr>ports := t\<rparr>) ps"
    using con_ok_screen [OF k(1), of "s2\<lparr>ports := t\<rparr>"] by simp_all
  obtain D' ps' where o3: "con_ok s3 B D' ps'" "console_step (s2\<lparr>ports := t\<rparr>) ps s3 ps'" using print_con [OF o2(1) c(1)] by blast
  note k3 = con_okD(3) [OF o3(1)]
  have x4: "s4 = s3\<lparr>cur_x := cur_x ?s, ports := ports s4\<rparr>"
    using c(2) set_cursor_eq(1) [OF k3, of "cur_x ?s"] by (auto split: if_splits)
  have k4: "cursor_ok s4" by (subst x4) (use k3 s in \<open>simp add: cursor_ok_def\<close>)
  have x5: "s5 = s4\<lparr>cur_y := cur_y ?s, ports := ports s5\<rparr>"
    using c(3) set_cursor_eq(2) [OF k4, of "cur_y ?s"] by (auto split: if_splits)
  have "cursor_ok s5" by (subst x5) (use k4 s in \<open>simp add: cursor_ok_def\<close>)
  moreover have "kern s5 = kern s3" "lines_arr s5 = lines_arr s3" "line_number s5 = line_number s3"
    by (subst x5, simp, subst x4, simp)+
  ultimately have o5: "con_ok s5 B D' ps'" "console_step s3 ps' s5 ps'" using con_ok_screen [OF o3(1)] by blast+
  have "K' = K\<lparr>con := s5, kbd_state := kbd_state K, int_flag := True\<rparr>" by (simp add: c(4))
  then show ?thesis
    using con_step_kernel [OF ok o5(1) console_step_trans [OF console_step_trans [OF o2(2) o3(2)] o5(2)] k(4)] by metis
qed

lemma print_color_con:
  assumes "con_ok s B D ps" "vga_print_color col chars s = Inr s'"
  shows "\<exists>D' ps'. con_ok s' B D' ps' \<and> console_step s ps s' ps'"
proof -
  let ?s = "s\<lparr>color := make_color col COLOR_BLACK\<rparr>"
  obtain s1 where s1: "vga_print chars ?s = Inr s1" "s' = s1\<lparr>color := color s\<rparr>"
    using assms(2) by (auto simp: vga_print_color_def Let_def rbind_eq_Inr)
  have "cursor_ok ?s" using con_okD(3) [OF assms(1)] by (simp add: cursor_ok_def)
  note c0 = con_ok_screen [OF assms(1) this, simplified]
  obtain D' ps' where c1: "con_ok s1 B D' ps'" "console_step ?s ps s1 ps'" using print_con [OF c0(1) s1(1)] by blast
  have "cursor_ok s'" using con_okD(3) [OF c1(1)] by (simp add: s1(2) cursor_ok_def)
  from con_ok_screen [OF c1(1) this] have "con_ok s' B D' ps'" "console_step s1 ps' s' ps'" by (simp_all add: s1(2))
  then show ?thesis using console_step_trans [OF console_step_trans [OF c0(2) c1(2)]] by blast
qed

lemma log_kernel:
  assumes ok: "kernel_ok l K B D ps ts i" and run: "KLOG strings level col format args K = Inr K'"
  shows "\<exists>D' ps'. kernel_ok l K' B D' ps' ts i"
proof -
  note k = kernel_okD [OF ok]
  obtain s1 s2 s3 out n s4 where c: "vga_print (str ''['') (con K) = Inr s1" "vga_print_color col (str level) s1 = Inr s2"
    "vga_print (str ''] '') s2 = Inr s3" "vga_print out s3 = Inr s4" "K' = K\<lparr>con := s4, int_flag := True\<rparr>"
    using run by (auto simp: KLOG_def Let_def rbind_eq_Inr console_printf_eq)
  obtain D1 p1 where o1: "con_ok s1 B D1 p1" "console_step (con K) ps s1 p1" using print_con [OF k(1) c(1)] by blast
  obtain D2 p2 where o2: "con_ok s2 B D2 p2" "console_step s1 p1 s2 p2" using print_color_con [OF o1(1) c(2)] by blast
  obtain D3 p3 where o3: "con_ok s3 B D3 p3" "console_step s2 p2 s3 p3" using print_con [OF o2(1) c(3)] by blast
  obtain D4 p4 where o4: "con_ok s4 B D4 p4" "console_step s3 p3 s4 p4" using print_con [OF o3(1) c(4)] by blast
  have "K' = K\<lparr>con := s4, kbd_state := kbd_state K, int_flag := True\<rparr>" by (simp add: c(5))
  then show ?thesis
    using con_step_kernel [OF ok o4(1) console_step_trans [OF console_step_trans [OF console_step_trans [OF o1(2) o2(2)] o3(2)] o4(2)] k(4)]
    by metis
qed

lemma yield_kernel:
  assumes ok: "kernel_ok l K B D ps ts i" and l: "linked l" and ip: "ip \<noteq> DUMMY_EIP"
  shows "\<exists>c K' j. kernel_yield l dev (ip, sp, bp) r K = Inr (c, K') \<and> kernel_ok l K' B D ps ts j"
proof -
  note k = kernel_okD [OF ok]
  let ?s = "(sched_of K)\<lparr>mm := store (cur_task K + 20) 0 (kern (con K))\<rparr>"
  define K1 where "K1 = (with_sched ?s K)\<lparr>int_flag := True\<rparr>"
  have t: "i < length ts" "cur_task K = ts ! i" using k(2) by (simp_all add: sched_ok_def)
  then have mem: "cur_task K \<in> set ts" by simp
  have list: "list_at (ram (kern (con K))) (tasks_at l) next_task ts" using k(6) queue_okD(1) by (auto simp: tasks_ok_def)
  then have nz: "cur_task K \<noteq> 0" using list_at_nonzero mem by metis
  note z = clear_ticks [OF k(2), simplified]
  have "kernel_ok l (with_sched ?s K) B D ps ts i"
    using sched_step_kernel [OF ok, of ?s ts i] z sched_frame_same k(5) by auto
  then have ok1: "kernel_ok l K1 B D ps ts i" by (simp add: K1_def kernel_ok_def sched_of_def)
  obtain c s j where s: "task_switch (tasks_at l) ip sp bp (sched_of K1) = Inr (c, s)" "kernel_ok l (with_sched s K1) B D ps ts j"
    using switch_kernel [OF ok1 ip] by blast
  have h: "handlers (ints K1) = installed l" using ok1 by (simp add: kernel_ok_def)
  have nsw: "switch_at l \<noteq> 0" using l by (simp add: linked_def)
  have "call_handler (ints K1) 255 = Inr (Called (switch_at l))"
    using call_installed [OF h, of 255] installed_nth(1) [of 255 l] nsw by simp
  then have "idt_setup l dev (ip, sp, bp) r 255 K1 = Inr (c, with_sched s K1)"
    using s(1) by (simp add: idt_setup_def idt_handler_def after_dispatch_def run_handler_def)
  then show ?thesis using s(2) nz by (auto simp: kernel_yield_def Let_def K1_def [symmetric])
qed

section \<open>The invariant is kept\<close>

lemma kernel_step_ok:
  assumes step: "kernel_step l dev K K'" and ok: "kernel_ok l K B D ps ts i" and l: "linked l"
  shows "\<exists>D' ps' ts' j. kernel_ok l K' B D' ps' ts' j \<and> set ts \<subseteq> set ts'"
proof (rule kernel_stepE [OF step])
  fix n ip sp bp r c
  assume "n < 16" "ip \<noteq> DUMMY_EIP" "irq_setup l dev (ip, sp, bp) r n K = Inr (c, K')"
  then show ?thesis using irq_kernel [OF ok l, of n ip dev sp bp r] by auto
next
  assume "thread_task dev K = Inr K'"
  then show ?thesis using clock_kernel [OF ok] by blast
next
  fix ip sp bp r c
  assume "ip \<noteq> DUMMY_EIP" "kernel_yield l dev (ip, sp, bp) r K = Inr (c, K')"
  then show ?thesis using yield_kernel [OF ok l, of ip dev sp bp r] by auto
next
  fix strings level col format args
  assume "KLOG strings level col format args K = Inr K'"
  then show ?thesis using log_kernel [OF ok] by blast
next
  fix s
  assume s: "K' = with_sched s K" "sched_step (tasks_at l) (sched_of K) s"
  note k = kernel_okD [OF ok]
  obtain ts' j where t: "sched_ok (tasks_at l) s ts' j" "sched_frame (kern (con K)) ts (mm s) ts'" "vectors s = ints K"
    using sched_step_ok [OF s(2) k(2)] by auto
  have "handlers (vectors s) = installed l" using t(3) k(5) by simp
  from sched_step_kernel [OF ok t(1,2) this] show ?thesis
    using t(2) unfolding s(1) sched_frame_def by blast
qed

text \<open>
  C2: whatever happens in a running kernel, interrupts of every line in any order, the clock
  thread, yielding, log messages that scroll the screen, new threads, allocations and writes to
  memory of one's own, the console, the scheduler and the heap stay consistent together: the
  cursor is on the screen, the lines that scrolled off are in their array, the current task is
  in the list of tasks, no task is lost, and none of the scheduler's objects is one of the console's.
\<close>

theorem kernel_invariant:
  assumes "kernel_ok l K B D ps ts i" "linked l" "(kernel_step l dev)\<^sup>*\<^sup>* K K'"
  shows "\<exists>D' ps' ts' j. kernel_ok l K' B D' ps' ts' j \<and> set ts \<subseteq> set ts' \<and> cursor_ok (con K') \<and>
    cur_task K' \<in> set ts' \<and> list_at (ram (kern (con K'))) (tasks_at l) next_task ts' \<and> kmem_inv (kern (con K'))"
proof -
  have "\<exists>D' ps' ts' j. kernel_ok l K' B D' ps' ts' j \<and> set ts \<subseteq> set ts'"
    using assms(3)
  proof (induction rule: rtranclp_induct)
    case base
    then show ?case using assms(1) by blast
  next
    case (step y z)
    then obtain D1 p1 t1 j where y: "kernel_ok l y B D1 p1 t1 j" "set ts \<subseteq> set t1" by blast
    from kernel_step_ok [OF step(2) y(1) assms(2)] show ?case using y(2) by blast
  qed
  then obtain D' ps' ts' j where ok: "kernel_ok l K' B D' ps' ts' j" "set ts \<subseteq> set ts'" by blast
  note k = kernel_okD [OF ok(1)]
  have "cur_task K' \<in> set ts'" using k(2) by (simp add: sched_ok_def)
  moreover have "list_at (ram (kern (con K'))) (tasks_at l) next_task ts'"
    using k(6) queue_okD(1) by (auto simp: tasks_ok_def)
  ultimately show ?thesis using ok con_okD(3,4) [OF k(1)] by blast
qed

text \<open>
  C14: in a running kernel an interrupt request of any line is handled and leaves the kernel
  running, whatever the task it interrupts. The exception is the keyboard's, on a byte after the
  prefix: an unlisted escaped key, or a scroll for which there is no memory.
\<close>

theorem kernel_interrupts:
  assumes "kernel_ok l K B D ps ts i" "linked l" "n < 16" "ip \<noteq> DUMMY_EIP"
  shows "case irq_setup l dev (ip, sp, bp) r n K of
      Inl e \<Rightarrow> n = 1 \<and> kbd_state K = 1 \<and> dev (ports (con K) @ [Outb 0x20 0x20]) 0x60 \<noteq> 0xE0
    | Inr (c, K') \<Rightarrow> \<exists>D' ps' j. kernel_ok l K' B D' ps' ts j"
  using assms by (rule irq_kernel)

end
