(* ===== verification/KernelBoot.thy ===== *)
theory KernelBoot
  imports KernelRun
begin

text \<open>
  The start of the kernel: what \<open>kernel_init\<close> leaves on the screen, in the tables and in the heap,
  with and without usable memory in the boot loader's map, and that \<open>kernel_main\<close> then reaches
  the invariant of the running kernel with two tasks. At the end, the properties of the running
  kernel are applied to a kernel started on a concrete memory map.
\<close>

section \<open>The log on a blank screen\<close>

lemma fold_fill: "m \<le> length b \<Longrightarrow> fold (\<lambda>i b. b[i := v]) [0..<m] b = replicate m v @ drop m b"
proof (induction m)
  case (Suc m)
  then have "drop m b = b ! m # drop (Suc m) b" by (simp add: Cons_nth_drop_Suc)
  with Suc show ?case by (simp add: list_update_append replicate_append_same)
qed simp

definition blank_screen :: "u16 list" where
  "blank_screen = replicate 2000 0x0720"

lemma vga_init_eq:
  assumes "length (buf s) = 2000"
  shows "vga_init s = s\<lparr>cur_x := 0, cur_y := 0, color := 7, buf := blank_screen\<rparr>"
proof -
  have "make_color COLOR_LIGHT_GREY COLOR_BLACK = 7" by code_simp
  moreover have "color_char (s\<lparr>cur_x := 0, cur_y := 0, color := 7\<rparr>) 32 = 0x0720"
    unfolding color_char_cell by simp
  ultimately show ?thesis using assms fold_fill [of 2000 "buf s" "0x0720"]
    by (simp add: vga_init_def Let_def blank_screen_def)
qed

text \<open>A message that is printed as it is, and its row.\<close>

definition plain_message :: "string \<Rightarrow> bool" where
  "plain_message m \<longleftrightarrow> length m \<le> 71 \<and> list_all (\<lambda>c. c \<noteq> 9 \<and> c \<noteq> 10 \<and> c \<noteq> 37) (str m)"

definition info_line :: "string \<Rightarrow> u16 list" where
  "info_line m = log_line 7 COLOR_GREEN ''INFO'' (str m)"

definition info_screen :: "string list \<Rightarrow> u16 list" where
  "info_screen ms = text_at 0 (concat (map info_line ms)) blank_screen"

definition console_shows :: "vga \<Rightarrow> string list \<Rightarrow> bool" where
  "console_shows c ms \<longleftrightarrow> cur_x c = 0 \<and> cur_y c = of_nat (length ms) \<and> color c = 7 \<and> buf c = info_screen ms"

lemma length_info_line: "plain_message m \<Longrightarrow> length (info_line m) = 80"
  unfolding info_line_def by (rule length_log_line) (simp add: plain_message_def)

lemma length_info_lines: "list_all plain_message ms \<Longrightarrow> length (concat (map info_line ms)) = 80 * length ms"
  by (induction ms) (simp_all add: length_info_line)

lemma print_message:
  assumes "plain_message m"
  shows "\<exists>n. printf strings (str m @ [10]) [] = Inr (str m @ [10], n)"
proof -
  have "ch CHR ''%'' \<notin> set (str m @ [10])" using assms by (auto simp: plain_message_def list_all_iff ch_values)
  from print_plain [OF this, of strings "[]" "[]"] show ?thesis by (simp add: printf_def print.simps)
qed

lemma kinfo_shows:
  assumes "console_shows (con K) ms" "list_all plain_message ms" "length ms < 24" "plain_message m"
  shows "\<exists>c. KINFO m [] K = Inr (K\<lparr>con := c, int_flag := True\<rparr>) \<and> console_shows c (ms @ [m]) \<and>
    kern c = kern (con K) \<and> lines_arr c = lines_arr (con K) \<and> line_number c = line_number (con K)"
proof -
  have c: "cur_x (con K) = 0" "cur_y (con K) = of_nat (length ms)" "color (con K) = 7" "buf (con K) = info_screen ms"
    using assms(1) by (simp_all add: console_shows_def)
  have y: "unat (of_nat (length ms) :: u32) = length ms" using assms(3) by (simp add: unat_of_nat)
  obtain n where n: "printf (\<lambda>_. []) (str m @ [10]) [] = Inr (str m @ [10], n)" using print_message [OF assms(4)] by blast
  have lits: "str ''INFO'' = [73, 78, 70, 79]" by code_simp
  have "list_all (\<lambda>c. c \<noteq> 9 \<and> c \<noteq> 10) (str ''INFO'' @ str m)" "length ''INFO'' + length (str m) \<le> 76"
    using assms(4) by (auto simp: plain_message_def lits list_all_iff)
  moreover have "cur_y (con K) < 24" "length (buf (con K)) = 2000"
    using y assms(3) by (simp_all add: word_less_nat_alt c info_screen_def)
  ultimately obtain t where t: "KLOG (\<lambda>_. []) ''INFO'' COLOR_GREEN m [] K =
      Inr (K\<lparr>con := (con K)\<lparr>buf := text_at (length ms * 80) (info_line m) (info_screen ms),
        cur_y := of_nat (length ms) + 1, ports := t\<rparr>, int_flag := True\<rparr>)"
    using klog_line [OF c(1) _ _ n, of "''INFO''" COLOR_GREEN] unfolding c y info_line_def by blast
  have "text_at (length ms * 80) (info_line m) (info_screen ms) = info_screen (ms @ [m])"
    using text_at_append [of 0 "concat (map info_line ms)" "info_line m" blank_screen]
    by (simp add: info_screen_def length_info_lines [OF assms(2)] mult.commute)
  then show ?thesis
    using t c by (intro exI [of _ "(con K)\<lparr>buf := text_at (length ms * 80) (info_line m) (info_screen ms),
        cur_y := of_nat (length ms) + 1, ports := t\<rparr>"])
      (simp add: KINFO_def LOG_LEVEL_def console_shows_def add.commute)
qed

lemma no_message_eq: "no_message K = Inr K"
  by (simp add: no_message_def console_printf_eq printf_def print.simps vga_print_def)

lemma quiet_levels: "KTRACE format args K = Inr K" "KDEBUG format args K = Inr K"
  by (simp_all add: KTRACE_def KDEBUG_def LOG_LEVEL_def LEVEL_INFO_def LEVEL_TRACE_def LEVEL_DEBUG_def no_message_eq)

lemma kpanic_stops:
  assumes "console_shows (con K) ms" "length ms < 24" "plain_message m"
  shows "KPANIC m [] K = Inl (Panic m)"
proof -
  have c: "cur_x (con K) = 0" "cur_y (con K) = of_nat (length ms)" "buf (con K) = info_screen ms"
    using assms(1) by (simp_all add: console_shows_def)
  obtain n where n: "printf (\<lambda>_. []) (str m @ [10]) [] = Inr (str m @ [10], n)" using print_message [OF assms(3)] by blast
  have lits: "str ''PANIC'' = [80, 65, 78, 73, 67]" by code_simp
  have "list_all (\<lambda>c. c \<noteq> 9 \<and> c \<noteq> 10) (str ''PANIC'' @ str m)" "length m \<le> 71"
    using assms(3) by (auto simp: plain_message_def lits list_all_iff)
  moreover have "cur_y (con K) < 24" "length (buf (con K)) = 2000"
    using assms(2) by (simp_all add: word_less_nat_alt c info_screen_def unat_of_nat)
  ultimately show ?thesis using klog_line [OF c(1) _ _ n, of "''PANIC''" COLOR_RED] by (auto simp: KPANIC_def)
qed

section \<open>kernel_init\<close>

definition init_messages :: "string list" where
  "init_messages =
     [''Virtual Memory (Paging) Initialized...'', ''Video Graphics Array (VGA) Initialized...'',
      ''Global Descriptor Table (GDT) Initialized...'', ''Interrupt Descriptor Table (IDT) Initialized...'',
      ''System Timer (PIT) Initialized...'']"

definition heap_message :: string where
  "heap_message = ''Memory Heap and Allocators (kmalloc & kfree) Initialized...''"

lemma messages_plain: "list_all plain_message (init_messages @ [heap_message])"
  "plain_message ''Failed to detect physical memory (RAM)!!!''" "length init_messages = 5"
  by code_simp+

text \<open>The interrupt tables that \<open>idt_init\<close> and \<open>timer_init\<close> make.\<close>

definition boot_vectors :: "linkage \<Rightarrow> idt \<Rightarrow> idt" where
  "boot_vectors l v = timer_init (timer_at l) (fst (idt_init (idt_at l) (isr_at l) (irq_at l) (page_fault_at l) v []))"

lemma idt_init_fst: "fst (idt_init table isr irq pf v t) = fst (idt_init table isr irq pf v [])"
  by (simp add: idt_init_def Let_def)

lemma boot_handlers: "handlers (boot_vectors l v) = (replicate 256 0)[14 := page_fault_at l, 32 := timer_at l]"
  by (simp add: boot_vectors_def timer_init_def idt_init_def exceptions_init_def register_interrupt_handler_def
      IDT_MAX_ENTRIES_def IRQ0_def Let_def)

lemma mem_init_boot: "mem_init bootstrap_page_directory k = kboot (ram k)"
  by (simp add: kboot_def mem_init_def memheap_init_def alloc_init_def Let_def)

text \<open>Up to the look for memory.\<close>

lemma init_tables:
  assumes "length (buf (con K)) = 2000" "gdt_init (gdt_at l) (segs K) = Inr g"
  shows "\<exists>c. console_shows c init_messages \<and> kern c = kern (con K) \<and> line_number c = line_number (con K) \<and>
    (let K' = K\<lparr>STACK_START := sp, con := c, segs := g, ints := boot_vectors l (ints K), int_flag := True\<rparr>
     in kernel_init l directory info sp K =
       rbind (multiboot_RAM (ram (kern c)) info (PHYSICAL_MEMORY_START K) (PHYSICAL_MEMORY_END K)) (\<lambda>(found, start, stop).
         let K = K'\<lparr>PHYSICAL_MEMORY_START := start, PHYSICAL_MEMORY_END := stop\<rparr>
         in rbind (if found then Inr K else KPANIC ''Failed to detect physical memory (RAM)!!!'' [] K) (\<lambda>K.
            rbind (KINFO heap_message [] (K\<lparr>con := (con K)\<lparr>kern := mem_init directory (kern (con K))\<rparr>\<rparr>)) (\<lambda>K.
            rbind (vga_dynamic_init (con K)) (\<lambda>c. Inr (K\<lparr>con := c\<rparr>))))))"
proof -
  define m1 m2 m3 m4 m5 where m: "m1 = ''Virtual Memory (Paging) Initialized...''" "m2 = ''Video Graphics Array (VGA) Initialized...''"
    "m3 = ''Global Descriptor Table (GDT) Initialized...''" "m4 = ''Interrupt Descriptor Table (IDT) Initialized...''"
    "m5 = ''System Timer (PIT) Initialized...''"
  have ms: "init_messages = [m1, m2, m3, m4, m5]" by (simp add: init_messages_def m)
  then have plain: "plain_message m1" "plain_message m2" "plain_message m3" "plain_message m4" "plain_message m5"
    using messages_plain(1) unfolding ms by simp_all
  define K0 where "K0 = K\<lparr>STACK_START := sp, con := vga_init (con K)\<rparr>"
  have k0: "console_shows (con K0) []" "kern (con K0) = kern (con K)" "line_number (con K0) = line_number (con K)"
    by (simp_all add: K0_def vga_init_eq [OF assms(1)] console_shows_def info_screen_def text_at_Nil blank_screen_def)
  obtain c1 where c1: "KINFO m1 [] K0 = Inr (K0\<lparr>con := c1, int_flag := True\<rparr>)" "console_shows c1 [m1]"
    "kern c1 = kern (con K)" "line_number c1 = line_number (con K)"
    using kinfo_shows [OF k0(1)] plain k0(2,3) by auto
  define K1 where "K1 = K0\<lparr>con := c1, int_flag := True\<rparr>"
  obtain c2 where c2: "KINFO m2 [] K1 = Inr (K1\<lparr>con := c2, int_flag := True\<rparr>)" "console_shows c2 [m1, m2]"
    "kern c2 = kern (con K)" "line_number c2 = line_number (con K)"
    using kinfo_shows [of K1 "[m1]" m2] plain c1(2-4) by (auto simp: K1_def)
  define K2 where "K2 = K1\<lparr>con := c2, int_flag := True, segs := g\<rparr>"
  obtain c3 where c3: "KINFO m3 [] K2 = Inr (K2\<lparr>con := c3, int_flag := True\<rparr>)" "console_shows c3 [m1, m2, m3]"
    "kern c3 = kern (con K)" "line_number c3 = line_number (con K)"
    using kinfo_shows [of K2 "[m1, m2]" m3] plain c2(2-4) by (auto simp: K2_def)
  obtain v t where vt: "idt_init (idt_at l) (isr_at l) (irq_at l) (page_fault_at l) (ints K) (ports c3) = (v, t)"
    by (cases "idt_init (idt_at l) (isr_at l) (irq_at l) (page_fault_at l) (ints K) (ports c3)")
  have v: "timer_init (timer_at l) v = boot_vectors l (ints K)"
    using idt_init_fst [of "idt_at l" "isr_at l" "irq_at l" "page_fault_at l" "ints K" "ports c3"] by (simp add: boot_vectors_def vt)
  define K3 where "K3 = K2\<lparr>con := c3\<lparr>ports := t\<rparr>, int_flag := True, ints := v\<rparr>"
  obtain c4 where c4: "KINFO m4 [] K3 = Inr (K3\<lparr>con := c4, int_flag := True\<rparr>)" "console_shows c4 [m1, m2, m3, m4]"
    "kern c4 = kern (con K)" "line_number c4 = line_number (con K)"
    using kinfo_shows [of K3 "[m1, m2, m3]" m4] plain c3(2-4) by (auto simp: K3_def console_shows_def)
  define K4 where "K4 = K3\<lparr>con := c4, int_flag := True, ints := boot_vectors l (ints K)\<rparr>"
  obtain c5 where c5: "KINFO m5 [] K4 = Inr (K4\<lparr>con := c5, int_flag := True\<rparr>)" "console_shows c5 [m1, m2, m3, m4, m5]"
    "kern c5 = kern (con K)" "line_number c5 = line_number (con K)"
    using kinfo_shows [of K4 "[m1, m2, m3, m4]" m5] plain c4(2-4) by (auto simp: K4_def)
  have [simp]: "segs K1 = segs K" "ints K2 = ints K" "ints K3 = v"
    "PHYSICAL_MEMORY_START K4 = PHYSICAL_MEMORY_START K" "PHYSICAL_MEMORY_END K4 = PHYSICAL_MEMORY_END K"
    by (simp_all add: K0_def K1_def K2_def K3_def K4_def)
  have K2': "K1\<lparr>con := c2, int_flag := True, segs := g\<rparr> = K2" "K2\<lparr>int_flag := True, ints := v, con := c3\<lparr>ports := t\<rparr>\<rparr> = K3"
    "K3\<lparr>con := c4, int_flag := True, ints := boot_vectors l (ints K)\<rparr> = K4"
    by (simp_all add: K2_def K3_def K4_def)
  have run: "rbind (KTRACE ''Stack Start: %x'' [sp] K0) f = f K0" "rbind (KINFO m1 [] K0) f = f K1"
    "rbind (KINFO m2 [] K1) f = f (K1\<lparr>con := c2, int_flag := True\<rparr>)" "rbind (KINFO m3 [] K2) f = f (K2\<lparr>con := c3, int_flag := True\<rparr>)"
    "rbind (KINFO m4 [] K3) f = f (K3\<lparr>con := c4, int_flag := True\<rparr>)" "rbind (KINFO m5 [] K4) f = f (K4\<lparr>con := c5, int_flag := True\<rparr>)"
    for f :: "kernel \<Rightarrow> kernel res"
    using c1(1) c2(1) c3(1) c4(1) c5(1) by (simp_all add: quiet_levels K1_def)
  have eq: "kernel_init l directory info sp K =
      rbind (multiboot_RAM (ram (kern c5)) info (PHYSICAL_MEMORY_START K) (PHYSICAL_MEMORY_END K)) (\<lambda>(found, start, stop).
         let K = (K4\<lparr>con := c5, int_flag := True\<rparr>)\<lparr>PHYSICAL_MEMORY_START := start, PHYSICAL_MEMORY_END := stop\<rparr>
         in rbind (if found then Inr K else KPANIC ''Failed to detect physical memory (RAM)!!!'' [] K) (\<lambda>K.
            rbind (KINFO heap_message [] (K\<lparr>con := (con K)\<lparr>kern := mem_init directory (kern (con K))\<rparr>\<rparr>)) (\<lambda>K.
            rbind (vga_dynamic_init (con K)) (\<lambda>c. Inr (K\<lparr>con := c\<rparr>)))))"
    unfolding kernel_init_def heap_message_def m [symmetric] Let_def
    by (simp add: run quiet_levels assms(2) vt v K2' K0_def [symmetric] del: kernel.update_convs)
  have k4: "K4\<lparr>con := c5, int_flag := True\<rparr> =
      K\<lparr>STACK_START := sp, con := c5, segs := g, ints := boot_vectors l (ints K), int_flag := True\<rparr>"
    by (simp add: K0_def K1_def K2_def K3_def K4_def)
  show ?thesis
    using c5(2-4) eq unfolding k4 ms [symmetric] Let_def by (intro exI [of _ c5] conjI)
qed

text \<open>The rest of the start, with memory.\<close>

definition up :: "linkage \<Rightarrow> kernel \<Rightarrow> u32 \<Rightarrow> u32 \<Rightarrow> u32 \<Rightarrow> gdt \<Rightarrow> vga \<Rightarrow> kernel" where
  "up l K sp start stop g c =
     K\<lparr>STACK_START := sp, con := c, segs := g, ints := boot_vectors l (ints K), int_flag := True,
       PHYSICAL_MEMORY_START := start, PHYSICAL_MEMORY_END := stop\<rparr>"

lemma kernel_init_up:
  assumes b: "length (buf (con K)) = 2000" "line_number (con K) = 0" and g: "gdt_init (gdt_at l) (segs K) = Inr g"
    and mem: "multiboot_RAM (ram (kern (con K))) info (PHYSICAL_MEMORY_START K) (PHYSICAL_MEMORY_END K) = Inr (True, start, stop)"
  shows "\<exists>c B D ps j. kernel_init l bootstrap_page_directory info sp K = Inr (up l K sp start stop g c) \<and>
    console_shows c (init_messages @ [heap_message]) \<and> con_ok c B D ps \<and> length ps = 25 \<and> line_number c = 0 \<and>
    running j (kern c) \<and> j \<le> 27 \<and>
    sealed (kstatic (kboot (ram (kern (con K))))) (ram (kern (con K))) (kern c)"
proof -
  let ?m = "ram (kern (con K))"
  obtain c5 where c5: "console_shows c5 init_messages" "kern c5 = kern (con K)" "line_number c5 = line_number (con K)"
    and run: "kernel_init l bootstrap_page_directory info sp K =
      rbind (KINFO heap_message [] ((up l K sp start stop g c5)\<lparr>con := c5\<lparr>kern := kboot ?m\<rparr>\<rparr>)) (\<lambda>K.
        rbind (vga_dynamic_init (con K)) (\<lambda>c. Inr (K\<lparr>con := c\<rparr>)))"
    using init_tables [OF b(1) g, of sp bootstrap_page_directory info] by (auto simp: Let_def mem mem_init_boot up_def)
  define K1 where "K1 = (up l K sp start stop g c5)\<lparr>con := c5\<lparr>kern := kboot ?m\<rparr>\<rparr>"
  have "console_shows (con K1) init_messages" using c5(1) by (simp add: K1_def console_shows_def)
  from kinfo_shows [OF this _ _, of heap_message] obtain c6 where
    c6: "KINFO heap_message [] K1 = Inr (K1\<lparr>con := c6, int_flag := True\<rparr>)" "console_shows c6 (init_messages @ [heap_message])"
      "kern c6 = kboot ?m" "line_number c6 = 0"
    using messages_plain b(2) c5(3) by (auto simp: K1_def)
  have r: "running 0 (kern c6)" using kboot_running by (simp add: c6(3))
  have len: "length (buf c6) = 2000" using c6(2) by (simp add: console_shows_def info_screen_def)
  obtain c B D ps j where c: "vga_dynamic_init c6 = Inr c" "screen_ok c B D ps" "length ps = 25"
    "arr_size (ram (kern c)) (lines_arr c) = 25" "c = c6\<lparr>lines_arr := lines_arr c, kern := kern c\<rparr>" "running j (kern c)" "j \<le> 27"
    using dynamic_init_ok [OF r _ len c6(4)] by auto
  have same: "cur_x c = cur_x c6" "cur_y c = cur_y c6" "color c = color c6" "buf c = buf c6" "line_number c = 0"
    by (subst c(5), simp add: c6(4))+
  then have logged: "console_shows c (init_messages @ [heap_message])" using c6(2) by (simp add: console_shows_def)
  have "cursor_ok c"
    using logged messages_plain(3) by (simp add: console_shows_def cursor_ok_def info_screen_def)
  then have "con_ok c B D ps" using c(2,4) by (simp add: con_ok_def room_def)
  moreover have "sealed (kstatic (kboot ?m)) ?m (kern c)"
  proof -
    have "kmem_inv (kern c6)" using r by (simp add: running_def)
    from dynamic_init_static [OF this c(1)] show ?thesis by (simp add: c6(3) kboot_fields)
  qed
  moreover have "kernel_init l bootstrap_page_directory info sp K = Inr (up l K sp start stop g c)"
    using c6(1) c(1) unfolding run K1_def [symmetric] by (simp add: K1_def up_def)
  ultimately show ?thesis using logged c(3,6,7) same(5)
    by (intro exI [of _ c] exI [of _ B] exI [of _ D] exI [of _ ps] exI [of _ j]) simp
qed

text \<open>
  C28: \<open>kernel_init\<close>, on the kernel image's zeroed variables, blanks the screen and logs six messages
  in its first rows; it builds the flat segments and the interrupt tables, with handlers for page
  faults and the timer only; it takes the last usable region of the boot loader's map as the
  memory, brings the heap up, and builds the console's array of 25 lines. When the map has no
  usable region it panics, before the heap exists.
\<close>

theorem kernel_init_correct:
  assumes "length (buf (con K)) = 2000" "line_number (con K) = 0" "length (gdt_entries (segs K)) = 3"
    and "multiboot_RAM (ram (kern (con K))) info (PHYSICAL_MEMORY_START K) (PHYSICAL_MEMORY_END K) = Inr (found, start, stop)"
  shows "if found then
      \<exists>K' B D ps. kernel_init l bootstrap_page_directory info sp K = Inr K' \<and>
        console_shows (con K') (init_messages @ [heap_message]) \<and> con_ok (con K') B D ps \<and> length ps = 25 \<and>
        gdt_init (gdt_at l) (segs K) = Inr (segs K') \<and>
        handlers (ints K') = (replicate 256 0)[14 := page_fault_at l, 32 := timer_at l] \<and> int_flag K' \<and>
        STACK_START K' = sp \<and> PHYSICAL_MEMORY_START K' = start \<and> PHYSICAL_MEMORY_END K' = stop
    else kernel_init l bootstrap_page_directory info sp K = Inl (Panic ''Failed to detect physical memory (RAM)!!!'')"
proof -
  obtain g where g: "gdt_init (gdt_at l) (segs K) = Inr g" using gdt_init_flat [OF assms(3)] by blast
  show ?thesis
  proof (cases found)
    case True
    then have mem: "multiboot_RAM (ram (kern (con K))) info (PHYSICAL_MEMORY_START K) (PHYSICAL_MEMORY_END K) = Inr (True, start, stop)"
      using assms(4) by simp
    obtain c B D ps where c: "kernel_init l bootstrap_page_directory info sp K = Inr (up l K sp start stop g c)"
      "console_shows c (init_messages @ [heap_message])" "con_ok c B D ps" "length ps = 25"
      using kernel_init_up [OF assms(1,2) g mem, of sp] by blast
    then show ?thesis using True g
      by (intro if_P [THEN iffD2, OF True] exI [of _ "up l K sp start stop g c"] exI [of _ B] exI [of _ D] exI [of _ ps])
        (simp add: up_def boot_handlers)
  next
    case False
    obtain c5 where c5: "console_shows c5 init_messages" "kern c5 = kern (con K)"
      and run: "kernel_init l bootstrap_page_directory info sp K =
        rbind (KPANIC ''Failed to detect physical memory (RAM)!!!'' [] (up l K sp start stop g c5)) (\<lambda>K.
          rbind (KINFO heap_message [] (K\<lparr>con := (con K)\<lparr>kern := mem_init bootstrap_page_directory (kern (con K))\<rparr>\<rparr>)) (\<lambda>K.
          rbind (vga_dynamic_init (con K)) (\<lambda>c. Inr (K\<lparr>con := c\<rparr>))))"
      using init_tables [OF assms(1) g, of sp bootstrap_page_directory info] assms(4) False by (auto simp: Let_def up_def)
    have "console_shows (con (up l K sp start stop g c5)) init_messages" using c5(1) by (simp add: up_def)
    from kpanic_stops [OF this _ messages_plain(2)] show ?thesis using False run messages_plain(3) by simp
  qed
qed

section \<open>kernel_main\<close>

definition main_messages :: "string list" where
  "main_messages = [''Initializing Multitasking...'', ''Keyboard Initialized...'', ''Kernel Fully Initialized!'']"

lemma main_messages_plain: "list_all plain_message main_messages"
  by code_simp

lemma installed_handlers:
  "((replicate 256 0)[14 := page_fault_at l, 32 := timer_at l])[32 := switch_at l, 255 := switch_at l, 33 := keyboard_at l] = installed l"
  by (rule nth_equalityI) (simp_all add: installed_def nth_list_update)

lemma console_shows_same:
  assumes "console_shows c ms" "cur_x c' = cur_x c" "cur_y c' = cur_y c" "color c' = color c" "buf c' = buf c"
  shows "console_shows c' ms"
  using assms by (simp add: console_shows_def)

lemma shows_cursor: "console_shows c ms \<Longrightarrow> length ms < 25 \<Longrightarrow> cursor_ok c"
  by (simp add: console_shows_def cursor_ok_def info_screen_def word_less_nat_alt unat_of_nat)

text \<open>The two tasks, beside the console.\<close>

lemma two_tasks:
  assumes con: "con_ok c B D ps" and mm: "mm s0 = kern c" and run: "running j (kern c)" "j < 1018"
    and static: "\<forall>a. unat a div 4194304 \<in> {768, 769} \<longrightarrow> a \<in> kstatic (kern c)"
    and stack: "unat S = unat sp + 4 * q" "4 * q \<le> 4194304" "unat S \<le> 0xC0400000"
    and list: "unat h div 4194304 = 768" "unat h mod 4194304 \<le> 4194300" "load32 (ram (kern c)) h = 0"
    and csp: "0xC0400000 \<le> csp" "(unat csp - unat (0xC0400000 :: u32)) mod 4 = 0"
  obtains t child v s s2 where "task_init h handler S sp old_esp old_ebp s0 = Inr s"
    "thread_create (\<lambda>_. Inl NoReturn) csp ip sp' bp s = Inr s2" "sched_ok h s2 [t, child] 0"
    "vectors s2 = (vectors s0)\<lparr>handlers := (handlers (vectors s0))[32 := handler, 255 := handler]\<rparr>"
    "vectors s2 = vectors s" "io_log s2 = io_log s" "con_ok (c\<lparr>kern := mm s2, ports := io_log s\<rparr>) B D ps"
    "console_objs (c\<lparr>kern := mm s2, ports := io_log s\<rparr>) ps \<inter> {t, child} = {}"
    "task_at (ram (mm s2)) child = \<lparr>t_eip = ip, t_esp = v - 0xC0400000 + sp', t_ebp = v - 0xC0400000 + bp,
      t_stack_start = v, t_id = 1, t_ticks = 0\<rparr>"
proof -
  have pre: "kmem_inv (mm s0)" "after_boot j (pages (mm s0))" "j < 1021"
    "\<forall>a. unat a div 4194304 \<in> {768, 769} \<longrightarrow> a \<in> kstatic (mm s0)" "load32 (ram (mm s0)) h = 0"
    using run static list(3) by (simp_all add: mm running_def)
  obtain t s n where s: "task_init h handler S sp old_esp old_ebp s0 = Inr s" "sched_ok h s [t] 0"
    "tasks_of (mm s) [t] = [\<lparr>t_eip = 0, t_esp = 0, t_ebp = 0, t_stack_start = 0xC0400000, t_id = 0, t_ticks = 50\<rparr>]"
    "after_boot n (pages (mm s))" "n \<le> Suc j"
    "vectors s = (vectors s0)\<lparr>handlers := (handlers (vectors s0))[32 := handler, 255 := handler]\<rparr>"
    "others_kept (ram (kern c)) (kowns (kern c)) (ram (mm s)) (kowns (mm s)) {t}"
    "\<forall>p C. (p, C) \<in> kowns (kern c) \<longrightarrow> p \<noteq> t"
    using task_init_started [OF pre(1-4) stack list(1,2) pre(5), of handler old_esp old_ebp] by (auto simp: mm)
  have cur: "current s = t" "kmem_inv (mm s)" using s(2) by (simp_all add: sched_ok_def tasks_ok_def)
  have "t \<notin> console_objs c ps" using console_owned [OF con_okD(1) [OF con]] s(8) by blast
  then have apart: "console_objs c ps \<inter> {t} = {}" by simp
  note o2 = con_kept [OF con cur(2) s(7) apart, of "io_log s"]
  have task: "task_at (ram (mm s)) t = \<lparr>t_eip = 0, t_esp = 0, t_ebp = 0, t_stack_start = 0xC0400000, t_id = 0, t_ticks = 50\<rparr>"
    using s(3) by (simp add: tasks_of_def)
  then have start: "0xC0400000 = t_stack_start (task_at (ram (mm s)) (current s))" by (simp add: cur(1))
  have "n < 1020" using s(5) run(2) by simp
  from thread_create_total [OF s(2) cur(2) s(4) this start csp, of "\<lambda>_. Inl NoReturn" ip sp' bp]
  obtain child v s2 where s2: "thread_create (\<lambda>_. Inl NoReturn) csp ip sp' bp s = Inr s2"
    "sched_ok h s2 [t, child] 0" "evolves (mm s) (mm s2) {t}" "s2 = s\<lparr>mm := mm s2\<rparr>"
    "\<forall>p C. (p, C) \<in> kowns (mm s) \<longrightarrow> p \<noteq> child"
    "task_at (ram (mm s2)) child = \<lparr>t_eip = ip, t_esp = v - 0xC0400000 + sp', t_ebp = v - 0xC0400000 + bp,
      t_stack_start = v, t_id = 1, t_ticks = 0\<rparr>"
    using task cur(1) by (auto simp: tasks_of_def)
  have same: "vectors s2 = vectors s" "io_log s2 = io_log s"
    using arg_cong [OF s2(4), of vectors] arg_cong [OF s2(4), of io_log] by simp_all
  have ev: "kmem_inv (mm s2)" "others_kept (ram (mm s)) (kowns (mm s)) (ram (mm s2)) (kowns (mm s2)) {t}"
    using s2(3) by (simp_all add: evolves_def)
  have "child \<notin> console_objs c ps" using console_owned [OF con_okD(1) [OF o2(1)]] s2(5) o2(2) by fastforce
  then have "console_objs (c\<lparr>kern := mm s2, ports := io_log s\<rparr>) ps \<inter> {t, child} = {}"
    "con_ok (c\<lparr>kern := mm s2, ports := io_log s\<rparr>) B D ps"
    using con_kept [OF o2(1) ev(1), of "{t}" "io_log s"] ev(2) o2(2) apart by simp_all
  then show thesis using that [OF s(1) s2(1,2)] s(6) same s2(6) by simp
qed

lemma kernel_main_runs:
  assumes shown: "console_shows (con K) ms" "list_all plain_message ms" "length ms \<le> 20"
    and con: "con_ok (con K) B D ps" and run: "running j (kern (con K))" "j < 1018"
    and static: "\<forall>a. unat a div 4194304 \<in> {768, 769} \<longrightarrow> a \<in> kstatic (kern (con K))"
    and stack: "unat (STACK_START K) = unat sp + 4 * q" "4 * q \<le> 4194304" "unat (STACK_START K) \<le> 0xC0400000"
    and list: "unat (tasks_at l) div 4194304 = 768" "unat (tasks_at l) mod 4194304 \<le> 4194300"
      "load32 (ram (kern (con K))) (tasks_at l) = 0"
    and csp: "0xC0400000 \<le> csp" "(unat csp - unat (0xC0400000 :: u32)) mod 4 = 0"
    and st: "kbd_state K \<in> {0, 1}"
    and h: "handlers (ints K) = (replicate 256 0)[14 := page_fault_at l, 32 := timer_at l]"
  shows "\<exists>K' t child v. kernel_main l sp old_esp old_ebp csp ip sp' bp K = Inr K' \<and> kernel_ok l K' B D ps [t, child] 0 \<and>
    console_shows (con K') (ms @ main_messages) \<and> int_flag K' \<and> cur_task K' = t \<and> kbd_state K' = kbd_state K \<and>
    task_at (ram (kern (con K'))) child = \<lparr>t_eip = ip, t_esp = v - 0xC0400000 + sp', t_ebp = v - 0xC0400000 + bp,
      t_stack_start = v, t_id = 1, t_ticks = 0\<rparr>"
proof -
  define m1 m2 m3 where m: "m1 = ''Initializing Multitasking...''" "m2 = ''Keyboard Initialized...''" "m3 = ''Kernel Fully Initialized!''"
  have main: "main_messages = [m1, m2, m3]" by (simp add: main_messages_def m)
  have plain: "plain_message m1" "plain_message m2" "plain_message m3"
    using main_messages_plain unfolding main by simp_all
  obtain c1 where c1: "KINFO m1 [] K = Inr (K\<lparr>con := c1, int_flag := True\<rparr>)" "console_shows c1 (ms @ [m1])"
    "kern c1 = kern (con K)" "lines_arr c1 = lines_arr (con K)" "line_number c1 = line_number (con K)"
    using kinfo_shows [OF shown(1,2) _ plain(1)] shown(3) by auto
  define K1 where "K1 = K\<lparr>con := c1, int_flag := True\<rparr>"
  have "cursor_ok c1" using shows_cursor [OF c1(2)] shown(3) by simp
  from con_ok_screen(1) [OF con this c1(3-5)] have o1: "con_ok c1 B D ps" .
  have mm1: "mm (sched_of K1) = kern c1" by (simp add: K1_def)
  obtain t child v s s2 where s: "task_init (tasks_at l) (switch_at l) (STACK_START K) sp old_esp old_ebp (sched_of K1) = Inr s"
    and s2: "thread_create (\<lambda>_. Inl NoReturn) csp ip sp' bp s = Inr s2" "sched_ok (tasks_at l) s2 [t, child] 0"
    "vectors s2 = (ints K1)\<lparr>handlers := (handlers (ints K1))[32 := switch_at l, 255 := switch_at l]\<rparr>" "vectors s2 = vectors s"
    "io_log s2 = io_log s" "con_ok (c1\<lparr>kern := mm s2, ports := io_log s\<rparr>) B D ps"
    "console_objs (c1\<lparr>kern := mm s2, ports := io_log s\<rparr>) ps \<inter> {t, child} = {}"
    "task_at (ram (mm s2)) child = \<lparr>t_eip = ip, t_esp = v - 0xC0400000 + sp', t_ebp = v - 0xC0400000 + bp,
      t_stack_start = v, t_id = 1, t_ticks = 0\<rparr>"
    by (rule two_tasks [OF o1 mm1, unfolded c1(3), OF run static stack list csp]) (rule that; simp)
  define K2 where "K2 = (with_sched s K1)\<lparr>int_flag := True\<rparr>"
  define K3 where "K3 = (with_sched s2 K2)\<lparr>int_flag := True, ints := keyboard_init (keyboard_at l) (vectors s)\<rparr>"
  have con3: "con K3 = c1\<lparr>kern := mm s2, ports := io_log s\<rparr>" by (simp add: K3_def K2_def K1_def s2(5))
  have shown3: "console_shows (con K3) (ms @ [m1])" using c1(2) by (simp add: con3 console_shows_def)
  obtain c4 where c4: "KINFO m2 [] K3 = Inr (K3\<lparr>con := c4, int_flag := True\<rparr>)" "console_shows c4 (ms @ [m1, m2])"
    "kern c4 = mm s2" "lines_arr c4 = lines_arr c1" "line_number c4 = line_number c1"
    using kinfo_shows [OF shown3 _ _ plain(2)] shown(2,3) plain(1) by (auto simp: con3)
  define K4 where "K4 = K3\<lparr>con := c4, int_flag := True\<rparr>"
  obtain c5 where c5: "KINFO m3 [] K4 = Inr (K4\<lparr>con := c5, int_flag := True\<rparr>)" "console_shows c5 (ms @ [m1, m2, m3])"
    "kern c5 = mm s2" "lines_arr c5 = lines_arr c1" "line_number c5 = line_number c1"
    using kinfo_shows [of K4 "ms @ [m1, m2]" m3] c4(2-5) shown(2,3) plain by (auto simp: K4_def)
  define K5 where "K5 = K4\<lparr>con := c5, int_flag := True\<rparr>"
  have steps: "rbind (KINFO m1 [] K) f = f K1" "rbind (KINFO m2 [] K3) f = f K4" for f :: "kernel \<Rightarrow> kernel res"
    using c1(1) c4(1) by (simp_all add: K1_def K4_def)
  have states: "STACK_START K1 = STACK_START K" "(with_sched s K1)\<lparr>int_flag := True\<rparr> = K2" "sched_of K2 = s"
    "(with_sched s2 K2)\<lparr>int_flag := True, ints := keyboard_init (keyboard_at l) (vectors s)\<rparr> = K3"
    by (simp_all add: K1_def K2_def K3_def sched_of_def with_sched_def)
  have main_run: "kernel_main l sp old_esp old_ebp csp ip sp' bp K = Inr K5"
    unfolding kernel_main_def m [symmetric] Let_def steps states
    by (simp add: s s2(1,4) steps states c5(1) K5_def)
  have fields: "cur_task K5 = t" "kbd_state K5 = kbd_state K" "con K5 = c5" "int_flag K5"
    "ints K5 = keyboard_init (keyboard_at l) (vectors s2)"
    using s2(2,4) by (simp_all add: K5_def K4_def K3_def K2_def K1_def sched_ok_def)
  have "cursor_ok c5" using shows_cursor [OF c5(2)] shown(3) by simp
  then have "con_ok c5 B D ps" using con_ok_screen(1) [OF s2(6), of c5] c5(3-5) by simp
  moreover have "console_objs c5 ps \<inter> {t, child} = {}" using s2(7) c5(3-5) by (simp add: console_objs_def)
  moreover have "handlers (ints K5) = installed l"
    using installed_handlers [of l] s2(3) h
    by (simp add: fields K1_def keyboard_init_def register_interrupt_handler_def IRQ1_def)
  moreover have "sched_ok (tasks_at l) (sched_of K5) [t, child] 0" using s2(2) c5(3) fields by (simp add: sched_ok_def)
  ultimately have "kernel_ok l K5 B D ps [t, child] 0" using st by (simp add: kernel_ok_def fields)
  then show ?thesis using main_run c5(2,3) s2(8)
    by (intro exI [of _ K5] exI [of _ t] exI [of _ child] exI [of _ v]) (simp add: fields main)
qed

lemma kernel_start:
  assumes "length (buf (con K)) = 2000" "line_number (con K) = 0" "length (gdt_entries (segs K)) = 3" "kbd_state K = 0"
    and "multiboot_RAM (ram (kern (con K))) info (PHYSICAL_MEMORY_START K) (PHYSICAL_MEMORY_END K) = Inr (True, start, stop)"
    and "unat S = unat sp + 4 * q" "4 * q \<le> 4194304" "unat S \<le> 0xC0400000"
    and "unat (tasks_at l) div 4194304 = 768" "unat (tasks_at l) mod 4194304 \<le> 4194300"
    and "load32 (ram (kern (con K))) (tasks_at l) = 0"
    and "0xC0400000 \<le> csp" "(unat csp - unat (0xC0400000 :: u32)) mod 4 = 0"
  shows "\<exists>K1 K2 B D ps t child. kernel_init l bootstrap_page_directory info S K = Inr K1 \<and>
    kernel_main l sp old_esp old_ebp csp ip sp' bp K1 = Inr K2 \<and> kernel_ok l K2 B D ps [t, child] 0 \<and>
    console_shows (con K2) (init_messages @ [heap_message] @ main_messages) \<and> int_flag K2 \<and> cur_task K2 = t \<and>
    t_eip (task_at (ram (kern (con K2))) child) = ip"
proof -
  let ?m = "ram (kern (con K))"
  obtain g where g: "gdt_init (gdt_at l) (segs K) = Inr g" using gdt_init_flat [OF assms(3)] by blast
  obtain c B D ps j where c: "kernel_init l bootstrap_page_directory info S K = Inr (up l K S start stop g c)"
    "console_shows c (init_messages @ [heap_message])" "con_ok c B D ps" "running j (kern c)" "j \<le> 27"
    "sealed (kstatic (kboot ?m)) ?m (kern c)"
    using kernel_init_up [OF assms(1,2) g assms(5), of S] by blast
  let ?K = "up l K S start stop g c"
  have up: "con ?K = c" "STACK_START ?K = S" "kbd_state ?K = 0" "ints ?K = boot_vectors l (ints K)"
    using assms(4) by (simp_all add: up_def)
  have stat: "kstatic (kern c) = kstatic (kboot ?m)" "\<forall>a \<in> kstatic (kboot ?m). ram (kern c) a = ?m a"
    using c(6) by (simp_all add: sealed_def)
  have static: "\<forall>a. unat a div 4194304 \<in> {768, 769} \<longrightarrow> a \<in> kstatic (kern c)" by (simp add: stat(1) boot_static)
  have "load32 (ram (kern c)) (tasks_at l) = load32 ?m (tasks_at l)"
  proof (rule load32_cong)
    fix b assume "b \<in> span (tasks_at l) 4"
    then have "unat b div 4194304 = 768" by (rule head_page [OF assms(9,10)])
    then show "ram (kern c) b = ?m b" using stat(2) boot_static by simp
  qed
  then have list: "load32 (ram (kern c)) (tasks_at l) = 0" using assms(11) by simp
  have "list_all plain_message (init_messages @ [heap_message])" "length (init_messages @ [heap_message]) \<le> 20" "j < 1018"
    using messages_plain c(5) by simp_all
  from kernel_main_runs [of ?K, unfolded up, OF c(2) this(1,2) c(3,4) this(3) static assms(6-10) list assms(12,13) _ boot_handlers,
      of old_esp old_ebp ip sp' bp]
  show ?thesis using c(1) by fastforce
qed

text \<open>
  C6: the kernel boots. From the zeroed variables of its image, with a memory map that has usable
  memory and a boot stack inside the image, \<open>kernel_init\<close> and \<open>kernel_main\<close> both succeed and
  establish the invariant of the running kernel: two tasks, of which the boot code is the first
  and current and the clock thread the second, due to start where \<open>thread_create\<close> says; nine
  messages on the screen; the handlers of the switch, the keyboard and page faults; interrupts on.
\<close>

theorem kernel_boots:
  assumes "length (buf (con K)) = 2000" "line_number (con K) = 0" "length (gdt_entries (segs K)) = 3" "kbd_state K = 0"
    and "multiboot_RAM (ram (kern (con K))) info (PHYSICAL_MEMORY_START K) (PHYSICAL_MEMORY_END K) = Inr (True, start, stop)"
    and "unat S = unat sp + 4 * q" "4 * q \<le> 4194304" "unat S \<le> 0xC0400000"
    and "unat (tasks_at l) div 4194304 = 768" "unat (tasks_at l) mod 4194304 \<le> 4194300"
    and "load32 (ram (kern (con K))) (tasks_at l) = 0"
    and "0xC0400000 \<le> csp" "(unat csp - unat (0xC0400000 :: u32)) mod 4 = 0"
  shows "\<exists>K1 K2 B D ps t child. kernel_init l bootstrap_page_directory info S K = Inr K1 \<and>
    kernel_main l sp old_esp old_ebp csp ip sp' bp K1 = Inr K2 \<and> kernel_ok l K2 B D ps [t, child] 0 \<and>
    console_shows (con K2) (init_messages @ [heap_message] @ main_messages) \<and> int_flag K2 \<and> cur_task K2 = t \<and>
    t_eip (task_at (ram (kern (con K2))) child) = ip"
  using assms by (rule kernel_start)

section \<open>A kernel on a small machine\<close>

definition boot_linkage :: linkage where
  "boot_linkage = \<lparr>gdt_at = 0xC0020100, idt_at = 0xC0020200, isr_at = (\<lambda>n. 0xC0002000 + of_nat n),
     irq_at = (\<lambda>n. 0xC0003000 + of_nat n), page_fault_at = 0xC0001000, timer_at = 0xC0001100,
     switch_at = 0xC0001200, keyboard_at = 0xC0001300, tasks_at = 0xC0020000\<rparr>"

definition image_kernel :: kernel where
  "image_kernel =
     \<lparr>con = \<lparr>cur_x = 0, cur_y = 0, color = 0, buf = replicate 2000 0, lines_arr = 0, line_number = 0,
        kern = \<lparr>pages = \<lparr>virtual_addr = 0, page_directory = [], frame_bitmap = []\<rparr>, kheap = \<lparr>head = 0\<rparr>, ram = words_mem small_words\<rparr>,
        ports = []\<rparr>,
      segs = \<lparr>gdt_entries = replicate 3 blank_gdt_entry, gdt_register = \<lparr>gdt_limit = 0, gdt_base = 0\<rparr>\<rparr>,
      ints = blank_idt, int_flag = False, cur_task = 0, kbd_state = 0,
      STACK_START = 0, PHYSICAL_MEMORY_START = 0, PHYSICAL_MEMORY_END = 0\<rparr>"

lemma image_facts:
  "length (buf (con image_kernel)) = 2000" "line_number (con image_kernel) = 0" "length (gdt_entries (segs image_kernel)) = 3"
  "kbd_state image_kernel = 0"
  "multiboot_RAM (ram (kern (con image_kernel))) 0xC0009000 (PHYSICAL_MEMORY_START image_kernel) (PHYSICAL_MEMORY_END image_kernel) =
    Inr (True, 0x100000, 0x7FE0000)"
  "unat (0xC0010000 :: u32) = unat (0xC000FFF8 :: u32) + 4 * 2" "4 * 2 \<le> (4194304 :: nat)" "unat (0xC0010000 :: u32) \<le> 0xC0400000"
  "unat (tasks_at boot_linkage) div 4194304 = 768" "unat (tasks_at boot_linkage) mod 4194304 \<le> 4194300"
  "load32 (ram (kern (con image_kernel))) (tasks_at boot_linkage) = 0"
  "(0xC0400000 :: u32) \<le> 0xC07FFFF0" "(unat (0xC07FFFF0 :: u32) - unat (0xC0400000 :: u32)) mod 4 = 0"
  by (simp_all add: image_kernel_def boot_linkage_def small_machine load32_words_mem small_words_def small_table_def)

lemma boot_linked: "linked boot_linkage"
  by (simp add: linked_def boot_linkage_def)

text \<open>The kernel on this machine, running.\<close>

lemma running_kernel:
  obtains K B D ps t c where "kernel_ok boot_linkage K B D ps [t, c] 0" "int_flag K" "cur_task K = t"
  using kernel_start [OF image_facts, of 0 0 7 8 9] by blast

theorem kernel_init_correct_witness:
  "\<exists>K. kernel_init boot_linkage bootstrap_page_directory 0xC0009000 0xC0010000 image_kernel = Inr K \<and>
    PHYSICAL_MEMORY_END K = 0x7FE0000 \<and> handlers (ints K) ! 32 = 0xC0001100 \<and> cur_y (con K) = 6"
proof -
  have "PHYSICAL_MEMORY_END K = 0x7FE0000 \<and> handlers (ints K) ! 32 = 0xC0001100 \<and> cur_y (con K) = 6"
    if "PHYSICAL_MEMORY_END K = 0x7FE0000" "console_shows (con K) (init_messages @ [heap_message])"
      "handlers (ints K) = (replicate 256 0)[14 := page_fault_at boot_linkage, 32 := timer_at boot_linkage]" for K
    using that by (simp add: console_shows_def messages_plain(3) boot_linkage_def)
  then show ?thesis
    using kernel_init_correct [OF image_facts(1-3,5), of boot_linkage "0xC0010000", unfolded if_True] by blast
qed

theorem kernel_boots_witness:
  "\<exists>K1 K2. kernel_init boot_linkage bootstrap_page_directory 0xC0009000 0xC0010000 image_kernel = Inr K1 \<and>
    kernel_main boot_linkage 0xC000FFF8 0 0 0xC07FFFF0 7 8 9 K1 = Inr K2 \<and> int_flag K2 \<and> cur_y (con K2) = 9 \<and>
    call_handler (ints K2) 33 = Inr (Called 0xC0001300)"
proof -
  obtain K1 K2 B D ps t c where k: "kernel_init boot_linkage bootstrap_page_directory 0xC0009000 0xC0010000 image_kernel = Inr K1"
    "kernel_main boot_linkage 0xC000FFF8 0 0 0xC07FFFF0 7 8 9 K1 = Inr K2" "kernel_ok boot_linkage K2 B D ps [t, c] 0"
    "console_shows (con K2) (init_messages @ [heap_message] @ main_messages)" "int_flag K2"
    using kernel_boots [OF image_facts, of 0 0 7 8 9] by blast
  have "cur_y (con K2) = 9" using k(4) by (simp add: console_shows_def messages_plain(3) main_messages_def)
  moreover have "call_handler (ints K2) 33 = Inr (Called 0xC0001300)"
    using call_installed [OF kernel_okD(5) [OF k(3)], of 33] installed_nth [of 33 boot_linkage] by (simp add: boot_linkage_def)
  ultimately show ?thesis using k(1,2,5) by blast
qed

section \<open>The properties of the running kernel, on this machine\<close>

definition quiet_device :: device where
  "quiet_device _ _ = 0"

theorem kernel_interrupts_witness:
  "\<exists>K K' c. irq_setup boot_linkage quiet_device (1, 2, 3) (demo_regs 0) 1 K = Inr (c, K') \<and> kbd_state K = 0 \<and> kbd_state K' \<in> {0, 1}"
proof -
  obtain K B D ps t c where k: "kernel_ok boot_linkage K B D ps [t, c] 0" by (rule running_kernel)
  define K0 where "K0 = K\<lparr>kbd_state := 0\<rparr>"
  have k0: "kernel_ok boot_linkage K0 B D ps [t, c] 0" using k by (simp add: K0_def kernel_ok_def sched_of_def)
  have "(1 :: nat) < 16" "(1 :: u32) \<noteq> DUMMY_EIP" by (simp_all add: DUMMY_EIP_def)
  from kernel_interrupts [OF k0 boot_linked this, of quiet_device 2 3 "demo_regs 0"]
  obtain c1 K' D' ps' j where "irq_setup boot_linkage quiet_device (1, 2, 3) (demo_regs 0) 1 K0 = Inr (c1, K')"
    "kernel_ok boot_linkage K' B D' ps' [t, c] j"
    by (auto simp: K0_def split: sum.splits)
  then show ?thesis using kernel_okD(4) by (intro exI [of _ K0] exI [of _ K'] exI [of _ c1]) (auto simp: K0_def)
qed

theorem kernel_invariant_witness:
  "\<exists>K K' ts. (kernel_step boot_linkage quiet_device)\<^sup>*\<^sup>* K K' \<and> K' \<noteq> K \<and> cur_task K' \<in> set ts \<and> length ts \<ge> 2 \<and>
    list_at (ram (kern (con K'))) 0xC0020000 next_task ts"
proof -
  obtain K B D ps t c where k: "kernel_ok boot_linkage K B D ps [t, c] 0" "int_flag K" by (rule running_kernel)
  have ip: "(3 :: nat) < 16" "(1 :: u32) \<noteq> DUMMY_EIP" by (simp_all add: DUMMY_EIP_def)
  obtain t' where t': "irq_handler quiet_device (ints K) ((demo_regs 0)\<lparr>int_num := of_nat (32 + 3), err_code := 0\<rparr>) (ports (con K)) =
      (Inr (Unexpected (of_nat (32 + 3))), ports (con K) @ t')"
    using irq_dispatch [OF kernel_okD(5) [OF k(1)] ip(1) boot_linked, of quiet_device "demo_regs 0" "ports (con K)"] by auto
  have "irq_handler quiet_device (ints K) ((demo_regs 0)\<lparr>int_num := of_nat (32 + 3), err_code := 0\<rparr>) (ports (con K)) =
      (call_handler (ints K) 35, ports (con K) @ [Outb 0x20 0x20])"
    by (simp add: irq_handler_def irq_eoi_def IRQ7_def PIC_SLAVE_START_OFFSET_def PIC_MASTER_COMMAND_def PIC_EOI_def outb_def Let_def)
  with t' have t'': "t' = [Outb 0x20 0x20]" by simp
  define K' where "K' = K\<lparr>con := (con K)\<lparr>ports := ports (con K) @ t'\<rparr>\<rparr>"
  have "irq_setup boot_linkage quiet_device (1, 2, 3) (demo_regs 0) 3 K = Inr (Return, K')"
    using t' by (simp add: irq_setup_def after_dispatch_def K'_def)
  from k_irq [OF k(2) ip this] have step: "(kernel_step boot_linkage quiet_device)\<^sup>*\<^sup>* K K'" by blast
  obtain ts where "set [t, c] \<subseteq> set ts" "cur_task K' \<in> set ts" "list_at (ram (kern (con K'))) 0xC0020000 next_task ts"
    using kernel_invariant [OF k(1) boot_linked step] by (auto simp: boot_linkage_def)
  moreover have "t \<noteq> c" using k(1) by (auto simp: kernel_ok_def sched_ok_def tasks_ok_def queue_ok_def)
  ultimately have "length ts \<ge> 2" using card_mono [of "set ts" "set [t, c]"] card_length [of ts] by simp
  moreover have "ports (con K') \<noteq> ports (con K)" by (simp add: K'_def t'')
  then have "K' \<noteq> K" by blast
  ultimately show ?thesis using step \<open>cur_task K' \<in> set ts\<close> \<open>list_at _ _ _ ts\<close> by blast
qed

text \<open>A clock that stands at 14:05:09, universal time.\<close>

definition stopped_clock :: device where
  "stopped_clock t p = (if last t = Outb 0x70 4 then bcd_of 14 else if last t = Outb 0x70 2 then bcd_of 5 else bcd_of 9)"

theorem thread_task_shows_time_witness:
  "\<exists>K K'. thread_task stopped_clock K = Inr K' \<and>
    map (\<lambda>q. buf (con K') ! q) [70..<79] = map (color_char (con K)) (clock_text (9, False) 5 9)"
proof -
  have ok: "cursor_ok (con (image_kernel))" by (simp add: image_kernel_def cursor_ok_def)
  have clock: "clock_holds stopped_clock 14 5 9" by (simp add: clock_holds_def stopped_clock_def)
  have hour: "shown_hour 14 = (9, False)" by code_simp
  then obtain t where len: "length (clock_text (9, False) 5 9) = 9" and t: "thread_task stopped_clock image_kernel =
    Inr (image_kernel\<lparr>con := (con image_kernel)\<lparr>buf := text_at 70 (map (color_char (con image_kernel)) (clock_text (9, False) 5 9))
      (buf (con image_kernel)), ports := t\<rparr>, int_flag := True\<rparr>)"
    using thread_task_shows_time [OF ok clock] unfolding hour by auto
  have "map (\<lambda>q. text_at 70 vs b ! q) [70..<79] = vs" if "length vs = 9" for vs :: "u16 list" and b
    using that by (intro nth_equalityI) (simp_all add: text_at_def del: upt_rec_numeral)
  then show ?thesis using t len by (intro exI [of _ image_kernel] exI) (rule conjI, assumption, simp del: upt_rec_numeral)
qed

end
