(* ===== verification/TreeOrder.thy ===== *)
theory TreeOrder
  imports Prelude
begin

text \<open>
  The comparison functions that the trees of sys/tree.h are generated with: a total order of the
  elements up to equal keys, as the sign of an \<open>int\<close>. A list of elements is in order when every
  element is smaller than the later ones; comparing an element with such a list splits it.
\<close>

definition orders :: "('a \<Rightarrow> 'a \<Rightarrow> int) \<Rightarrow> bool" where
  "orders cmp \<longleftrightarrow> (\<forall>x y. sgn (cmp y x) = - sgn (cmp x y)) \<and> (\<forall>x y z. cmp x y \<le> 0 \<longrightarrow> cmp y z \<le> 0 \<longrightarrow> cmp x z \<le> 0)"

definition in_order :: "('a \<Rightarrow> 'a \<Rightarrow> int) \<Rightarrow> 'a list \<Rightarrow> bool" where
  "in_order cmp xs \<longleftrightarrow> sorted_wrt (\<lambda>x y. cmp x y < 0) xs"

lemma orders_swap:
  assumes "orders cmp"
  shows "cmp y x < 0 \<longleftrightarrow> 0 < cmp x y" "cmp y x = 0 \<longleftrightarrow> cmp x y = 0" "cmp x x = 0"
proof -
  have i: "(b < 0 \<longleftrightarrow> 0 < a) \<and> (b = 0 \<longleftrightarrow> a = 0)" if "sgn b = - sgn a" for a b :: int
    using that by (cases a "0 :: int" rule: linorder_cases; cases b "0 :: int" rule: linorder_cases) simp_all
  have s: "sgn (cmp y x) = - sgn (cmp x y)" for x y using assms unfolding orders_def by blast
  show "cmp y x < 0 \<longleftrightarrow> 0 < cmp x y" "cmp y x = 0 \<longleftrightarrow> cmp x y = 0" using i [OF s] by blast+
  show "cmp x x = 0" using i [OF s [of x x]] by linarith
qed

lemma orders_trans:
  assumes "orders cmp"
  shows "cmp x y \<le> 0 \<Longrightarrow> cmp y z < 0 \<Longrightarrow> cmp x z < 0" "0 \<le> cmp x y \<Longrightarrow> cmp z y < 0 \<Longrightarrow> 0 < cmp x z"
proof -
  have t: "cmp x z \<le> 0" if "cmp x y \<le> 0" "cmp y z \<le> 0" for x y z using assms that unfolding orders_def by blast
  note sw = orders_swap [OF assms]
  show "cmp x z < 0" if "cmp x y \<le> 0" "cmp y z < 0"
    using t [of x y z] t [of z x y] that sw(1,2) [of z x] sw(1,2) [of z y] by fastforce
  show "0 < cmp x z" if "0 \<le> cmp x y" "cmp z y < 0"
    using t [of x z y] t [of y x z] that sw(1,2) [of y x] sw(1,2) [of z y] by fastforce
qed

lemma in_order_append: "in_order cmp (xs @ y # zs) \<longleftrightarrow>
    in_order cmp xs \<and> in_order cmp zs \<and> (\<forall>x \<in> set xs. cmp x y < 0) \<and> (\<forall>z \<in> set zs. cmp y z < 0) \<and>
    (\<forall>x \<in> set xs. \<forall>z \<in> set zs. cmp x z < 0)"
  by (auto simp: in_order_def sorted_wrt_append)

text \<open>One comparison with an element of an ordered list settles one side of it.\<close>

lemma in_order_side:
  assumes "orders cmp" "in_order cmp (xs @ y # zs)"
  shows "cmp e y \<le> 0 \<Longrightarrow> z \<in> set zs \<Longrightarrow> cmp e z < 0" "0 \<le> cmp e y \<Longrightarrow> x \<in> set xs \<Longrightarrow> 0 < cmp e x"
  using assms(2) orders_trans [OF assms(1)] unfolding in_order_append by blast+

text \<open>The place of a new element.\<close>

definition insert_in_order :: "('a \<Rightarrow> 'a \<Rightarrow> int) \<Rightarrow> 'a \<Rightarrow> 'a list \<Rightarrow> 'a list" where
  "insert_in_order cmp e xs = takeWhile (\<lambda>x. 0 < cmp e x) xs @ e # dropWhile (\<lambda>x. 0 < cmp e x) xs"

lemma set_insert_in_order [simp]: "set (insert_in_order cmp e xs) = insert e (set xs)"
proof -
  have "set xs = set (takeWhile (\<lambda>x. 0 < cmp e x) xs) \<union> set (dropWhile (\<lambda>x. 0 < cmp e x) xs)"
    by (metis set_append takeWhile_dropWhile_id)
  then show ?thesis unfolding insert_in_order_def by auto
qed

lemma insert_between:
  assumes "\<forall>x \<in> set xs. 0 < cmp e x" "\<forall>z \<in> set zs. cmp e z < 0"
  shows "insert_in_order cmp e (xs @ zs) = xs @ e # zs"
proof -
  have "takeWhile (\<lambda>x. 0 < cmp e x) zs = []" "dropWhile (\<lambda>x. 0 < cmp e x) zs = zs" using assms(2) by (cases zs; auto)+
  then show ?thesis using assms(1) by (simp add: insert_in_order_def)
qed

lemma insert_in_order_sorted:
  assumes "orders cmp" "in_order cmp (xs @ zs)" "\<forall>x \<in> set xs. 0 < cmp e x" "\<forall>z \<in> set zs. cmp e z < 0"
  shows "in_order cmp (xs @ e # zs)"
  using assms orders_swap(1) [OF assms(1)] by (auto simp: in_order_def sorted_wrt_append)

text \<open>What a search or a walk ends with: the first or the last element, or a value for the empty list.\<close>

definition first_or :: "'a \<Rightarrow> 'a list \<Rightarrow> 'a" where
  "first_or z xs = (case xs of [] \<Rightarrow> z | x # _ \<Rightarrow> x)"

definition last_or :: "'a \<Rightarrow> 'a list \<Rightarrow> 'a" where
  "last_or z xs = (if xs = [] then z else last xs)"

lemma first_or_simps [simp]: "first_or z [] = z" "first_or z (x # xs) = x" "first_or z (xs @ ys) = first_or (first_or z ys) xs"
  by (auto simp: first_or_def split: list.splits)

lemma last_or_simps [simp]: "last_or z [] = z" "last_or z (xs @ [x]) = x" "last_or z (x # xs) = last_or x xs"
  by (auto simp: last_or_def)

lemma last_or_append [simp]: "last_or z (xs @ ys) = last_or (last_or z xs) ys"
  by (auto simp: last_or_def)

lemma first_last_other: "xs \<noteq> [] \<Longrightarrow> first_or z xs = first_or 0 xs" "xs \<noteq> [] \<Longrightarrow> last_or z xs = last_or 0 xs"
  by (auto simp: first_or_def last_or_def split: list.splits)

text \<open>The elements with the key that an element of an ordered list is compared with.\<close>

lemma in_order_turns: "orders cmp \<Longrightarrow> in_order cmp xs \<Longrightarrow> sorted_wrt (\<lambda>x y. cmp e x \<le> 0 \<longrightarrow> cmp e y < 0) xs"
  unfolding in_order_def by (erule sorted_wrt_mono_rel [rotated]) (blast dest: orders_trans(1))

lemma filter_turn:
  fixes f :: "'a \<Rightarrow> int"
  assumes "\<forall>y \<in> set xs. 0 < f y" "\<forall>z \<in> set zs. f z < 0"
  shows "filter (\<lambda>y. f y = 0) (xs @ x # zs) = (if f x = 0 then [x] else [])"
proof -
  have "filter (\<lambda>y. f y = 0) xs = []" "filter (\<lambda>y. f y = 0) zs = []" using assms by (auto simp: filter_empty_conv)
  then show ?thesis by simp
qed

lemma filter_others:
  fixes f :: "'a \<Rightarrow> int"
  assumes "\<forall>y \<in> set xs. 0 < f y" "\<forall>z \<in> set zs. f z < 0"
  shows "filter (\<lambda>y. f y \<noteq> 0) (xs @ x # zs) = (if f x = 0 then xs @ zs else xs @ x # zs)"
proof -
  have "filter (\<lambda>y. f y \<noteq> 0) xs = xs" "filter (\<lambda>y. f y \<noteq> 0) zs = zs" using assms by (auto simp: filter_id_conv)
  then show ?thesis by simp
qed

lemma insert_in_order_keeps:
  assumes "orders cmp" "in_order cmp xs" "\<forall>x \<in> set xs. cmp e x \<noteq> 0"
  shows "in_order cmp (insert_in_order cmp e xs)"
  unfolding insert_in_order_def
proof (rule insert_in_order_sorted)
  show "in_order cmp (takeWhile (\<lambda>x. 0 < cmp e x) xs @ dropWhile (\<lambda>x. 0 < cmp e x) xs)" using assms(2) by simp
  show "\<forall>x \<in> set (takeWhile (\<lambda>x. 0 < cmp e x) xs). 0 < cmp e x" using set_takeWhileD by fast
  show "\<forall>z \<in> set (dropWhile (\<lambda>x. 0 < cmp e x) xs). cmp e z < 0"
  proof (cases "dropWhile (\<lambda>x. 0 < cmp e x) xs")
    case Nil
    show ?thesis unfolding Nil by simp
  next
    case (Cons y ys)
    have "\<not> 0 < cmp e y" using hd_dropWhile [of "\<lambda>x. 0 < cmp e x" xs] Cons by simp
    moreover have "y \<in> set xs" using Cons set_dropWhileD [of y "\<lambda>x. 0 < cmp e x" xs] by simp
    ultimately have y: "cmp e y < 0" using assms(3) by fastforce
    have "sorted_wrt (\<lambda>x y. cmp e x \<le> 0 \<longrightarrow> cmp e y < 0) (takeWhile (\<lambda>x. 0 < cmp e x) xs @ y # ys)"
      using in_order_turns [OF assms(1,2), of e] Cons by (metis takeWhile_dropWhile_id)
    then show ?thesis using y unfolding Cons by (auto simp: sorted_wrt_append)
  qed
qed (rule assms(1))

lemma in_order_remove1: "in_order cmp xs \<Longrightarrow> in_order cmp (remove1 x xs)"
  unfolding in_order_def by (induction xs) (auto dest: set_remove1_subset [THEN subsetD])

text \<open>The elements with the key of an inserted, or of a removed element.\<close>

lemma filter_insert_in_order:
  "\<not> (\<exists>x \<in> set xs. cmp e x = 0) \<Longrightarrow> filter (\<lambda>x. cmp e x = 0) (insert_in_order cmp e xs) = (if cmp e e = 0 then [e] else [])"
proof -
  assume ne: "\<not> (\<exists>x \<in> set xs. cmp e x = 0)"
  have "filter (\<lambda>x. cmp e x = 0) (takeWhile (\<lambda>x. 0 < cmp e x) xs) = []" "filter (\<lambda>x. cmp e x = 0) (dropWhile (\<lambda>x. 0 < cmp e x) xs) = []"
    using ne by (auto simp: filter_empty_conv dest: set_takeWhileD set_dropWhileD)
  then show ?thesis by (simp add: insert_in_order_def)
qed

lemma in_order_unequal:
  assumes "orders cmp" "in_order cmp xs" "x \<in> set xs"
  shows "filter (\<lambda>y. cmp x y = 0) (remove1 x xs) = []"
proof -
  obtain ys zs where xs: "xs = ys @ x # zs" "x \<notin> set ys" using split_list_first [OF assms(3)] by blast
  have "\<forall>y \<in> set ys. cmp y x < 0" "\<forall>z \<in> set zs. cmp x z < 0" using assms(2) unfolding xs(1) in_order_append by blast+
  then have "\<forall>y \<in> set (ys @ zs). cmp x y \<noteq> 0" unfolding orders_swap(1) [OF assms(1), of _ x] by auto
  then show ?thesis using xs by (simp add: remove1_append filter_empty_conv)
qed

text \<open>A comparison that needs no memory: the addresses of the elements.\<close>

definition by_address :: "addr \<Rightarrow> addr \<Rightarrow> int" where
  "by_address x y = int (unat x) - int (unat y)"

lemma orders_by_address: "orders by_address"
  unfolding orders_def by_address_def by (auto simp: sgn_if)

end
