(* ===== verification/RbTree.thy ===== *)
theory RbTree
  imports TreeOrder "HOL-Library.Tree"
begin

text \<open>
  The red-black trees of src/src/kernel/include/sys/tree.h: what the \<open>RB_\<close> macros expand to. A
  node is its \<open>RB_ENTRY\<close>, and a state is the entries by the address of their element with the
  root of the head. The comparison function of \<open>RB_GENERATE\<close> is a parameter. \<open>RB_AUGMENT\<close> is the
  empty statement that the header defines. A loop that follows the pointers of an arbitrary
  state need not end, so each one is a partial function.
  This theory holds the macros that build and rotate a tree, the searches, and the relation of a
  state to the tree it holds; insertion and removal follow in their own theories.
\<close>

section \<open>The entries\<close>

record rb_entry =
  rbe_left :: addr
  rbe_right :: addr
  rbe_parent :: addr
  rbe_color :: int

record rb_state =
  entry :: "addr \<Rightarrow> rb_entry"
  rbh_root :: addr

definition RB_BLACK :: int where
  "RB_BLACK = 0"

definition RB_RED :: int where
  "RB_RED = 1"

definition RB_INIT :: "rb_state \<Rightarrow> rb_state" where
  "RB_INIT s = s\<lparr>rbh_root := 0\<rparr>"

definition RB_EMPTY :: "rb_state \<Rightarrow> bool" where
  "RB_EMPTY s \<longleftrightarrow> rbh_root s = 0"

definition RB_LEFT :: "rb_state \<Rightarrow> addr \<Rightarrow> addr" where
  "RB_LEFT s x = rbe_left (entry s x)"

definition RB_RIGHT :: "rb_state \<Rightarrow> addr \<Rightarrow> addr" where
  "RB_RIGHT s x = rbe_right (entry s x)"

definition RB_PARENT :: "rb_state \<Rightarrow> addr \<Rightarrow> addr" where
  "RB_PARENT s x = rbe_parent (entry s x)"

definition RB_COLOR :: "rb_state \<Rightarrow> addr \<Rightarrow> int" where
  "RB_COLOR s x = rbe_color (entry s x)"

text \<open>Assignments to the fields of an entry.\<close>

definition put_left :: "rb_state \<Rightarrow> addr \<Rightarrow> addr \<Rightarrow> rb_state" where
  "put_left s x v = s\<lparr>entry := (entry s)(x := (entry s x)\<lparr>rbe_left := v\<rparr>)\<rparr>"

definition put_right :: "rb_state \<Rightarrow> addr \<Rightarrow> addr \<Rightarrow> rb_state" where
  "put_right s x v = s\<lparr>entry := (entry s)(x := (entry s x)\<lparr>rbe_right := v\<rparr>)\<rparr>"

definition put_parent :: "rb_state \<Rightarrow> addr \<Rightarrow> addr \<Rightarrow> rb_state" where
  "put_parent s x v = s\<lparr>entry := (entry s)(x := (entry s x)\<lparr>rbe_parent := v\<rparr>)\<rparr>"

definition put_color :: "rb_state \<Rightarrow> addr \<Rightarrow> int \<Rightarrow> rb_state" where
  "put_color s x c = s\<lparr>entry := (entry s)(x := (entry s x)\<lparr>rbe_color := c\<rparr>)\<rparr>"

definition RB_SET :: "rb_state \<Rightarrow> addr \<Rightarrow> addr \<Rightarrow> rb_state" where
  "RB_SET s elm parent = put_color (put_left (put_right (put_parent s elm parent) elm 0) elm 0) elm RB_RED"

definition RB_SET_BLACKRED :: "rb_state \<Rightarrow> addr \<Rightarrow> addr \<Rightarrow> rb_state" where
  "RB_SET_BLACKRED s black red = put_color (put_color s black RB_BLACK) red RB_RED"

definition RB_ROTATE_LEFT :: "rb_state \<Rightarrow> addr \<Rightarrow> rb_state" where
  "RB_ROTATE_LEFT s elm =
     (let tmp = RB_RIGHT s elm;
          s = put_right s elm (RB_LEFT s tmp);
          s = (if RB_RIGHT s elm \<noteq> 0 then put_parent s (RB_LEFT s tmp) elm else s);
          s = put_parent s tmp (RB_PARENT s elm);
          s = (if RB_PARENT s tmp \<noteq> 0
               then if elm = RB_LEFT s (RB_PARENT s elm) then put_left s (RB_PARENT s elm) tmp
                    else put_right s (RB_PARENT s elm) tmp
               else s\<lparr>rbh_root := tmp\<rparr>);
          s = put_left s tmp elm
      in put_parent s elm tmp)"

definition RB_ROTATE_RIGHT :: "rb_state \<Rightarrow> addr \<Rightarrow> rb_state" where
  "RB_ROTATE_RIGHT s elm =
     (let tmp = RB_LEFT s elm;
          s = put_left s elm (RB_RIGHT s tmp);
          s = (if RB_LEFT s elm \<noteq> 0 then put_parent s (RB_RIGHT s tmp) elm else s);
          s = put_parent s tmp (RB_PARENT s elm);
          s = (if RB_PARENT s tmp \<noteq> 0
               then if elm = RB_LEFT s (RB_PARENT s elm) then put_left s (RB_PARENT s elm) tmp
                    else put_right s (RB_PARENT s elm) tmp
               else s\<lparr>rbh_root := tmp\<rparr>);
          s = put_right s tmp elm
      in put_parent s elm tmp)"

section \<open>The searches\<close>

text \<open>
  The comparison \<open>cmp\<close> is applied to the addresses of two elements; the macros never write what
  it reads.
\<close>

partial_function (option) find_loop :: "(addr \<Rightarrow> addr \<Rightarrow> int) \<Rightarrow> rb_state \<Rightarrow> addr \<Rightarrow> addr \<Rightarrow> addr option" where
  "find_loop cmp s elm tmp =
     (if tmp \<noteq> 0 then
        if cmp elm tmp < 0 then find_loop cmp s elm (RB_LEFT s tmp)
        else if cmp elm tmp > 0 then find_loop cmp s elm (RB_RIGHT s tmp)
        else Some tmp
      else Some 0)"

definition RB_FIND :: "(addr \<Rightarrow> addr \<Rightarrow> int) \<Rightarrow> rb_state \<Rightarrow> addr \<Rightarrow> addr option" where
  "RB_FIND cmp s elm = find_loop cmp s elm (rbh_root s)"

partial_function (option) nfind_loop ::
    "(addr \<Rightarrow> addr \<Rightarrow> int) \<Rightarrow> rb_state \<Rightarrow> addr \<Rightarrow> addr \<Rightarrow> addr \<Rightarrow> addr option" where
  "nfind_loop cmp s elm tmp res =
     (if tmp \<noteq> 0 then
        if cmp elm tmp < 0 then nfind_loop cmp s elm (RB_LEFT s tmp) tmp
        else if cmp elm tmp > 0 then nfind_loop cmp s elm (RB_RIGHT s tmp) res
        else Some tmp
      else Some res)"

definition RB_NFIND :: "(addr \<Rightarrow> addr \<Rightarrow> int) \<Rightarrow> rb_state \<Rightarrow> addr \<Rightarrow> addr option" where
  "RB_NFIND cmp s elm = nfind_loop cmp s elm (rbh_root s) 0"

partial_function (option) minmax_loop :: "rb_state \<Rightarrow> int \<Rightarrow> addr \<Rightarrow> addr \<Rightarrow> addr option" where
  "minmax_loop s val tmp parent =
     (if tmp \<noteq> 0 then minmax_loop s val (if val < 0 then RB_LEFT s tmp else RB_RIGHT s tmp) tmp
      else Some parent)"

definition RB_MINMAX :: "rb_state \<Rightarrow> int \<Rightarrow> addr option" where
  "RB_MINMAX s val = minmax_loop s val (rbh_root s) 0"

definition RB_MIN :: "rb_state \<Rightarrow> addr option" where
  "RB_MIN s = RB_MINMAX s (-1)"

definition RB_MAX :: "rb_state \<Rightarrow> addr option" where
  "RB_MAX s = RB_MINMAX s 1"

text \<open>The walks down one side and up while the element is the child on one side.\<close>

partial_function (option) left_loop :: "rb_state \<Rightarrow> addr \<Rightarrow> addr option" where
  "left_loop s elm = (if RB_LEFT s elm \<noteq> 0 then left_loop s (RB_LEFT s elm) else Some elm)"

partial_function (option) right_loop :: "rb_state \<Rightarrow> addr \<Rightarrow> addr option" where
  "right_loop s elm = (if RB_RIGHT s elm \<noteq> 0 then right_loop s (RB_RIGHT s elm) else Some elm)"

partial_function (option) up_right_loop :: "rb_state \<Rightarrow> addr \<Rightarrow> addr option" where
  "up_right_loop s elm =
     (if RB_PARENT s elm \<noteq> 0 \<and> elm = RB_RIGHT s (RB_PARENT s elm) then up_right_loop s (RB_PARENT s elm)
      else Some (RB_PARENT s elm))"

partial_function (option) up_left_loop :: "rb_state \<Rightarrow> addr \<Rightarrow> addr option" where
  "up_left_loop s elm =
     (if RB_PARENT s elm \<noteq> 0 \<and> elm = RB_LEFT s (RB_PARENT s elm) then up_left_loop s (RB_PARENT s elm)
      else Some (RB_PARENT s elm))"

definition RB_NEXT :: "rb_state \<Rightarrow> addr \<Rightarrow> addr option" where
  "RB_NEXT s elm =
     (if RB_RIGHT s elm \<noteq> 0 then left_loop s (RB_RIGHT s elm)
      else if RB_PARENT s elm \<noteq> 0 \<and> elm = RB_LEFT s (RB_PARENT s elm) then Some (RB_PARENT s elm)
      else up_right_loop s elm)"

definition RB_PREV :: "rb_state \<Rightarrow> addr \<Rightarrow> addr option" where
  "RB_PREV s elm =
     (if RB_LEFT s elm \<noteq> 0 then right_loop s (RB_LEFT s elm)
      else if RB_PARENT s elm \<noteq> 0 \<and> elm = RB_RIGHT s (RB_PARENT s elm) then Some (RB_PARENT s elm)
      else up_left_loop s elm)"

text \<open>
  The elements that the loops visit; the body of \<open>RB_FOREACH\<close> leaves the tree alone, the body of
  the safe variants, a parameter, may change it.
\<close>

partial_function (option) foreach_loop :: "rb_state \<Rightarrow> addr \<Rightarrow> addr list option" where
  "foreach_loop s x =
     (if x \<noteq> 0 then Option.bind (RB_NEXT s x) (\<lambda>y. Option.bind (foreach_loop s y) (\<lambda>xs. Some (x # xs))) else Some [])"

definition RB_FOREACH :: "rb_state \<Rightarrow> addr list option" where
  "RB_FOREACH s = Option.bind (RB_MIN s) (foreach_loop s)"

partial_function (option) foreach_reverse_loop :: "rb_state \<Rightarrow> addr \<Rightarrow> addr list option" where
  "foreach_reverse_loop s x =
     (if x \<noteq> 0 then Option.bind (RB_PREV s x) (\<lambda>y. Option.bind (foreach_reverse_loop s y) (\<lambda>xs. Some (x # xs))) else Some [])"

definition RB_FOREACH_REVERSE :: "rb_state \<Rightarrow> addr list option" where
  "RB_FOREACH_REVERSE s = Option.bind (RB_MAX s) (foreach_reverse_loop s)"

definition RB_FOREACH_FROM :: "rb_state \<Rightarrow> addr \<Rightarrow> addr list option" where
  "RB_FOREACH_FROM s y = foreach_loop s y"

definition RB_FOREACH_REVERSE_FROM :: "rb_state \<Rightarrow> addr \<Rightarrow> addr list option" where
  "RB_FOREACH_REVERSE_FROM s y = foreach_reverse_loop s y"

partial_function (option) foreach_safe_loop ::
    "(rb_state \<Rightarrow> addr \<Rightarrow> addr option) \<Rightarrow> (addr \<Rightarrow> rb_state \<Rightarrow> rb_state option) \<Rightarrow> rb_state \<Rightarrow> addr \<Rightarrow> (addr list \<times> rb_state) option" where
  "foreach_safe_loop step body s x =
     (if x \<noteq> 0
      then Option.bind (step s x) (\<lambda>y. Option.bind (body x s) (\<lambda>s.
        Option.bind (foreach_safe_loop step body s y) (\<lambda>(xs, s). Some (x # xs, s))))
      else Some ([], s))"

definition RB_FOREACH_SAFE :: "(addr \<Rightarrow> rb_state \<Rightarrow> rb_state option) \<Rightarrow> rb_state \<Rightarrow> (addr list \<times> rb_state) option" where
  "RB_FOREACH_SAFE body s = Option.bind (RB_MIN s) (foreach_safe_loop RB_NEXT body s)"

definition RB_FOREACH_REVERSE_SAFE :: "(addr \<Rightarrow> rb_state \<Rightarrow> rb_state option) \<Rightarrow> rb_state \<Rightarrow> (addr list \<times> rb_state) option" where
  "RB_FOREACH_REVERSE_SAFE body s = Option.bind (RB_MAX s) (foreach_safe_loop RB_PREV body s)"

section \<open>The tree a state holds\<close>

text \<open>
  A tree of the state is a HOL tree over the addresses of its elements and their colours. The
  nodes of a subtree below \<open>q\<close> have the pointers that its shape says.
\<close>

type_synonym ctree = "(addr \<times> int) tree"

fun root_of :: "ctree \<Rightarrow> addr" where
  "root_of Leaf = 0"
| "root_of (Node _ (x, _) _) = x"

fun color_of :: "ctree \<Rightarrow> int" where
  "color_of Leaf = RB_BLACK"
| "color_of (Node _ (_, c) _) = c"

definition addrs :: "ctree \<Rightarrow> addr list" where
  "addrs t = map fst (inorder t)"

fun rep :: "(addr \<Rightarrow> rb_entry) \<Rightarrow> addr \<Rightarrow> ctree \<Rightarrow> bool" where
  "rep N q Leaf \<longleftrightarrow> True"
| "rep N q (Node l (x, c) r) \<longleftrightarrow> x \<noteq> 0 \<and>
     N x = \<lparr>rbe_left = root_of l, rbe_right = root_of r, rbe_parent = q, rbe_color = c\<rparr> \<and> rep N x l \<and> rep N x r"

definition rb_at :: "rb_state \<Rightarrow> ctree \<Rightarrow> bool" where
  "rb_at s t \<longleftrightarrow> rep (entry s) 0 t \<and> rbh_root s = root_of t \<and> distinct (addrs t)"

lemma addrs_simps [simp]: "addrs Leaf = []" "addrs (Node l (x, c) r) = addrs l @ x # addrs r"
  by (simp_all add: addrs_def)

lemma addrs_empty [simp]: "addrs t = [] \<longleftrightarrow> t = Leaf"
  by (cases t rule: root_of.cases) auto

lemma rep_nonzero: "rep N q t \<Longrightarrow> 0 \<notin> set (addrs t)"
  by (induction N q t rule: rep.induct) auto

lemma root_of_zero: "rep N q t \<Longrightarrow> root_of t = 0 \<longleftrightarrow> t = Leaf"
  by (cases "(N, q, t)" rule: rep.cases) auto

lemma root_of_in: "t \<noteq> Leaf \<Longrightarrow> root_of t \<in> set (addrs t)"
  by (cases t rule: root_of.cases) auto

lemma rep_cong: "(\<And>x. x \<in> set (addrs t) \<Longrightarrow> N' x = N x) \<Longrightarrow> rep N' q t = rep N q t"
  by (induction N q t rule: rep.induct) auto

text \<open>
  The two sides of a node, so that a lemma covers a case of the code and its mirror image: \<open>True\<close>
  is the left side.
\<close>

definition mk :: "bool \<Rightarrow> addr \<Rightarrow> int \<Rightarrow> ctree \<Rightarrow> ctree \<Rightarrow> ctree" where
  "mk d x c a b = (if d then Node a (x, c) b else Node b (x, c) a)"

definition child_at :: "bool \<Rightarrow> rb_state \<Rightarrow> addr \<Rightarrow> addr" where
  "child_at d s x = (if d then RB_LEFT s x else RB_RIGHT s x)"

definition put_child :: "bool \<Rightarrow> rb_state \<Rightarrow> addr \<Rightarrow> addr \<Rightarrow> rb_state" where
  "put_child d s x v = (if d then put_left s x v else put_right s x v)"

definition link :: "bool \<Rightarrow> addr \<Rightarrow> int \<Rightarrow> addr \<Rightarrow> addr \<Rightarrow> rb_entry" where
  "link d q c a b = \<lparr>rbe_left = (if d then a else b), rbe_right = (if d then b else a), rbe_parent = q, rbe_color = c\<rparr>"

lemma root_of_mk [simp]: "root_of (mk d x c a b) = x"
  by (simp add: mk_def)

lemma color_of_mk [simp]: "color_of (mk d x c a b) = c"
  by (simp add: mk_def)

lemma mk_not_Leaf [simp]: "mk d x c a b \<noteq> Leaf" "Leaf \<noteq> mk d x c a b"
  by (simp_all add: mk_def)

lemma rep_mk [simp]: "rep N q (mk d x c a b) \<longleftrightarrow>
    x \<noteq> 0 \<and> N x = link d q c (root_of a) (root_of b) \<and> rep N x a \<and> rep N x b"
  by (auto simp: mk_def link_def)

lemma addrs_mk: "set (addrs (mk d x c a b)) = insert x (set (addrs a) \<union> set (addrs b))"
  "distinct (addrs (mk d x c a b)) \<longleftrightarrow> distinct (x # addrs a @ addrs b)"
  by (auto simp: mk_def)

lemma mk_cases:
  assumes "t \<noteq> Leaf"
  obtains x c a b where "t = mk d x c a b"
  using assms that by (cases t rule: root_of.cases; cases d) (auto simp: mk_def)

lemma mk_flip: "mk (\<not> d) x c a b = mk d x c b a"
  by (simp add: mk_def)

text \<open>A node of a tree in its place: the frames from it up to the root, with the other subtrees.\<close>

type_synonym frame = "bool \<times> addr \<times> int \<times> ctree"

fun plug :: "frame list \<Rightarrow> ctree \<Rightarrow> ctree" where
  "plug [] t = t"
| "plug ((d, x, c, u) # fs) t = plug fs (mk d x c t u)"

lemma plug_append: "plug (ms @ fs) t = plug fs (plug ms t)"
  by (induction ms t rule: plug.induct) simp_all

fun parent_of :: "frame list \<Rightarrow> addr" where
  "parent_of [] = 0"
| "parent_of ((d, x, c, u) # fs) = x"

fun frame_addrs :: "frame list \<Rightarrow> addr list" where
  "frame_addrs [] = []"
| "frame_addrs ((d, x, c, u) # fs) = x # addrs u @ frame_addrs fs"

fun ctx :: "(addr \<Rightarrow> rb_entry) \<Rightarrow> addr \<Rightarrow> frame list \<Rightarrow> addr \<Rightarrow> bool" where
  "ctx N p [] root \<longleftrightarrow> root = p"
| "ctx N p ((d, x, c, u) # fs) root \<longleftrightarrow>
     x \<noteq> 0 \<and> N x = link d (parent_of fs) c p (root_of u) \<and> rep N x u \<and> ctx N x fs root"

definition zip_at :: "rb_state \<Rightarrow> frame list \<Rightarrow> ctree \<Rightarrow> bool" where
  "zip_at s fs t \<longleftrightarrow> rep (entry s) (parent_of fs) t \<and> ctx (entry s) (root_of t) fs (rbh_root s) \<and>
     distinct (frame_addrs fs @ addrs t)"

lemma zip_Nil [simp]: "zip_at s [] t = rb_at s t"
  by (simp add: zip_at_def rb_at_def)

lemma zip_Cons: "zip_at s ((d, x, c, u) # fs) t \<longleftrightarrow> zip_at s fs (mk d x c t u)"
  by (auto simp: zip_at_def addrs_mk)

lemma zip_plug: "zip_at s fs t \<longleftrightarrow> rb_at s (plug fs t)"
  by (induction fs t rule: plug.induct) (simp_all add: zip_Cons)

lemma ctx_cong: "(\<And>x. x \<in> set (frame_addrs fs) \<Longrightarrow> N' x = N x) \<Longrightarrow> ctx N' p fs root = ctx N p fs root"
  by (induction N p fs root rule: ctx.induct) (simp_all cong: rep_cong)

lemma set_plug: "set (addrs (plug fs t)) = set (frame_addrs fs) \<union> set (addrs t)"
  by (induction fs t rule: plug.induct) (auto simp: addrs_mk)

lemma zip_parent: "zip_at s fs t \<Longrightarrow> parent_of fs = 0 \<longleftrightarrow> fs = []"
  by (cases fs) (auto simp: zip_at_def)

lemma parent_of_in: "fs \<noteq> [] \<Longrightarrow> parent_of fs \<in> set (frame_addrs fs)"
  by (cases fs rule: parent_of.cases) auto

text \<open>The elements before and after the place, in the order of the tree.\<close>

fun before :: "frame list \<Rightarrow> addr list" where
  "before [] = []"
| "before ((d, x, c, u) # fs) = before fs @ (if d then [] else addrs u @ [x])"

fun after :: "frame list \<Rightarrow> addr list" where
  "after [] = []"
| "after ((d, x, c, u) # fs) = (if d then x # addrs u else []) @ after fs"

lemma addrs_plug: "addrs (plug fs t) = before fs @ addrs t @ after fs"
  by (induction fs t rule: plug.induct) (simp_all add: mk_def)

text \<open>Every element of a tree has a place.\<close>

lemma place_of:
  assumes "x \<in> set (addrs t)"
  obtains fs c a b where "t = plug fs (mk d x c a b)"
proof -
  have "\<exists>gs c a b. plug fs t = plug gs (mk d x c a b)" for fs
    using assms
  proof (induction t arbitrary: fs)
    case (Node l v r)
    obtain y c where v: "v = (y, c)" by (cases v)
    have eq: "plug fs (Node l v r) = plug ((True, y, c, r) # fs) l" "plug fs (Node l v r) = plug ((False, y, c, l) # fs) r"
      "plug fs (Node l v r) = plug fs (mk d y c (if d then l else r) (if d then r else l))"
      by (simp_all add: v mk_def)
    consider "x = y" | "x \<in> set (addrs l)" | "x \<in> set (addrs r)" using Node(3) by (auto simp: v)
    then show ?case
    proof cases
      case 1
      show ?thesis unfolding eq(3) 1 by blast
    next
      case 2
      show ?thesis unfolding eq(1) by (rule Node(1) [OF 2])
    next
      case 3
      show ?thesis unfolding eq(2) by (rule Node(2) [OF 3])
    qed
  qed simp
  then show thesis using that by (metis plug.simps(1))
qed

end
