(* ===== verification/RbMoves.thy ===== *)
theory RbMoves
  imports RbTree
begin

text \<open>
  What recolouring and rotation do to the tree a state holds, at any place of it. A rotation is
  stated for both directions at once.
\<close>

definition kept_outside :: "rb_state \<Rightarrow> rb_state \<Rightarrow> addr set \<Rightarrow> bool" where
  "kept_outside s s' A \<longleftrightarrow> (\<forall>x. x \<notin> A \<longrightarrow> entry s' x = entry s x)"

lemma kept_outside_refl [simp]: "kept_outside s s A"
  by (simp add: kept_outside_def)

lemma kept_outside_trans: "kept_outside s s' A \<Longrightarrow> kept_outside s' s'' A \<Longrightarrow> kept_outside s s'' A"
  by (simp add: kept_outside_def)

lemma kept_outside_mono: "kept_outside s s' A \<Longrightarrow> A \<subseteq> B \<Longrightarrow> kept_outside s s' B"
  by (auto simp: kept_outside_def)

section \<open>The fields of a place\<close>

lemma put_fields [simp]:
  "entry (put_left s x v) y = (if y = x then (entry s x)\<lparr>rbe_left := v\<rparr> else entry s y)"
  "entry (put_right s x v) y = (if y = x then (entry s x)\<lparr>rbe_right := v\<rparr> else entry s y)"
  "entry (put_parent s x v) y = (if y = x then (entry s x)\<lparr>rbe_parent := v\<rparr> else entry s y)"
  "entry (put_color s x c) y = (if y = x then (entry s x)\<lparr>rbe_color := c\<rparr> else entry s y)"
  "rbh_root (put_left s x v) = rbh_root s" "rbh_root (put_right s x v) = rbh_root s"
  "rbh_root (put_parent s x v) = rbh_root s" "rbh_root (put_color s x c) = rbh_root s"
  by (simp_all add: put_left_def put_right_def put_parent_def put_color_def)

lemma zip_fields:
  assumes "zip_at s fs (mk d x c a b)"
  shows "child_at d s x = root_of a" "child_at (\<not> d) s x = root_of b" "RB_PARENT s x = parent_of fs" "RB_COLOR s x = c" "x \<noteq> 0"
  using assms by (cases d; simp add: zip_at_def link_def child_at_def RB_LEFT_def RB_RIGHT_def RB_PARENT_def RB_COLOR_def)+

lemma zip_recolor:
  assumes "zip_at s fs (mk d x c a b)"
  shows "zip_at (put_color s x k) fs (mk d x k a b)"
proof -
  have "x \<notin> set (frame_addrs fs)" "x \<notin> set (addrs a)" "x \<notin> set (addrs b)"
    using assms by (auto simp: zip_at_def addrs_mk)
  then have same: "rep (entry (put_color s x k)) x a = rep (entry s) x a" "rep (entry (put_color s x k)) x b = rep (entry s) x b"
    "ctx (entry (put_color s x k)) x fs (rbh_root s) = ctx (entry s) x fs (rbh_root s)"
    by (auto intro!: rep_cong ctx_cong)
  then show ?thesis using assms by (simp add: zip_at_def addrs_mk link_def)
qed

section \<open>Rotations\<close>

definition rotate_to :: "bool \<Rightarrow> rb_state \<Rightarrow> addr \<Rightarrow> rb_state" where
  "rotate_to d s elm =
     (let tmp = child_at (\<not> d) s elm;
          s = put_child (\<not> d) s elm (child_at d s tmp);
          s = (if child_at (\<not> d) s elm \<noteq> 0 then put_parent s (child_at d s tmp) elm else s);
          s = put_parent s tmp (RB_PARENT s elm);
          s = (if RB_PARENT s tmp \<noteq> 0
               then if elm = RB_LEFT s (RB_PARENT s elm) then put_left s (RB_PARENT s elm) tmp
                    else put_right s (RB_PARENT s elm) tmp
               else s\<lparr>rbh_root := tmp\<rparr>);
          s = put_child d s tmp elm
      in put_parent s elm tmp)"

lemma rotate_sides: "RB_ROTATE_LEFT s x = rotate_to True s x" "RB_ROTATE_RIGHT s x = rotate_to False s x"
  by (simp_all add: RB_ROTATE_LEFT_def RB_ROTATE_RIGHT_def rotate_to_def child_at_def put_child_def Let_def)

text \<open>What is apart when the rotated nodes are in their place.\<close>

lemma rotate_apart:
  assumes "zip_at s fs (mk d x c a (mk d y e b g))"
  shows "x \<noteq> 0" "y \<noteq> 0" "x \<noteq> y" "root_of b \<noteq> x" "root_of b \<noteq> y" "parent_of fs \<noteq> x" "parent_of fs \<noteq> y"
    "root_of b \<noteq> 0 \<Longrightarrow> parent_of fs \<noteq> root_of b"
    "entry s x = link d (parent_of fs) c (root_of a) y" "entry s y = link d x e (root_of b) (root_of g)"
proof -
  have dist: "distinct (frame_addrs fs @ addrs (mk d x c a (mk d y e b g)))" using assms by (simp add: zip_at_def)
  show nz: "x \<noteq> 0" "y \<noteq> 0" and "entry s x = link d (parent_of fs) c (root_of a) y"
    "entry s y = link d x e (root_of b) (root_of g)"
    using assms by (auto simp: zip_at_def)
  have rb: "rep (entry s) y b" using assms by (simp add: zip_at_def)
  show "x \<noteq> y" using dist by (simp add: addrs_mk)
  show "root_of b \<noteq> x" "root_of b \<noteq> y"
    using dist nz root_of_in [of b] by (cases "b = Leaf"; auto simp: addrs_mk)+
  show "parent_of fs \<noteq> x" "parent_of fs \<noteq> y"
    using dist nz parent_of_in [of fs] by (cases "fs = []"; auto simp: addrs_mk)+
  show "parent_of fs \<noteq> root_of b" if "root_of b \<noteq> 0"
    using dist that root_of_in [of b] parent_of_in [of fs] root_of_zero [OF rb]
    by (cases "fs = []"; auto simp: addrs_mk)
qed

lemma child_put_color [simp]: "child_at d (put_color s x c) y = child_at d s y" "RB_PARENT (put_color s x c) y = RB_PARENT s y"
  by (simp_all add: child_at_def RB_LEFT_def RB_RIGHT_def RB_PARENT_def)

lemma put_child_fields [simp]:
  "entry (put_child d s x v) y = (if y = x then (if d then (entry s x)\<lparr>rbe_left := v\<rparr> else (entry s x)\<lparr>rbe_right := v\<rparr>)
    else entry s y)"
  "rbh_root (put_child d s x v) = rbh_root s"
  by (simp_all add: put_child_def)

text \<open>A rotation as plain assignments, and the entries after it.\<close>

lemma rotate_eq:
  assumes z: "zip_at s fs (mk d x c a (mk d y e b g))"
  defines "s1 \<equiv> put_child (\<not> d) s x (root_of b)"
  defines "s2 \<equiv> (if root_of b \<noteq> 0 then put_parent s1 (root_of b) x else s1)"
  defines "s3 \<equiv> put_parent s2 y (parent_of fs)"
  defines "s4 \<equiv> (if parent_of fs \<noteq> 0 then if x = RB_LEFT s (parent_of fs) then put_left s3 (parent_of fs) y else put_right s3 (parent_of fs) y
      else s3\<lparr>rbh_root := y\<rparr>)"
  shows "rotate_to d s x = put_parent (put_child d s4 y x) x y"
proof -
  note ap = rotate_apart [OF z]
  have 1: "child_at (\<not> d) s x = y" "child_at d s y = root_of b" "child_at (\<not> d) s1 x = root_of b" "child_at d s1 y = root_of b"
    using ap by (cases d; simp add: child_at_def RB_LEFT_def RB_RIGHT_def s1_def link_def)+
  have 2: "RB_PARENT s2 x = parent_of fs" using ap by (auto simp: s2_def s1_def RB_PARENT_def link_def)
  have 3: "RB_PARENT s3 y = parent_of fs" "RB_PARENT s3 x = parent_of fs" "RB_LEFT s3 (parent_of fs) = RB_LEFT s (parent_of fs)"
    using 2 ap by (auto simp: s3_def s2_def s1_def RB_PARENT_def RB_LEFT_def)
  show ?thesis
    unfolding rotate_to_def Let_def 1(1,2) s1_def [symmetric] 1(3,4) s2_def [symmetric] 2 s3_def [symmetric] 3 s4_def [symmetric] ..
qed

lemma rotate_entries:
  assumes z: "zip_at s fs (mk d x c a (mk d y e b g))"
  shows "entry (rotate_to d s x) x = link d y c (root_of a) (root_of b)"
    "entry (rotate_to d s x) y = link d (parent_of fs) e x (root_of g)"
    "root_of b \<noteq> 0 \<Longrightarrow> entry (rotate_to d s x) (root_of b) = (entry s (root_of b))\<lparr>rbe_parent := x\<rparr>"
    "rbh_root (rotate_to d s x) = (if fs = [] then y else rbh_root s)"
    "fs \<noteq> [] \<Longrightarrow> entry (rotate_to d s x) (parent_of fs) = (if x = RB_LEFT s (parent_of fs)
       then (entry s (parent_of fs))\<lparr>rbe_left := y\<rparr> else (entry s (parent_of fs))\<lparr>rbe_right := y\<rparr>)"
  using rotate_apart [OF z] zip_parent [OF z] unfolding rotate_eq [OF z]
  by (auto simp: link_def)

lemma rotate_others:
  assumes z: "zip_at s fs (mk d x c a (mk d y e b g))"
    and "z \<noteq> x" "z \<noteq> y" "z \<noteq> parent_of fs \<or> z = 0" "z \<noteq> root_of b \<or> z = 0"
  shows "entry (rotate_to d s x) z = entry s z"
  using assms(2-) unfolding rotate_eq [OF z] by (cases "root_of b = 0"; cases "parent_of fs = 0") auto

lemma ctx_nonzero: "ctx N p fs root \<Longrightarrow> 0 \<notin> set (frame_addrs fs)"
  by (induction N p fs root rule: ctx.induct) (auto dest: rep_nonzero)

lemma rep_reparent:
  assumes "rep N p t" "distinct (addrs t)" "root_of t \<noteq> 0 \<Longrightarrow> N' (root_of t) = (N (root_of t))\<lparr>rbe_parent := q\<rparr>"
    "\<And>z. z \<in> set (addrs t) \<Longrightarrow> z \<noteq> root_of t \<Longrightarrow> N' z = N z"
  shows "rep N' q t"
proof (cases "t = Leaf")
  case False
  then obtain x c a b where t: "t = mk True x c a b" by (rule mk_cases)
  have "rep N' x a = rep N x a" "rep N' x b = rep N x b"
    using assms(2,4) by (auto simp: t addrs_mk intro!: rep_cong)
  then show ?thesis using assms(1,3) by (simp add: t link_def)
qed simp

text \<open>Another tree below the frames: the lowest one points to it.\<close>

lemma ctx_redirect:
  assumes "ctx N x fs root" "distinct (frame_addrs fs)" "x \<noteq> 0" "x \<notin> set (frame_addrs fs)"
    and "\<And>z. z \<in> set (frame_addrs fs) \<Longrightarrow> z \<noteq> parent_of fs \<Longrightarrow> N' z = N z"
    and "fs \<noteq> [] \<Longrightarrow> N' (parent_of fs) = (if x = rbe_left (N (parent_of fs))
       then (N (parent_of fs))\<lparr>rbe_left := y\<rparr> else (N (parent_of fs))\<lparr>rbe_right := y\<rparr>)"
    and "root' = (if fs = [] then y else root)"
  shows "ctx N' y fs root'"
proof (cases fs rule: parent_of.cases)
  case (2 d q k u fs')
  have same: "ctx N' q fs' root = ctx N q fs' root" "rep N' q u = rep N q u"
    using assms(2,5) by (auto simp: 2 intro!: ctx_cong rep_cong)
  have "root_of u \<noteq> x" using assms(3,4) root_of_in [of u] by (cases "u = Leaf") (auto simp: 2)
  then show ?thesis using assms(1,6,7) same by (auto simp: 2 link_def)
qed (use assms in simp)

lemma zip_rotate:
  assumes z: "zip_at s fs (mk d x c a (mk d y e b g))"
  shows "zip_at (rotate_to d s x) fs (mk d y e (mk d x c a b) g)"
proof -
  note en = rotate_entries [OF z] and ap = rotate_apart [OF z]
  have dist: "distinct (frame_addrs fs @ addrs (mk d x c a (mk d y e b g)))" using z by (simp add: zip_at_def)
  have r: "rep (entry s) x a" "rep (entry s) y b" "rep (entry s) y g" "ctx (entry s) x fs (rbh_root s)"
    using z by (auto simp: zip_at_def)
  have out: "root_of b \<in> set (addrs b) \<or> root_of b = 0" "parent_of fs \<in> set (frame_addrs fs) \<or> parent_of fs = 0"
    using root_of_in [of b] parent_of_in [of fs] by (cases "b = Leaf"; simp; cases "fs = []"; simp)+
  have nz: "0 \<notin> set (addrs a)" "0 \<notin> set (addrs b)" "0 \<notin> set (addrs g)" using r rep_nonzero by blast+
  let ?N = "entry (rotate_to d s x)"
  have same: "?N z = entry s z" if "z \<in> set (addrs a) \<union> set (addrs g)" for z
    using that dist out nz by (intro rotate_others [OF z]) (auto simp: addrs_mk)
  have "rep ?N x a" "rep ?N y g" using r(1,3) same rep_cong [of a ?N] rep_cong [of g ?N] by auto
  moreover have "rep ?N x b"
  proof (rule rep_reparent [OF r(2)])
    show "?N z = entry s z" if "z \<in> set (addrs b)" "z \<noteq> root_of b" for z
      using that dist out nz by (intro rotate_others [OF z]) (auto simp: addrs_mk)
  qed (use dist en(3) in \<open>auto simp: addrs_mk\<close>)
  moreover have "ctx ?N y fs (rbh_root (rotate_to d s x))"
  proof (rule ctx_redirect [OF r(4)])
    have fz: "0 \<notin> set (frame_addrs fs)" using ctx_nonzero [OF r(4)] .
    show "?N z = entry s z" if "z \<in> set (frame_addrs fs)" "z \<noteq> parent_of fs" for z
      using that dist out fz by (intro rotate_others [OF z]) (auto simp: addrs_mk)
  qed (use dist ap(1) en(4,5) in \<open>auto simp: addrs_mk RB_LEFT_def\<close>)
  ultimately show ?thesis using en(1,2) ap(1,2) dist by (auto simp: zip_at_def addrs_mk)
qed

lemma rotate_kept:
  assumes z: "zip_at s fs (mk d x c a (mk d y e b g))"
  shows "kept_outside s (rotate_to d s x) (set (addrs (plug fs (mk d x c a (mk d y e b g)))))"
proof -
  have out: "root_of b \<in> set (addrs b) \<or> root_of b = 0" "parent_of fs \<in> set (frame_addrs fs) \<or> parent_of fs = 0"
    using root_of_in [of b] parent_of_in [of fs] by (cases "b = Leaf"; simp; cases "fs = []"; simp)+
  then show ?thesis
    unfolding kept_outside_def set_plug by (intro allI impI rotate_others [OF z]) (auto simp: addrs_mk)
qed

lemma recolor_kept: "x \<in> A \<Longrightarrow> kept_outside s (put_color s x c) A"
  by (auto simp: kept_outside_def)

section \<open>Steps\<close>

text \<open>
  From the state of one tree to that of another with the same elements in the same order, where
  the entries of other elements stay.
\<close>

definition moved :: "rb_state \<Rightarrow> ctree \<Rightarrow> rb_state \<Rightarrow> ctree \<Rightarrow> bool" where
  "moved s t s' t' \<longleftrightarrow> rb_at s' t' \<and> addrs t' = addrs t \<and> kept_outside s s' (set (addrs t))"

lemma moved_refl: "rb_at s t \<Longrightarrow> moved s t s t"
  by (simp add: moved_def)

lemma moved_trans: "moved s t s' t' \<Longrightarrow> moved s' t' s'' t'' \<Longrightarrow> moved s t s'' t''"
  by (auto simp: moved_def intro: kept_outside_trans)

lemma moved_zip: "moved s t s' (plug fs t') \<Longrightarrow> zip_at s' fs t'"
  by (simp add: moved_def zip_plug)

lemma moved_recolor:
  assumes "zip_at s fs (mk d x c a b)"
  shows "moved s (plug fs (mk d x c a b)) (put_color s x k) (plug fs (mk d x k a b))"
  using zip_recolor [OF assms, of k] unfolding moved_def zip_plug
  by (auto simp: set_plug addrs_mk addrs_plug intro!: recolor_kept) (simp add: mk_def)

lemma moved_rotate:
  assumes "zip_at s fs (mk d x c a (mk d y e b g))"
  shows "moved s (plug fs (mk d x c a (mk d y e b g))) (rotate_to d s x) (plug fs (mk d y e (mk d x c a b) g))"
  using zip_rotate [OF assms] rotate_kept [OF assms] unfolding moved_def zip_plug by (simp add: addrs_plug mk_def)

text \<open>The tests of the code for the colour and the side of a subtree.\<close>

lemma zip_color:
  assumes "zip_at s fs t"
  shows "root_of t = 0 \<or> RB_COLOR s (root_of t) = RB_BLACK \<longleftrightarrow> color_of t = RB_BLACK" "root_of t = 0 \<longleftrightarrow> t = Leaf"
    "t \<noteq> Leaf \<Longrightarrow> RB_COLOR s (root_of t) = color_of t"
proof -
  show zero: "root_of t = 0 \<longleftrightarrow> t = Leaf" using assms root_of_zero by (auto simp: zip_at_def)
  show col: "t \<noteq> Leaf \<Longrightarrow> RB_COLOR s (root_of t) = color_of t"
    using zip_fields(4) assms by (metis mk_cases root_of_mk color_of_mk)
  show "root_of t = 0 \<or> RB_COLOR s (root_of t) = RB_BLACK \<longleftrightarrow> color_of t = RB_BLACK"
    using col zero by (cases "t = Leaf") auto
qed

lemma zip_roots:
  assumes "zip_at s fs (mk d g c t u)" "t \<noteq> Leaf"
  shows "root_of t \<noteq> root_of u"
  using assms root_of_in [OF assms(2)] root_of_in [of u] root_of_zero [of "entry s" g t]
  by (cases "u = Leaf") (auto simp: zip_at_def addrs_mk)

lemma zip_side:
  assumes "zip_at s fs (mk d g c t u)" "t \<noteq> Leaf \<or> u \<noteq> Leaf"
  shows "d \<longleftrightarrow> RB_LEFT s g = root_of t" "child_at d' s g = root_of t \<longleftrightarrow> d' = d"
proof -
  have "zip_at s fs (mk (\<not> d) g c u t)" using assms(1) by (simp add: mk_flip)
  then have "root_of t \<noteq> root_of u" using zip_roots [OF assms(1)] zip_roots [of s fs "\<not> d" g c u t] assms(2) by fastforce
  then show "d \<longleftrightarrow> RB_LEFT s g = root_of t" "child_at d' s g = root_of t \<longleftrightarrow> d' = d"
    using zip_fields(1,2) [OF assms(1)] by (cases d; cases d'; auto simp: child_at_def)+
qed

lemma zip_not_root:
  assumes "zip_at s fs t" "fs \<noteq> []"
  shows "root_of t \<noteq> rbh_root s"
proof -
  have "ctx N p fs root \<Longrightarrow> fs \<noteq> [] \<Longrightarrow> root \<in> set (frame_addrs fs)" for N p root
    by (induction N p fs root rule: ctx.induct) (auto, metis ctx.simps(1) list.exhaust)
  then have "rbh_root s \<in> set (frame_addrs fs)" using assms by (auto simp: zip_at_def)
  moreover have "root_of t \<notin> set (frame_addrs fs)"
    using assms(1) root_of_in [of t] ctx_nonzero [of "entry s" "root_of t" fs "rbh_root s"] by (cases "t = Leaf") (auto simp: zip_at_def)
  ultimately show ?thesis by metis
qed

section \<open>The balance of a tree\<close>

text \<open>
  The conditions of a red-black tree as the header states them: every path has the same number
  of black nodes, and a red node has no red child. They are local: a subtree may be replaced by
  one of the same black height whose root is no redder.
\<close>

fun bheight :: "ctree \<Rightarrow> nat" where
  "bheight Leaf = 0"
| "bheight (Node l (x, c) r) = (if c = RB_BLACK then bheight l + 1 else bheight l)"

fun invh :: "ctree \<Rightarrow> bool" where
  "invh Leaf \<longleftrightarrow> True"
| "invh (Node l (x, c) r) \<longleftrightarrow> bheight l = bheight r \<and> invh l \<and> invh r"

fun invc :: "ctree \<Rightarrow> bool" where
  "invc Leaf \<longleftrightarrow> True"
| "invc (Node l (x, c) r) \<longleftrightarrow> (c = RB_BLACK \<or> c = RB_RED \<and> color_of l = RB_BLACK \<and> color_of r = RB_BLACK) \<and> invc l \<and> invc r"

definition rb_inv :: "ctree \<Rightarrow> bool" where
  "rb_inv t \<longleftrightarrow> invh t \<and> invc t \<and> color_of t = RB_BLACK"

lemma colors [simp]: "RB_BLACK \<noteq> RB_RED" "RB_RED \<noteq> RB_BLACK"
  by (simp_all add: RB_BLACK_def RB_RED_def)

lemma inv_mk [simp]:
  "invh (mk d x c a b) \<longleftrightarrow> bheight a = bheight b \<and> invh a \<and> invh b"
  "invc (mk d x c a b) \<longleftrightarrow> (c = RB_BLACK \<or> c = RB_RED \<and> color_of a = RB_BLACK \<and> color_of b = RB_BLACK) \<and> invc a \<and> invc b"
  by (auto simp: mk_def)

lemma bheight_mk: "bheight a = bheight b \<Longrightarrow> bheight (mk d x c a b) = (if c = RB_BLACK then bheight b + 1 else bheight b)"
  by (simp add: mk_def)

lemma invh_plug:
  "invh (plug fs t) \<Longrightarrow> invh t \<and> (invh t' \<longrightarrow> bheight t' = bheight t \<longrightarrow> invh (plug fs t'))"
proof (induction fs arbitrary: t t')
  case (Cons f fs)
  obtain d x c u where f: "f = (d, x, c, u)" by (cases f) auto
  have "invh (plug fs (mk d x c t u))" using Cons(2) by (simp add: f)
  note ih = Cons(1) [OF this, of "mk d x c t' u"]
  then have "bheight t = bheight u" "invh t" "invh u" by simp_all
  then show ?case using ih bheight_mk [of t u d x c] bheight_mk [of t' u d x c] by (auto simp: f)
qed simp

lemma invc_plug:
  "invc (plug fs t) \<Longrightarrow> invc t \<and> (invc t' \<longrightarrow> color_of t' = RB_BLACK \<or> color_of t' = color_of t \<longrightarrow> invc (plug fs t'))"
proof (induction fs arbitrary: t t')
  case (Cons f fs)
  obtain d x c u where f: "f = (d, x, c, u)" by (cases f) auto
  have "invc (plug fs (mk d x c t u))" using Cons(2) by (simp add: f)
  note ih = Cons(1) [OF this, of "mk d x c t' u"]
  then show ?case by (auto simp: f)
qed simp

lemma invh_sub: "invh (plug fs t) \<Longrightarrow> invh t"
  and invh_replace: "invh (plug fs t) \<Longrightarrow> invh t' \<Longrightarrow> bheight t' = bheight t \<Longrightarrow> invh (plug fs t')"
  using invh_plug by blast+

lemma invc_sub: "invc (plug fs t) \<Longrightarrow> invc t"
  and invc_replace: "invc (plug fs t) \<Longrightarrow> invc t' \<Longrightarrow> color_of t' = RB_BLACK \<or> color_of t' = color_of t \<Longrightarrow> invc (plug fs t')"
  using invc_plug by blast+

lemma color_plug: "fs \<noteq> [] \<Longrightarrow> color_of (plug fs t) = color_of (plug fs t')"
proof (induction fs arbitrary: t t')
  case (Cons f fs)
  obtain d x c u where f: "f = (d, x, c, u)" by (cases f) auto
  show ?case using Cons(1) [of "mk d x c t u" "mk d x c t' u"] by (cases "fs = []") (auto simp: f)
qed simp

lemma inv_black_root: "invh (mk d x c a b) \<Longrightarrow> invc (mk d x c a b) \<Longrightarrow> rb_inv (mk d x RB_BLACK a b)"
  by (auto simp: rb_inv_def)

definition repaired :: "rb_state \<Rightarrow> ctree \<Rightarrow> rb_state \<Rightarrow> bool" where
  "repaired s t s' \<longleftrightarrow> (\<exists>t'. moved s t s' t' \<and> rb_inv t')"

lemma repaired_after: "moved s t s' t' \<Longrightarrow> repaired s' t' s'' \<Longrightarrow> repaired s t s''"
  unfolding repaired_def using moved_trans by blast

lemma blacken_root:
  assumes "zip_at s fs t" "t \<noteq> Leaf" "invh (plug fs t)" "invc (plug fs t)"
  shows "repaired s (plug fs t) (put_color s (rbh_root s) RB_BLACK)"
proof -
  have "plug fs t \<noteq> Leaf" using assms(1,2) set_plug [of fs t] root_of_in [OF assms(2)] by auto
  then obtain r k l q where T: "plug fs t = mk True r k l q" by (rule mk_cases)
  have at: "zip_at s [] (mk True r k l q)" using assms(1) by (simp add: zip_plug T)
  have root: "rbh_root s = r" using at by (simp add: rb_at_def)
  have "moved s (plug fs t) (put_color s (rbh_root s) RB_BLACK) (mk True r RB_BLACK l q)"
    using moved_recolor [OF at, of RB_BLACK] unfolding T root by simp
  moreover have "rb_inv (mk True r RB_BLACK l q)" using assms(3,4) unfolding T by (rule inv_black_root)
  ultimately show ?thesis by (auto simp: repaired_def)
qed

end
