(* ===== verification/RbInsert.thy ===== *)
theory RbInsert
  imports RbMoves
begin

text \<open>
  Insertion into a red-black tree: \<open>RB_INSERT\<close> and \<open>RB_INSERT_COLOR\<close> of sys/tree.h, and that the
  tree afterwards is a red-black tree with the new element at its place.
\<close>

section \<open>The code\<close>

partial_function (option) RB_INSERT_COLOR :: "rb_state \<Rightarrow> addr \<Rightarrow> rb_state option" where
  "RB_INSERT_COLOR s elm =
     (let parent = RB_PARENT s elm in
      if parent \<noteq> 0 \<and> RB_COLOR s parent = RB_RED then
        let gparent = RB_PARENT s parent in
        if parent = RB_LEFT s gparent then
          let tmp = RB_RIGHT s gparent in
          if tmp \<noteq> 0 \<and> RB_COLOR s tmp = RB_RED then
            RB_INSERT_COLOR (RB_SET_BLACKRED (put_color s tmp RB_BLACK) parent gparent) gparent
          else
            let (s, parent, elm) = (if RB_RIGHT s parent = elm then (RB_ROTATE_LEFT s parent, elm, parent)
                                    else (s, parent, elm));
                s = RB_SET_BLACKRED s parent gparent
            in RB_INSERT_COLOR (RB_ROTATE_RIGHT s gparent) elm
        else
          let tmp = RB_LEFT s gparent in
          if tmp \<noteq> 0 \<and> RB_COLOR s tmp = RB_RED then
            RB_INSERT_COLOR (RB_SET_BLACKRED (put_color s tmp RB_BLACK) parent gparent) gparent
          else
            let (s, parent, elm) = (if RB_LEFT s parent = elm then (RB_ROTATE_RIGHT s parent, elm, parent)
                                    else (s, parent, elm));
                s = RB_SET_BLACKRED s parent gparent
            in RB_INSERT_COLOR (RB_ROTATE_LEFT s gparent) elm
      else Some (put_color s (rbh_root s) RB_BLACK))"

text \<open>The descent of \<open>RB_INSERT\<close>: an equal element, or the last one with the comparison there.\<close>

partial_function (option) insert_loop ::
    "(addr \<Rightarrow> addr \<Rightarrow> int) \<Rightarrow> rb_state \<Rightarrow> addr \<Rightarrow> addr \<Rightarrow> addr \<Rightarrow> int \<Rightarrow> (addr + addr \<times> int) option" where
  "insert_loop cmp s elm tmp parent order =
     (if tmp \<noteq> 0 then
        let parent = tmp; order = cmp elm parent in
        if order < 0 then insert_loop cmp s elm (RB_LEFT s tmp) parent order
        else if order > 0 then insert_loop cmp s elm (RB_RIGHT s tmp) parent order
        else Some (Inl tmp)
      else Some (Inr (parent, order)))"

definition RB_INSERT :: "(addr \<Rightarrow> addr \<Rightarrow> int) \<Rightarrow> rb_state \<Rightarrow> addr \<Rightarrow> (addr \<times> rb_state) option" where
  "RB_INSERT cmp s elm =
     Option.bind (insert_loop cmp s elm (rbh_root s) 0 0) (\<lambda>r. case r of
       Inl tmp \<Rightarrow> Some (tmp, s)
     | Inr (parent, order) \<Rightarrow>
         let s = RB_SET s elm parent;
             s = (if parent \<noteq> 0 then if order < 0 then put_left s parent elm else put_right s parent elm
                  else s\<lparr>rbh_root := elm\<rparr>)
         in Option.bind (RB_INSERT_COLOR s elm) (\<lambda>s. Some (0, s)))"

section \<open>The repair\<close>

text \<open>One round of the loop, for both sides.\<close>

lemma insert_color_stop:
  "RB_PARENT s elm = 0 \<or> RB_COLOR s (RB_PARENT s elm) \<noteq> RB_RED \<Longrightarrow>
    RB_INSERT_COLOR s elm = Some (put_color s (rbh_root s) RB_BLACK)"
  by (subst RB_INSERT_COLOR.simps) (auto simp: Let_def)

lemma insert_color_round:
  assumes "RB_PARENT s elm = p" "p \<noteq> 0" "RB_COLOR s p = RB_RED" "RB_PARENT s p = g" "d \<longleftrightarrow> RB_LEFT s g = p"
  shows "RB_INSERT_COLOR s elm =
    (if child_at (\<not> d) s g \<noteq> 0 \<and> RB_COLOR s (child_at (\<not> d) s g) = RB_RED
     then RB_INSERT_COLOR (RB_SET_BLACKRED (put_color s (child_at (\<not> d) s g) RB_BLACK) p g) g
     else if child_at (\<not> d) s p = elm
     then RB_INSERT_COLOR (rotate_to (\<not> d) (RB_SET_BLACKRED (rotate_to d s p) elm g) g) p
     else RB_INSERT_COLOR (rotate_to (\<not> d) (RB_SET_BLACKRED s p g) g) elm)"
  using assms by (subst RB_INSERT_COLOR.simps) (cases d; auto simp: Let_def child_at_def rotate_sides)

text \<open>
  The red element in its place, with everything right but perhaps the colour of its parent.
\<close>

definition one_red :: "frame list \<Rightarrow> ctree \<Rightarrow> bool" where
  "one_red fs t \<longleftrightarrow> invh (plug fs t) \<and> invc t \<and> color_of t = RB_RED \<and>
     (\<forall>t'. invc t' \<longrightarrow> color_of t' = RB_BLACK \<longrightarrow> invc (plug fs t')) \<and>
     (fs \<noteq> [] \<longrightarrow> color_of (plug fs t) = RB_BLACK)"

text \<open>The loop ends below a black node or at the root.\<close>

lemma insert_color_finish:
  assumes z: "zip_at s fs t" and t: "t \<noteq> Leaf" and up: "fs = [] \<or> fs = (d, p, RB_BLACK, u) # gs"
    and inv: "invh (plug fs t)" "invc (plug fs t)"
  obtains s' where "RB_INSERT_COLOR s (root_of t) = Some s'" "repaired s (plug fs t) s'"
proof -
  obtain x c a b where x: "t = mk True x c a b" using t by (rule mk_cases)
  have stop: "RB_PARENT s x = 0 \<or> RB_COLOR s (RB_PARENT s x) \<noteq> RB_RED"
    using up zip_fields [OF z [unfolded x]] z zip_fields(4) [of s gs d p RB_BLACK t u] by (auto simp: zip_Cons)
  have "repaired s (plug fs t) (put_color s (rbh_root s) RB_BLACK)"
    using blacken_root [OF z t inv] .
  then show thesis using that insert_color_stop [OF stop] by (simp add: x)
qed

lemma recolor_round:
  assumes "zip_at s hs (mk d2 g c2 (mk d1 p c1 t u1) (mk d3 w c3 ua ub))"
  shows "moved s (plug hs (mk d2 g c2 (mk d1 p c1 t u1) (mk d3 w c3 ua ub)))
    (RB_SET_BLACKRED (put_color s w RB_BLACK) p g)
    (plug hs (mk d2 g RB_RED (mk d1 p RB_BLACK t u1) (mk d3 w RB_BLACK ua ub)))"
proof -
  have "zip_at s ((\<not> d2, g, c2, mk d1 p c1 t u1) # hs) (mk d3 w c3 ua ub)" using assms by (simp add: zip_Cons mk_flip)
  note m1 = moved_recolor [OF this, of RB_BLACK, unfolded plug.simps mk_flip]
  note m2 = moved_recolor [OF moved_zip [OF m1, THEN zip_Cons [THEN iffD2]], of RB_BLACK, unfolded plug.simps]
  note m3 = moved_recolor [OF moved_zip [OF m2], of RB_RED]
  show ?thesis unfolding RB_SET_BLACKRED_def by (rule moved_trans [OF moved_trans [OF m1 m2] m3])
qed

lemma outer_round:
  assumes "zip_at s hs (mk d g c2 (mk d p c1 t u1) u2)"
  shows "moved s (plug hs (mk d g c2 (mk d p c1 t u1) u2)) (rotate_to (\<not> d) (RB_SET_BLACKRED s p g) g)
    (plug hs (mk (\<not> d) p RB_BLACK (mk (\<not> d) g RB_RED u2 u1) t))"
proof -
  note m1 = moved_recolor [OF assms [THEN zip_Cons [THEN iffD2]], of RB_BLACK, unfolded plug.simps]
  note m2 = moved_recolor [OF moved_zip [OF m1], of RB_RED]
  have "mk d g RB_RED (mk d p RB_BLACK t u1) u2 = mk (\<not> d) g RB_RED u2 (mk (\<not> d) p RB_BLACK u1 t)"
    by (simp add: mk_flip)
  note m3 = moved_rotate [OF moved_zip [OF m2, unfolded this], folded this]
  show ?thesis unfolding RB_SET_BLACKRED_def by (rule moved_trans [OF moved_trans [OF m1 m2] m3])
qed

lemma red_above_not_root:
  assumes "one_red ((d1, p, RB_RED, u1) # gs) t"
  obtains d2 g u2 hs where "gs = (d2, g, RB_BLACK, u2) # hs" "color_of u1 = RB_BLACK" "invc u1" "invc u2"
    "bheight u1 = bheight t" "bheight u2 = bheight t" "invh t" "invh u1" "invh u2"
proof -
  have one: "invh (plug gs (mk d1 p RB_RED t u1))" "invc t" "color_of t = RB_RED"
    "color_of (plug gs (mk d1 p RB_RED t u1)) = RB_BLACK"
    and c: "invc (plug gs (mk d1 p RB_RED Leaf u1))"
    using assms by (auto simp: one_red_def dest: spec [of _ Leaf])
  have "gs \<noteq> []" using one(4) by auto
  then obtain d2 g c2 u2 hs where gs: "gs = (d2, g, c2, u2) # hs" by (cases gs rule: parent_of.cases) auto
  have "invc (mk d2 g c2 (mk d1 p RB_RED Leaf u1) u2)" using invc_sub c unfolding gs plug.simps .
  moreover have h: "invh (mk d2 g c2 (mk d1 p RB_RED t u1) u2)" using invh_sub one(1) unfolding gs plug.simps .
  then have "bheight (mk d1 p RB_RED t u1) = bheight u1" using bheight_mk [of t u1 d1 p RB_RED] by simp
  ultimately have "c2 = RB_BLACK" "color_of u1 = RB_BLACK" "invc u1" "invc u2" "bheight t = bheight u1"
    "bheight u2 = bheight u1" "invh t" "invh u1" "invh u2" using h by simp_all
  then show thesis by (intro that [of d2 g u2 hs]) (simp_all add: gs)
qed

text \<open>An uncle that is red: the grandparent becomes the red node that may be wrong.\<close>

lemma one_red_up:
  assumes "one_red ((d1, p, RB_RED, u1) # (d2, g, RB_BLACK, mk d3 w RB_RED ua ub) # hs) t"
  shows "one_red hs (mk d2 g RB_RED (mk d1 p RB_BLACK t u1) (mk d3 w RB_BLACK ua ub))"
proof -
  let ?old = "\<lambda>t. mk d2 g RB_BLACK (mk d1 p RB_RED t u1) (mk d3 w RB_RED ua ub)"
  let ?new = "mk d2 g RB_RED (mk d1 p RB_BLACK t u1) (mk d3 w RB_BLACK ua ub)"
  have one: "invh (plug hs (?old t))" "invc t" "color_of (plug hs (?old t)) = RB_BLACK"
    and c: "invc (plug hs (?old Leaf))"
    using assms by (auto simp: one_red_def dest: spec [of _ Leaf])
  note h = invh_sub [OF one(1)] and oc = invc_sub [OF c]
  have bh: "bheight t = bheight u1" "bheight ua = bheight ub" "bheight (mk d1 p RB_RED t u1) = bheight (mk d3 w RB_RED ua ub)"
    using h by simp_all
  then have "bheight u1 = bheight ub" using bheight_mk [of t u1] bheight_mk [of ua ub] by simp
  then have "invh ?new" "bheight ?new = bheight (?old t)" using h bh by (simp_all add: bheight_mk)
  then have "invh (plug hs ?new)" by (rule invh_replace [OF one(1)])
  moreover have "invc ?new" using oc one(2) by simp
  moreover have "invc (plug hs t')" if "invc t'" "color_of t' = RB_BLACK" for t'
    using invc_replace [OF c that(1)] that(2) by blast
  moreover have "color_of (plug hs ?new) = RB_BLACK" if "hs \<noteq> []" using color_plug [OF that] one(3) by metis
  ultimately show ?thesis by (simp add: one_red_def)
qed

text \<open>An uncle that is black: after the rotations every condition holds.\<close>

lemma outer_inv:
  assumes h: "invh (plug hs T)" and c: "invc (plug hs T')" and T: "bheight T = bheight u1 + 1" "color_of T' = RB_BLACK"
    and t: "invh t" "invc t" "bheight t = bheight u1" and u: "invh u1" "invc u1" "color_of u1 = RB_BLACK"
      "invh u2" "invc u2" "color_of u2 = RB_BLACK" "bheight u2 = bheight u1"
  shows "invh (plug hs (mk d p RB_BLACK (mk d g RB_RED u2 u1) t))" "invc (plug hs (mk d p RB_BLACK (mk d g RB_RED u2 u1) t))"
proof -
  let ?new = "mk d p RB_BLACK (mk d g RB_RED u2 u1) t"
  have "bheight (mk d g RB_RED u2 u1) = bheight u1" using u by (simp add: bheight_mk)
  then have "invh ?new" "bheight ?new = bheight T" using t u T by (simp_all add: bheight_mk)
  then show "invh (plug hs ?new)" by (rule invh_replace [OF h])
  show "invc (plug hs ?new)" by (rule invc_replace [OF c]) (use t u in auto)
qed

lemma finish_outer:
  assumes mv: "moved s T s' (plug hs (mk (\<not> d) p RB_BLACK u t))" and t: "t \<noteq> Leaf"
    and inv: "invh (plug hs (mk (\<not> d) p RB_BLACK u t))" "invc (plug hs (mk (\<not> d) p RB_BLACK u t))"
  shows "\<exists>s''. RB_INSERT_COLOR s' (root_of t) = Some s'' \<and> repaired s T s''"
proof -
  have eq: "plug hs (mk (\<not> d) p RB_BLACK u t) = plug ((d, p, RB_BLACK, u) # hs) t" by (simp add: mk_flip)
  obtain s'' where "RB_INSERT_COLOR s' (root_of t) = Some s''" "repaired s' (plug hs (mk (\<not> d) p RB_BLACK u t)) s''"
    using insert_color_finish [OF _ t disjI2 [OF refl]] inv moved_zip [OF mv [unfolded eq]] unfolding eq zip_plug by metis
  then show ?thesis using repaired_after [OF mv] by blast
qed

lemma root_red: "invc t \<Longrightarrow> \<not> (root_of t \<noteq> 0 \<and> color_of t = RB_RED) \<Longrightarrow> root_of t = 0 \<longrightarrow> t = Leaf \<Longrightarrow> color_of t = RB_BLACK"
  by (cases t rule: color_of.cases) auto

text \<open>Nothing is wrong when the parent is not red.\<close>

lemma insert_color_top:
  assumes z: "zip_at s fs t" and one: "one_red fs t" and none: "\<nexists>d1 p u1 gs. fs = (d1, p, RB_RED, u1) # gs"
  shows "\<exists>s'. RB_INSERT_COLOR s (root_of t) = Some s' \<and> repaired s (plug fs t) s'"
proof -
  have t: "t \<noteq> Leaf" "invc t" "color_of t = RB_RED" using one by (auto simp: one_red_def)
  have t0: "invc (plug fs Leaf)" using one by (auto simp: one_red_def dest: spec [of _ Leaf])
  have "(fs = [] \<or> (\<exists>d p u gs. fs = (d, p, RB_BLACK, u) # gs)) \<and> invc (plug fs t)"
  proof (cases fs rule: parent_of.cases)
    case (2 d p c u gs)
    have "invc (mk d p c Leaf u)" using invc_sub t0 unfolding 2 plug.simps .
    then have c: "c = RB_BLACK" "invc u" using none by (auto simp: 2)
    then have "invc (mk d p c t u)" using t(2) by simp
    then have "invc (plug gs (mk d p c t u))" using t0 invc_replace unfolding 2 plug.simps by (metis color_of_mk)
    then show ?thesis using c by (simp add: 2)
  qed (simp add: t)
  moreover have "invh (plug fs t)" using one by (simp add: one_red_def)
  ultimately show ?thesis using insert_color_finish [OF z t(1)] by metis
qed

text \<open>
  Below a red parent with a black uncle the grandparent is rotated away; when the new node is the
  inner grandchild, the parent is rotated first.
\<close>

lemma repairs_outer:
  assumes zg: "zip_at s hs (mk d g RB_BLACK (mk d p RB_RED t u1) u2)"
    and h: "invh (plug hs (mk d g RB_BLACK (mk d p RB_RED t u1) u2))"
    and c: "invc (plug hs (mk d g RB_BLACK (mk d p RB_RED Leaf u1) u2))"
    and t: "t \<noteq> Leaf" "invc t" "invh t" "bheight u1 = bheight t" "bheight u2 = bheight t"
    and u: "color_of u1 = RB_BLACK" "color_of u2 = RB_BLACK" "invc u1" "invc u2" "invh u1" "invh u2"
  shows "\<exists>s''. RB_INSERT_COLOR (rotate_to (\<not> d) (RB_SET_BLACKRED s p g) g) (root_of t) = Some s'' \<and>
    repaired s (plug hs (mk d g RB_BLACK (mk d p RB_RED t u1) u2)) s''"
proof -
  have T: "bheight (mk d g RB_BLACK (mk d p RB_RED t u1) u2) = bheight t + 1" using t(4,5) by (simp add: bheight_mk)
  have "invh (plug hs (mk (\<not> d) p RB_BLACK (mk (\<not> d) g RB_RED u2 u1) t))"
    "invc (plug hs (mk (\<not> d) p RB_BLACK (mk (\<not> d) g RB_RED u2 u1) t))"
    by (rule outer_inv [OF h c]; use u t T in simp)+
  then show ?thesis by (rule finish_outer [OF outer_round [OF zg] t(1)])
qed

lemma repairs_inner:
  fixes s :: rb_state
  defines "T \<equiv> \<lambda>d g p x a b u1 u2. mk d g RB_BLACK (mk d p RB_RED u1 (mk d x RB_RED a b)) u2"
  assumes zp: "zip_at s ((d, g, RB_BLACK, u2) # hs) (mk d p RB_RED u1 (mk d x RB_RED a b))"
    and h: "invh (plug hs (T d g p x a b u1 u2))"
    and c: "invc (plug hs (mk d g RB_BLACK (mk (\<not> d) p RB_RED Leaf u1) u2))"
    and t: "color_of a = RB_BLACK" "color_of b = RB_BLACK" "invc a" "invc b" "invh a" "invh b" "bheight a = bheight b"
      "bheight u1 = bheight b" "bheight u2 = bheight b"
    and u: "color_of u1 = RB_BLACK" "color_of u2 = RB_BLACK" "invc u1" "invc u2" "invh u1" "invh u2"
  shows "\<exists>s''. RB_INSERT_COLOR (rotate_to (\<not> d) (RB_SET_BLACKRED (rotate_to d s p) x g) g) p = Some s'' \<and>
    repaired s (plug hs (T d g p x a b u1 u2)) s''"
proof -
  note mv1 = moved_rotate [OF zp, unfolded plug.simps]
  note mv = moved_trans [OF mv1 outer_round [OF moved_zip [OF mv1]]]
  let ?p = "mk d p RB_RED u1 a"
  have p: "invh ?p" "invc ?p" "bheight ?p = bheight b" using t u by (simp_all add: bheight_mk)
  have B: "bheight (T d g p x a b u1 u2) = bheight b + 1" using t by (simp add: T_def bheight_mk)
  have inv: "invh (plug hs (mk (\<not> d) x RB_BLACK (mk (\<not> d) g RB_RED u2 b) ?p))"
    "invc (plug hs (mk (\<not> d) x RB_BLACK (mk (\<not> d) g RB_RED u2 b) ?p))"
    by (rule outer_inv [OF h c]; use t u p B in simp)+
  show ?thesis using finish_outer [OF mv mk_not_Leaf(1) inv] by (simp add: T_def)
qed

text \<open>The loop repairs the tree.\<close>

lemma insert_color_repairs:
  "zip_at s fs t \<Longrightarrow> one_red fs t \<Longrightarrow> \<exists>s'. RB_INSERT_COLOR s (root_of t) = Some s' \<and> repaired s (plug fs t) s'"
proof (induction "length fs" arbitrary: s fs t rule: less_induct)
  case less
  note z = less(2) and one = less(3)
  have t: "t \<noteq> Leaf" "invc t" "color_of t = RB_RED" using one by (auto simp: one_red_def)
  show ?case
  proof (cases "\<exists>d1 p u1 gs. fs = (d1, p, RB_RED, u1) # gs")
    case False
    then show ?thesis by (rule insert_color_top [OF z one])
  next
    case True
    then obtain d1 p u1 gs where red: "fs = (d1, p, RB_RED, u1) # gs" by blast
    obtain d2 g u2 hs where gs: "gs = (d2, g, RB_BLACK, u2) # hs" and u: "color_of u1 = RB_BLACK" "invc u1" "invc u2"
      "bheight u1 = bheight t" "bheight u2 = bheight t" "invh t" "invh u1" "invh u2"
      by (rule red_above_not_root [OF one [unfolded red]])
    let ?t1 = "mk d1 p RB_RED t u1"
    have zg: "zip_at s hs (mk d2 g RB_BLACK ?t1 u2)" and zp: "zip_at s ((d2, g, RB_BLACK, u2) # hs) ?t1"
      using z by (simp_all add: red gs zip_Cons)
    obtain x a b where x: "t = mk d2 x RB_RED a b" using t(1,3) by (metis mk_cases color_of_mk)
    have zx: "RB_PARENT s x = p" using zip_fields(3) z unfolding x red by fastforce
    note fp = zip_fields [OF zp] and fg = zip_fields [OF zg] and sp = zip_side [OF zp disjI1 [OF t(1)]]
    have side: "d2 \<longleftrightarrow> RB_LEFT s g = p" using zip_side(1) [OF zg] by simp
    have z2: "zip_at s ((\<not> d2, g, RB_BLACK, ?t1) # hs) u2" using zg by (simp add: zip_Cons mk_flip)
    have zero: "root_of u2 = 0 \<longrightarrow> u2 = Leaf" using z2 root_of_zero by (auto simp: zip_at_def)
    have col: "u2 \<noteq> Leaf \<Longrightarrow> RB_COLOR s (root_of u2) = color_of u2"
      using zip_fields(4) z2 by (metis mk_cases root_of_mk color_of_mk)
    have "RB_PARENT s p = g" using fp(3) by simp
    note round = insert_color_round [OF zx fp(5,4) this side, unfolded fg(2)]
    show ?thesis
    proof (cases "root_of u2 \<noteq> 0 \<and> RB_COLOR s (root_of u2) = RB_RED")
      case True
      then have "u2 \<noteq> Leaf" by auto
      then obtain w ua ub where w: "u2 = mk True w RB_RED ua ub" using mk_cases [of u2 True] col True by (metis color_of_mk)
      note mv = recolor_round [OF zg [unfolded w]] and up = one_red_up [OF one [unfolded red gs w]]
      show ?thesis
        using less(1) [OF _ moved_zip [OF mv] up] round True repaired_after [OF mv] by (auto simp: red gs w x)
    next
      case False
      have u2: "color_of u2 = RB_BLACK" using root_red [OF u(3) _ zero] False col by (cases "u2 = Leaf") auto
      have h: "invh (plug hs (mk d2 g RB_BLACK ?t1 u2))" using one by (simp add: one_red_def red gs)
      have c: "invc (plug hs (mk d2 g RB_BLACK (mk d1 p RB_RED Leaf u1) u2))"
        using one by (auto simp: one_red_def red gs dest: spec [of _ Leaf])
      show ?thesis
      proof (cases "d1 = d2")
        case True
        have "child_at (\<not> d2) s p \<noteq> x" using sp(2) [of "\<not> d2"] True by (auto simp: x)
        moreover have "\<exists>s''. RB_INSERT_COLOR (rotate_to (\<not> d2) (RB_SET_BLACKRED s p g) g) (root_of t) = Some s'' \<and>
            repaired s (plug hs (mk d2 g RB_BLACK (mk d2 p RB_RED t u1) u2)) s''"
          by (rule repairs_outer) (use zg h c t u u2 True in simp_all)
        ultimately show ?thesis using round False by (auto simp: red gs x True)
      next
        case inner: False
        then have d1: "d1 = (\<not> d2)" by auto
        have t1: "?t1 = mk d2 p RB_RED u1 (mk d2 x RB_RED a b)" by (simp add: d1 mk_flip x)
        have ab: "color_of a = RB_BLACK" "color_of b = RB_BLACK" "invc a" "invc b" "bheight a = bheight b" "invh a" "invh b"
          "bheight t = bheight b"
          using t(2) u(6) by (simp_all add: x bheight_mk)
        have "child_at (\<not> d2) s p = x" using sp(2) [of "\<not> d2"] d1 by (auto simp: x)
        moreover have "\<exists>s''. RB_INSERT_COLOR (rotate_to (\<not> d2) (RB_SET_BLACKRED (rotate_to d2 s p) x g) g) p = Some s'' \<and>
            repaired s (plug hs (mk d2 g RB_BLACK (mk d2 p RB_RED u1 (mk d2 x RB_RED a b)) u2)) s''"
          by (rule repairs_inner) (use zp h c ab u u2 t1 d1 in simp_all)
        ultimately show ?thesis using round False t1 by (auto simp: red gs x)
      qed
    qed
  qed
qed

section \<open>Insertion\<close>

text \<open>The descent finds an equal element, or the place between the smaller and the larger ones.\<close>

definition splits_at :: "(addr \<Rightarrow> addr \<Rightarrow> int) \<Rightarrow> addr \<Rightarrow> frame list \<Rightarrow> bool" where
  "splits_at cmp e fs \<longleftrightarrow> (\<forall>x \<in> set (before fs). 0 < cmp e x) \<and> (\<forall>x \<in> set (after fs). cmp e x < 0)"

lemma splits_at_down:
  assumes "orders cmp" "in_order cmp (addrs (plug fs (Node l (x, c) r)))" "splits_at cmp e fs"
  shows "cmp e x < 0 \<Longrightarrow> splits_at cmp e ((True, x, c, r) # fs)" "0 < cmp e x \<Longrightarrow> splits_at cmp e ((False, x, c, l) # fs)"
  using assms(2,3) in_order_side [OF assms(1), of "before fs @ addrs l" x "addrs r @ after fs" e]
  by (auto simp: splits_at_def addrs_plug)

lemma insert_loop_place:
  assumes "zip_at s fs t" "orders cmp" "in_order cmp (addrs (plug fs t))" "splits_at cmp e fs"
    and "parent = parent_of fs" "fs \<noteq> [] \<longrightarrow> (ord < 0 \<longleftrightarrow> fst (hd fs))"
  shows "(\<exists>x \<in> set (addrs t). cmp e x = 0 \<and> insert_loop cmp s e (root_of t) parent ord = Some (Inl x)) \<or>
    (\<exists>gs ord'. insert_loop cmp s e (root_of t) parent ord = Some (Inr (parent_of gs, ord')) \<and>
      plug gs Leaf = plug fs t \<and> splits_at cmp e gs \<and> (gs \<noteq> [] \<longrightarrow> (ord' < 0 \<longleftrightarrow> fst (hd gs))))"
  using assms
proof (induction t arbitrary: fs parent ord)
  case Leaf
  then show ?case by (subst insert_loop.simps) auto
next
  case (Node l v r)
  obtain x c where v: "v = (x, c)" by (cases v)
  have t: "Node l v r = mk True x c l r" "Node l v r = mk False x c r l" by (simp_all add: v mk_def)
  have zl: "zip_at s ((True, x, c, r) # fs) l" and zr: "zip_at s ((False, x, c, l) # fs) r"
    using Node(3) unfolding zip_Cons t(1) by (simp_all add: mk_def)
  have fields: "RB_LEFT s x = root_of l" "RB_RIGHT s x = root_of r" "x \<noteq> 0"
    using zip_fields [OF Node(3) [unfolded t(1)]] by (simp_all add: child_at_def)
  have eq: "plug ((True, x, c, r) # fs) l = plug fs (Node l v r)" "plug ((False, x, c, l) # fs) r = plug fs (Node l v r)"
    by (simp_all add: mk_def v)
  note sd = splits_at_down [OF Node(4) Node(5) [unfolded v] Node(6)]
  consider "cmp e x < 0" | "0 < cmp e x" | "cmp e x = 0" by linarith
  then show ?case
  proof cases
    case 1
    then show ?thesis
      using Node(1) [OF zl Node(4) _ sd(1) [OF 1], of x "cmp e x"] Node(5) fields
      by (subst (1 2) insert_loop.simps) (auto simp: Let_def v mk_def)
  next
    case 2
    then show ?thesis
      using Node(2) [OF zr Node(4) _ sd(2) [OF 2], of x "cmp e x"] Node(5) fields
      by (subst (1 2) insert_loop.simps) (auto simp: Let_def v mk_def)
  next
    case 3
    then show ?thesis using fields(3) by (subst (1) insert_loop.simps) (simp add: v Let_def)
  qed
qed

text \<open>The new element below its parent.\<close>

lemma attach:
  assumes z: "zip_at s fs Leaf" and e: "e \<noteq> 0" "e \<notin> set (frame_addrs fs)" and ord: "fs \<noteq> [] \<longrightarrow> (ord < 0 \<longleftrightarrow> fst (hd fs))"
  defines "s1 \<equiv> RB_SET s e (parent_of fs)"
  defines "s2 \<equiv> (if parent_of fs \<noteq> 0 then if ord < 0 then put_left s1 (parent_of fs) e else put_right s1 (parent_of fs) e
      else s1\<lparr>rbh_root := e\<rparr>)"
  shows "zip_at s2 fs (mk True e RB_RED Leaf Leaf)" "kept_outside s s2 (insert e (set (frame_addrs fs)))"
proof -
  have en: "entry s1 e = link True (parent_of fs) RB_RED 0 0" "x \<noteq> e \<Longrightarrow> entry s1 x = entry s x" "rbh_root s1 = rbh_root s" for x
    by (simp_all add: s1_def RB_SET_def link_def)
  have "zip_at s2 fs (mk True e RB_RED Leaf Leaf) \<and> kept_outside s s2 (insert e (set (frame_addrs fs)))"
  proof (cases fs rule: parent_of.cases)
    case 1
    then show ?thesis using en e by (simp add: s2_def zip_at_def kept_outside_def mk_def link_def)
  next
    case (2 d q k u gs)
    have q: "q \<noteq> 0" "q \<noteq> e" "d \<longleftrightarrow> ord < 0" using z e ord by (auto simp: 2 zip_at_def)
    have same: "entry s2 x = entry s x" if "x \<noteq> e" "x \<noteq> q" for x using that en q by (simp add: s2_def 2)
    have z': "entry s q = link d (parent_of gs) k 0 (root_of u)" "rep (entry s) q u" "ctx (entry s) q gs (rbh_root s)"
      "distinct (frame_addrs fs)"
      using z by (simp_all add: zip_at_def 2)
    have e2: "entry s2 e = link True q RB_RED 0 0" "entry s2 q = link d (parent_of gs) k e (root_of u)" "rbh_root s2 = rbh_root s"
      using en z'(1) q by (simp_all add: s2_def 2 link_def)
    have "rep (entry s2) q u = rep (entry s) q u" by (rule rep_cong, rule same) (use e(2) z'(4) in \<open>auto simp: 2\<close>)
    moreover have "ctx (entry s2) q gs (rbh_root s) = ctx (entry s) q gs (rbh_root s)"
      by (rule ctx_cong, rule same) (use e(2) z'(4) in \<open>auto simp: 2\<close>)
    ultimately have "rep (entry s2) q u" "ctx (entry s2) q gs (rbh_root s)" using z'(2,3) by simp_all
    then show ?thesis using e2 z'(4) q e same by (auto simp: 2 zip_at_def kept_outside_def addrs_mk)
  qed
  then show "zip_at s2 fs (mk True e RB_RED Leaf Leaf)" "kept_outside s s2 (insert e (set (frame_addrs fs)))" by blast+
qed

lemma one_red_new:
  assumes "rb_inv (plug fs Leaf)"
  shows "one_red fs (mk True e RB_RED Leaf Leaf)"
proof -
  have "invh (plug fs (mk True e RB_RED Leaf Leaf))"
    by (rule invh_replace [of fs Leaf]) (use assms in \<open>auto simp: rb_inv_def mk_def\<close>)
  moreover have "color_of (plug fs (mk True e RB_RED Leaf Leaf)) = RB_BLACK" if "fs \<noteq> []"
    using assms color_plug [OF that, of "mk True e RB_RED Leaf Leaf" Leaf] by (simp add: rb_inv_def)
  moreover have "invc (plug fs t')" if "invc t'" "color_of t' = RB_BLACK" for t'
    by (rule invc_replace [of fs Leaf]) (use assms that in \<open>auto simp: rb_inv_def\<close>)
  ultimately show ?thesis by (simp add: one_red_def)
qed

lemma insert_placed:
  assumes at: "rb_at s t" and inv: "rb_inv t" and cmp: "orders cmp" "in_order cmp (addrs t)" and e: "e \<noteq> 0"
  shows "if \<exists>x \<in> set (addrs t). cmp e x = 0
    then \<exists>x \<in> set (addrs t). cmp e x = 0 \<and> RB_INSERT cmp s e = Some (x, s)
    else \<exists>s' t'. RB_INSERT cmp s e = Some (0, s') \<and> rb_at s' t' \<and> rb_inv t' \<and>
      addrs t' = insert_in_order cmp e (addrs t) \<and> in_order cmp (addrs t') \<and>
      kept_outside s s' (insert e (set (addrs t)))"
proof -
  have "zip_at s [] t" "in_order cmp (addrs (plug [] t))" "splits_at cmp e []" using at cmp by (simp_all add: splits_at_def)
  note place = insert_loop_place [OF this(1) cmp(1) this(2,3), of 0 0, simplified]
  have root: "rbh_root s = root_of t" using at by (simp add: rb_at_def)
  consider (found) x where "x \<in> set (addrs t)" "cmp e x = 0" "insert_loop cmp s e (root_of t) 0 0 = Some (Inl x)"
    | (new) gs ord where "insert_loop cmp s e (root_of t) 0 0 = Some (Inr (parent_of gs, ord))" "plug gs Leaf = t"
      "splits_at cmp e gs" "gs \<noteq> [] \<longrightarrow> (ord < 0 \<longleftrightarrow> fst (hd gs))"
    using place by blast
  then show ?thesis
  proof cases
    case found
    then show ?thesis by (auto simp: RB_INSERT_def root)
  next
    case new
    have xs: "addrs t = before gs @ after gs" "set (addrs t) = set (frame_addrs gs)"
      using addrs_plug [of gs Leaf] set_plug [of gs Leaf] new(2) by simp_all
    have none: "cmp e x \<noteq> 0" if "x \<in> set (addrs t)" for x using that new(3) by (auto simp: xs(1) splits_at_def)
    then have ne: "e \<notin> set (frame_addrs gs)" using orders_swap(3) [OF cmp(1)] xs(2) by blast
    have zl: "zip_at s gs Leaf" using at by (simp add: zip_plug new(2))
    define s1 where "s1 = RB_SET s e (parent_of gs)"
    define s2 where "s2 = (if parent_of gs \<noteq> 0 then if ord < 0 then put_left s1 (parent_of gs) e else put_right s1 (parent_of gs) e
      else s1\<lparr>rbh_root := e\<rparr>)"
    note att = attach [OF zl e ne new(4), folded s1_def, folded s2_def]
    have inv': "rb_inv (plug gs Leaf)" using inv new(2) by simp
    obtain s' t' where ins: "RB_INSERT_COLOR s2 e = Some s'" and mv: "moved s2 (plug gs (mk True e RB_RED Leaf Leaf)) s' t'" "rb_inv t'"
      using insert_color_repairs [OF att(1) one_red_new [OF inv']] by (auto simp: repaired_def)
    have "addrs t' = before gs @ e # after gs" using mv(1) by (simp add: moved_def addrs_plug mk_def)
    then have "addrs t' = insert_in_order cmp e (addrs t)" "in_order cmp (addrs t')"
      using new(3) insert_in_order_sorted [OF cmp(1), of "before gs" "after gs" e] cmp(2)
      unfolding xs(1) splits_at_def by (simp_all add: insert_between)
    moreover have "kept_outside s s' (insert e (set (addrs t)))"
      using kept_outside_trans [OF att(2) kept_outside_mono] mv(1) by (auto simp: moved_def xs(2) set_plug mk_def)
    moreover have "RB_INSERT cmp s e = Some (0, s')"
      unfolding RB_INSERT_def root new(1)
      by (simp only: bind.bind_lunit sum.case prod.case Let_def s1_def [symmetric] s2_def [symmetric] ins)
    ultimately show ?thesis using none mv by (auto simp: moved_def)
  qed
qed

end
