(* ===== verification/RbRemove.thy ===== *)
theory RbRemove
  imports RbMoves
begin

text \<open>
  Removal from a red-black tree: \<open>RB_REMOVE\<close> and \<open>RB_REMOVE_COLOR\<close> of sys/tree.h, and that the tree
  afterwards is a red-black tree of the other elements in the same order.
\<close>

section \<open>The code\<close>

partial_function (option) RB_REMOVE_COLOR :: "rb_state \<Rightarrow> addr \<Rightarrow> addr \<Rightarrow> rb_state option" where
  "RB_REMOVE_COLOR s parent elm =
     (if (elm = 0 \<or> RB_COLOR s elm = RB_BLACK) \<and> elm \<noteq> rbh_root s then
        if RB_LEFT s parent = elm then
          let tmp = RB_RIGHT s parent;
              (s, tmp) = (if RB_COLOR s tmp = RB_RED
                          then let s = RB_ROTATE_LEFT (RB_SET_BLACKRED s tmp parent) parent in (s, RB_RIGHT s parent)
                          else (s, tmp))
          in if (RB_LEFT s tmp = 0 \<or> RB_COLOR s (RB_LEFT s tmp) = RB_BLACK) \<and>
                (RB_RIGHT s tmp = 0 \<or> RB_COLOR s (RB_RIGHT s tmp) = RB_BLACK)
             then let s = put_color s tmp RB_RED in RB_REMOVE_COLOR s (RB_PARENT s parent) parent
             else
               let (s, tmp) = (if RB_RIGHT s tmp = 0 \<or> RB_COLOR s (RB_RIGHT s tmp) = RB_BLACK
                               then let oleft = RB_LEFT s tmp;
                                        s = (if oleft \<noteq> 0 then put_color s oleft RB_BLACK else s);
                                        s = RB_ROTATE_RIGHT (put_color s tmp RB_RED) tmp
                                    in (s, RB_RIGHT s parent)
                               else (s, tmp));
                   s = put_color s tmp (RB_COLOR s parent);
                   s = put_color s parent RB_BLACK;
                   s = (if RB_RIGHT s tmp \<noteq> 0 then put_color s (RB_RIGHT s tmp) RB_BLACK else s);
                   s = RB_ROTATE_LEFT s parent
               in Some (if rbh_root s \<noteq> 0 then put_color s (rbh_root s) RB_BLACK else s)
        else
          let tmp = RB_LEFT s parent;
              (s, tmp) = (if RB_COLOR s tmp = RB_RED
                          then let s = RB_ROTATE_RIGHT (RB_SET_BLACKRED s tmp parent) parent in (s, RB_LEFT s parent)
                          else (s, tmp))
          in if (RB_LEFT s tmp = 0 \<or> RB_COLOR s (RB_LEFT s tmp) = RB_BLACK) \<and>
                (RB_RIGHT s tmp = 0 \<or> RB_COLOR s (RB_RIGHT s tmp) = RB_BLACK)
             then let s = put_color s tmp RB_RED in RB_REMOVE_COLOR s (RB_PARENT s parent) parent
             else
               let (s, tmp) = (if RB_LEFT s tmp = 0 \<or> RB_COLOR s (RB_LEFT s tmp) = RB_BLACK
                               then let oright = RB_RIGHT s tmp;
                                        s = (if oright \<noteq> 0 then put_color s oright RB_BLACK else s);
                                        s = RB_ROTATE_LEFT (put_color s tmp RB_RED) tmp
                                    in (s, RB_LEFT s parent)
                               else (s, tmp));
                   s = put_color s tmp (RB_COLOR s parent);
                   s = put_color s parent RB_BLACK;
                   s = (if RB_LEFT s tmp \<noteq> 0 then put_color s (RB_LEFT s tmp) RB_BLACK else s);
                   s = RB_ROTATE_RIGHT s parent
               in Some (if rbh_root s \<noteq> 0 then put_color s (rbh_root s) RB_BLACK else s)
      else Some (if elm \<noteq> 0 then put_color s elm RB_BLACK else s))"

text \<open>
  The steps of \<open>RB_REMOVE\<close>: the walk to the leftmost element, the child of an element in its
  place, another element in the place of one, and the walk to the root that calls \<open>RB_AUGMENT\<close>.
\<close>

partial_function (option) leftmost_loop :: "rb_state \<Rightarrow> addr \<Rightarrow> addr option" where
  "leftmost_loop s elm = (let lft = RB_LEFT s elm in if lft \<noteq> 0 then leftmost_loop s lft else Some elm)"

definition link_child :: "rb_state \<Rightarrow> addr \<Rightarrow> addr \<Rightarrow> addr \<Rightarrow> rb_state" where
  "link_child s parent elm child =
     (if parent \<noteq> 0
      then if RB_LEFT s parent = elm then put_left s parent child else put_right s parent child
      else s\<lparr>rbh_root := child\<rparr>)"

definition unlink_elm :: "rb_state \<Rightarrow> addr \<Rightarrow> addr \<Rightarrow> rb_state" where
  "unlink_elm s elm child =
     (let parent = RB_PARENT s elm;
          s = (if child \<noteq> 0 then put_parent s child parent else s)
      in link_child s parent elm child)"

definition replace_elm :: "rb_state \<Rightarrow> addr \<Rightarrow> addr \<Rightarrow> rb_state" where
  "replace_elm s old elm =
     (let s = s\<lparr>entry := (entry s)(elm := entry s old)\<rparr>;
          s = link_child s (RB_PARENT s old) old elm;
          s = put_parent s (RB_LEFT s old) elm
      in if RB_RIGHT s old \<noteq> 0 then put_parent s (RB_RIGHT s old) elm else s)"

partial_function (option) augment_loop :: "rb_state \<Rightarrow> addr \<Rightarrow> unit option" where
  "augment_loop s lft = (let lft = RB_PARENT s lft in if lft \<noteq> 0 then augment_loop s lft else Some ())"

definition RB_REMOVE :: "rb_state \<Rightarrow> addr \<Rightarrow> (addr \<times> rb_state) option" where
  "RB_REMOVE s elm =
     (let old = elm;
          finish = (\<lambda>s color parent child.
            Option.bind (if color = RB_BLACK then RB_REMOVE_COLOR s parent child else Some s) (\<lambda>s. Some (old, s)))
      in if RB_LEFT s elm = 0 \<or> RB_RIGHT s elm = 0 then
           let child = (if RB_LEFT s elm = 0 then RB_RIGHT s elm else RB_LEFT s elm);
               parent = RB_PARENT s elm;
               color = RB_COLOR s elm
           in finish (unlink_elm s elm child) color parent child
         else
           Option.bind (leftmost_loop s (RB_RIGHT s elm)) (\<lambda>elm.
             let child = RB_RIGHT s elm;
                 parent = RB_PARENT s elm;
                 color = RB_COLOR s elm;
                 s = unlink_elm s elm child;
                 parent = (if RB_PARENT s elm = old then elm else parent);
                 s = replace_elm s old elm
             in Option.bind (if parent \<noteq> 0 then augment_loop s parent else Some ()) (\<lambda>_.
                  finish s color parent child)))"

section \<open>Taking an element out\<close>

lemma link_child_fields:
  "entry (link_child s p x y) z = (if z = p \<and> p \<noteq> 0
     then if RB_LEFT s p = x then (entry s p)\<lparr>rbe_left := y\<rparr> else (entry s p)\<lparr>rbe_right := y\<rparr> else entry s z)"
  "rbh_root (link_child s p x y) = (if p = 0 then y else rbh_root s)"
  by (simp_all add: link_child_def)

text \<open>An element with at most one child gives its place to the child.\<close>

lemma unlink_moves:
  assumes z: "zip_at s fs (mk d x c t Leaf)"
  shows "zip_at (unlink_elm s x (root_of t)) fs t"
    "kept_outside s (unlink_elm s x (root_of t)) (set (frame_addrs fs) \<union> set (addrs t))"
    "entry (unlink_elm s x (root_of t)) x = entry s x"
proof -
  define s' where "s' = unlink_elm s x (root_of t)"
  have r: "rep (entry s) x t" "ctx (entry s) x fs (rbh_root s)" "distinct (frame_addrs fs @ addrs t)" "x \<noteq> 0"
    "x \<notin> set (frame_addrs fs)" "x \<notin> set (addrs t)"
    using z by (auto simp: zip_at_def addrs_mk)
  have par: "RB_PARENT s x = parent_of fs" using zip_fields(3) [OF z] .
  have zp: "parent_of fs = 0 \<longleftrightarrow> fs = []" using zip_parent [OF z] .
  have out: "root_of t \<in> set (addrs t) \<or> root_of t = 0" "parent_of fs \<in> set (frame_addrs fs) \<or> parent_of fs = 0"
    using root_of_in [of t] parent_of_in [of fs] by (cases "t = Leaf"; simp; cases "fs = []"; simp)+
  have nz: "0 \<notin> set (addrs t)" "0 \<notin> set (frame_addrs fs)" using rep_nonzero [OF r(1)] ctx_nonzero [OF r(2)] by auto
  have ne: "root_of t \<noteq> 0 \<Longrightarrow> parent_of fs \<noteq> root_of t" using out r(3) by auto
  have en: "entry s' (root_of t) = (entry s (root_of t))\<lparr>rbe_parent := parent_of fs\<rparr>" if "root_of t \<noteq> 0"
    using that ne [OF that] par by (auto simp: s'_def unlink_elm_def Let_def link_child_fields)
  have others: "entry s' z = entry s z" if "z \<noteq> root_of t \<or> z = 0" "z \<noteq> parent_of fs \<or> z = 0" for z
    using that par by (auto simp: s'_def unlink_elm_def Let_def link_child_fields)
  have up: "entry s' (parent_of fs) = (if x = rbe_left (entry s (parent_of fs))
       then (entry s (parent_of fs))\<lparr>rbe_left := root_of t\<rparr> else (entry s (parent_of fs))\<lparr>rbe_right := root_of t\<rparr>)" if "fs \<noteq> []"
    using that zp ne par by (auto simp: s'_def unlink_elm_def Let_def link_child_fields RB_LEFT_def)
  have root: "rbh_root s' = (if fs = [] then root_of t else rbh_root s)"
    using zp par by (simp add: s'_def unlink_elm_def Let_def link_child_fields)
  have below: "entry s' z = entry s z" if "z \<in> set (addrs t)" "z \<noteq> root_of t" for z
    by (rule others) (use that r(3) out nz in auto)
  have "rep (entry s') (parent_of fs) t"
    by (rule rep_reparent [OF r(1)]) (use r(3) en below in auto)
  moreover have over: "entry s' z = entry s z" if "z \<in> set (frame_addrs fs)" "z \<noteq> parent_of fs" for z
    by (rule others) (use that r(3) out nz in auto)
  have "ctx (entry s') (root_of t) fs (rbh_root s')"
    by (rule ctx_redirect [OF r(2) _ r(4,5) over up root]) (use r(3) in auto)
  ultimately show "zip_at (unlink_elm s x (root_of t)) fs t" using r(3) by (simp add: zip_at_def s'_def)
  show "kept_outside s (unlink_elm s x (root_of t)) (set (frame_addrs fs) \<union> set (addrs t))"
    unfolding kept_outside_def s'_def [symmetric] by (intro allI impI others) (use out in auto)
  show "entry (unlink_elm s x (root_of t)) x = entry s x"
    unfolding s'_def [symmetric] by (rule others) (use r(4-6) out in auto)
qed

text \<open>Another element takes over the place of an element with two children.\<close>

lemma replace_moves:
  assumes z: "zip_at s fs (mk True x c a b)" and a: "a \<noteq> Leaf"
    and y: "y \<noteq> 0" "y \<notin> set (frame_addrs fs)" "y \<notin> set (addrs (mk True x c a b))"
  shows "zip_at (replace_elm s x y) fs (mk True y c a b)"
    "kept_outside s (replace_elm s x y) (insert y (set (frame_addrs fs) \<union> set (addrs a) \<union> set (addrs b)))"
proof -
  define s' where "s' = replace_elm s x y"
  have r: "rep (entry s) x a" "rep (entry s) x b" "ctx (entry s) x fs (rbh_root s)"
    and dist: "distinct (frame_addrs fs @ x # addrs a @ addrs b)" and x: "x \<noteq> 0"
    "entry s x = link True (parent_of fs) c (root_of a) (root_of b)"
    using z by (auto simp: zip_at_def addrs_mk)
  have nz: "0 \<notin> set (addrs a)" "0 \<notin> set (addrs b)" "0 \<notin> set (frame_addrs fs)"
    using rep_nonzero r(1,2) ctx_nonzero [OF r(3)] by auto
  have zp: "parent_of fs = 0 \<longleftrightarrow> fs = []" using zip_parent [OF z] .
  have ra: "root_of a \<in> set (addrs a)" using root_of_in [OF a] .
  have out: "root_of b \<in> set (addrs b) \<or> root_of b = 0" "parent_of fs \<in> set (frame_addrs fs) \<or> parent_of fs = 0"
    using root_of_in [of b] parent_of_in [of fs] by (cases "b = Leaf"; simp; cases "fs = []"; simp)+
  have ya: "y \<notin> set (addrs a)" "y \<notin> set (addrs b)" "y \<noteq> x" using y(3) by (auto simp: addrs_mk)
  define p ar br where p: "p = parent_of fs" "ar = root_of a" "br = root_of b"
  have ne: "y \<noteq> p" "y \<noteq> ar" "y \<noteq> br" "p \<noteq> x" "p \<noteq> ar" "br \<noteq> 0 \<Longrightarrow> p \<noteq> br" "ar \<noteq> br" "ar \<noteq> x" "br \<noteq> x" "ar \<noteq> 0"
    using ra out dist ya y nz x(1) unfolding p by auto
  define s1 where "s1 = link_child (s\<lparr>entry := (entry s)(y := entry s x)\<rparr>) p x y"
  have e1: "entry s1 z = (if z = y then entry s x else if z = p \<and> p \<noteq> 0
      then if RB_LEFT s p = x then (entry s p)\<lparr>rbe_left := y\<rparr> else (entry s p)\<lparr>rbe_right := y\<rparr> else entry s z)" for z
    using ne(1) by (auto simp: s1_def link_child_fields RB_LEFT_def)
  have fields: "RB_PARENT (s\<lparr>entry := (entry s)(y := entry s x)\<rparr>) x = p" "RB_LEFT s1 x = ar" "RB_RIGHT (put_parent s1 ar y) x = br"
    using x(2) ne ya(3) e1 [of x] by (auto simp: RB_PARENT_def RB_LEFT_def RB_RIGHT_def link_def p)
  have s': "s' = (if br \<noteq> 0 then put_parent (put_parent s1 ar y) br y else put_parent s1 ar y)"
    unfolding s'_def replace_elm_def Let_def fields(1) s1_def [symmetric] fields(2,3) ..
  have others: "entry s' z = entry s z" if "z \<noteq> y" "z \<noteq> p \<or> z = 0" "z \<noteq> ar" "z \<noteq> br \<or> z = 0" for z
    using that e1 [of z] by (auto simp: s')
  have ey: "entry s' y = link True p c ar br" using x(2) ne e1 [of y] by (auto simp: s' p)
  have ea: "entry s' ar = (entry s ar)\<lparr>rbe_parent := y\<rparr>" using ne e1 [of ar] by (auto simp: s')
  have eb: "entry s' br = (entry s br)\<lparr>rbe_parent := y\<rparr>" if "br \<noteq> 0" using that ne e1 [of br] by (auto simp: s')
  have ep: "entry s' p = (if x = rbe_left (entry s p) then (entry s p)\<lparr>rbe_left := y\<rparr> else (entry s p)\<lparr>rbe_right := y\<rparr>)" if "p \<noteq> 0"
    using that ne e1 [of p] by (auto simp: s' RB_LEFT_def)
  have root: "rbh_root s' = (if fs = [] then y else rbh_root s)" using zp by (simp add: s' s1_def link_child_fields p)
  have "entry s' z = entry s z" if "z \<in> set (addrs a)" "z \<noteq> ar" for z
    by (rule others) (use that dist ya out nz in \<open>auto simp: p\<close>)
  then have "rep (entry s') y a" using ea dist by (intro rep_reparent [OF r(1)]) (auto simp: p)
  moreover have "entry s' z = entry s z" if "z \<in> set (addrs b)" "z \<noteq> br" for z
    by (rule others) (use that dist ya out nz ra in \<open>auto simp: p\<close>)
  then have "rep (entry s') y b" using eb dist by (intro rep_reparent [OF r(2)]) (auto simp: p)
  moreover have over: "entry s' z = entry s z" if "z \<in> set (frame_addrs fs)" "z \<noteq> parent_of fs" for z
    by (rule others) (use that dist y out nz ra in \<open>auto simp: p\<close>)
  have "ctx (entry s') y fs (rbh_root s')"
    by (rule ctx_redirect [OF r(3) _ x(1) _ over _ root]) (use dist ep zp in \<open>auto simp: p\<close>)
  ultimately show "zip_at (replace_elm s x y) fs (mk True y c a b)"
    using ey dist y ya by (simp add: zip_at_def addrs_mk s'_def [symmetric] p)
  show "kept_outside s (replace_elm s x y) (insert y (set (frame_addrs fs) \<union> set (addrs a) \<union> set (addrs b)))"
    unfolding kept_outside_def s'_def [symmetric] by (intro allI impI others) (use out ra in \<open>auto simp: p\<close>)
qed

section \<open>The repair\<close>

text \<open>A round of the loop, for both sides: a red sibling is rotated away, then the sibling is black.\<close>

definition blacken :: "rb_state \<Rightarrow> addr \<Rightarrow> rb_state" where
  "blacken s x = (if x \<noteq> 0 then put_color s x RB_BLACK else s)"

definition far_red :: "bool \<Rightarrow> rb_state \<Rightarrow> addr \<Rightarrow> addr \<Rightarrow> rb_state" where
  "far_red d s p tmp =
     (let s = put_color (put_color s tmp (RB_COLOR s p)) p RB_BLACK;
          s = rotate_to d (blacken s (child_at (\<not> d) s tmp)) p
      in blacken s (rbh_root s))"

definition black_sibling :: "bool \<Rightarrow> rb_state \<Rightarrow> addr \<Rightarrow> addr \<Rightarrow> rb_state option" where
  "black_sibling d s p tmp =
     (if (child_at d s tmp = 0 \<or> RB_COLOR s (child_at d s tmp) = RB_BLACK) \<and>
         (child_at (\<not> d) s tmp = 0 \<or> RB_COLOR s (child_at (\<not> d) s tmp) = RB_BLACK)
      then let s = put_color s tmp RB_RED in RB_REMOVE_COLOR s (RB_PARENT s p) p
      else if child_at (\<not> d) s tmp = 0 \<or> RB_COLOR s (child_at (\<not> d) s tmp) = RB_BLACK
      then let s = rotate_to (\<not> d) (put_color (blacken s (child_at d s tmp)) tmp RB_RED) tmp
           in Some (far_red d s p (child_at (\<not> d) s p))
      else Some (far_red d s p tmp))"

lemma remove_color_stop:
  "\<not> ((elm = 0 \<or> RB_COLOR s elm = RB_BLACK) \<and> elm \<noteq> rbh_root s) \<Longrightarrow> RB_REMOVE_COLOR s p elm = Some (blacken s elm)"
  unfolding blacken_def by (subst RB_REMOVE_COLOR.simps) (rule if_not_P)

lemma remove_color_round:
  assumes "elm = 0 \<or> RB_COLOR s elm = RB_BLACK" "elm \<noteq> rbh_root s" "d \<longleftrightarrow> RB_LEFT s p = elm" "child_at (\<not> d) s p = tmp"
  shows "RB_REMOVE_COLOR s p elm =
    (if RB_COLOR s tmp = RB_RED
     then let s = rotate_to d (RB_SET_BLACKRED s tmp p) p in black_sibling d s p (child_at (\<not> d) s p)
     else black_sibling d s p tmp)"
  using assms by (subst RB_REMOVE_COLOR.simps)
    (cases d; simp add: black_sibling_def far_red_def blacken_def Let_def child_at_def rotate_sides conj_commute)

fun black :: "ctree \<Rightarrow> ctree" where
  "black Leaf = Leaf"
| "black (Node l (x, c) r) = Node l (x, RB_BLACK) r"

lemma black_simps [simp]: "black (mk d x c a b) = mk d x RB_BLACK a b" "color_of (black t) = RB_BLACK" "addrs (black t) = addrs t"
  by (simp add: mk_def, (cases t rule: root_of.cases; simp)+)

text \<open>A subtree that lacks one black node, with everything right but for that and its own colour.\<close>

definition lacks_black :: "frame list \<Rightarrow> ctree \<Rightarrow> bool" where
  "lacks_black fs t \<longleftrightarrow> invh t \<and> invc (black t) \<and> (color_of t = RB_BLACK \<or> color_of t = RB_RED) \<and>
     (\<forall>t'. invh t' \<longrightarrow> bheight t' = bheight t + 1 \<longrightarrow> invh (plug fs t')) \<and>
     (\<forall>t'. invc t' \<longrightarrow> color_of t' = RB_BLACK \<longrightarrow> invc (plug fs t')) \<and>
     (fs \<noteq> [] \<longrightarrow> color_of (plug fs Leaf) = RB_BLACK)"

lemma black_same: "color_of t = RB_BLACK \<Longrightarrow> black t = t"
  by (cases t rule: black.cases) auto

text \<open>The loop ends at the root or at a red node, which becomes black.\<close>

lemma remove_color_end:
  assumes z: "zip_at s fs t" and lack: "lacks_black fs t" and stop: "fs = [] \<or> color_of t = RB_RED"
  shows "\<exists>s'. RB_REMOVE_COLOR s (parent_of fs) (root_of t) = Some s' \<and> repaired s (plug fs t) s'"
proof -
  have "\<not> ((root_of t = 0 \<or> RB_COLOR s (root_of t) = RB_BLACK) \<and> root_of t \<noteq> rbh_root s)"
    using stop zip_color [OF z] z by (auto simp: rb_at_def)
  note eq = remove_color_stop [OF this]
  have inv: "invh t" "invc (black t)" "fs \<noteq> [] \<Longrightarrow> color_of (plug fs (black t)) = RB_BLACK"
    using lack color_plug [of fs "black t" Leaf] by (auto simp: lacks_black_def)
  have "repaired s (plug fs t) (blacken s (root_of t))"
  proof (cases "t = Leaf")
    case True
    then have fs: "fs = []" using stop by auto
    then have "moved s (plug fs t) s (plug fs t)" using z by (intro moved_refl) (simp add: zip_plug)
    moreover have "rb_inv (plug fs t)" by (simp add: True fs rb_inv_def)
    ultimately show ?thesis by (auto simp: True blacken_def repaired_def)
  next
    case False
    then obtain x c a b where x: "t = mk True x c a b" by (rule mk_cases)
    have "moved s (plug fs t) (blacken s (root_of t)) (plug fs (black t))"
      using moved_recolor [OF z [unfolded x], of RB_BLACK] zip_color(2) [OF z] by (simp add: x blacken_def)
    moreover have "rb_inv (plug fs (black t))"
    proof (cases "fs = []")
      case True
      then show ?thesis using inv by (simp add: rb_inv_def x)
    next
      case False
      have h: "invh (black t)" "bheight (black t) = bheight t + 1"
        using inv(1) stop False by (simp_all add: x bheight_mk)
      have "invh (plug fs (black t))" "invc (plug fs (black t))"
        using lack h inv(2) unfolding lacks_black_def by simp_all
      then show ?thesis using inv(3) [OF False] by (simp add: rb_inv_def)
    qed
    ultimately show ?thesis by (auto simp: repaired_def)
  qed
  then show ?thesis using eq by blast
qed

text \<open>The sibling of such a subtree.\<close>

lemma lacking_sibling:
  assumes lack: "lacks_black ((d, p, k, u) # gs) t" and t: "color_of t = RB_BLACK"
  obtains w e ul ur where "u = mk d w e ul ur" "invh u" "invc u" "bheight u = bheight t + 1"
    "k = RB_BLACK \<or> k = RB_RED \<and> color_of u = RB_BLACK" "invc t"
proof -
  let ?t = "mk True 0 RB_BLACK t t"
  have it: "invh t" "invc t" using lack t by (simp_all add: lacks_black_def black_same)
  then have "invh ?t" "bheight ?t = bheight t + 1" "invc ?t" by (simp_all add: bheight_mk)
  then have "invh (plug gs (mk d p k ?t u))" "invc (plug gs (mk d p k ?t u))"
    using lack unfolding lacks_black_def plug.simps by (metis color_of_mk)+
  then have i: "invh (mk d p k ?t u)" "invc (mk d p k ?t u)" using invh_sub invc_sub by blast+
  then have h: "bheight u = bheight t + 1" by (simp add: bheight_mk)
  then have "u \<noteq> Leaf" by auto
  then obtain w e ul ur where u: "u = mk d w e ul ur" by (rule mk_cases)
  show thesis by (rule that [OF u]) (use i h it u in auto)
qed

text \<open>The moves of a round.\<close>

lemma final_moves:
  assumes z: "zip_at s gs (mk d p k t (mk d y c b (mk d' z c' z1 z2)))"
  shows "moved s (plug gs (mk d p k t (mk d y c b (mk d' z c' z1 z2))))
      (rotate_to d (put_color (put_color (put_color s y k) p RB_BLACK) z RB_BLACK) p)
      (plug gs (mk d y k (mk d p RB_BLACK t b) (mk d' z RB_BLACK z1 z2)))"
proof -
  have "zip_at s ((\<not> d, p, k, t) # gs) (mk d y c b (mk d' z c' z1 z2))" using z by (simp add: zip_Cons mk_flip)
  note m1 = moved_recolor [OF this, of k, unfolded plug.simps mk_flip]
  note m2 = moved_recolor [OF moved_zip [OF m1], of RB_BLACK]
  have "zip_at (put_color (put_color s y k) p RB_BLACK) ((\<not> d, y, k, b) # (\<not> d, p, RB_BLACK, t) # gs) (mk d' z c' z1 z2)"
    using moved_zip [OF m2] by (simp add: zip_Cons mk_flip)
  note m3 = moved_recolor [OF this, of RB_BLACK, unfolded plug.simps mk_flip]
  show ?thesis by (rule moved_trans [OF moved_trans [OF moved_trans [OF m1 m2] m3] moved_rotate [OF moved_zip [OF m3]]])
qed

lemma near_moves:
  assumes z: "zip_at s gs (mk d p k t (mk d w c (mk d z c' z1 z2) ur))"
  shows "moved s (plug gs (mk d p k t (mk d w c (mk d z c' z1 z2) ur)))
      (rotate_to (\<not> d) (put_color (put_color s z RB_BLACK) w RB_RED) w)
      (plug gs (mk d p k t (mk d z RB_BLACK z1 (mk d w RB_RED z2 ur))))"
proof -
  have "zip_at s ((d, w, c, ur) # (\<not> d, p, k, t) # gs) (mk d z c' z1 z2)" using z by (simp add: zip_Cons mk_flip)
  note m1 = moved_recolor [OF this, of RB_BLACK, unfolded plug.simps mk_flip]
  have "zip_at (put_color s z RB_BLACK) ((\<not> d, p, k, t) # gs) (mk d w c (mk d z RB_BLACK z1 z2) ur)"
    using moved_zip [OF m1] by (simp add: zip_Cons mk_flip)
  note m2 = moved_recolor [OF this, of RB_RED, unfolded plug.simps mk_flip]
  have eq: "mk d w RB_RED (mk d z RB_BLACK z1 z2) ur = mk (\<not> d) w RB_RED ur (mk (\<not> d) z RB_BLACK z2 z1)"
    by (simp add: mk_flip)
  have "zip_at (put_color (put_color s z RB_BLACK) w RB_RED) ((\<not> d, p, k, t) # gs) (mk (\<not> d) w RB_RED ur (mk (\<not> d) z RB_BLACK z2 z1))"
    using moved_zip [OF m2] unfolding eq [symmetric] by (simp add: zip_Cons mk_flip)
  note m3 = moved_rotate [OF this, folded eq, unfolded plug.simps mk_flip]
  show ?thesis by (rule moved_trans [OF moved_trans [OF m1 m2] m3])
qed

lemma red_sibling_moves:
  assumes z: "zip_at s gs (mk d p k t (mk d y c b g))"
  shows "moved s (plug gs (mk d p k t (mk d y c b g))) (rotate_to d (RB_SET_BLACKRED s y p) p)
      (plug gs (mk d y RB_BLACK (mk d p RB_RED t b) g))"
proof -
  have "zip_at s ((\<not> d, p, k, t) # gs) (mk d y c b g)" using z by (simp add: zip_Cons mk_flip)
  note m1 = moved_recolor [OF this, of RB_BLACK, unfolded plug.simps mk_flip]
  note m2 = moved_recolor [OF moved_zip [OF m1], of RB_RED]
  show ?thesis unfolding RB_SET_BLACKRED_def
    by (rule moved_trans [OF moved_trans [OF m1 m2] moved_rotate [OF moved_zip [OF m2]]])
qed

text \<open>A red child on the far side: one rotation ends the repair.\<close>

lemma blacken_whole:
  assumes "zip_at s fs t" "t \<noteq> Leaf" "invh (plug fs t)" "invc (plug fs t)"
  shows "repaired s (plug fs t) (blacken s (rbh_root s))"
proof -
  have "plug fs t \<noteq> Leaf" using set_plug [of fs t] root_of_in [OF assms(2)] by auto
  then have "rbh_root s \<noteq> 0" using assms(1) zip_color(2) [of s "[]" "plug fs t"] by (simp add: zip_plug) (simp add: rb_at_def)
  then show ?thesis using blacken_root [OF assms] by (simp add: blacken_def)
qed

lemma far_red_ends:
  assumes z: "zip_at s gs (mk d p k t (mk d y RB_BLACK b g))" and lack: "lacks_black ((d, p, k, u) # gs) t"
    and u: "bheight u = bheight t + 1" and t: "color_of t = RB_BLACK"
    and g: "g = mk d' z RB_RED z1 z2" "invh g" "invc g" "bheight g = bheight t"
    and b: "invh b" "invc b" "bheight b = bheight t"
  shows "repaired s (plug gs (mk d p k t (mk d y RB_BLACK b g))) (far_red d s p y)"
proof -
  let ?N = "mk d y k (mk d p RB_BLACK t b) (mk d' z RB_BLACK z1 z2)" and ?t = "mk True 0 RB_BLACK t t"
  define s' where "s' = rotate_to d (put_color (put_color (put_color s y k) p RB_BLACK) z RB_BLACK) p"
  have "zip_at s ((\<not> d, p, k, t) # gs) (mk d y RB_BLACK b g)" using z by (simp add: zip_Cons mk_flip)
  note fy = zip_fields(2) [OF this]
  have "z \<noteq> 0" using z by (auto simp: zip_at_def g)
  then have far: "far_red d s p y = blacken s' (rbh_root s')"
    using fy by (simp add: far_red_def Let_def s'_def zip_fields(4) [OF z] g blacken_def)
  note mv = final_moves [OF z [unfolded g(1)], folded s'_def g(1)]
  have it: "invh t" "invc t" using lack t by (simp_all add: lacks_black_def black_same)
  then have "invh (plug gs (mk d p k ?t u))" "invc (plug gs (mk d p k ?t u))"
    using lack unfolding lacks_black_def plug.simps by (simp_all add: bheight_mk)
  note old = this
  have zz: "bheight z1 = bheight t" "bheight z2 = bheight t" "invh z1" "invh z2" "invc z1" "invc z2" using g by (auto simp: bheight_mk)
  have "invh ?N" "bheight ?N = bheight (mk d p k ?t u)" using it b zz u by (simp_all add: bheight_mk)
  then have "invh (plug gs ?N)" by (rule invh_replace [OF old(1)])
  moreover have "k = RB_BLACK \<or> k = RB_RED" using invc_sub [OF old(2)] by auto
  then have "invc ?N" using it b zz by simp
  then have "invc (plug gs ?N)" by (rule invc_replace [OF old(2)]) simp
  ultimately have "repaired s' (plug gs ?N) (blacken s' (rbh_root s'))"
    using blacken_whole [OF moved_zip [OF mv]] by simp
  then show ?thesis unfolding far using repaired_after [OF mv] by (simp add: g(1))
qed

text \<open>No red child: the sibling becomes red and the parent's subtree lacks a black node.\<close>

lemma lacks_black_up:
  assumes lack: "lacks_black ((d, p, k, mk d w RB_BLACK ul ur) # gs) t" and t: "color_of t = RB_BLACK"
    and black: "color_of ul = RB_BLACK" "color_of ur = RB_BLACK"
  shows "lacks_black gs (mk d p k t (mk d w RB_RED ul ur))"
proof -
  let ?u = "mk d w RB_BLACK ul ur" and ?f = "mk d p k t (mk d w RB_RED ul ur)" and ?t = "mk True 0 RB_BLACK t t"
  obtain w' e ul' ur' where u: "invh ?u" "invc ?u" "bheight ?u = bheight t + 1" "invc t"
    by (rule lacking_sibling [OF lack t])
  have it: "invh t" "invc t" using lack u(4) by (simp_all add: lacks_black_def)
  have bh: "bheight ul = bheight t" "bheight ur = bheight t" using u(1,3) by (auto simp: bheight_mk)
  have old: "invh (plug gs (mk d p k ?t ?u))" "invc (plug gs (mk d p k ?t ?u))"
    using lack it unfolding lacks_black_def plug.simps by (simp_all add: bheight_mk)
  have k: "k = RB_BLACK \<or> k = RB_RED" using invc_sub [OF old(2)] by auto
  have "invh (plug gs t')" if "invh t'" "bheight t' = bheight ?f + 1" for t'
    by (rule invh_replace [OF old(1) that(1)]) (use that(2) bh in \<open>simp add: bheight_mk\<close>)
  moreover have "invc (plug gs t')" if "invc t'" "color_of t' = RB_BLACK" for t'
    using invc_replace [OF old(2) that(1)] that(2) by simp
  moreover have "color_of (plug gs Leaf) = RB_BLACK" if "gs \<noteq> []"
    using lack color_plug [OF that, of "mk d p k Leaf ?u" Leaf] by (simp add: lacks_black_def)
  moreover have "invh ?f" "invc (black ?f)" using u it bh black by (simp_all add: bheight_mk)
  ultimately show ?thesis using k by (simp add: lacks_black_def)
qed

lemma black_sibling_repairs:
  assumes z: "zip_at s gs (mk d p k t (mk d w RB_BLACK ul ur))"
    and lack: "lacks_black ((d, p, k, mk d w RB_BLACK ul ur) # gs) t" and t: "color_of t = RB_BLACK"
    and up: "\<And>s'. zip_at s' gs (mk d p k t (mk d w RB_RED ul ur)) \<Longrightarrow> lacks_black gs (mk d p k t (mk d w RB_RED ul ur)) \<Longrightarrow>
      \<exists>s''. RB_REMOVE_COLOR s' (parent_of gs) p = Some s'' \<and> repaired s' (plug gs (mk d p k t (mk d w RB_RED ul ur))) s''"
  shows "\<exists>s''. black_sibling d s p w = Some s'' \<and> repaired s (plug gs (mk d p k t (mk d w RB_BLACK ul ur))) s''"
proof -
  let ?u = "mk d w RB_BLACK ul ur"
  have u: "invh ?u" "invc ?u" "bheight ?u = bheight t + 1" by (rule lacking_sibling [OF lack t], simp)+
  have bh: "bheight ul = bheight t" "bheight ur = bheight t" "invh ul" "invh ur" "invc ul" "invc ur"
    using u by (auto simp: bheight_mk)
  have zw: "zip_at s ((\<not> d, p, k, t) # gs) ?u" using z by (simp add: zip_Cons mk_flip)
  have zl: "zip_at s ((d, w, RB_BLACK, ur) # (\<not> d, p, k, t) # gs) ul" using zw by (simp add: zip_Cons)
  have zr: "zip_at s ((\<not> d, w, RB_BLACK, ul) # (\<not> d, p, k, t) # gs) ur" using zw by (simp add: zip_Cons mk_flip)
  note f = zip_fields [OF zw] and fp = zip_fields [OF z]
  note tests = zip_color(1) [OF zl, folded f(1)] zip_color(1) [OF zr, folded f(2)]
  have red: "color_of ul \<noteq> RB_BLACK \<Longrightarrow> color_of ul = RB_RED" "color_of ur \<noteq> RB_BLACK \<Longrightarrow> color_of ur = RB_RED"
    using bh(5,6) by (cases ul rule: color_of.cases; cases ur rule: color_of.cases; auto)+
  consider (none) "color_of ul = RB_BLACK" "color_of ur = RB_BLACK" | (near) "color_of ul = RB_RED" "color_of ur = RB_BLACK"
    | (far) "color_of ur = RB_RED" using red by blast
  then show ?thesis
  proof cases
    case none
    note mv = moved_recolor [OF zw, of RB_RED, unfolded plug.simps mk_flip]
    obtain s'' where "RB_REMOVE_COLOR (put_color s w RB_RED) (parent_of gs) p = Some s''"
      "repaired (put_color s w RB_RED) (plug gs (mk d p k t (mk d w RB_RED ul ur))) s''"
      using up [OF moved_zip [OF mv] lacks_black_up [OF lack t none]] by blast
    then show ?thesis using none tests fp(3) repaired_after [OF mv] by (simp add: black_sibling_def)
  next
    case near
    then have "ul \<noteq> Leaf" by auto
    then obtain x z1 z2 where ul: "ul = mk d x RB_RED z1 z2" using near(1) by (metis mk_cases color_of_mk)
    define s1 where "s1 = rotate_to (\<not> d) (put_color (put_color s x RB_BLACK) w RB_RED) w"
    note mv = near_moves [OF z [unfolded ul], folded s1_def ul]
    have "x \<noteq> 0" using f(1) zip_color(2) [OF zl] by (auto simp: ul)
    then have "black_sibling d s p w = Some (far_red d s1 p x)"
      using near tests f(1) zip_fields(2) [OF moved_zip [OF mv]]
      by (simp add: black_sibling_def blacken_def ul s1_def [symmetric])
    moreover have "repaired s1 (plug gs (mk d p k t (mk d x RB_BLACK z1 (mk d w RB_RED z2 ur)))) (far_red d s1 p x)"
      by (rule far_red_ends [OF moved_zip [OF mv] lack u(3) t refl]) (use bh near in \<open>auto simp: ul bheight_mk\<close>)
    ultimately show ?thesis using repaired_after [OF mv] by blast
  next
    case far
    then have "ur \<noteq> Leaf" by auto
    then obtain x z1 z2 where ur: "ur = mk d x RB_RED z1 z2" using far by (metis mk_cases color_of_mk)
    have "black_sibling d s p w = Some (far_red d s p w)" using far tests by (simp add: black_sibling_def)
    moreover have "repaired s (plug gs (mk d p k t ?u)) (far_red d s p w)"
      by (rule far_red_ends [OF z lack u(3) t ur]) (use bh in auto)
    ultimately show ?thesis by blast
  qed
qed

text \<open>After the rotation of a red sibling.\<close>

lemma lacks_black_rotated:
  assumes lack: "lacks_black ((d, p, k, mk d w RB_RED ul ur) # gs) t" and t: "color_of t = RB_BLACK"
  shows "lacks_black ((d, p, RB_RED, ul) # (d, w, RB_BLACK, ur) # gs) t"
proof -
  let ?u = "mk d w RB_RED ul ur" and ?t = "mk True 0 RB_BLACK t t"
  obtain w' e ul' ur' where u: "invh ?u" "invc ?u" "bheight ?u = bheight t + 1" "invc t"
    and kc: "k = RB_BLACK \<or> k = RB_RED \<and> color_of ?u = RB_BLACK" by (rule lacking_sibling [OF lack t])
  have k: "k = RB_BLACK" using kc by simp
  have it: "invh t" "invc t" using lack u(4) by (simp_all add: lacks_black_def)
  have bh: "bheight ul = bheight t + 1" "bheight ur = bheight t + 1" using u(1,3) by (auto simp: bheight_mk)
  have old: "invh (plug gs (mk d p k ?t ?u))" "invc (plug gs (mk d p k ?t ?u))"
    using lack it unfolding lacks_black_def plug.simps by (simp_all add: bheight_mk)
  have "invh (plug gs (mk d w RB_BLACK (mk d p RB_RED t' ul) ur))" if "invh t'" "bheight t' = bheight t + 1" for t'
    by (rule invh_replace [OF old(1)]) (use that u(1) bh k in \<open>simp_all add: bheight_mk\<close>)
  moreover have "invc (plug gs (mk d w RB_BLACK (mk d p RB_RED t' ul) ur))" if "invc t'" "color_of t' = RB_BLACK" for t'
    by (rule invc_replace [OF old(2)]) (use that u(2) in simp_all)
  moreover have "color_of (plug gs (mk d w RB_BLACK (mk d p RB_RED Leaf ul) ur)) = RB_BLACK"
    using lack color_plug [of gs "mk d p k Leaf ?u" "mk d w RB_BLACK (mk d p RB_RED Leaf ul) ur"]
    by (cases "gs = []") (simp_all add: lacks_black_def)
  ultimately show ?thesis using lack by (simp add: lacks_black_def)
qed

text \<open>The loop repairs the tree.\<close>

lemma remove_color_repairs:
  "zip_at s fs t \<Longrightarrow> lacks_black fs t \<Longrightarrow>
    \<exists>s'. RB_REMOVE_COLOR s (parent_of fs) (root_of t) = Some s' \<and> repaired s (plug fs t) s'"
proof (induction fs arbitrary: s t)
  case Nil
  then show ?case using remove_color_end by blast
next
  case (Cons f gs)
  obtain d p k u where f: "f = (d, p, k, u)" by (cases f) auto
  note z = Cons(2) [unfolded f] and lack = Cons(3) [unfolded f]
  show ?case
  proof (cases "color_of t = RB_RED")
    case True
    then show ?thesis using remove_color_end [OF Cons(2,3)] by blast
  next
    case False
    then have t: "color_of t = RB_BLACK" using lack by (auto simp: lacks_black_def)
    obtain w e ul ur where u: "u = mk d w e ul ur" "invh u" "invc u" "bheight u = bheight t + 1"
      "k = RB_BLACK \<or> k = RB_RED \<and> color_of u = RB_BLACK" "invc t" by (rule lacking_sibling [OF lack t])
    have zp: "zip_at s gs (mk d p k t u)" using z by (simp add: zip_Cons)
    have "root_of t = 0 \<or> RB_COLOR s (root_of t) = RB_BLACK" "root_of t \<noteq> rbh_root s" "d \<longleftrightarrow> RB_LEFT s p = root_of t"
      "child_at (\<not> d) s p = w"
      using zip_color(1) [OF z] t zip_not_root [OF z] zip_side(1) [OF zp] zip_fields(2) [OF zp] by (simp_all add: u)
    note round = remove_color_round [OF this]
    show ?thesis
    proof (cases "e = RB_RED")
      case False
      have e: "e = RB_BLACK" using u(1,3) False by simp
      have "RB_COLOR s w \<noteq> RB_RED" using zip_fields(4) zp False unfolding u(1) by (metis mk_flip zip_Cons)
      moreover have "\<exists>s''. black_sibling d s p w = Some s'' \<and> repaired s (plug gs (mk d p k t (mk d w RB_BLACK ul ur))) s''"
        by (rule black_sibling_repairs [OF zp [unfolded u(1) e] lack [unfolded u(1) e] t]) (use Cons(1) in fastforce)
      ultimately show ?thesis using round by (simp add: f u(1) e)
    next
      case True
      have red: "RB_COLOR s w = RB_RED" using zip_fields(4) zp True unfolding u(1) by (metis mk_flip zip_Cons)
      define s1 where "s1 = rotate_to d (RB_SET_BLACKRED s w p) p"
      note mv = red_sibling_moves [OF zp [unfolded u(1)], folded s1_def]
      have "color_of ul = RB_BLACK" "bheight ul = bheight t + 1" using u True by (auto simp: bheight_mk)
      then have "ul \<noteq> Leaf" by auto
      then obtain v x1 x2 where v: "ul = mk d v RB_BLACK x1 x2" using \<open>color_of ul = RB_BLACK\<close> by (metis mk_cases color_of_mk)
      have z1: "zip_at s1 ((d, w, RB_BLACK, ur) # gs) (mk d p RB_RED t (mk d v RB_BLACK x1 x2))"
        using moved_zip [OF mv] by (simp add: zip_Cons v)
      note lack1 = lacks_black_rotated [OF lack [unfolded u(1) True] t, unfolded v]
      have "\<exists>s''. black_sibling d s1 p v = Some s'' \<and>
          repaired s1 (plug ((d, w, RB_BLACK, ur) # gs) (mk d p RB_RED t (mk d v RB_BLACK x1 x2))) s''"
      proof (rule black_sibling_repairs [OF z1 lack1 t])
        show "\<exists>s''. RB_REMOVE_COLOR s' (parent_of ((d, w, RB_BLACK, ur) # gs)) p = Some s'' \<and>
            repaired s' (plug ((d, w, RB_BLACK, ur) # gs) (mk d p RB_RED t (mk d v RB_RED x1 x2))) s''"
          if "zip_at s' ((d, w, RB_BLACK, ur) # gs) (mk d p RB_RED t (mk d v RB_RED x1 x2))"
            "lacks_black ((d, w, RB_BLACK, ur) # gs) (mk d p RB_RED t (mk d v RB_RED x1 x2))" for s'
          using remove_color_end [OF that] by simp
      qed
      moreover have "child_at (\<not> d) s1 p = v" using zip_fields(2) [OF z1] by simp
      ultimately show ?thesis
        using round red repaired_after [OF mv] by (auto simp: f u(1) True v Let_def s1_def [symmetric])
    qed
  qed
qed

section \<open>Removal\<close>

lemma zip_append: "zip_at s (ms @ fs) t \<longleftrightarrow> zip_at s fs (plug ms t)"
  by (simp add: zip_plug plug_append)

lemma frame_addrs_append: "frame_addrs (us @ vs) = frame_addrs us @ frame_addrs vs"
  by (induction us rule: frame_addrs.induct) simp_all

lemma leftmost_finds:
  "zip_at s fs t \<Longrightarrow> t \<noteq> Leaf \<Longrightarrow>
    \<exists>ms y e r. t = plug ms (mk False y e r Leaf) \<and> leftmost_loop s (root_of t) = Some y \<and> before ms = []"
proof (induction t arbitrary: fs)
  case (Node l v r)
  obtain x c where v: "v = (x, c)" by (cases v)
  have t: "Node l v r = mk True x c l r" by (simp add: v mk_def)
  have z: "zip_at s ((True, x, c, r) # fs) l" using Node(3) by (simp add: t zip_Cons)
  have left: "RB_LEFT s x = root_of l" using zip_fields(1) [OF Node(3) [unfolded t]] by (simp add: child_at_def)
  show ?case
  proof (cases "l = Leaf")
    case True
    have "leftmost_loop s x = Some x" using left True by (subst leftmost_loop.simps) simp
    moreover have "mk True x c l r = plug [] (mk False x c r Leaf)" by (simp add: True mk_def)
    ultimately show ?thesis by (metis t root_of_mk before.simps(1))
  next
    case False
    then obtain ms y e q where l: "l = plug ms (mk False y e q Leaf)" "leftmost_loop s (root_of l) = Some y" "before ms = []"
      using Node(1) [OF z] by blast
    have "leftmost_loop s x = Some y" using left l(2) zip_color(2) [OF z] False by (subst leftmost_loop.simps) simp
    moreover have "mk True x c l r = plug (ms @ [(True, x, c, r)]) (mk False y e q Leaf)" by (simp add: plug_append l(1))
    moreover have "before (ms @ [(True, x, c, r)]) = []" using l(3) by (induction ms rule: before.induct) auto
    ultimately show ?thesis by (metis t root_of_mk)
  qed
qed simp

lemma augment_ends: "zip_at s fs t \<Longrightarrow> fs \<noteq> [] \<Longrightarrow> augment_loop s (parent_of fs) = Some ()"
proof (induction fs arbitrary: t)
  case (Cons f fs)
  obtain d p c u where f: "f = (d, p, c, u)" by (cases f) auto
  have z: "zip_at s fs (mk d p c t u)" using Cons(2) by (simp add: f zip_Cons)
  show ?case
    using zip_fields(3) [OF z] zip_parent [OF z] Cons(1) [OF z] by (subst augment_loop.simps) (auto simp: f)
qed simp

text \<open>The balance without an element that had one child at most.\<close>

definition unbalanced :: "int \<Rightarrow> frame list \<Rightarrow> ctree \<Rightarrow> bool" where
  "unbalanced c fs t \<longleftrightarrow> (if c = RB_BLACK then lacks_black fs t else rb_inv (plug fs t))"

lemma unlink_unbalanced:
  assumes inv: "rb_inv (plug fs (mk d x c t Leaf))"
  shows "unbalanced c fs t"
proof -
  let ?t = "mk d x c t Leaf"
  have h: "invh (plug fs ?t)" "invc (plug fs ?t)" "color_of (plug fs ?t) = RB_BLACK" using inv by (simp_all add: rb_inv_def)
  note it = invh_sub [OF h(1)] invc_sub [OF h(2)]
  have bt: "bheight t = 0" using it(1) by simp
  have col: "color_of t = RB_BLACK \<or> color_of t = RB_RED" using it(2) by (cases t rule: color_of.cases) auto
  have top: "color_of (plug fs Leaf) = RB_BLACK" if "fs \<noteq> []" using color_plug [OF that, of ?t Leaf] h(3) by simp
  show ?thesis
  proof (cases "c = RB_BLACK")
    case True
    have "invc (black t)" using it(2) by (cases t rule: black.cases) auto
    moreover have "invh (plug fs t')" if "invh t'" "bheight t' = bheight t + 1" for t'
      by (rule invh_replace [OF h(1)]) (use that bt True in \<open>simp_all add: bheight_mk\<close>)
    moreover have "invc (plug fs t')" if "invc t'" "color_of t' = RB_BLACK" for t'
      using invc_replace [OF h(2)] that by blast
    ultimately show ?thesis using True it col top by (simp add: unbalanced_def lacks_black_def)
  next
    case False
    have "fs \<noteq> []" using h(3) False by auto
    moreover have "invh (plug fs t)" by (rule invh_replace [OF h(1)]) (use it bt False in \<open>simp_all add: bheight_mk\<close>)
    moreover have "invc (plug fs t)" by (rule invc_replace [OF h(2)]) (use it False in auto)
    ultimately show ?thesis using False color_plug [of fs t Leaf] top by (simp add: unbalanced_def rb_inv_def)
  qed
qed

lemma unbalanced_repaired:
  assumes "zip_at s fs t" "unbalanced c fs t"
  shows "\<exists>s'. (if c = RB_BLACK then RB_REMOVE_COLOR s (parent_of fs) (root_of t) else Some s) = Some s' \<and>
    repaired s (plug fs t) s'"
proof (cases "c = RB_BLACK")
  case True
  then show ?thesis using remove_color_repairs [OF assms(1)] assms(2) by (simp add: unbalanced_def)
next
  case False
  have "moved s (plug fs t) s (plug fs t)" using assms(1) by (intro moved_refl) (simp add: zip_plug)
  then show ?thesis using False assms(2) by (auto simp: unbalanced_def repaired_def)
qed

text \<open>The balance does not depend on the addresses.\<close>

lemma inv_rename:
  "invh (plug fs (mk d x c a b)) \<longleftrightarrow> invh (plug fs (mk d y c a b))"
  "invc (plug fs (mk d x c a b)) \<longleftrightarrow> invc (plug fs (mk d y c a b))"
  "color_of (plug fs (mk d x c a b)) = color_of (plug fs (mk d y c a b))"
proof -
  have "invh (plug fs (mk d y c a b))" if "invh (plug fs (mk d x c a b))" for x y
    using invh_replace [OF that, of "mk d y c a b"] invh_sub [OF that] by (cases d; simp add: mk_def)
  then show "invh (plug fs (mk d x c a b)) \<longleftrightarrow> invh (plug fs (mk d y c a b))" by blast
  have "invc (plug fs (mk d y c a b))" if "invc (plug fs (mk d x c a b))" for x y
    using invc_replace [OF that, of "mk d y c a b"] invc_sub [OF that] by simp
  then show "invc (plug fs (mk d x c a b)) \<longleftrightarrow> invc (plug fs (mk d y c a b))" by blast
  show "color_of (plug fs (mk d x c a b)) = color_of (plug fs (mk d y c a b))"
    by (cases "fs = []") (simp, rule color_plug)
qed

lemma unbalanced_rename:
  "unbalanced k (ms @ (d, x, c, a) # fs) t \<longleftrightarrow> unbalanced k (ms @ (d, y, c, a) # fs) t"
  unfolding unbalanced_def lacks_black_def rb_inv_def plug_append plug.simps
  using inv_rename [of fs d x c _ a y] by simp

lemma remove_one_child:
  assumes z: "zip_at s fs (mk d x c t Leaf)" and inv: "rb_inv (plug fs (mk d x c t Leaf))"
    and code: "\<And>s'. unlink_elm s x (root_of t) = s' \<Longrightarrow> RB_REMOVE s x =
      Option.bind (if c = RB_BLACK then RB_REMOVE_COLOR s' (parent_of fs) (root_of t) else Some s') (\<lambda>s. Some (x, s))"
  shows "\<exists>s' t'. RB_REMOVE s x = Some (x, s') \<and> rb_at s' t' \<and> rb_inv t' \<and> addrs t' = addrs (plug fs t) \<and>
    kept_outside s s' (set (addrs (plug fs (mk d x c t Leaf))))"
proof -
  define s1 where "s1 = unlink_elm s x (root_of t)"
  note un = unlink_moves [OF z, folded s1_def]
  obtain s' t' where "(if c = RB_BLACK then RB_REMOVE_COLOR s1 (parent_of fs) (root_of t) else Some s1) = Some s'"
    and mv: "moved s1 (plug fs t) s' t'" "rb_inv t'"
    using unbalanced_repaired [OF un(1) unlink_unbalanced [OF inv]] by (auto simp: repaired_def)
  then have "RB_REMOVE s x = Some (x, s')" using code [OF s1_def [symmetric]] by simp
  moreover have "kept_outside s s' (set (addrs (plug fs (mk d x c t Leaf))))"
  proof (rule kept_outside_trans)
    show "kept_outside s s1 (set (addrs (plug fs (mk d x c t Leaf))))"
      by (rule kept_outside_mono [OF un(2)]) (auto simp: set_plug addrs_mk)
    show "kept_outside s1 s' (set (addrs (plug fs (mk d x c t Leaf))))"
      by (rule kept_outside_mono [of s1 s' "set (addrs (plug fs t))"]) (use mv(1) in \<open>auto simp: moved_def set_plug addrs_mk\<close>)
  qed
  ultimately show ?thesis using mv by (auto simp: moved_def)
qed

lemma remove_two_children:
  assumes z: "zip_at s fs (mk True x c a b)" and ne: "a \<noteq> Leaf" "b \<noteq> Leaf" and inv: "rb_inv (plug fs (mk True x c a b))"
  shows "\<exists>s' t'. RB_REMOVE s x = Some (x, s') \<and> rb_at s' t' \<and> rb_inv t' \<and>
    addrs t' = before fs @ addrs a @ addrs b @ after fs \<and> kept_outside s s' (set (addrs (plug fs (mk True x c a b))))"
proof -
  have zb: "zip_at s ((False, x, c, a) # fs) b" using z mk_flip [of True x c b a] by (simp add: zip_Cons)
  obtain ms y e r where b: "b = plug ms (mk False y e r Leaf)" "leftmost_loop s (root_of b) = Some y" "before ms = []"
    using leftmost_finds [OF zb ne(2)] by blast
  let ?F = "ms @ (False, x, c, a) # fs" and ?G = "ms @ (False, y, c, a) # fs"
  have zy: "zip_at s ?F (mk False y e r Leaf)" using zb by (simp add: zip_append b(1))
  note f = zip_fields [OF z] and fy = zip_fields [OF zy]
  define s1 where "s1 = unlink_elm s y (root_of r)"
  note un = unlink_moves [OF zy, folded s1_def]
  have z1: "zip_at s1 fs (mk True x c a (plug ms r))" using un(1) mk_flip [of True x c "plug ms r" a] by (simp add: zip_append zip_Cons)
  have dist: "distinct (frame_addrs ?F @ addrs (mk False y e r Leaf))" using zy by (simp add: zip_at_def)
  have y: "y \<noteq> 0" "y \<notin> set (frame_addrs fs)" "y \<notin> set (addrs (mk True x c a (plug ms r)))"
    using fy(5) dist by (auto simp: addrs_mk frame_addrs_append set_plug)
  define s2 where "s2 = replace_elm s1 x y"
  note re = replace_moves [OF z1 ne(1) y, folded s2_def]
  have z2: "zip_at s2 ?G r" using re(1) mk_flip [of True y c "plug ms r" a] by (simp add: zip_append zip_Cons)
  have "rb_inv (plug ?F (mk False y e r Leaf))" using inv b(1) mk_flip [of True x c b a] by (simp add: plug_append)
  then have "unbalanced e ?G r" using unlink_unbalanced unbalanced_rename by blast
  then obtain s' t' where fin: "(if e = RB_BLACK then RB_REMOVE_COLOR s2 (parent_of ?G) (root_of r) else Some s2) = Some s'"
    and mv: "moved s2 (plug ?G r) s' t'" "rb_inv t'"
    using unbalanced_repaired [OF z2] unfolding repaired_def by blast
  have par: "(if RB_PARENT s1 y = x then y else parent_of ?F) = parent_of ?G"
  proof -
    have "RB_PARENT s1 y = parent_of ?F" using un(3) fy(3) by (simp add: RB_PARENT_def)
    moreover have "parent_of ms \<noteq> x" if "ms \<noteq> []" using parent_of_in [OF that] dist by (auto simp: frame_addrs_append)
    moreover have "parent_of (ms @ gs) = (if ms = [] then parent_of gs else parent_of ms)" for gs by (cases ms rule: parent_of.cases) auto
    ultimately show ?thesis by auto
  qed
  have nz: "parent_of ?G \<noteq> 0" using zip_parent [OF z2] by simp
  have fields: "RB_LEFT s x \<noteq> 0" "RB_RIGHT s x = root_of b" "root_of b \<noteq> 0" "RB_RIGHT s y = root_of r"
    using f(1,2) fy(1) zip_color(2) [OF zb] z root_of_zero [of "entry s" x a] ne
    by (auto simp: child_at_def zip_at_def)
  have "RB_REMOVE s x = Some (x, s')"
    using b(2) nz augment_ends [OF z2] fin
    by (simp add: RB_REMOVE_def Let_def fields fy(3,4) s1_def [symmetric] s2_def [symmetric] par cong: if_cong split del: if_split)
  moreover have "addrs (plug ?G r) = before fs @ addrs a @ addrs b @ after fs"
    using b(3) by (simp add: plug_append addrs_plug b(1) mk_def)
  moreover have "kept_outside s s' (set (addrs (plug fs (mk True x c a b))))" (is "kept_outside _ _ ?A")
  proof (rule kept_outside_trans [OF kept_outside_trans])
    show "kept_outside s s1 ?A"
      by (rule kept_outside_mono [OF un(2)]) (auto simp: set_plug addrs_mk frame_addrs_append b(1))
    show "kept_outside s1 s2 ?A"
      by (rule kept_outside_mono [OF re(2)]) (auto simp: set_plug addrs_mk b(1))
    show "kept_outside s2 s' ?A"
      by (rule kept_outside_mono [of s2 s' "set (addrs (plug ?G r))"])
        (use mv(1) in \<open>auto simp: moved_def set_plug addrs_mk frame_addrs_append b(1)\<close>)
  qed
  ultimately show ?thesis using mv by (auto simp: moved_def)
qed

lemma remove_placed:
  assumes at: "rb_at s t" and inv: "rb_inv t" and x: "x \<in> set (addrs t)"
  shows "\<exists>s' t'. RB_REMOVE s x = Some (x, s') \<and> rb_at s' t' \<and> rb_inv t' \<and> addrs t' = remove1 x (addrs t) \<and>
    kept_outside s s' (set (addrs t))"
proof -
  obtain ys zs where "addrs t = ys @ x # zs" using x split_list by metis
  obtain fs c a b where t: "t = plug fs (mk True x c a b)" using x by (rule place_of)
  have z: "zip_at s fs (mk True x c a b)" using at by (simp add: zip_plug t)
  have xs: "addrs t = (before fs @ addrs a) @ x # addrs b @ after fs" by (simp add: t addrs_plug mk_def)
  moreover have "distinct (addrs t)" using at by (simp add: rb_at_def)
  ultimately have rem: "remove1 x (addrs t) = before fs @ addrs a @ addrs b @ after fs"
    by (simp add: remove1_append)
  note f = zip_fields [OF z, unfolded child_at_def, simplified]
  have za: "a = Leaf \<longleftrightarrow> root_of a = 0" "b = Leaf \<longleftrightarrow> root_of b = 0"
    using z root_of_zero by (fastforce simp: zip_at_def)+
  consider "a = Leaf" | "b = Leaf" "a \<noteq> Leaf" | "a \<noteq> Leaf" "b \<noteq> Leaf" by blast
  then show ?thesis
  proof cases
    case 1
    have "zip_at s fs (mk False x c b Leaf)" "rb_inv (plug fs (mk False x c b Leaf))"
      using z inv mk_flip [of True x c b a] by (simp_all add: t 1)
    note rm = remove_one_child [OF this]
    show ?thesis using rm f za rem 1 mk_flip [of True x c b a]
      by (simp add: t RB_REMOVE_def Let_def addrs_plug)
  next
    case 2
    have "zip_at s fs (mk True x c a Leaf)" "rb_inv (plug fs (mk True x c a Leaf))" using z inv by (simp_all add: t 2)
    note rm = remove_one_child [OF this]
    show ?thesis using rm f za rem 2 by (simp add: t RB_REMOVE_def Let_def addrs_plug)
  next
    case 3
    show ?thesis using remove_two_children [OF z 3] inv rem by (simp add: t)
  qed
qed

end
