(* ===== verification/RbSearch.thy ===== *)
theory RbSearch
  imports RbMoves
begin

text \<open>
  The searches of a red-black tree on the tree a state holds: an equal element, the first element
  that is not smaller, the ends, the neighbours of an element, and the loops over all elements.
  None of them needs the tree to be balanced.
\<close>

lemma rep_fields:
  assumes "rep (entry s) q (Node l (x, c) r)"
  shows "RB_LEFT s x = root_of l" "RB_RIGHT s x = root_of r" "x \<noteq> 0"
  using assms by (simp_all add: RB_LEFT_def RB_RIGHT_def)

section \<open>By key\<close>

text \<open>The elements on one side of a node, by the comparison with the node.\<close>

lemma node_sides:
  assumes "orders cmp" "in_order cmp (addrs (Node l (x, c) r))"
  shows "cmp e x \<le> 0 \<Longrightarrow> \<forall>z \<in> set (addrs r). cmp e z < 0" "0 \<le> cmp e x \<Longrightarrow> \<forall>z \<in> set (addrs l). 0 < cmp e z"
    "in_order cmp (addrs l)" "in_order cmp (addrs r)"
  using in_order_side [OF assms(1), of "addrs l" x "addrs r" e] assms(2) by (auto simp: in_order_append)

lemma find_loop_finds:
  assumes cmp: "orders cmp"
  shows "rep (entry s) q t \<Longrightarrow> in_order cmp (addrs t) \<Longrightarrow>
    find_loop cmp s e (root_of t) = Some (first_or 0 (filter (\<lambda>x. cmp e x = 0) (addrs t)))"
proof (induction t arbitrary: q)
  case (Node l v r)
  obtain x c where v: "v = (x, c)" by (cases v)
  note f = rep_fields [OF Node(3) [unfolded v]] and sd = node_sides(1,2) [OF cmp Node(4) [unfolded v], of e]
    and sub = node_sides(3,4) [OF cmp Node(4) [unfolded v]]
  have rep: "rep (entry s) x l" "rep (entry s) x r" using Node(3) by (simp_all add: v)
  consider "cmp e x < 0" | "0 < cmp e x" | "cmp e x = 0" by linarith
  then show ?case
  proof cases
    case 1
    then have "filter (\<lambda>x. cmp e x = 0) (addrs r) = []" using sd(1) by (auto simp: filter_empty_conv)
    then show ?thesis using 1 f Node(1) [OF rep(1) sub(1)] by (subst find_loop.simps) (simp add: v)
  next
    case 2
    then have "filter (\<lambda>x. cmp e x = 0) (addrs l) = []" using sd(2) by (auto simp: filter_empty_conv)
    then show ?thesis using 2 f Node(2) [OF rep(2) sub(2)] by (subst find_loop.simps) (simp add: v)
  next
    case 3
    then have "filter (\<lambda>x. cmp e x = 0) (addrs l) = []" using sd(2) by (auto simp: filter_empty_conv)
    then show ?thesis using 3 f by (subst find_loop.simps) (simp add: v)
  qed
qed (subst find_loop.simps, simp)

lemma nfind_loop_finds:
  assumes cmp: "orders cmp"
  shows "rep (entry s) q t \<Longrightarrow> in_order cmp (addrs t) \<Longrightarrow>
    nfind_loop cmp s e (root_of t) res = Some (first_or res (filter (\<lambda>x. cmp e x \<le> 0) (addrs t)))"
proof (induction t arbitrary: q res)
  case (Node l v r)
  obtain x c where v: "v = (x, c)" by (cases v)
  note f = rep_fields [OF Node(3) [unfolded v]] and sd = node_sides(1,2) [OF cmp Node(4) [unfolded v], of e]
    and sub = node_sides(3,4) [OF cmp Node(4) [unfolded v]]
  have rep: "rep (entry s) x l" "rep (entry s) x r" using Node(3) by (simp_all add: v)
  consider "cmp e x < 0" | "0 < cmp e x" | "cmp e x = 0" by linarith
  then show ?case
  proof cases
    case 1
    then show ?thesis using f Node(1) [OF rep(1) sub(1)] by (subst nfind_loop.simps) (simp add: v)
  next
    case 2
    then have "filter (\<lambda>x. cmp e x \<le> 0) (addrs l) = []" using sd(2) by (auto simp: filter_empty_conv)
    then show ?thesis using 2 f Node(2) [OF rep(2) sub(2)] by (subst nfind_loop.simps) (simp add: v)
  next
    case 3
    then have "filter (\<lambda>x. cmp e x \<le> 0) (addrs l) = []" using sd(2) by (auto simp: filter_empty_conv)
    then show ?thesis using 3 f by (subst nfind_loop.simps) (simp add: v)
  qed
qed (subst nfind_loop.simps, simp)

text \<open>Both searches, on the list of the elements.\<close>

lemma find_finds:
  assumes "rb_at s t" "orders cmp" "in_order cmp (addrs t)"
  shows "RB_FIND cmp s e = Some (first_or 0 (filter (\<lambda>x. cmp e x = 0) (addrs t)))"
    "RB_NFIND cmp s e = Some (first_or 0 (filter (\<lambda>x. cmp e x \<le> 0) (addrs t)))"
  using assms find_loop_finds [of cmp s 0 t e] nfind_loop_finds [of cmp s 0 t e 0]
  by (simp_all add: RB_FIND_def RB_NFIND_def rb_at_def)

section \<open>The ends and the neighbours\<close>

lemma minmax_loop_end:
  "rep (entry s) q t \<Longrightarrow>
    minmax_loop s val (root_of t) p = Some (if val < 0 then first_or p (addrs t) else last_or p (addrs t))"
proof (induction t arbitrary: q p)
  case (Node l v r)
  obtain x c where v: "v = (x, c)" by (cases v)
  note f = rep_fields [OF Node(3) [unfolded v]]
  have rep: "rep (entry s) x l" "rep (entry s) x r" using Node(3) by (simp_all add: v)
  show ?case using f Node(1) [OF rep(1)] Node(2) [OF rep(2)] by (subst minmax_loop.simps) (simp add: v)
qed (subst minmax_loop.simps, simp)

lemma edge_loops:
  "rep (entry s) q t \<Longrightarrow> t \<noteq> Leaf \<Longrightarrow>
    left_loop s (root_of t) = Some (first_or 0 (addrs t)) \<and> right_loop s (root_of t) = Some (last_or 0 (addrs t))"
proof (induction t arbitrary: q)
  case (Node l v r)
  obtain x c where v: "v = (x, c)" by (cases v)
  note f = rep_fields [OF Node(3) [unfolded v]]
  have rep: "rep (entry s) x l" "rep (entry s) x r" using Node(3) by (simp_all add: v)
  have "left_loop s x = Some (first_or x (addrs l))"
    using f Node(1) [OF rep(1)] root_of_zero [OF rep(1)] first_last_other(1) [of "addrs l" x]
    by (subst left_loop.simps) auto
  moreover have "right_loop s x = Some (last_or x (addrs r))"
    using f Node(2) [OF rep(2)] root_of_zero [OF rep(2)] first_last_other(2) [of "addrs r" x]
    by (subst right_loop.simps) auto
  ultimately show ?case by (simp add: v)
qed simp

lemma up_loops:
  "zip_at s fs t \<Longrightarrow> t \<noteq> Leaf \<Longrightarrow>
    up_right_loop s (root_of t) = Some (first_or 0 (after fs)) \<and> up_left_loop s (root_of t) = Some (last_or 0 (before fs))"
proof (induction fs arbitrary: t)
  case (Cons f fs)
  obtain d p c u where f: "f = (d, p, c, u)" by (cases f) auto
  have z: "zip_at s fs (mk d p c t u)" using Cons(2) by (simp add: f zip_Cons)
  obtain x k a b where x: "t = mk True x k a b" using Cons(3) by (rule mk_cases)
  have par: "RB_PARENT s (root_of t) = p" "p \<noteq> 0"
    using zip_fields(3) [OF Cons(2) [unfolded x f]] zip_fields(5) [OF z] by (simp_all add: x)
  have side: "root_of t = RB_RIGHT s p \<longleftrightarrow> \<not> d" "root_of t = RB_LEFT s p \<longleftrightarrow> d"
    using zip_side(2) [OF z disjI1 [OF Cons(3)], of False] zip_side(2) [OF z disjI1 [OF Cons(3)], of True] by (auto simp: child_at_def)
  show ?case
    using Cons(1) [OF z] par side
    by (subst up_right_loop.simps, subst up_left_loop.simps) (simp add: f)
next
  case Nil
  obtain x k a b where x: "t = mk True x k a b" using Nil(2) by (rule mk_cases)
  have "RB_PARENT s (root_of t) = 0" using zip_fields(3) [OF Nil(1) [unfolded x]] by (simp add: x)
  then show ?case by (subst up_right_loop.simps, subst up_left_loop.simps) simp
qed

lemma place_at:
  assumes "rb_at s t" "addrs t = ys @ x # zs"
  obtains fs c a b where "zip_at s fs (mk True x c a b)" "ys = before fs @ addrs a" "zs = addrs b @ after fs"
proof -
  have "x \<in> set (addrs t)" using assms(2) by simp
  then obtain fs c a b where t: "t = plug fs (mk True x c a b)" by (rule place_of)
  have z: "zip_at s fs (mk True x c a b)" using assms(1) by (simp add: zip_plug t)
  have "addrs t = (before fs @ addrs a) @ x # (addrs b @ after fs)" by (simp add: t addrs_plug mk_def)
  moreover have "distinct (addrs t)" using assms(1) by (simp add: rb_at_def)
  ultimately have "ys = before fs @ addrs a \<and> zs = addrs b @ after fs"
    unfolding assms(2) by (metis (no_types, lifting) append_Cons_eq_iff distinct.simps(2) distinct_append not_distinct_conv_prefix)
  then show thesis using that z by blast
qed

lemma neighbours:
  assumes "rb_at s t" "addrs t = ys @ x # zs"
  shows "RB_NEXT s x = Some (first_or 0 zs) \<and> RB_PREV s x = Some (last_or 0 ys)"
proof -
  obtain fs c a b where z: "zip_at s fs (mk True x c a b)" and xs: "ys = before fs @ addrs a" "zs = addrs b @ after fs"
    by (rule place_at [OF assms])
  note f = zip_fields [OF z] and up = up_loops [OF z]
  have rep: "rep (entry s) x a" "rep (entry s) x b" using z by (simp_all add: zip_at_def)
  have lr: "RB_LEFT s x = root_of a" "RB_RIGHT s x = root_of b" using f(1,2) by (simp_all add: child_at_def)
  have par: "RB_PARENT s x \<noteq> 0 \<and> x = RB_LEFT s (RB_PARENT s x) \<longrightarrow> RB_PARENT s x = first_or 0 (after fs)"
    "RB_PARENT s x \<noteq> 0 \<and> x = RB_RIGHT s (RB_PARENT s x) \<longrightarrow> RB_PARENT s x = last_or 0 (before fs)"
  proof -
    have "RB_PARENT s x = p \<and> (x = RB_LEFT s p \<longleftrightarrow> d) \<and> (x = RB_RIGHT s p \<longleftrightarrow> \<not> d)" if "fs = (d, p, k, u) # gs" for d p k u gs
      using f(3) zip_side(2) [of s gs d p k "mk True x c a b" u True] zip_side(2) [of s gs d p k "mk True x c a b" u False] z
      by (auto simp: that zip_Cons child_at_def)
    then show "RB_PARENT s x \<noteq> 0 \<and> x = RB_LEFT s (RB_PARENT s x) \<longrightarrow> RB_PARENT s x = first_or 0 (after fs)"
      "RB_PARENT s x \<noteq> 0 \<and> x = RB_RIGHT s (RB_PARENT s x) \<longrightarrow> RB_PARENT s x = last_or 0 (before fs)"
      using f(3) by (cases fs rule: parent_of.cases; auto)+
  qed
  have next_ok: "RB_NEXT s x = Some (first_or 0 (addrs b @ after fs))"
    using edge_loops [OF rep(2)] up lr(2) root_of_zero [OF rep(2)] par(1) first_last_other(1) [of "addrs b" "first_or 0 (after fs)"]
    by (cases "b = Leaf") (auto simp: RB_NEXT_def)
  have "RB_PREV s x = Some (last_or 0 (before fs @ addrs a))"
    using edge_loops [OF rep(1)] up lr(1) root_of_zero [OF rep(1)] par(2) first_last_other(2) [of "addrs a" "last_or 0 (before fs)"]
    by (cases "a = Leaf") (auto simp: RB_PREV_def)
  then show ?thesis using next_ok by (simp add: xs)
qed

text \<open>The loops over all elements visit them in order, and in reverse order.\<close>

lemma foreach_visits: "rb_at s t \<Longrightarrow> addrs t = ys @ zs \<Longrightarrow> foreach_loop s (first_or 0 zs) = Some zs"
proof (induction zs arbitrary: ys)
  case (Cons z zs)
  have "z \<noteq> 0" using Cons(2,3) rep_nonzero [of "entry s" 0 t] by (auto simp: rb_at_def)
  then show ?case
    using neighbours [OF Cons(2,3)] Cons(1) [of "ys @ [z]"] Cons(2,3) by (subst foreach_loop.simps) simp
qed (subst foreach_loop.simps, simp)

lemma foreach_reverse_visits: "rb_at s t \<Longrightarrow> addrs t = ys @ zs \<Longrightarrow> foreach_reverse_loop s (last_or 0 ys) = Some (rev ys)"
proof (induction ys arbitrary: zs rule: rev_induct)
  case (snoc y ys)
  have "y \<noteq> 0" using snoc(2,3) rep_nonzero [of "entry s" 0 t] by (auto simp: rb_at_def)
  moreover have "addrs t = ys @ y # zs" using snoc(3) by simp
  ultimately show ?case
    using neighbours [OF snoc(2)] snoc(1) [of "y # zs"] snoc(2,3) by (subst foreach_reverse_loop.simps) simp
qed (subst foreach_reverse_loop.simps, simp)

lemma walk_all:
  assumes "rb_at s t"
  shows "RB_MIN s = Some (first_or 0 (addrs t))" "RB_MAX s = Some (last_or 0 (addrs t))"
    "RB_FOREACH s = Some (addrs t)" "RB_FOREACH_REVERSE s = Some (rev (addrs t))"
  using assms minmax_loop_end [of s 0 t _ 0] foreach_visits [of s t "[]" "addrs t"] foreach_reverse_visits [of s t "addrs t" "[]"]
  by (simp_all add: RB_FOREACH_def RB_FOREACH_REVERSE_def RB_MIN_def RB_MAX_def RB_MINMAX_def rb_at_def)

end
