(* ===== verification/RbProps.thy ===== *)
theory RbProps
  imports RbInsert RbRemove RbSearch
begin

text \<open>
  The life of a red-black tree: the states that \<open>RB_INIT\<close>, \<open>RB_INSERT\<close> and \<open>RB_REMOVE\<close> reach,
  also while the rest of the memory changes. All of them hold a balanced tree, in which every
  operation returns and a search takes no more rounds than the height that the header promises.
\<close>

section \<open>The height\<close>

lemma bheight_size: "invh t \<Longrightarrow> 2 ^ bheight t \<le> size t + 1"
  by (induction t rule: invh.induct) auto

lemma height_bheight: "invh t \<Longrightarrow> invc t \<Longrightarrow> height t \<le> 2 * bheight t + (if color_of t = RB_BLACK then 0 else 1)"
proof (induction t rule: invh.induct)
  case (2 l x c r)
  then show ?case by (auto split: if_splits)
qed simp

lemma size_addrs: "size t = length (addrs t)"
  by (simp add: addrs_def)

lemma rb_height:
  assumes "rb_inv t"
  shows "2 ^ height t \<le> (length (addrs t) + 1) ^ 2"
proof -
  have "height t \<le> 2 * bheight t" using height_bheight [of t] assms by (simp add: rb_inv_def)
  then have "(2 :: nat) ^ height t \<le> 2 ^ (2 * bheight t)" by (rule power_increasing) simp
  also have "\<dots> = (2 ^ bheight t) ^ 2" by (simp add: power_mult power_mult_distrib flip: power_mult mult.commute)
  also have "\<dots> \<le> (length (addrs t) + 1) ^ 2"
    using bheight_size [of t] assms by (intro power_mono) (simp_all add: rb_inv_def size_addrs)
  finally show ?thesis .
qed

section \<open>The reachable states\<close>

inductive rb_reach :: "(addr \<Rightarrow> addr \<Rightarrow> int) \<Rightarrow> rb_state \<Rightarrow> addr list \<Rightarrow> bool" for cmp where
  reach_init: "rb_reach cmp (RB_INIT s) []"
| reach_insert: "rb_reach cmp s xs \<Longrightarrow> e \<noteq> 0 \<Longrightarrow> RB_INSERT cmp s e = Some (0, s') \<Longrightarrow> rb_reach cmp s' (insert_in_order cmp e xs)"
| reach_remove: "rb_reach cmp s xs \<Longrightarrow> x \<in> set xs \<Longrightarrow> RB_REMOVE s x = Some (y, s') \<Longrightarrow> rb_reach cmp s' (remove1 x xs)"
| reach_other: "rb_reach cmp s xs \<Longrightarrow> rbh_root s' = rbh_root s \<Longrightarrow> (\<And>x. x \<in> set xs \<Longrightarrow> entry s' x = entry s x) \<Longrightarrow> rb_reach cmp s' xs"

text \<open>What a reachable state holds, and the operations on it.\<close>

definition rb_home :: "(addr \<Rightarrow> addr \<Rightarrow> int) \<Rightarrow> rb_state \<Rightarrow> addr list \<Rightarrow> bool" where
  "rb_home cmp s xs \<longleftrightarrow> in_order cmp xs \<and> (\<exists>t. rb_at s t \<and> rb_inv t \<and> addrs t = xs)"

lemma home_nonzero: "rb_home cmp s xs \<Longrightarrow> 0 \<notin> set xs"
  unfolding rb_home_def using rep_nonzero by (auto simp: rb_at_def)

lemma home_insert:
  assumes cmp: "orders cmp" and s: "rb_home cmp s xs" and e: "e \<noteq> 0"
  shows "if \<exists>x \<in> set xs. cmp e x = 0 then \<exists>x \<in> set xs. cmp e x = 0 \<and> RB_INSERT cmp s e = Some (x, s)
    else \<exists>s'. RB_INSERT cmp s e = Some (0, s') \<and> rb_home cmp s' (insert_in_order cmp e xs) \<and>
      kept_outside s s' (insert e (set xs))"
proof -
  obtain t where t: "rb_at s t" "rb_inv t" "addrs t = xs" "in_order cmp xs" using s unfolding rb_home_def by blast
  note ins = insert_placed [OF t(1,2) cmp, unfolded t(3), OF t(4) e]
  show ?thesis
  proof (cases "\<exists>x \<in> set xs. cmp e x = 0")
    case True
    then show ?thesis using ins by (simp only: if_True)
  next
    case False
    obtain s' t' where "RB_INSERT cmp s e = Some (0, s')" "rb_at s' t'" "rb_inv t'" "addrs t' = insert_in_order cmp e xs"
      "in_order cmp (addrs t')" "kept_outside s s' (insert e (set xs))"
      using ins unfolding if_not_P [OF False] by blast
    then show ?thesis unfolding if_not_P [OF False] rb_home_def by (metis (full_types))
  qed
qed

lemma home_remove:
  assumes s: "rb_home cmp s xs" and x: "x \<in> set xs"
  shows "\<exists>s'. RB_REMOVE s x = Some (x, s') \<and> rb_home cmp s' (remove1 x xs) \<and> kept_outside s s' (set xs)"
proof -
  obtain t where t: "rb_at s t" "rb_inv t" "addrs t = xs" "in_order cmp xs" using s unfolding rb_home_def by blast
  have "in_order cmp (remove1 x xs)" using t(4) by (rule in_order_remove1)
  then show ?thesis using remove_placed [OF t(1,2), unfolded t(3), OF x] unfolding rb_home_def by blast
qed

lemma reach_home:
  assumes "orders cmp" "rb_reach cmp s xs"
  shows "rb_home cmp s xs"
  using assms(2)
proof (induction rule: rb_reach.induct)
  case (reach_init s)
  have "rb_at (RB_INIT s) Leaf \<and> rb_inv Leaf" by (simp add: rb_at_def RB_INIT_def rb_inv_def)
  then show ?case unfolding rb_home_def in_order_def by auto
next
  case (reach_insert s xs e s')
  note ins = home_insert [OF assms(1) reach_insert(4,2)]
  have "0 \<notin> set xs" by (rule home_nonzero [OF reach_insert(4)])
  then have "\<not> (\<exists>x \<in> set xs. cmp e x = 0)" using ins reach_insert(3) by (auto split: if_splits)
  then show ?case using ins reach_insert(3) by auto
next
  case (reach_remove s xs x y s')
  then show ?case using home_remove [OF reach_remove(4,2)] by auto
next
  case (reach_other s xs s')
  then obtain t where t: "rb_at s t" "rb_inv t" "addrs t = xs" "in_order cmp xs" unfolding rb_home_def by blast
  have "rep (entry s') 0 t = rep (entry s) 0 t" by (rule rep_cong) (use reach_other(3) t(3) in auto)
  then have "rb_at s' t" using t(1) reach_other(2) by (simp add: rb_at_def)
  then show ?case using t unfolding rb_home_def by blast
qed

lemma home_search:
  assumes "orders cmp" "rb_home cmp s xs"
  shows "RB_FIND cmp s e = Some (first_or 0 (filter (\<lambda>x. cmp e x = 0) xs))" "RB_FOREACH s = Some xs"
    "RB_NFIND cmp s e = Some (first_or 0 (filter (\<lambda>x. cmp e x \<le> 0) xs))"
  using assms find_finds walk_all(3) unfolding rb_home_def by blast+

text \<open>A tree that \<open>RB_INSERT\<close> fills from the initial state.\<close>

fun rb_fill :: "(addr \<Rightarrow> addr \<Rightarrow> int) \<Rightarrow> rb_state \<Rightarrow> addr list \<Rightarrow> rb_state" where
  "rb_fill cmp s [] = s"
| "rb_fill cmp s (e # es) = rb_fill cmp (snd (the (RB_INSERT cmp s e))) es"

lemma rb_fill_reach:
  assumes "orders cmp"
  shows "rb_reach cmp s xs \<Longrightarrow> 0 \<notin> set es \<Longrightarrow> distinct es \<Longrightarrow> \<forall>e \<in> set es. \<forall>x \<in> set xs \<union> set es. x \<noteq> e \<longrightarrow> cmp e x \<noteq> 0 \<Longrightarrow>
    set es \<inter> set xs = {} \<Longrightarrow> rb_reach cmp (rb_fill cmp s es) (foldl (\<lambda>xs e. insert_in_order cmp e xs) xs es)"
proof (induction es arbitrary: s xs)
  case (Cons e es)
  have "\<not> (\<exists>x \<in> set xs. cmp e x = 0)" using Cons(5,6) by fastforce
  then obtain s' where s': "RB_INSERT cmp s e = Some (0, s')"
    using home_insert [OF assms reach_home [OF assms Cons(2)], of e] Cons(3) by auto
  have "rb_reach cmp s' (insert_in_order cmp e xs)" by (rule reach_insert [OF Cons(2) _ s']) (use Cons(3) in auto)
  then show ?case using Cons(1) [of s' "insert_in_order cmp e xs"] Cons(3-6) s' by simp
qed simp

definition rb_example :: rb_state where
  "rb_example = rb_fill by_address (RB_INIT \<lparr>entry = (\<lambda>_. \<lparr>rbe_left = 0, rbe_right = 0, rbe_parent = 0, rbe_color = 0\<rparr>), rbh_root = 7\<rparr>)
     [16, 8, 24, 32, 40]"

lemma rb_example_reach: "rb_reach by_address rb_example [8, 16, 24, 32, 40]"
proof -
  have "foldl (\<lambda>xs e. insert_in_order by_address e xs) [] [16, 8, 24, 32, 40] = [8, 16, 24, 32, 40]"
    by (simp add: insert_in_order_def by_address_def)
  then show ?thesis unfolding rb_example_def
    using rb_fill_reach [OF orders_by_address reach_init, of "[16, 8, 24, 32, 40]"] by (simp add: by_address_def)
qed

text \<open>
  C25: every state that \<open>RB_INIT\<close>, \<open>RB_INSERT\<close> and \<open>RB_REMOVE\<close> reach holds its elements, in order, in
  a red-black tree: the root is black, no red node has a red child, and all paths have the same
  number of black nodes. Its height is at most \<open>2 lg (n + 1)\<close>, as the header says.
\<close>

theorem rb_reach_balanced:
  assumes "orders cmp" "rb_reach cmp s xs"
  shows "in_order cmp xs \<and> (\<exists>t. rb_at s t \<and> rb_inv t \<and> addrs t = xs \<and> 2 ^ height t \<le> (length xs + 1) ^ 2)"
  using reach_home [OF assms] rb_height unfolding rb_home_def by blast

lemma rb_reach_balanced_witness:
  "in_order by_address [8, 16, 24, 32, 40] \<and> (\<exists>t. rb_at rb_example t \<and> rb_inv t \<and> addrs t = [8, 16, 24, 32, 40] \<and> 2 ^ height t \<le> (36::nat))"
proof -
  have "(length [8, 16, 24, 32, 40 :: addr] + 1) ^ 2 = (36 :: nat)" by (simp add: power2_eq_square)
  from rb_reach_balanced [OF orders_by_address rb_example_reach, unfolded this] show ?thesis .
qed

text \<open>
  C26: in a reachable state \<open>RB_INSERT\<close> returns the element that is equal to the new one and changes
  nothing, or it returns NULL and reaches the state with the new element at its place in the
  order, where \<open>RB_FIND\<close> finds it and \<open>RB_FOREACH\<close> visits it; the entries of other elements stay.
\<close>

theorem rb_insert_correct:
  assumes "orders cmp" "rb_reach cmp s xs" "e \<noteq> 0"
  shows "if \<exists>x \<in> set xs. cmp e x = 0
    then \<exists>x \<in> set xs. cmp e x = 0 \<and> RB_INSERT cmp s e = Some (x, s)
    else \<exists>s'. RB_INSERT cmp s e = Some (0, s') \<and> rb_reach cmp s' (insert_in_order cmp e xs) \<and>
      RB_FIND cmp s' e = Some e \<and> RB_FOREACH s' = Some (insert_in_order cmp e xs) \<and>
      kept_outside s s' (insert e (set xs))"
proof -
  note ins = home_insert [OF assms(1) reach_home [OF assms(1,2)] assms(3)]
  show ?thesis
  proof (cases "\<exists>x \<in> set xs. cmp e x = 0")
    case True
    then show ?thesis using ins by (simp only: if_True)
  next
    case False
    obtain s' where s': "RB_INSERT cmp s e = Some (0, s')" "rb_home cmp s' (insert_in_order cmp e xs)"
      "kept_outside s s' (insert e (set xs))"
      using ins unfolding if_not_P [OF False] by blast
    have "filter (\<lambda>x. cmp e x = 0) (insert_in_order cmp e xs) = [e]"
      using False orders_swap(3) [OF assms(1)] by (simp add: filter_insert_in_order)
    then have "RB_FIND cmp s' e = Some e" "RB_FOREACH s' = Some (insert_in_order cmp e xs)"
      using home_search [OF assms(1) s'(2)] by simp_all
    then show ?thesis unfolding if_not_P [OF False] using s' reach_insert [OF assms(2,3) s'(1)] by blast
  qed
qed

lemma rb_insert_correct_witness:
  "\<exists>s'. RB_INSERT by_address rb_example 20 = Some (0, s') \<and> rb_reach by_address s' [8, 16, 20, 24, 32, 40] \<and>
    RB_FIND by_address s' 20 = Some 20 \<and> RB_FOREACH s' = Some [8, 16, 20, 24, 32, 40] \<and>
    kept_outside rb_example s' {8, 16, 20, 24, 32, 40}"
proof -
  have "insert_in_order by_address 20 [8, 16, 24, 32, 40] = [8, 16, 20, 24, 32, 40]"
    by (simp add: insert_in_order_def by_address_def)
  moreover have "{8, 16, 20, 24, 32, 40} = insert 20 (set [8, 16, 24, 32, 40 :: addr])" by auto
  moreover have "\<not> (\<exists>x \<in> set [8, 16, 24, 32, 40]. by_address 20 x = 0)" by (simp add: by_address_def)
  ultimately show ?thesis using rb_insert_correct [OF orders_by_address rb_example_reach, of 20] by simp
qed

text \<open>
  C27: in a reachable state \<open>RB_REMOVE\<close> of an element of the tree returns the element and reaches the
  state without it: \<open>RB_FIND\<close> finds nothing for its key, \<open>RB_FOREACH\<close> visits the others in their
  order, and only entries of the tree have changed.
\<close>

theorem rb_remove_correct:
  assumes "orders cmp" "rb_reach cmp s xs" "x \<in> set xs"
  shows "\<exists>s'. RB_REMOVE s x = Some (x, s') \<and> rb_reach cmp s' (remove1 x xs) \<and> RB_FIND cmp s' x = Some 0 \<and>
    RB_FOREACH s' = Some (remove1 x xs) \<and> kept_outside s s' (set xs)"
proof -
  have home: "rb_home cmp s xs" by (rule reach_home [OF assms(1,2)])
  obtain s' where s': "RB_REMOVE s x = Some (x, s')" "rb_home cmp s' (remove1 x xs)" "kept_outside s s' (set xs)"
    using home_remove [OF home assms(3)] by blast
  have "filter (\<lambda>y. cmp x y = 0) (remove1 x xs) = []"
    using in_order_unequal [OF assms(1) _ assms(3)] home unfolding rb_home_def by blast
  then have "RB_FIND cmp s' x = Some 0" "RB_FOREACH s' = Some (remove1 x xs)"
    using home_search [OF assms(1) s'(2)] by simp_all
  then show ?thesis using s' reach_remove [OF assms(2,3) s'(1)] by blast
qed

lemma rb_remove_correct_witness:
  "\<exists>s'. RB_REMOVE rb_example 16 = Some (16, s') \<and> rb_reach by_address s' [8, 24, 32, 40] \<and> RB_FIND by_address s' 16 = Some 0 \<and>
    RB_FOREACH s' = Some [8, 24, 32, 40] \<and> kept_outside rb_example s' (set [8, 16, 24, 32, 40])"
  using rb_remove_correct [OF orders_by_address rb_example_reach, of 16] by simp

text \<open>The searches and the walks.\<close>

lemma rb_search_correct:
  assumes "orders cmp" "rb_reach cmp s xs"
  shows "RB_FIND cmp s e = Some (first_or 0 (filter (\<lambda>x. cmp e x = 0) xs)) \<and>
    RB_NFIND cmp s e = Some (first_or 0 (filter (\<lambda>x. cmp e x \<le> 0) xs))"
  using home_search [OF assms(1) reach_home [OF assms]] by simp

text \<open>
  C38: in a reachable state \<open>RB_MIN\<close> and \<open>RB_MAX\<close> return the ends, \<open>RB_NEXT\<close> and \<open>RB_PREV\<close> the
  neighbours of an element or NULL at the ends, and the loops \<open>RB_FOREACH\<close> and
  \<open>RB_FOREACH_REVERSE\<close> visit every element once, in order and in reverse order.
\<close>

theorem rb_walk_correct:
  assumes "orders cmp" "rb_reach cmp s xs" "xs = ys @ x # zs"
  shows "RB_MIN s = Some (hd xs) \<and> RB_MAX s = Some (last xs) \<and> RB_NEXT s x = Some (first_or 0 zs) \<and>
    RB_PREV s x = Some (last_or 0 ys) \<and> RB_FOREACH s = Some xs \<and> RB_FOREACH_REVERSE s = Some (rev xs)"
proof -
  obtain t where t: "rb_at s t" "addrs t = xs" using reach_home [OF assms(1,2)] unfolding rb_home_def by blast
  have "xs \<noteq> []" using assms(3) by simp
  then have ends: "first_or 0 xs = hd xs" "last_or 0 xs = last xs" by (simp_all add: first_or_def last_or_def split: list.splits)
  show ?thesis using neighbours [OF t(1), of ys x zs] walk_all [OF t(1)] ends assms(3) [symmetric] unfolding t(2) by (simp only: refl simp_thms)
qed

lemma rb_walk_correct_witness:
  "RB_MIN rb_example = Some 8 \<and> RB_MAX rb_example = Some 40 \<and> RB_NEXT rb_example 24 = Some 32 \<and> RB_PREV rb_example 24 = Some 16 \<and>
    RB_FOREACH rb_example = Some [8, 16, 24, 32, 40] \<and> RB_FOREACH_REVERSE rb_example = Some [40, 32, 24, 16, 8]"
  using rb_walk_correct [OF orders_by_address rb_example_reach, of "[8, 16]" 24 "[32, 40]"] by simp

text \<open>The safe loops, with a body that removes the elements that satisfy a predicate.\<close>

definition remove_if :: "(addr \<Rightarrow> bool) \<Rightarrow> addr \<Rightarrow> rb_state \<Rightarrow> rb_state option" where
  "remove_if P x s = (if P x then map_option snd (RB_REMOVE s x) else Some s)"

lemma home_walk:
  assumes "rb_home cmp s xs"
  shows "RB_MIN s = Some (first_or 0 xs)" "RB_MAX s = Some (last_or 0 xs)" "distinct xs"
    "xs = ys @ x # zs \<Longrightarrow> RB_NEXT s x = Some (first_or 0 zs) \<and> RB_PREV s x = Some (last_or 0 ys)"
  using assms walk_all neighbours unfolding rb_home_def rb_at_def by blast+

lemma remove_if_home:
  assumes "rb_home cmp s xs" "x \<in> set xs"
  obtains s' where "remove_if P x s = Some s'" "rb_home cmp s' (if P x then remove1 x xs else xs)"
proof (cases "P x")
  case True
  obtain s' where "RB_REMOVE s x = Some (x, s')" "rb_home cmp s' (remove1 x xs)" using home_remove [OF assms] by blast
  then show ?thesis using that [of s'] True by (simp add: remove_if_def)
qed (use that [of s] assms in \<open>simp add: remove_if_def\<close>)

lemma foreach_safe_removes:
  "rb_home cmp s (ys @ zs) \<Longrightarrow> \<exists>s'. foreach_safe_loop RB_NEXT (remove_if P) s (first_or 0 zs) = Some (zs, s') \<and>
    rb_home cmp s' (ys @ filter (\<lambda>x. \<not> P x) zs)"
proof (induction zs arbitrary: s ys)
  case Nil
  then show ?case by (subst foreach_safe_loop.simps) simp
next
  case (Cons z zs)
  note w = home_walk [OF Cons(2)]
  have nz: "z \<noteq> 0" using home_nonzero [OF Cons(2)] by auto
  obtain s1 where s1: "remove_if P z s = Some s1" "rb_home cmp s1 (if P z then remove1 z (ys @ z # zs) else ys @ z # zs)"
    using remove_if_home [OF Cons(2), of z P] by auto
  have "z \<notin> set ys" using w(3) by auto
  then have "rb_home cmp s1 ((if P z then ys else ys @ [z]) @ zs)" using s1(2) by (simp add: remove1_append split: if_splits)
  then obtain s' where "foreach_safe_loop RB_NEXT (remove_if P) s1 (first_or 0 zs) = Some (zs, s')"
    "rb_home cmp s' ((if P z then ys else ys @ [z]) @ filter (\<lambda>x. \<not> P x) zs)" using Cons(1) by blast
  then show ?case using w(4) [OF refl] s1(1) nz by (subst foreach_safe_loop.simps) (simp split: if_splits)
qed

lemma foreach_reverse_safe_removes:
  "rb_home cmp s (ys @ zs) \<Longrightarrow> \<exists>s'. foreach_safe_loop RB_PREV (remove_if P) s (last_or 0 ys) = Some (rev ys, s') \<and>
    rb_home cmp s' (filter (\<lambda>x. \<not> P x) ys @ zs)"
proof (induction ys arbitrary: s zs rule: rev_induct)
  case Nil
  then show ?case by (subst foreach_safe_loop.simps) simp
next
  case (snoc y ys)
  have home: "rb_home cmp s (ys @ y # zs)" using snoc(2) by simp
  note w = home_walk [OF home]
  have nz: "y \<noteq> 0" using home_nonzero [OF home] by auto
  obtain s1 where s1: "remove_if P y s = Some s1" "rb_home cmp s1 (if P y then remove1 y (ys @ y # zs) else ys @ y # zs)"
    using remove_if_home [OF home, of y P] by auto
  have "y \<notin> set ys" using w(3) by auto
  then have "rb_home cmp s1 (ys @ (if P y then zs else y # zs))" using s1(2) by (simp add: remove1_append split: if_splits)
  then obtain s' where "foreach_safe_loop RB_PREV (remove_if P) s1 (last_or 0 ys) = Some (rev ys, s')"
    "rb_home cmp s' (filter (\<lambda>x. \<not> P x) ys @ (if P y then zs else y # zs))" using snoc(1) by blast
  then show ?case using w(4) [OF refl] s1(1) nz by (subst foreach_safe_loop.simps) (simp split: if_splits)
qed

text \<open>
  C37: the body of \<open>RB_FOREACH_SAFE\<close> and of \<open>RB_FOREACH_REVERSE_SAFE\<close> may remove the element it is
  given: the loop still visits every element of the tree once, in order or in reverse, and leaves a
  red-black tree of the elements that the body kept.
\<close>

theorem rb_foreach_safe_correct:
  assumes "orders cmp" "rb_reach cmp s xs"
  shows "\<exists>s1 s2. RB_FOREACH_SAFE (remove_if P) s = Some (xs, s1) \<and> RB_FOREACH_REVERSE_SAFE (remove_if P) s = Some (rev xs, s2) \<and>
    RB_FOREACH s1 = Some (filter (\<lambda>x. \<not> P x) xs) \<and> RB_FOREACH s2 = Some (filter (\<lambda>x. \<not> P x) xs) \<and>
    (\<exists>t1 t2. rb_at s1 t1 \<and> rb_inv t1 \<and> rb_at s2 t2 \<and> rb_inv t2)"
proof -
  have home: "rb_home cmp s xs" by (rule reach_home [OF assms])
  obtain s1 where s1: "foreach_safe_loop RB_NEXT (remove_if P) s (first_or 0 xs) = Some (xs, s1)" "rb_home cmp s1 (filter (\<lambda>x. \<not> P x) xs)"
    using foreach_safe_removes [of cmp s "[]" xs P] home by auto
  obtain s2 where s2: "foreach_safe_loop RB_PREV (remove_if P) s (last_or 0 xs) = Some (rev xs, s2)" "rb_home cmp s2 (filter (\<lambda>x. \<not> P x) xs)"
    using foreach_reverse_safe_removes [of cmp s xs "[]" P] home by auto
  have "RB_FOREACH_SAFE (remove_if P) s = Some (xs, s1)" "RB_FOREACH_REVERSE_SAFE (remove_if P) s = Some (rev xs, s2)"
    using home_walk(1,2) [OF home] s1(1) s2(1) by (simp_all add: RB_FOREACH_SAFE_def RB_FOREACH_REVERSE_SAFE_def)
  moreover have "\<exists>t1 t2. rb_at s1 t1 \<and> rb_inv t1 \<and> rb_at s2 t2 \<and> rb_inv t2" using s1(2) s2(2) unfolding rb_home_def by blast
  ultimately show ?thesis using home_search(2) [OF assms(1) s1(2)] home_search(2) [OF assms(1) s2(2)] by blast
qed

lemma rb_foreach_safe_correct_witness:
  "\<exists>s1 s2. RB_FOREACH_SAFE (remove_if (\<lambda>x. x < 20)) rb_example = Some ([8, 16, 24, 32, 40], s1) \<and>
    RB_FOREACH_REVERSE_SAFE (remove_if (\<lambda>x. x < 20)) rb_example = Some ([40, 32, 24, 16, 8], s2) \<and>
    RB_FOREACH s1 = Some [24, 32, 40] \<and> RB_FOREACH s2 = Some [24, 32, 40] \<and>
    (\<exists>t1 t2. rb_at s1 t1 \<and> rb_inv t1 \<and> rb_at s2 t2 \<and> rb_inv t2)"
  using rb_foreach_safe_correct [OF orders_by_address rb_example_reach, of "\<lambda>x. x < 20"] by simp

text \<open>A search goes down at most the height of the tree: \<open>n\<close> rounds are enough for it.\<close>

fun find_rounds :: "nat \<Rightarrow> (addr \<Rightarrow> addr \<Rightarrow> int) \<Rightarrow> rb_state \<Rightarrow> addr \<Rightarrow> addr \<Rightarrow> addr option" where
  "find_rounds 0 cmp s elm tmp = (if tmp \<noteq> 0 then None else Some 0)"
| "find_rounds (Suc n) cmp s elm tmp =
     (if tmp \<noteq> 0 then
        if cmp elm tmp < 0 then find_rounds n cmp s elm (RB_LEFT s tmp)
        else if cmp elm tmp > 0 then find_rounds n cmp s elm (RB_RIGHT s tmp)
        else Some tmp
      else Some 0)"

lemma find_rounds_loop: "find_rounds n cmp s e x = Some y \<Longrightarrow> find_loop cmp s e x = Some y"
  by (induction n arbitrary: x) (subst find_loop.simps; auto split: if_splits)+

lemma find_rounds_height: "rep (entry s) q t \<Longrightarrow> height t \<le> n \<Longrightarrow> \<exists>y. find_rounds n cmp s e (root_of t) = Some y"
proof (induction t arbitrary: n q)
  case Leaf
  then show ?case by (cases n) simp_all
next
  case (Node l v r)
  obtain x c where v: "v = (x, c)" by (cases v)
  obtain m where n: "n = Suc m" using Node(4) by (cases n) auto
  note f = rep_fields [OF Node(3) [unfolded v]]
  have "rep (entry s) x l" "rep (entry s) x r" "height l \<le> m" "height r \<le> m" using Node(3,4) by (simp_all add: v n)
  then show ?case using Node(1) [of x m] Node(2) [of x m] f by (simp add: v n)
qed

text \<open>
  C36: \<open>RB_FIND\<close> in a reachable tree of \<open>n\<close> elements ends after at most \<open>2 lg (n + 1)\<close> rounds of its
  loop, whatever it looks for.
\<close>

theorem rb_find_bound:
  assumes "orders cmp" "rb_reach cmp s xs" "(length xs + 1) ^ 2 < 2 ^ (n + 1)"
  shows "\<exists>y. find_rounds n cmp s e (rbh_root s) = Some y \<and> RB_FIND cmp s e = Some y"
proof -
  obtain t where t: "rb_at s t" "rb_inv t" "addrs t = xs" using reach_home [OF assms(1,2)] unfolding rb_home_def by blast
  have "(2 :: nat) ^ height t < 2 ^ (n + 1)" using rb_height [OF t(2)] assms(3) t(3) by simp
  then have "height t \<le> n" by (simp only: power_strict_increasing_iff one_less_numeral_iff semiring_norm)
  then show ?thesis using find_rounds_height [of s 0 t n cmp e] find_rounds_loop t(1)
    by (auto simp: rb_at_def RB_FIND_def)
qed

lemma rb_find_bound_witness:
  "\<exists>y. find_rounds 5 by_address rb_example 33 (rbh_root rb_example) = Some y \<and> RB_FIND by_address rb_example 33 = Some y"
  using rb_find_bound [OF orders_by_address rb_example_reach, of 5 33] by (simp add: power2_eq_square)

end
