(* ===== verification/SplayTree.thy ===== *)
theory SplayTree
  imports TreeOrder "HOL-Library.Tree"
begin

text \<open>
  The splay trees of src/src/kernel/include/sys/tree.h: what the \<open>SPLAY_\<close> macros expand to. An
  entry is the pair of child pointers of an element, a state the entries by address with the root
  of the head. The local variable \<open>__node\<close> of the splay functions is an entry on the stack; its
  address is a parameter. A state whose pointers form no tree, and \<open>SPLAY_MINMAX\<close> with a zero
  argument, may loop for ever, so the loops are partial functions.
\<close>

section \<open>The code\<close>

record sp_entry =
  spe_left :: addr
  spe_right :: addr

record sp_state =
  sp_entry_at :: "addr \<Rightarrow> sp_entry"
  sph_root :: addr

definition SPLAY_INIT :: "sp_state \<Rightarrow> sp_state" where
  "SPLAY_INIT s = s\<lparr>sph_root := 0\<rparr>"

definition SPLAY_EMPTY :: "sp_state \<Rightarrow> bool" where
  "SPLAY_EMPTY s \<longleftrightarrow> sph_root s = 0"

definition SPLAY_LEFT :: "sp_state \<Rightarrow> addr \<Rightarrow> addr" where
  "SPLAY_LEFT s x = spe_left (sp_entry_at s x)"

definition SPLAY_RIGHT :: "sp_state \<Rightarrow> addr \<Rightarrow> addr" where
  "SPLAY_RIGHT s x = spe_right (sp_entry_at s x)"

text \<open>Assignments to the two fields.\<close>

definition set_left :: "sp_state \<Rightarrow> addr \<Rightarrow> addr \<Rightarrow> sp_state" where
  "set_left s x v = s\<lparr>sp_entry_at := (sp_entry_at s)(x := (sp_entry_at s x)\<lparr>spe_left := v\<rparr>)\<rparr>"

definition set_right :: "sp_state \<Rightarrow> addr \<Rightarrow> addr \<Rightarrow> sp_state" where
  "set_right s x v = s\<lparr>sp_entry_at := (sp_entry_at s)(x := (sp_entry_at s x)\<lparr>spe_right := v\<rparr>)\<rparr>"

definition SPLAY_ROTATE_RIGHT :: "sp_state \<Rightarrow> addr \<Rightarrow> sp_state" where
  "SPLAY_ROTATE_RIGHT s tmp =
     (let s = set_left s (sph_root s) (SPLAY_RIGHT s tmp);
          s = set_right s tmp (sph_root s)
      in s\<lparr>sph_root := tmp\<rparr>)"

definition SPLAY_ROTATE_LEFT :: "sp_state \<Rightarrow> addr \<Rightarrow> sp_state" where
  "SPLAY_ROTATE_LEFT s tmp =
     (let s = set_right s (sph_root s) (SPLAY_LEFT s tmp);
          s = set_left s tmp (sph_root s)
      in s\<lparr>sph_root := tmp\<rparr>)"

definition SPLAY_LINKLEFT :: "sp_state \<Rightarrow> addr \<Rightarrow> sp_state \<times> addr" where
  "SPLAY_LINKLEFT s tmp =
     (let s = set_left s tmp (sph_root s);
          tmp = sph_root s
      in (s\<lparr>sph_root := SPLAY_LEFT s (sph_root s)\<rparr>, tmp))"

definition SPLAY_LINKRIGHT :: "sp_state \<Rightarrow> addr \<Rightarrow> sp_state \<times> addr" where
  "SPLAY_LINKRIGHT s tmp =
     (let s = set_right s tmp (sph_root s);
          tmp = sph_root s
      in (s\<lparr>sph_root := SPLAY_RIGHT s (sph_root s)\<rparr>, tmp))"

definition SPLAY_ASSEMBLE :: "sp_state \<Rightarrow> addr \<Rightarrow> addr \<Rightarrow> addr \<Rightarrow> sp_state" where
  "SPLAY_ASSEMBLE s node l r =
     (let s = set_right s l (SPLAY_LEFT s (sph_root s));
          s = set_left s r (SPLAY_RIGHT s (sph_root s));
          s = set_left s (sph_root s) (SPLAY_RIGHT s node)
      in set_right s (sph_root s) (SPLAY_LEFT s node))"

text \<open>
  The loops of \<open>SPLAY\<close> and of \<open>SPLAY_MINMAX\<close>, with \<open>__left\<close> and \<open>__right\<close>. \<open>order x\<close> is the
  comparison with the node \<open>x\<close>, for \<open>SPLAY_MINMAX\<close> the constant argument; only the first loop
  ends when it is zero.
\<close>

partial_function (option) splay_loop ::
    "bool \<Rightarrow> (addr \<Rightarrow> int) \<Rightarrow> sp_state \<Rightarrow> addr \<Rightarrow> addr \<Rightarrow> (sp_state \<times> addr \<times> addr) option" where
  "splay_loop ends order s l r =
     (if ends \<and> order (sph_root s) = 0 then Some (s, l, r)
      else if order (sph_root s) < 0 then
        let tmp = SPLAY_LEFT s (sph_root s) in
        if tmp = 0 then Some (s, l, r)
        else if order tmp < 0 then
          let s = SPLAY_ROTATE_RIGHT s tmp in
          if SPLAY_LEFT s (sph_root s) = 0 then Some (s, l, r)
          else let (s, r) = SPLAY_LINKLEFT s r in splay_loop ends order s l r
        else let (s, r) = SPLAY_LINKLEFT s r in splay_loop ends order s l r
      else if order (sph_root s) > 0 then
        let tmp = SPLAY_RIGHT s (sph_root s) in
        if tmp = 0 then Some (s, l, r)
        else if order tmp > 0 then
          let s = SPLAY_ROTATE_LEFT s tmp in
          if SPLAY_RIGHT s (sph_root s) = 0 then Some (s, l, r)
          else let (s, l) = SPLAY_LINKRIGHT s l in splay_loop ends order s l r
        else let (s, l) = SPLAY_LINKRIGHT s l in splay_loop ends order s l r
      else splay_loop ends order s l r)"

definition clear_node :: "sp_state \<Rightarrow> addr \<Rightarrow> sp_state" where
  "clear_node s node = set_left (set_right s node 0) node 0"

definition SPLAY :: "addr \<Rightarrow> (addr \<Rightarrow> addr \<Rightarrow> int) \<Rightarrow> sp_state \<Rightarrow> addr \<Rightarrow> sp_state option" where
  "SPLAY node cmp s elm =
     Option.bind (splay_loop True (cmp elm) (clear_node s node) node node)
       (\<lambda>(s, l, r). Some (SPLAY_ASSEMBLE s node l r))"

definition SPLAY_MINMAX :: "addr \<Rightarrow> sp_state \<Rightarrow> int \<Rightarrow> sp_state option" where
  "SPLAY_MINMAX node s order =
     Option.bind (splay_loop False (\<lambda>_. order) (clear_node s node) node node)
       (\<lambda>(s, l, r). Some (SPLAY_ASSEMBLE s node l r))"

definition SPLAY_FIND :: "addr \<Rightarrow> (addr \<Rightarrow> addr \<Rightarrow> int) \<Rightarrow> sp_state \<Rightarrow> addr \<Rightarrow> (addr \<times> sp_state) option" where
  "SPLAY_FIND node cmp s elm =
     (if SPLAY_EMPTY s then Some (0, s)
      else Option.bind (SPLAY node cmp s elm) (\<lambda>s.
        Some (if cmp elm (sph_root s) = 0 then sph_root s else 0, s)))"

partial_function (option) sp_left_loop :: "sp_state \<Rightarrow> addr \<Rightarrow> addr option" where
  "sp_left_loop s elm = (if SPLAY_LEFT s elm \<noteq> 0 then sp_left_loop s (SPLAY_LEFT s elm) else Some elm)"

definition SPLAY_NEXT :: "addr \<Rightarrow> (addr \<Rightarrow> addr \<Rightarrow> int) \<Rightarrow> sp_state \<Rightarrow> addr \<Rightarrow> (addr \<times> sp_state) option" where
  "SPLAY_NEXT node cmp s elm =
     Option.bind (SPLAY node cmp s elm) (\<lambda>s.
       if SPLAY_RIGHT s elm \<noteq> 0
       then Option.bind (sp_left_loop s (SPLAY_RIGHT s elm)) (\<lambda>x. Some (x, s))
       else Some (0, s))"

definition SPLAY_MIN_MAX :: "addr \<Rightarrow> sp_state \<Rightarrow> int \<Rightarrow> (addr \<times> sp_state) option" where
  "SPLAY_MIN_MAX node s val = Option.bind (SPLAY_MINMAX node s val) (\<lambda>s. Some (sph_root s, s))"

definition SPLAY_MIN :: "addr \<Rightarrow> sp_state \<Rightarrow> (addr \<times> sp_state) option" where
  "SPLAY_MIN node s = (if SPLAY_EMPTY s then Some (0, s) else SPLAY_MIN_MAX node s (-1))"

definition SPLAY_MAX :: "addr \<Rightarrow> sp_state \<Rightarrow> (addr \<times> sp_state) option" where
  "SPLAY_MAX node s = (if SPLAY_EMPTY s then Some (0, s) else SPLAY_MIN_MAX node s 1)"

definition SPLAY_INSERT :: "addr \<Rightarrow> (addr \<Rightarrow> addr \<Rightarrow> int) \<Rightarrow> sp_state \<Rightarrow> addr \<Rightarrow> (addr \<times> sp_state) option" where
  "SPLAY_INSERT node cmp s elm =
     (if SPLAY_EMPTY s then Some (0, (set_left (set_right s elm 0) elm 0)\<lparr>sph_root := elm\<rparr>)
      else Option.bind (SPLAY node cmp s elm) (\<lambda>s.
        let order = cmp elm (sph_root s) in
        if order < 0 then
          let s = set_left s elm (SPLAY_LEFT s (sph_root s));
              s = set_right s elm (sph_root s);
              s = set_left s (sph_root s) 0
          in Some (0, s\<lparr>sph_root := elm\<rparr>)
        else if order > 0 then
          let s = set_right s elm (SPLAY_RIGHT s (sph_root s));
              s = set_left s elm (sph_root s);
              s = set_right s (sph_root s) 0
          in Some (0, s\<lparr>sph_root := elm\<rparr>)
        else Some (sph_root s, s)))"

definition SPLAY_REMOVE :: "addr \<Rightarrow> (addr \<Rightarrow> addr \<Rightarrow> int) \<Rightarrow> sp_state \<Rightarrow> addr \<Rightarrow> (addr \<times> sp_state) option" where
  "SPLAY_REMOVE node cmp s elm =
     (if SPLAY_EMPTY s then Some (0, s)
      else Option.bind (SPLAY node cmp s elm) (\<lambda>s.
        if cmp elm (sph_root s) = 0 then
          if SPLAY_LEFT s (sph_root s) = 0 then Some (elm, s\<lparr>sph_root := SPLAY_RIGHT s (sph_root s)\<rparr>)
          else
            let tmp = SPLAY_RIGHT s (sph_root s);
                s = s\<lparr>sph_root := SPLAY_LEFT s (sph_root s)\<rparr>
            in Option.bind (SPLAY node cmp s elm) (\<lambda>s. Some (elm, set_right s (sph_root s) tmp))
        else Some (0, s)))"

text \<open>The elements a \<open>SPLAY_FOREACH\<close> loop visits whose body leaves the tree alone; every step splays.\<close>

partial_function (option) splay_foreach_loop ::
    "addr \<Rightarrow> (addr \<Rightarrow> addr \<Rightarrow> int) \<Rightarrow> sp_state \<Rightarrow> addr \<Rightarrow> (addr list \<times> sp_state) option" where
  "splay_foreach_loop node cmp s x =
     (if x \<noteq> 0
      then Option.bind (SPLAY_NEXT node cmp s x) (\<lambda>(y, s).
        Option.bind (splay_foreach_loop node cmp s y) (\<lambda>(xs, s). Some (x # xs, s)))
      else Some ([], s))"

definition SPLAY_FOREACH :: "addr \<Rightarrow> (addr \<Rightarrow> addr \<Rightarrow> int) \<Rightarrow> sp_state \<Rightarrow> (addr list \<times> sp_state) option" where
  "SPLAY_FOREACH node cmp s = Option.bind (SPLAY_MIN node s) (\<lambda>(x, s). splay_foreach_loop node cmp s x)"

section \<open>The tree a state holds\<close>

fun sroot :: "addr tree \<Rightarrow> addr" where
  "sroot Leaf = 0"
| "sroot (Node _ x _) = x"

fun srep :: "(addr \<Rightarrow> sp_entry) \<Rightarrow> addr tree \<Rightarrow> bool" where
  "srep N Leaf \<longleftrightarrow> True"
| "srep N (Node l x r) \<longleftrightarrow> x \<noteq> 0 \<and> N x = \<lparr>spe_left = sroot l, spe_right = sroot r\<rparr> \<and> srep N l \<and> srep N r"

definition splay_at :: "sp_state \<Rightarrow> addr tree \<Rightarrow> bool" where
  "splay_at s t \<longleftrightarrow> srep (sp_entry_at s) t \<and> sph_root s = sroot t \<and> distinct (inorder t)"

lemma srep_nonzero: "srep N t \<Longrightarrow> 0 \<notin> set_tree t"
  by (induction t) auto

lemma sroot_zero: "srep N t \<Longrightarrow> sroot t = 0 \<longleftrightarrow> t = Leaf"
  by (cases t) auto

lemma srep_cong: "(\<And>x. x \<in> set_tree t \<Longrightarrow> N' x = N x) \<Longrightarrow> srep N' t = srep N t"
  by (induction t) auto

text \<open>The two sides: \<open>True\<close> is the left one.\<close>

definition sp_mk :: "bool \<Rightarrow> addr \<Rightarrow> addr tree \<Rightarrow> addr tree \<Rightarrow> addr tree" where
  "sp_mk d x a b = (if d then Node a x b else Node b x a)"

definition down :: "bool \<Rightarrow> sp_state \<Rightarrow> addr \<Rightarrow> addr" where
  "down d s x = (if d then SPLAY_LEFT s x else SPLAY_RIGHT s x)"

definition set_down :: "bool \<Rightarrow> sp_state \<Rightarrow> addr \<Rightarrow> addr \<Rightarrow> sp_state" where
  "set_down d s x v = (if d then set_left s x v else set_right s x v)"

text \<open>
  The trees that the loop hangs below \<open>__node\<close>: a chain of nodes on the side \<open>d\<close>, each with a
  finished subtree on its other side, whose last node still waits for its child.
\<close>

fun chain_at :: "bool \<Rightarrow> sp_state \<Rightarrow> addr \<Rightarrow> (addr \<times> addr tree) list \<Rightarrow> addr \<Rightarrow> bool" where
  "chain_at d s p [] e \<longleftrightarrow> e = p"
| "chain_at d s p ((x, u) # cs) e \<longleftrightarrow> x \<noteq> 0 \<and> down d s p = x \<and> down (\<not> d) s x = sroot u \<and> srep (sp_entry_at s) u \<and>
     chain_at d s x cs e"

fun hang :: "bool \<Rightarrow> (addr \<times> addr tree) list \<Rightarrow> addr tree \<Rightarrow> addr tree" where
  "hang d [] t = t"
| "hang d ((x, u) # cs) t = sp_mk d x (hang d cs t) u"

fun chain_addrs :: "(addr \<times> addr tree) list \<Rightarrow> addr list" where
  "chain_addrs [] = []"
| "chain_addrs ((x, u) # cs) = x # inorder u @ chain_addrs cs"

text \<open>The round of the loop for both sides, with the ends of the two chains as a function.\<close>

definition spin :: "bool \<Rightarrow> sp_state \<Rightarrow> addr \<Rightarrow> sp_state" where
  "spin d s tmp =
     (let s = set_down d s (sph_root s) (down (\<not> d) s tmp);
          s = set_down (\<not> d) s tmp (sph_root s)
      in s\<lparr>sph_root := tmp\<rparr>)"

definition sp_link :: "bool \<Rightarrow> sp_state \<Rightarrow> addr \<Rightarrow> sp_state" where
  "sp_link d s e = (let s = set_down d s e (sph_root s) in s\<lparr>sph_root := down d s (sph_root s)\<rparr>)"

lemma splay_sides:
  "SPLAY_ROTATE_RIGHT s x = spin True s x" "SPLAY_ROTATE_LEFT s x = spin False s x"
  "SPLAY_LINKLEFT s e = (sp_link True s e, sph_root s)" "SPLAY_LINKRIGHT s e = (sp_link False s e, sph_root s)"
  "SPLAY_LEFT s x = down True s x" "SPLAY_RIGHT s x = down False s x"
  "set_left s x v = set_down True s x v" "set_right s x v = set_down False s x v"
  by (simp_all add: SPLAY_ROTATE_RIGHT_def SPLAY_ROTATE_LEFT_def SPLAY_LINKLEFT_def SPLAY_LINKRIGHT_def spin_def sp_link_def
      Let_def down_def set_down_def) (simp_all add: set_left_def set_right_def)

lemma splay_round:
  assumes "order (sph_root s) \<noteq> 0" "d \<longleftrightarrow> order (sph_root s) < 0" "down d s (sph_root s) = tmp"
  defines "same \<equiv> (if d then order tmp < 0 else order tmp > 0)"
  shows "splay_loop ends order s (e False) (e True) =
    (if tmp = 0 then Some (s, e False, e True)
     else if same
     then if down d (spin d s tmp) (sph_root (spin d s tmp)) = 0 then Some (spin d s tmp, e False, e True)
       else splay_loop ends order (sp_link d (spin d s tmp) (e d))
         ((e(d := sph_root (spin d s tmp))) False) ((e(d := sph_root (spin d s tmp))) True)
     else splay_loop ends order (sp_link d s (e d)) ((e(d := sph_root s)) False) ((e(d := sph_root s)) True))"
proof (cases d)
  case True
  then show ?thesis using assms
    by (subst splay_loop.simps) (simp add: splay_sides(1-6) Let_def)
next
  case False
  then show ?thesis using assms
    by (subst splay_loop.simps) (simp add: splay_sides(1-6) Let_def)
qed

section \<open>Chains\<close>

lemma set_down_fields [simp]:
  "down d' (set_down d s x v) y = (if y = x \<and> d' = d then v else down d' s y)"
  "y \<noteq> x \<Longrightarrow> sp_entry_at (set_down d s x v) y = sp_entry_at s y"
  "sph_root (set_down d s x v) = sph_root s" "down d (s\<lparr>sph_root := r\<rparr>) y = down d s y"
  "sp_entry_at (s\<lparr>sph_root := r\<rparr>) = sp_entry_at s" "set_down d (s\<lparr>sph_root := r\<rparr>) x v = (set_down d s x v)\<lparr>sph_root := r\<rparr>"
  by (auto simp: down_def set_down_def set_left_def set_right_def SPLAY_LEFT_def SPLAY_RIGHT_def)

lemma srep_down: "sp_entry_at s x = \<lparr>spe_left = l, spe_right = r\<rparr> \<longleftrightarrow> down True s x = l \<and> down False s x = r"
  by (cases "sp_entry_at s x") (auto simp: down_def SPLAY_LEFT_def SPLAY_RIGHT_def)

lemma srep_mk: "srep (sp_entry_at s) (sp_mk d x a b) \<longleftrightarrow>
    x \<noteq> 0 \<and> down d s x = sroot a \<and> down (\<not> d) s x = sroot b \<and> srep (sp_entry_at s) a \<and> srep (sp_entry_at s) b"
  by (auto simp: sp_mk_def srep_down)

lemma sp_mk_simps [simp]: "sroot (sp_mk d x a b) = x" "sp_mk d x a b \<noteq> Leaf" "set_tree (sp_mk d x a b) = insert x (set_tree a \<union> set_tree b)"
  "distinct (inorder (sp_mk d x a b)) \<longleftrightarrow> distinct (x # inorder a @ inorder b)" "size (sp_mk d x a b) = size a + size b + 1"
  by (auto simp: sp_mk_def)

lemma chain_end: "chain_at d s p cs e \<Longrightarrow> e \<in> set (p # chain_addrs cs)"
proof (induction cs arbitrary: p)
  case (Cons c cs)
  obtain x u where c: "c = (x, u)" by (cases c)
  show ?case using Cons(1) [of x] Cons(2) by (auto simp: c)
qed simp

lemma chain_nonzero: "chain_at d s p cs e \<Longrightarrow> 0 \<notin> set (chain_addrs cs)"
proof (induction cs arbitrary: p)
  case (Cons c cs)
  obtain x u where c: "c = (x, u)" by (cases c)
  show ?case using Cons(1) [of x] Cons(2) srep_nonzero by (auto simp: c)
qed simp

lemma sp_chain_cong:
  assumes "chain_at d s p cs e" "down d s' p = down d s p" "\<And>x. x \<in> set (chain_addrs cs) \<Longrightarrow> sp_entry_at s' x = sp_entry_at s x"
  shows "chain_at d s' p cs e"
  using assms
proof (induction cs arbitrary: p)
  case (Cons c cs)
  obtain x u where c: "c = (x, u)" by (cases c)
  have "down k s' x = down k s x" for k using Cons(4) [of x] by (simp add: c down_def SPLAY_LEFT_def SPLAY_RIGHT_def)
  moreover have "srep (sp_entry_at s') u = srep (sp_entry_at s) u" by (rule srep_cong) (use Cons(4) c in auto)
  ultimately show ?case using Cons by (simp add: c)
qed simp

lemma chain_root [simp]: "chain_at d (s\<lparr>sph_root := r\<rparr>) p cs e = chain_at d s p cs e"
  by (induction cs arbitrary: p) auto

text \<open>The end of a chain gets its child, another chain from the same node does not notice.\<close>

lemma chain_set: "chain_at d s p cs e \<Longrightarrow> distinct (p # chain_addrs cs) \<Longrightarrow> chain_at d (set_down d s e v) p cs e"
proof (induction cs arbitrary: p)
  case (Cons c cs)
  obtain x u where c: "c = (x, u)" by (cases c)
  have e: "e \<in> set (x # chain_addrs cs)" using Cons(2) chain_end [of d s x cs e] by (auto simp: c)
  then have ne: "e \<noteq> p" "e \<notin> set (inorder u)" using Cons(3) by (auto simp: c)
  have "srep (sp_entry_at (set_down d s e v)) u = srep (sp_entry_at s) u" by (rule srep_cong, rule set_down_fields(2)) (use ne(2) in auto)
  then show ?case using Cons ne by (auto simp: c)
qed simp

lemma chain_snoc: "chain_at d s p cs e \<Longrightarrow> chain_at d s p (cs @ [(x, u)]) y \<longleftrightarrow>
    y = x \<and> x \<noteq> 0 \<and> down d s e = x \<and> down (\<not> d) s x = sroot u \<and> srep (sp_entry_at s) u"
  by (induction cs arbitrary: p) auto

lemma chain_addrs_append [simp]: "chain_addrs (cs @ cs') = chain_addrs cs @ chain_addrs cs'"
  by (induction cs rule: chain_addrs.induct) simp_all

text \<open>A chain whose end has a tree below it is a tree.\<close>

lemma chain_hang:
  assumes "chain_at d s p cs e" "down d s e = sroot t" "srep (sp_entry_at s) t"
  shows "srep (sp_entry_at s) (hang d cs t)" "down d s p = sroot (hang d cs t)"
  using assms by (induction cs arbitrary: p) (auto simp: srep_mk)

definition chain_list :: "bool \<Rightarrow> (addr \<times> addr tree) list \<Rightarrow> addr list" where
  "chain_list d cs = inorder (hang d cs Leaf)"

lemma inorder_hang: "inorder (hang d cs t) = (if d then inorder t @ chain_list True cs else chain_list False cs @ inorder t)"
  unfolding chain_list_def by (induction cs rule: chain_addrs.induct) (auto simp: sp_mk_def)

lemma hang_append [simp]: "hang d (cs @ cs') t = hang d cs (hang d cs' t)"
  by (induction cs rule: chain_addrs.induct) simp_all

lemma chain_list_snoc: "chain_list d (cs @ [(x, u)]) = (if d then x # inorder u @ chain_list True cs else chain_list False cs @ inorder u @ [x])"
  using inorder_hang [of d cs "sp_mk d x Leaf u"] by (simp add: chain_list_def sp_mk_def)

lemma set_chain_list [simp]: "set (chain_list d cs) = set (chain_addrs cs)"
  unfolding chain_list_def by (induction cs rule: chain_addrs.induct) auto

lemma distinct_chain_list [simp]: "distinct (chain_list d cs) = distinct (chain_addrs cs)"
  unfolding chain_list_def
proof (induction cs rule: chain_addrs.induct)
  case (2 x u cs)
  then show ?case using set_chain_list [of d cs] by (auto simp: chain_list_def)
qed simp

section \<open>The loop\<close>

definition loop_at :: "sp_state \<Rightarrow> addr \<Rightarrow> (bool \<Rightarrow> (addr \<times> addr tree) list) \<Rightarrow> addr tree \<Rightarrow> (bool \<Rightarrow> addr) \<Rightarrow> bool" where
  "loop_at s node cs t e \<longleftrightarrow> (\<forall>d. chain_at d s node (cs d) (e d)) \<and> srep (sp_entry_at s) t \<and> sph_root s = sroot t \<and>
     distinct (node # chain_addrs (cs False) @ inorder t @ chain_addrs (cs True)) \<and> node \<noteq> 0"

definition loop_list :: "(bool \<Rightarrow> (addr \<times> addr tree) list) \<Rightarrow> addr tree \<Rightarrow> addr list" where
  "loop_list cs t = chain_list False (cs False) @ inorder t @ chain_list True (cs True)"

definition sp_kept :: "sp_state \<Rightarrow> sp_state \<Rightarrow> addr set \<Rightarrow> bool" where
  "sp_kept s s' A \<longleftrightarrow> (\<forall>x. x \<notin> A \<longrightarrow> sp_entry_at s' x = sp_entry_at s x)"

lemma sp_kept_trans: "sp_kept s s' A \<Longrightarrow> sp_kept s' s'' A \<Longrightarrow> sp_kept s s'' A"
  by (simp add: sp_kept_def)

lemma loop_distinct:
  assumes "loop_at s node cs t e"
  shows "distinct (node # chain_addrs (cs d) @ inorder t @ chain_addrs (cs (\<not> d)))"
  using assms by (cases d) (auto simp: loop_at_def)

lemma link_round:
  assumes L: "loop_at s node cs (sp_mk d x a u) e"
  shows "loop_at (sp_link d s (e d)) node (cs(d := cs d @ [(x, u)])) a (e(d := x))"
    "loop_list (cs(d := cs d @ [(x, u)])) a = loop_list cs (sp_mk d x a u)"
    "sp_kept s (sp_link d s (e d)) (insert node (set (loop_list cs (sp_mk d x a u))))"
proof -
  note dist = loop_distinct [OF L, of d]
  have ch: "chain_at k s node (cs k) (e k)" for k using L by (simp add: loop_at_def)
  have root: "sph_root s = x" using L by (simp add: loop_at_def)
  have r: "x \<noteq> 0" "down d s x = sroot a" "down (\<not> d) s x = sroot u" "srep (sp_entry_at s) a" "srep (sp_entry_at s) u"
    using L by (auto simp: loop_at_def srep_mk)
  have e: "e d \<in> set (node # chain_addrs (cs d))" using chain_end [OF ch] .
  then have ne: "e d \<noteq> x" "e d \<notin> set (inorder a)" "e d \<notin> set (inorder u)" "e d \<notin> set (chain_addrs (cs (\<not> d)))"
    using dist by auto
  define s1 where "s1 = set_down d s (e d) x"
  have s': "sp_link d s (e d) = s1\<lparr>sph_root := sroot a\<rparr>" using root r(2) ne by (simp add: sp_link_def s1_def Let_def)
  have reps: "srep (sp_entry_at s1) a" "srep (sp_entry_at s1) u"
    unfolding s1_def using r(4,5) ne by (auto intro!: srep_cong [THEN iffD2, OF set_down_fields(2)])
  have c1: "chain_at d s1 node (cs d) (e d)" unfolding s1_def by (rule chain_set [OF ch]) (use dist in auto)
  have "chain_at d s1 node (cs d @ [(x, u)]) x"
    unfolding chain_snoc [OF c1] using r(1,3) reps ne by (simp add: s1_def)
  moreover have other: "chain_at (\<not> d) s1 node (cs (\<not> d)) (e (\<not> d))"
    by (rule sp_chain_cong [OF ch]) (use ne in \<open>auto simp: s1_def intro!: set_down_fields(2)\<close>)
  ultimately have all: "chain_at k s1 node ((cs(d := cs d @ [(x, u)])) k) ((e(d := x)) k)" for k
  proof (cases "k = d")
    case False
    then have "k = (\<not> d)" by auto
    then show ?thesis using other by simp
  qed simp
  have all': "\<forall>k. chain_at k (s1\<lparr>sph_root := sroot a\<rparr>) node ((cs(d := cs d @ [(x, u)])) k) ((e(d := x)) k)"
    unfolding chain_root using all by blast
  have "distinct (node # chain_addrs ((cs(d := cs d @ [(x, u)])) False) @ inorder a @ chain_addrs ((cs(d := cs d @ [(x, u)])) True))"
    using dist by (cases d) auto
  then show "loop_at (sp_link d s (e d)) node (cs(d := cs d @ [(x, u)])) a (e(d := x))"
    using all' reps(1) L unfolding s' loop_at_def by simp
  show "loop_list (cs(d := cs d @ [(x, u)])) a = loop_list cs (sp_mk d x a u)"
    by (cases d) (simp_all add: loop_list_def chain_list_snoc sp_mk_def)
  show "sp_kept s (sp_link d s (e d)) (insert node (set (loop_list cs (sp_mk d x a u))))"
    unfolding s' s1_def sp_kept_def loop_list_def using e by (cases d) (auto intro!: set_down_fields(2))
qed

lemma spin_round:
  assumes L: "loop_at s node cs (sp_mk d x (sp_mk d y a b) u) e"
  shows "loop_at (spin d s y) node cs (sp_mk d y a (sp_mk d x b u)) e"
    "loop_list cs (sp_mk d y a (sp_mk d x b u)) = loop_list cs (sp_mk d x (sp_mk d y a b) u)"
    "sp_kept s (spin d s y) (insert node (set (loop_list cs (sp_mk d x (sp_mk d y a b) u))))"
proof -
  note dist = loop_distinct [OF L, of d]
  have ch: "chain_at k s node (cs k) (e k)" for k using L by (simp add: loop_at_def)
  have root: "sph_root s = x" using L by (simp add: loop_at_def)
  have r: "x \<noteq> 0" "y \<noteq> 0" "down d s x = y" "down (\<not> d) s x = sroot u" "down d s y = sroot a" "down (\<not> d) s y = sroot b"
    "srep (sp_entry_at s) a" "srep (sp_entry_at s) b" "srep (sp_entry_at s) u"
    using L by (auto simp: loop_at_def srep_mk)
  define s1 where "s1 = set_down (\<not> d) (set_down d s x (sroot b)) y x"
  have s': "spin d s y = s1\<lparr>sph_root := y\<rparr>" by (simp add: spin_def s1_def Let_def root r)
  have xy: "x \<noteq> y" "x \<noteq> node" "y \<noteq> node" using dist by auto
  have same: "sp_entry_at s1 z = sp_entry_at s z" if "z \<noteq> x" "z \<noteq> y" for z using that by (simp add: s1_def)
  have reps: "srep (sp_entry_at s1) a" "srep (sp_entry_at s1) b" "srep (sp_entry_at s1) u"
    using r dist by (auto intro!: srep_cong [THEN iffD2, OF same])
  have "srep (sp_entry_at s1) (sp_mk d y a (sp_mk d x b u))"
    using r xy reps by (simp add: srep_mk s1_def)
  moreover have "chain_at k s1 node (cs k) (e k)" for k
  proof (rule sp_chain_cong [OF ch])
    show "down k s1 node = down k s node" using xy by (auto simp: s1_def)
    show "sp_entry_at s1 z = sp_entry_at s z" if "z \<in> set (chain_addrs (cs k))" for z
      by (rule same) (use that loop_distinct [OF L, of k] in auto)
  qed
  then have "\<forall>k. chain_at k (s1\<lparr>sph_root := y\<rparr>) node (cs k) (e k)" by simp
  ultimately show "loop_at (spin d s y) node cs (sp_mk d y a (sp_mk d x b u)) e"
    using L dist unfolding s' loop_at_def by (cases d) auto
  show "loop_list cs (sp_mk d y a (sp_mk d x b u)) = loop_list cs (sp_mk d x (sp_mk d y a b) u)"
    by (simp add: loop_list_def sp_mk_def)
  show "sp_kept s (spin d s y) (insert node (set (loop_list cs (sp_mk d x (sp_mk d y a b) u))))"
    unfolding s' sp_kept_def loop_list_def by (auto intro!: same)
qed

text \<open>
  The comparison with the elements of a tree turns from positive to negative once; the chain on a
  side holds elements whose comparison has settled.
\<close>

definition turns :: "(addr \<Rightarrow> int) \<Rightarrow> addr list \<Rightarrow> bool" where
  "turns order xs \<longleftrightarrow> sorted_wrt (\<lambda>x y. order x \<le> 0 \<longrightarrow> order y < 0) xs"

definition side_of :: "bool \<Rightarrow> int \<Rightarrow> bool" where
  "side_of d v \<longleftrightarrow> (if d then v < 0 else 0 < v)"

definition settled :: "(addr \<Rightarrow> int) \<Rightarrow> (bool \<Rightarrow> (addr \<times> addr tree) list) \<Rightarrow> bool" where
  "settled order cs \<longleftrightarrow> (\<forall>d. \<forall>x \<in> set (chain_addrs (cs d)). side_of d (order x))"

definition stopped :: "bool \<Rightarrow> (addr \<Rightarrow> int) \<Rightarrow> addr tree \<Rightarrow> bool" where
  "stopped ends order t \<longleftrightarrow> (\<exists>a x b. t = Node a x b \<and>
     (ends \<and> order x = 0 \<or> order x < 0 \<and> a = Leaf \<or> 0 < order x \<and> b = Leaf))"

lemma turns_side:
  assumes "turns order (inorder (sp_mk d x a u))" "side_of d (order x)" "z \<in> set_tree u"
  shows "side_of d (order z)"
proof (cases d)
  case True
  then show ?thesis using assms by (auto simp: turns_def side_of_def sp_mk_def sorted_wrt_append)
next
  case False
  then have "order z \<le> 0 \<longrightarrow> order x < 0" "0 < order x"
    using assms by (auto simp: turns_def side_of_def sp_mk_def sorted_wrt_append)
  then show ?thesis using False by (auto simp: side_of_def)
qed

lemma turns_loop: "turns order (loop_list cs t) \<Longrightarrow> turns order (inorder t)"
  by (simp add: loop_list_def turns_def sorted_wrt_append)

lemma settled_link:
  assumes "settled order cs" "turns order (inorder (sp_mk d x a u))" "side_of d (order x)"
  shows "settled order (cs(d := cs d @ [(x, u)]))"
  using assms turns_side [OF assms(2,3)] by (auto simp: settled_def)

lemma sp_mk_cases:
  assumes "t \<noteq> Leaf"
  obtains x a u where "t = sp_mk d x a u"
  using assms that by (cases t; cases d) (auto simp: sp_mk_def)

definition splayed_from :: "bool \<Rightarrow> (addr \<Rightarrow> int) \<Rightarrow> sp_state \<Rightarrow> addr \<Rightarrow> (bool \<Rightarrow> (addr \<times> addr tree) list) \<Rightarrow> addr tree \<Rightarrow>
    (bool \<Rightarrow> addr) \<Rightarrow> bool" where
  "splayed_from ends order s node cs t e \<longleftrightarrow> (\<exists>s' cs' t' e'.
     splay_loop ends order s (e False) (e True) = Some (s', e' False, e' True) \<and> loop_at s' node cs' t' e' \<and>
     loop_list cs' t' = loop_list cs t \<and> stopped ends order t' \<and> settled order cs' \<and>
     sp_kept s s' (insert node (set (loop_list cs t))))"

lemma splayed_step:
  assumes "splayed_from ends order s' node cs' t' e'" "loop_list cs' t' = loop_list cs t"
    "splay_loop ends order s (e False) (e True) = splay_loop ends order s' (e' False) (e' True)"
    "sp_kept s s' (insert node (set (loop_list cs t)))"
  shows "splayed_from ends order s node cs t e"
proof -
  obtain s'' cs'' t'' e'' where k:
    "splay_loop ends order s' (e' False) (e' True) = Some (s'', e'' False, e'' True)" "loop_at s'' node cs'' t'' e''"
    "loop_list cs'' t'' = loop_list cs t" "stopped ends order t''" "settled order cs''"
    "sp_kept s' s'' (insert node (set (loop_list cs t)))"
    using assms(1) unfolding splayed_from_def assms(2) by blast
  show ?thesis unfolding splayed_from_def assms(3) using k(1-5) sp_kept_trans [OF assms(4) k(6)] by blast
qed

text \<open>
  What holds at the head of the loop. The cases of a round: it stops, it links the root to a chain,
  or it rotates a child up first.
\<close>

definition splay_ready :: "bool \<Rightarrow> (addr \<Rightarrow> int) \<Rightarrow> sp_state \<Rightarrow> addr \<Rightarrow> (bool \<Rightarrow> (addr \<times> addr tree) list) \<Rightarrow> addr tree \<Rightarrow>
    (bool \<Rightarrow> addr) \<Rightarrow> bool" where
  "splay_ready ends order s node cs t e \<longleftrightarrow> loop_at s node cs t e \<and> t \<noteq> Leaf \<and> turns order (loop_list cs t) \<and>
     settled order cs \<and> (ends \<or> (\<forall>x. order x \<noteq> 0))"

lemma ready_link:
  assumes "splay_ready ends order s node cs (sp_mk d z a w) e" "side_of d (order z)" "a \<noteq> Leaf"
  shows "splay_ready ends order (sp_link d s (e d)) node (cs(d := cs d @ [(z, w)])) a (e(d := z))"
proof -
  have L: "loop_at s node cs (sp_mk d z a w) e" and o: "settled order cs" "turns order (loop_list cs (sp_mk d z a w))"
    using assms(1) by (simp_all add: splay_ready_def)
  show ?thesis using link_round(1,2) [OF L] settled_link [OF o(1) turns_loop [OF o(2)] assms(2)] assms
    by (simp add: splay_ready_def)
qed

lemma ready_spin:
  assumes "splay_ready ends order s node cs (sp_mk d x (sp_mk d y a b) u) e"
  shows "splay_ready ends order (spin d s y) node cs (sp_mk d y a (sp_mk d x b u)) e"
  using spin_round(1,2) [of s node cs d x y a b u e] assms by (simp add: splay_ready_def)

lemma splay_halt:
  assumes "splay_ready ends order s node cs t e" "stopped ends order t"
    "splay_loop ends order s (e False) (e True) = Some (s, e False, e True)"
  shows "splayed_from ends order s node cs t e"
  using assms unfolding splayed_from_def splay_ready_def
  by (intro exI [of _ s] exI [of _ cs] exI [of _ t] exI [of _ e]) (simp add: sp_kept_def)

lemma stopped_mk: "side_of d (order x) \<Longrightarrow> stopped ends order (sp_mk d x Leaf u)"
  by (auto simp: stopped_def sp_mk_def side_of_def split: if_splits)

lemma ready_round:
  assumes R: "splay_ready ends order s node cs (sp_mk d x t u) e" and x: "side_of d (order x)"
  shows "t = Leaf \<Longrightarrow> splay_loop ends order s (e False) (e True) = Some (s, e False, e True)"
    "t \<noteq> Leaf \<Longrightarrow> \<not> side_of d (order (sroot t)) \<Longrightarrow> splay_loop ends order s (e False) (e True) =
      splay_loop ends order (sp_link d s (e d)) ((e(d := x)) False) ((e(d := x)) True)"
    "t = sp_mk d y a b \<Longrightarrow> side_of d (order y) \<Longrightarrow> splay_loop ends order s (e False) (e True) =
      (if a = Leaf then Some (spin d s y, e False, e True)
       else splay_loop ends order (sp_link d (spin d s y) (e d)) ((e(d := y)) False) ((e(d := y)) True))"
proof -
  have r: "sph_root s = x" "down d s x = sroot t" "sroot t = 0 \<longleftrightarrow> t = Leaf"
    using R sroot_zero by (auto simp: splay_ready_def loop_at_def srep_mk)
  have "order (sph_root s) \<noteq> 0" "d \<longleftrightarrow> order (sph_root s) < 0" using x r(1) by (auto simp: side_of_def split: if_splits)
  note round = splay_round [where order = order and s = s and d = d and tmp = "sroot t" and ends = ends and e = e,
      OF this r(2) [folded r(1)], folded side_of_def, unfolded r(1,3)]
  show "t = Leaf \<Longrightarrow> splay_loop ends order s (e False) (e True) = Some (s, e False, e True)"
    "t \<noteq> Leaf \<Longrightarrow> \<not> side_of d (order (sroot t)) \<Longrightarrow> splay_loop ends order s (e False) (e True) =
      splay_loop ends order (sp_link d s (e d)) ((e(d := x)) False) ((e(d := x)) True)"
    unfolding round by simp_all
  assume t: "t = sp_mk d y a b" and y: "side_of d (order y)"
  have "sph_root (spin d s y) = y" "down d (spin d s y) y = 0 \<longleftrightarrow> a = Leaf"
    using ready_spin [OF R [unfolded t]] sroot_zero by (auto simp: splay_ready_def loop_at_def srep_mk)
  then show "splay_loop ends order s (e False) (e True) =
      (if a = Leaf then Some (spin d s y, e False, e True)
       else splay_loop ends order (sp_link d (spin d s y) (e d)) ((e(d := y)) False) ((e(d := y)) True))"
    unfolding round using y by (simp add: t)
qed

lemma splay_link_child:
  assumes R: "splay_ready ends order s node cs (sp_mk d x t u) e"
    and t: "side_of d (order x)" "t \<noteq> Leaf" "\<not> side_of d (order (sroot t))"
    and rec: "splayed_from ends order (sp_link d s (e d)) node (cs(d := cs d @ [(x, u)])) t (e(d := x))"
  shows "splayed_from ends order s node cs (sp_mk d x t u) e"
proof -
  have "loop_at s node cs (sp_mk d x t u) e" using R by (simp add: splay_ready_def)
  then show ?thesis using splayed_step [OF rec] link_round(2,3) ready_round(2) [OF R t] by blast
qed

lemma splay_spin_child:
  assumes R: "splay_ready ends order s node cs (sp_mk d x (sp_mk d y a b) u) e"
    and t: "side_of d (order x)" "side_of d (order y)"
    and rec: "a \<noteq> Leaf \<Longrightarrow> splayed_from ends order (sp_link d (spin d s y) (e d)) node (cs(d := cs d @ [(y, sp_mk d x b u)])) a (e(d := y))"
  shows "splayed_from ends order s node cs (sp_mk d x (sp_mk d y a b) u) e"
proof -
  have L: "loop_at s node cs (sp_mk d x (sp_mk d y a b) u) e" and o: "settled order cs" using R by (simp_all add: splay_ready_def)
  note sp = spin_round [OF L] and round = ready_round(3) [OF R t(1) refl t(2)]
  show ?thesis
  proof (cases "a = Leaf")
    case True
    have "stopped ends order (sp_mk d y a (sp_mk d x b u))" unfolding True using t(2) by (rule stopped_mk)
    then show ?thesis using sp o round True unfolding splayed_from_def
      by (intro exI [of _ "spin d s y"] exI [of _ cs] exI [of _ "sp_mk d y a (sp_mk d x b u)"] exI [of _ e]) simp
  next
    case False
    note k = link_round [OF sp(1)]
    have "sp_kept s (sp_link d (spin d s y) (e d)) (insert node (set (loop_list cs (sp_mk d x (sp_mk d y a b) u))))"
      by (rule sp_kept_trans [OF sp(3)]) (use k(3) sp(2) in simp)
    then show ?thesis using splayed_step [OF rec [OF False]] k(2) sp(2) round False by simp
  qed
qed

lemma splay_loop_ends: "splay_ready ends order s node cs t e \<Longrightarrow> splayed_from ends order s node cs t e"
proof (induction "size t" arbitrary: s cs t e rule: less_induct)
  case less
  have root: "sph_root s = sroot t" "t \<noteq> Leaf" using less(2) by (simp_all add: splay_ready_def loop_at_def)
  show ?case
  proof (cases "order (sroot t) = 0")
    case True
    then have "ends" using less(2) by (auto simp: splay_ready_def)
    moreover have "stopped ends order t" using True \<open>ends\<close> root(2) by (cases t) (auto simp: stopped_def)
    moreover have "splay_loop ends order s (e False) (e True) = Some (s, e False, e True)"
      by (subst splay_loop.simps) (simp add: root True \<open>ends\<close>)
    ultimately show ?thesis using splay_halt [OF less(2)] by blast
  next
    case False
    have "side_of True (order (sroot t)) \<or> side_of False (order (sroot t))" using False by (auto simp: side_of_def neq_iff)
    then obtain d where "side_of d (order (sroot t))" by blast
    moreover obtain x a u where t: "t = sp_mk d x a u" using root(2) by (rule sp_mk_cases)
    ultimately have x: "side_of d (order x)" by simp
    note R = less(2) [unfolded t]
    consider "a = Leaf" | "a \<noteq> Leaf" "\<not> side_of d (order (sroot a))" | y a' b where "a = sp_mk d y a' b" "side_of d (order y)"
      using sp_mk_cases [of a d] by (metis sp_mk_simps(1))
    then show ?thesis
    proof cases
      case 1
      have "stopped ends order (sp_mk d x a u)" unfolding 1 using x by (rule stopped_mk)
      then show ?thesis using splay_halt [OF R] ready_round(1) [OF R x 1] by (simp add: t)
    next
      case 2
      show ?thesis unfolding t
        by (rule splay_link_child [OF R x 2], rule less(1), simp add: t) (rule ready_link [OF R x 2(1)])
    next
      case 3
      show ?thesis unfolding t 3(1)
        by (rule splay_spin_child [OF R [unfolded 3(1)] x 3(2)], rule less(1), simp add: t 3(1))
          (rule ready_link [OF ready_spin [OF R [unfolded 3(1)]] 3(2)])
    qed
  qed
qed

section \<open>The splay\<close>

lemma set_hang [simp]: "set_tree (hang d cs t) = set (chain_addrs cs) \<union> set_tree t"
  by (induction cs rule: chain_addrs.induct) auto

lemma distinct_hang: "distinct (inorder (hang d cs t)) \<longleftrightarrow> distinct (chain_addrs cs @ inorder t)"
  by (cases d) (auto simp: inorder_hang)

lemma assembled:
  fixes nd :: addr
  assumes L: "loop_at s nd cs (Node a r b) e"
  defines "s' \<equiv> SPLAY_ASSEMBLE s nd (e False) (e True)" and "t' \<equiv> Node (hang False (cs False) a) r (hang True (cs True) b)"
  shows "splay_at s' t'" "inorder t' = loop_list cs (Node a r b)" "sp_kept s s' (insert nd (set (inorder t')))"
proof -
  define sub where "sub d = (if d then b else a)" for d :: bool
  have ch: "chain_at d s nd (cs d) (e d)" for d using L by (simp add: loop_at_def)
  have e: "e d \<in> set (nd # chain_addrs (cs d))" for d using chain_end [OF ch] .
  have dist: "distinct (nd # chain_addrs (cs d) @ (r # inorder a @ inorder b) @ chain_addrs (cs (\<not> d)))" for d
    using loop_distinct [OF L, of d] by auto
  have root: "sph_root s = r" "r \<noteq> 0" "down True s r = sroot a" "down False s r = sroot b"
    and reps: "\<And>d. srep (sp_entry_at s) (sub d)"
    using L by (auto simp: loop_at_def srep_down sub_def)
  have ne: "e d \<noteq> r" "e d \<notin> set (inorder (sub k))" for d k using e [of d] dist [of d] by (auto simp: sub_def)
  define s1 where "s1 = set_down True (set_down False s (e False) (sroot a)) (e True) (sroot b)"
  have c1: "chain_at d s1 nd (cs d) (e d)" for d
  proof -
    have 1: "chain_at d (set_down d s (e d) v) nd (cs d) (e d)" for v by (rule chain_set [OF ch]) (use dist [of d] in auto)
    have 2: "chain_at d (set_down (\<not> d) s' (e (\<not> d)) v) nd (cs d) (e d)" if "chain_at d s' nd (cs d) (e d)" for s' v
      by (rule sp_chain_cong [OF that]) (use e [of "\<not> d"] dist [of d] in \<open>auto intro!: set_down_fields(2)\<close>)
    show ?thesis
    proof (cases d)
      case True
      have "chain_at True (set_down False s (e False) (sroot a)) nd (cs True) (e True)" using 2 [OF ch] True by simp
      then have "chain_at True s1 nd (cs True) (e True)" unfolding s1_def by (rule chain_set) (use dist [of True] in auto)
      then show ?thesis using True by simp
    next
      case False
      then show ?thesis using 2 [OF 1] unfolding s1_def by simp
    qed
  qed
  have "srep (sp_entry_at s1) (sub d)" for d
    using reps ne(2) [of True d] ne(2) [of False d] unfolding s1_def
    by (auto intro!: srep_cong [THEN iffD2, OF set_down_fields(2)])
  moreover have "down d s1 (e d) = sroot (sub d)" for d by (simp add: s1_def sub_def)
  ultimately have hung: "srep (sp_entry_at s1) (hang d (cs d) (sub d))" "down d s1 nd = sroot (hang d (cs d) (sub d))" for d
    using chain_hang [OF c1] by blast+
  have s': "s' = set_down False (set_down True s1 r (down False s1 nd)) r (down True s1 nd)"
    using root ne(1) [of False, THEN not_sym] dist [of True] by (simp add: s'_def SPLAY_ASSEMBLE_def splay_sides(5-8) s1_def Let_def)
  have "srep (sp_entry_at s') (hang d (cs d) (sub d))" for d
    unfolding s' using hung(1) [of d] dist [of d] by (auto simp: sub_def intro!: srep_cong [THEN iffD2, OF set_down_fields(2)])
  from this [of True] this [of False] show "splay_at s' t'"
    using hung(2) [of True] hung(2) [of False] root dist [of True] ne unfolding splay_at_def t'_def
    by (auto simp: sub_def s' s1_def srep_down distinct_hang)
  show "inorder t' = loop_list cs (Node a r b)"
    by (simp add: t'_def loop_list_def inorder_hang)
  show "sp_kept s s' (insert nd (set (inorder t')))"
    unfolding sp_kept_def
  proof (intro allI impI)
    fix x assume x: "x \<notin> insert nd (set (inorder t'))"
    then have "x \<noteq> r" "x \<noteq> e True" "x \<noteq> e False" using e [of True] e [of False] by (auto simp: t'_def)
    then show "sp_entry_at s' x = sp_entry_at s x" by (simp add: s' s1_def)
  qed
qed

text \<open>
  The splayed tree: the elements in their order, and at the root the one where the comparison
  turns; \<open>SPLAY_MINMAX\<close> brings up the first or the last element.
\<close>

lemma loop_start:
  assumes "splay_at s t" "nd \<noteq> 0" "nd \<notin> set (inorder t)"
  shows "loop_at (clear_node s nd) nd (\<lambda>_. []) t (\<lambda>_. nd)" "loop_list (\<lambda>_. []) t = inorder t" "settled order (\<lambda>_. [])"
    "sp_kept s (clear_node s nd) {nd}"
proof -
  have "srep (sp_entry_at (clear_node s nd)) t = srep (sp_entry_at s) t"
    by (rule srep_cong) (use assms(3) in \<open>auto simp: clear_node_def set_left_def set_right_def\<close>)
  then show "loop_at (clear_node s nd) nd (\<lambda>_. []) t (\<lambda>_. nd)"
    using assms by (simp add: loop_at_def splay_at_def clear_node_def set_left_def set_right_def)
qed (simp_all add: loop_list_def chain_list_def settled_def sp_kept_def clear_node_def set_left_def set_right_def)

lemma splayed:
  assumes s: "splay_at s t" "t \<noteq> Leaf" "nd \<noteq> 0" "nd \<notin> set (inorder t)"
    and o: "turns order (inorder t)" "ends \<or> (\<forall>x. order x \<noteq> 0)"
  obtains s1 l r s' a x b where "splay_loop ends order (clear_node s nd) nd nd = Some (s1, l, r)"
    "s' = SPLAY_ASSEMBLE s1 nd l r" "splay_at s' (Node a x b)" "inorder a @ x # inorder b = inorder t"
    "\<forall>y \<in> set (inorder a). 0 < order y" "\<forall>z \<in> set (inorder b). order z < 0"
    "sp_kept s s' (insert nd (set (inorder t)))"
proof -
  note st = loop_start [OF s(1,3,4)]
  have "splayed_from ends order (clear_node s nd) nd (\<lambda>_. []) t (\<lambda>_. nd)"
    by (rule splay_loop_ends) (use st s(2) o in \<open>simp add: splay_ready_def\<close>)
  then obtain s1 cs t1 e where k: "splay_loop ends order (clear_node s nd) nd nd = Some (s1, e False, e True)" "loop_at s1 nd cs t1 e"
    "loop_list cs t1 = inorder t" "stopped ends order t1" "settled order cs" "sp_kept (clear_node s nd) s1 (insert nd (set (inorder t)))"
    unfolding splayed_from_def st(2) by blast
  obtain a x b where t1: "t1 = Node a x b" and root: "ends \<and> order x = 0 \<or> order x < 0 \<and> a = Leaf \<or> 0 < order x \<and> b = Leaf"
    using k(4) unfolding stopped_def by blast
  note asm = assembled [OF k(2) [unfolded t1]]
  have list: "inorder (hang False (cs False) a) @ x # inorder (hang True (cs True) b) = inorder t"
    using asm(2) k(3) t1 by simp
  have t: "turns order (inorder a @ x # inorder b)" using turns_loop [of order cs t1] o(1) k(3) by (simp add: t1)
  have ends: "\<forall>y \<in> set (inorder a). 0 < order y" "\<forall>z \<in> set (inorder b). order z < 0"
    using t root by (fastforce simp: turns_def sorted_wrt_append)+
  have chains: "y \<in> set (chain_addrs (cs d)) \<Longrightarrow> side_of d (order y)" for y d using k(5) unfolding settled_def by blast
  show ?thesis
  proof (rule that [OF k(1) refl asm(1) list])
    show "\<forall>y \<in> set (inorder (hang False (cs False) a)). 0 < order y" using ends(1) chains [of _ False] by (auto simp: side_of_def)
    show "\<forall>z \<in> set (inorder (hang True (cs True) b)). order z < 0" using ends(2) chains [of _ True] by (auto simp: side_of_def)
    have "sp_kept s1 (SPLAY_ASSEMBLE s1 nd (e False) (e True)) (insert nd (set (inorder t)))" using asm(3) list by simp
    then show "sp_kept s (SPLAY_ASSEMBLE s1 nd (e False) (e True)) (insert nd (set (inorder t)))"
      using st(4) k(6) unfolding sp_kept_def by simp
  qed
qed

end
