(* ===== verification/SplayOps.thy ===== *)
theory SplayOps
  imports SplayTree
begin

text \<open>
  The operations of a splay tree on the ordered list of its elements: every one returns, whatever
  the shape of the tree, keeps the order, and finds, inserts, removes or visits what its contract
  says.
\<close>

section \<open>The splayed tree\<close>

definition splay_home :: "addr \<Rightarrow> sp_state \<Rightarrow> addr tree \<Rightarrow> bool" where
  "splay_home nd s t \<longleftrightarrow> splay_at s t \<and> nd \<noteq> 0 \<and> nd \<notin> set_tree t"

lemma splay_key:
  assumes s: "splay_home nd s t" "t \<noteq> Leaf" and cmp: "orders cmp" "in_order cmp (inorder t)"
  obtains s' a x b where "SPLAY nd cmp s e = Some s'" "splay_home nd s' (Node a x b)" "inorder a @ x # inorder b = inorder t"
    "\<forall>y \<in> set_tree a. 0 < cmp e y" "\<forall>z \<in> set_tree b. cmp e z < 0" "sp_kept s s' (insert nd (set_tree t))"
proof -
  have t: "turns (cmp e) (inorder t)" unfolding turns_def by (rule in_order_turns [OF cmp])
  obtain s1 l r s' a x b where k: "splay_loop True (cmp e) (clear_node s nd) nd nd = Some (s1, l, r)" "s' = SPLAY_ASSEMBLE s1 nd l r"
    "splay_at s' (Node a x b)" "inorder a @ x # inorder b = inorder t" "\<forall>y \<in> set (inorder a). 0 < cmp e y"
    "\<forall>z \<in> set (inorder b). cmp e z < 0" "sp_kept s s' (insert nd (set (inorder t)))"
    using splayed [OF _ s(2) _ _ t] s(1) unfolding splay_home_def by (metis set_inorder)
  have "set_tree t = set_tree (Node a x b)" using arg_cong [OF k(4), of set] by simp
  then have "splay_home nd s' (Node a x b)" using k(3) s(1) by (simp add: splay_home_def)
  moreover have "SPLAY nd cmp s e = Some s'" using k(1,2) by (simp add: SPLAY_def)
  ultimately show ?thesis using that k(4-7) by simp
qed

lemma splay_end:
  assumes s: "splay_home nd s t" "t \<noteq> Leaf" and v: "v \<noteq> 0"
  obtains s' t' where "SPLAY_MINMAX nd s v = Some s'" "splay_home nd s' t'" "inorder t' = inorder t"
    "sph_root s' = (if v < 0 then first_or 0 (inorder t) else last_or 0 (inorder t))" "sp_kept s s' (insert nd (set_tree t))"
proof -
  have t: "turns (\<lambda>_. v) (inorder t)" using v by (auto simp: turns_def sorted_wrt_iff_nth_less)
  obtain s1 l r s' a x b where k: "splay_loop False (\<lambda>_. v) (clear_node s nd) nd nd = Some (s1, l, r)" "s' = SPLAY_ASSEMBLE s1 nd l r"
    "splay_at s' (Node a x b)" "inorder a @ x # inorder b = inorder t" "\<forall>y \<in> set (inorder a). 0 < v"
    "\<forall>z \<in> set (inorder b). v < 0" "sp_kept s s' (insert nd (set (inorder t)))"
    using splayed [OF _ s(2) _ _ t, where ends = False] s(1) v unfolding splay_home_def by (metis set_inorder)
  have "set_tree t = set_tree (Node a x b)" using arg_cong [OF k(4), of set] by simp
  then have home: "splay_home nd s' (Node a x b)" using k(3) s(1) by (simp add: splay_home_def)
  have "v < 0 \<longrightarrow> inorder a = []" using k(5) by (cases "inorder a") auto
  moreover have "\<not> v < 0 \<longrightarrow> inorder b = []" using k(6) by (cases "inorder b") auto
  ultimately have "x = (if v < 0 then first_or 0 (inorder t) else last_or 0 (inorder t))"
    by (auto simp flip: k(4) split: if_splits)
  then show ?thesis using that [of s' "Node a x b"] home k by (simp add: SPLAY_MINMAX_def splay_at_def)
qed

section \<open>Lookup\<close>

text \<open>An empty tree, and the entries outside of the tree.\<close>

lemma home_empty: "splay_home nd s t \<Longrightarrow> SPLAY_EMPTY s \<longleftrightarrow> t = Leaf"
  using sroot_zero by (auto simp: splay_home_def splay_at_def SPLAY_EMPTY_def)

lemma home_root: "splay_home nd s (Node a x b) \<Longrightarrow> sph_root s = x \<and> x \<noteq> 0 \<and> SPLAY_LEFT s x = sroot a \<and> SPLAY_RIGHT s x = sroot b"
  by (simp add: splay_home_def splay_at_def SPLAY_LEFT_def SPLAY_RIGHT_def)

lemma sp_kept_refl [simp]: "sp_kept s s A"
  by (simp add: sp_kept_def)

lemma sp_kept_mono: "sp_kept s s' A \<Longrightarrow> A \<subseteq> B \<Longrightarrow> sp_kept s s' B"
  by (auto simp: sp_kept_def)

lemma splay_find_correct:
  assumes s: "splay_at s t" "nd \<noteq> 0" "nd \<notin> set_tree t" and cmp: "orders cmp" "in_order cmp (inorder t)"
  shows "\<exists>s' t'. SPLAY_FIND nd cmp s e = Some (first_or 0 (filter (\<lambda>x. cmp e x = 0) (inorder t)), s') \<and>
    splay_at s' t' \<and> inorder t' = inorder t \<and> sp_kept s s' (insert nd (set_tree t)) \<and>
    (\<forall>x \<in> set_tree t. cmp e x = 0 \<longrightarrow> sph_root s' = x)"
proof (cases "t = Leaf")
  case True
  then show ?thesis using s by (intro exI [of _ s] exI [of _ t]) (simp add: SPLAY_FIND_def SPLAY_EMPTY_def splay_at_def)
next
  case False
  have home: "splay_home nd s t" using s by (simp add: splay_home_def)
  obtain s' a x b where k: "SPLAY nd cmp s e = Some s'" "splay_home nd s' (Node a x b)" "inorder a @ x # inorder b = inorder t"
    "\<forall>y \<in> set_tree a. 0 < cmp e y" "\<forall>z \<in> set_tree b. cmp e z < 0" "sp_kept s s' (insert nd (set_tree t))"
    by (rule splay_key [OF home False cmp])
  have "filter (\<lambda>x. cmp e x = 0) (inorder t) = (if cmp e x = 0 then [x] else [])"
    unfolding k(3) [symmetric] by (rule filter_turn) (use k(4,5) in simp_all)
  moreover have "set_tree t = set_tree a \<union> {x} \<union> set_tree b" using arg_cong [OF k(3), of set] by auto
  ultimately show ?thesis using k False home_root [OF k(2)] home_empty [OF home]
    by (intro exI [of _ s'] exI [of _ "Node a x b"]) (fastforce simp: SPLAY_FIND_def splay_home_def)
qed

section \<open>Insertion\<close>

text \<open>A tree of three elements, for the examples below.\<close>

definition splay_example :: sp_state where
  "splay_example = \<lparr>sp_entry_at = (\<lambda>x. if x = 16 then \<lparr>spe_left = 8, spe_right = 24\<rparr> else \<lparr>spe_left = 0, spe_right = 0\<rparr>), sph_root = 16\<rparr>"

definition splay_example_tree :: "addr tree" where
  "splay_example_tree = Node (Node Leaf 8 Leaf) 16 (Node Leaf 24 Leaf)"

lemma splay_example_at:
  "splay_at splay_example splay_example_tree" "inorder splay_example_tree = [8, 16, 24]" "set_tree splay_example_tree = {8, 16, 24}"
  "in_order by_address (inorder splay_example_tree)"
  by (auto simp: splay_example_def splay_example_tree_def splay_at_def in_order_def by_address_def)

text \<open>What \<open>SPLAY_INSERT\<close> does with the splayed tree.\<close>

definition root_insert :: "(addr \<Rightarrow> addr \<Rightarrow> int) \<Rightarrow> sp_state \<Rightarrow> addr \<Rightarrow> sp_state" where
  "root_insert cmp s e = (let x = sph_root s in
     if cmp e x < 0 then (set_left (set_right (set_left s e (SPLAY_LEFT s x)) e x) x 0)\<lparr>sph_root := e\<rparr>
     else (set_right (set_left (set_right s e (SPLAY_RIGHT s x)) e x) x 0)\<lparr>sph_root := e\<rparr>)"

lemma root_insert_at:
  assumes at: "splay_home nd s (Node a x b)" and cmp: "orders cmp" "in_order cmp (inorder a @ x # inorder b)"
    and e: "e \<noteq> 0" "e \<noteq> x" "e \<notin> set_tree a" "e \<notin> set_tree b" "cmp e x \<noteq> 0"
    and side: "\<forall>y \<in> set_tree a. 0 < cmp e y" "\<forall>z \<in> set_tree b. cmp e z < 0"
  defines "s' \<equiv> root_insert cmp s e"
    and "t' \<equiv> (if cmp e x < 0 then Node a e (Node Leaf x b) else Node (Node a x Leaf) e b)"
  shows "splay_at s' t'" "sph_root s' = e" "inorder t' = insert_in_order cmp e (inorder a @ x # inorder b)"
    "in_order cmp (inorder t')" "sp_kept s s' {e, x}"
proof -
  have root: "sph_root s = x" "x \<noteq> 0" "SPLAY_LEFT s x = sroot a" "SPLAY_RIGHT s x = sroot b" using home_root [OF at] by auto
  have reps: "srep (sp_entry_at s) a" "srep (sp_entry_at s) b" and dist: "distinct (inorder a @ x # inorder b)"
    using at by (auto simp: splay_home_def splay_at_def)
  have same: "sp_entry_at s' y = sp_entry_at s y" if "y \<noteq> e" "y \<noteq> x" for y
    using that by (simp add: s'_def root_insert_def Let_def splay_sides root(1))
  have reps': "srep (sp_entry_at s') a" "srep (sp_entry_at s') b"
    using reps dist e by (auto intro!: srep_cong [THEN iffD2, OF same])
  have flds: "down True s x = sroot a" "down False s x = sroot b" using root(3,4) by (simp_all add: splay_sides)
  show r: "sph_root s' = e" by (simp add: s'_def root_insert_def Let_def splay_sides)
  show "splay_at s' t'"
    using reps' dist e root(2) flds unfolding splay_at_def r t'_def
    by (auto simp: srep_down s'_def root_insert_def Let_def splay_sides root(1))
  show list: "inorder t' = insert_in_order cmp e (inorder a @ x # inorder b)"
  proof (cases "cmp e x < 0")
    case True
    then show ?thesis using insert_between [of "inorder a" cmp e "x # inorder b"] side by (simp add: t'_def)
  next
    case False
    then show ?thesis using insert_between [of "inorder a @ [x]" cmp e "inorder b"] side e(5) by (simp add: t'_def)
  qed
  show "in_order cmp (inorder t')"
    unfolding list by (rule insert_in_order_keeps [OF cmp]) (use side e(5) in auto)
  show "sp_kept s s' {e, x}" using same by (auto simp: sp_kept_def)
qed

text \<open>
  C39: \<open>SPLAY_INSERT\<close> always returns. If an element is equal to the new one, it is returned and has been
  brought to the root; if not, the new element is the root, the elements are the old ones with it
  at its place in the order. Only entries of the tree, of the new element and the local variable
  are written.
\<close>

theorem splay_insert_correct:
  assumes s: "splay_at s t" "nd \<noteq> 0" "nd \<notin> set_tree t" and cmp: "orders cmp" "in_order cmp (inorder t)"
    and e: "e \<noteq> 0" "e \<noteq> nd"
  shows "\<exists>s' t'. splay_at s' t' \<and> sp_kept s s' (insert nd (insert e (set_tree t))) \<and>
    (if \<exists>x \<in> set_tree t. cmp e x = 0
     then SPLAY_INSERT nd cmp s e = Some (sph_root s', s') \<and> cmp e (sph_root s') = 0 \<and> inorder t' = inorder t
     else SPLAY_INSERT nd cmp s e = Some (0, s') \<and> inorder t' = insert_in_order cmp e (inorder t) \<and>
       in_order cmp (inorder t') \<and> sph_root s' = e)"
proof (cases "t = Leaf")
  case True
  then show ?thesis using s e
    by (intro exI [of _ "(set_left (set_right s e 0) e 0)\<lparr>sph_root := e\<rparr>"] exI [of _ "Node Leaf e Leaf"])
      (simp add: SPLAY_INSERT_def SPLAY_EMPTY_def splay_at_def set_left_def set_right_def sp_kept_def insert_in_order_def in_order_def)
next
  case False
  have home: "splay_home nd s t" using s by (simp add: splay_home_def)
  obtain s1 a x b where k: "SPLAY nd cmp s e = Some s1" "splay_home nd s1 (Node a x b)" "inorder a @ x # inorder b = inorder t"
    "\<forall>y \<in> set_tree a. 0 < cmp e y" "\<forall>z \<in> set_tree b. cmp e z < 0" "sp_kept s s1 (insert nd (set_tree t))"
    by (rule splay_key [OF home False cmp])
  have set: "set_tree t = set_tree a \<union> {x} \<union> set_tree b" using arg_cong [OF k(3), of set] by auto
  have found: "(\<exists>x \<in> set_tree t. cmp e x = 0) \<longleftrightarrow> cmp e x = 0" using k(4,5) by (auto simp: set)
  note root = home_root [OF k(2)] and ne = home_empty [OF home]
  show ?thesis
  proof (cases "cmp e x = 0")
    case True
    then show ?thesis using k(1,2,3) sp_kept_mono [OF k(6)] found root ne False
      by (intro exI [of _ s1] exI [of _ "Node a x b"]) (auto simp: SPLAY_INSERT_def splay_home_def)
  next
    case nz: False
    have ex: "e \<noteq> x" "e \<notin> set_tree a" "e \<notin> set_tree b" using nz k(4,5) orders_swap(3) [OF cmp(1), of e] by auto
    note r = root_insert_at [OF k(2) cmp(1) cmp(2) [folded k(3)] e(1) ex nz k(4,5), unfolded k(3)]
    have "SPLAY_INSERT nd cmp s e = Some (0, root_insert cmp s1 e)"
      using k(1) ne False root nz by (simp add: SPLAY_INSERT_def root_insert_def Let_def splay_sides)
    moreover have "sp_kept s (root_insert cmp s1 e) (insert nd (insert e (set_tree t)))"
      using sp_kept_mono [OF k(6)] sp_kept_mono [OF r(5)] by (rule sp_kept_trans) (auto simp: set)
    ultimately show ?thesis using r found nz by auto
  qed
qed

lemma splay_insert_correct_witness:
  "\<exists>s' t'. splay_at s' t' \<and> sp_kept splay_example s' {4096, 20, 8, 16, 24} \<and>
    SPLAY_INSERT 4096 by_address splay_example 20 = Some (0, s') \<and> inorder t' = [8, 16, 20, 24] \<and> sph_root s' = 20"
proof -
  have "insert_in_order by_address 20 [8, 16, 24] = [8, 16, 20, 24]" by (simp add: insert_in_order_def by_address_def)
  moreover have "\<not> (\<exists>x \<in> set_tree splay_example_tree. by_address 20 x = 0)" by (simp add: splay_example_at by_address_def)
  ultimately show ?thesis
    using splay_insert_correct [OF splay_example_at(1) _ _ orders_by_address splay_example_at(4), of 4096 20]
    by (auto simp: splay_example_at(2,3))
qed

section \<open>Removal\<close>

lemma home_subtrees:
  assumes "splay_home nd s (Node a x b)"
  shows "splay_home nd (s\<lparr>sph_root := sroot a\<rparr>) a" "splay_home nd (s\<lparr>sph_root := sroot b\<rparr>) b"
  using assms by (auto simp: splay_home_def splay_at_def)

text \<open>The two halves of a splayed tree whose root goes: the splay of the left one leaves its last
  element at the root, without a right child.\<close>

lemma joined:
  assumes at: "splay_home nd s (Node a x b)" and a: "a \<noteq> Leaf" "\<forall>y \<in> set_tree a. 0 < cmp e y"
    and cmp: "orders cmp" "in_order cmp (inorder a)"
  obtains s' t' where "SPLAY nd cmp (s\<lparr>sph_root := sroot a\<rparr>) e = Some s'" "splay_at (set_right s' (sph_root s') (sroot b)) t'"
    "inorder t' = inorder a @ inorder b" "sp_kept s (set_right s' (sph_root s') (sroot b)) (insert nd (set_tree a))"
proof -
  obtain s' a' y c where k: "SPLAY nd cmp (s\<lparr>sph_root := sroot a\<rparr>) e = Some s'" "splay_home nd s' (Node a' y c)"
    "inorder a' @ y # inorder c = inorder a" "\<forall>z \<in> set_tree c. cmp e z < 0"
    "sp_kept (s\<lparr>sph_root := sroot a\<rparr>) s' (insert nd (set_tree a))"
    by (rule splay_key [OF home_subtrees(1) [OF at] a(1) cmp])
  have set: "set_tree a = set_tree a' \<union> {y} \<union> set_tree c" using arg_cong [OF k(3), of set] by auto
  then have "\<forall>z \<in> set_tree c. 0 < cmp e z \<and> cmp e z < 0" using a(2) k(4) by blast
  then have c: "c = Leaf" by (cases c) auto
  have dist: "distinct (inorder a @ x # inorder b)" "nd \<notin> set_tree b" "srep (sp_entry_at s) b" using at by (simp_all add: splay_home_def splay_at_def)
  have "srep (sp_entry_at s') b = srep (sp_entry_at s) b"
    by (rule srep_cong) (use k(5) dist in \<open>auto simp: sp_kept_def\<close>)
  then have b: "srep (sp_entry_at (set_right s' y v)) b" for v
    using dist set by (auto simp: splay_sides intro!: srep_cong [THEN iffD2, OF set_down_fields(2)])
  note root = home_root [OF k(2)]
  have y: "y \<notin> set_tree a'" "srep (sp_entry_at s') a'" "down True s' y = sroot a'" "y \<noteq> 0" "sph_root s' = y"
    using k(2) root by (auto simp: splay_home_def splay_at_def splay_sides)
  have "srep (sp_entry_at (set_right s' y (sroot b))) a'" using y(1,2)
    by (auto simp: splay_sides intro!: srep_cong [THEN iffD2, OF set_down_fields(2)])
  moreover have "inorder (Node a' y b) = inorder a @ inorder b" using k(3) c by simp
  moreover have "distinct (inorder a @ inorder b)" using dist(1) by auto
  ultimately have "splay_at (set_right s' (sph_root s') (sroot b)) (Node a' y b)"
    using b y unfolding splay_at_def by (metis set_down_fields(1,3) splay_sides(8) sroot.simps(2) srep.simps(2) srep_down)
  moreover have "sp_kept s (set_right s' (sph_root s') (sroot b)) (insert nd (set_tree a))"
    using k(5) set y(5) by (auto simp: sp_kept_def splay_sides)
  ultimately show ?thesis using that k(1) \<open>inorder (Node a' y b) = inorder a @ inorder b\<close> by blast
qed

text \<open>
  C40: \<open>SPLAY_REMOVE\<close> always returns: its argument, or NULL when no element has its key. Afterwards the
  tree holds the elements with other keys, in their order.
\<close>

theorem splay_remove_correct:
  assumes s: "splay_at s t" "nd \<noteq> 0" "nd \<notin> set_tree t" and cmp: "orders cmp" "in_order cmp (inorder t)"
  shows "\<exists>s' t'. SPLAY_REMOVE nd cmp s e = Some (if \<exists>x \<in> set_tree t. cmp e x = 0 then e else 0, s') \<and>
    splay_at s' t' \<and> inorder t' = filter (\<lambda>x. cmp e x \<noteq> 0) (inorder t) \<and> sp_kept s s' (insert nd (set_tree t))"
proof (cases "t = Leaf")
  case True
  then show ?thesis using s by (intro exI [of _ s] exI [of _ t]) (simp add: SPLAY_REMOVE_def SPLAY_EMPTY_def splay_at_def)
next
  case False
  have home: "splay_home nd s t" using s by (simp add: splay_home_def)
  obtain s1 a x b where k: "SPLAY nd cmp s e = Some s1" "splay_home nd s1 (Node a x b)" "inorder a @ x # inorder b = inorder t"
    "\<forall>y \<in> set_tree a. 0 < cmp e y" "\<forall>z \<in> set_tree b. cmp e z < 0" "sp_kept s s1 (insert nd (set_tree t))"
    by (rule splay_key [OF home False cmp])
  have set: "set_tree t = set_tree a \<union> {x} \<union> set_tree b" using arg_cong [OF k(3), of set] by auto
  have found: "(\<exists>x \<in> set_tree t. cmp e x = 0) \<longleftrightarrow> cmp e x = 0" using k(4,5) by (auto simp: set)
  have kept: "filter (\<lambda>x. cmp e x \<noteq> 0) (inorder t) = (if cmp e x = 0 then inorder a @ inorder b else inorder t)"
    unfolding k(3) [symmetric] by (rule filter_others) (use k(4,5) in simp_all)
  note root = home_root [OF k(2)] and ne = home_empty [OF home]
  have ia: "in_order cmp (inorder a)" using cmp(2) unfolding k(3) [symmetric] in_order_append by blast
  consider "cmp e x \<noteq> 0" | "cmp e x = 0" "a = Leaf" | "cmp e x = 0" "a \<noteq> Leaf" by blast
  then show ?thesis
  proof cases
    case 1
    then show ?thesis using k(1,2,3,6) found root ne False kept
      by (intro exI [of _ s1] exI [of _ "Node a x b"]) (simp add: SPLAY_REMOVE_def splay_home_def)
  next
    case 2
    have "sp_kept s (s1\<lparr>sph_root := sroot b\<rparr>) (insert nd (set_tree t))" using k(6) by (simp add: sp_kept_def)
    then show ?thesis using k(1) found root ne False kept home_subtrees(2) [OF k(2)] 2
      by (intro exI [of _ "s1\<lparr>sph_root := sroot b\<rparr>"] exI [of _ b]) (simp add: SPLAY_REMOVE_def splay_home_def)
  next
    case 3
    obtain s2 t' where j: "SPLAY nd cmp (s1\<lparr>sph_root := sroot a\<rparr>) e = Some s2" "splay_at (set_right s2 (sph_root s2) (sroot b)) t'"
      "inorder t' = inorder a @ inorder b" "sp_kept s1 (set_right s2 (sph_root s2) (sroot b)) (insert nd (set_tree a))"
      by (rule joined [OF k(2) 3(2) k(4) cmp(1) ia])
    have "sroot a \<noteq> 0" using home_empty [OF home_subtrees(1) [OF k(2)]] 3(2) by (simp add: SPLAY_EMPTY_def)
    then have "SPLAY_REMOVE nd cmp s e = Some (e, set_right s2 (sph_root s2) (sroot b))"
      using k(1) root ne False 3(1) j(1) by (simp add: SPLAY_REMOVE_def Let_def)
    moreover have "sp_kept s (set_right s2 (sph_root s2) (sroot b)) (insert nd (set_tree t))"
      by (rule sp_kept_trans [OF k(6)], rule sp_kept_mono [OF j(4)]) (auto simp: set)
    ultimately show ?thesis using j(2,3) found kept 3(1) by auto
  qed
qed

lemma splay_remove_correct_witness:
  "\<exists>s' t'. SPLAY_REMOVE 4096 by_address splay_example 16 = Some (16, s') \<and> splay_at s' t' \<and> inorder t' = [8, 24] \<and>
    sp_kept splay_example s' {4096, 8, 16, 24}"
  using splay_remove_correct [OF splay_example_at(1) _ _ orders_by_address splay_example_at(4), of 4096 16]
  by (auto simp: splay_example_at(2,3) by_address_def)

section \<open>Ends, neighbours and walks\<close>

lemma sp_left_loop_first:
  "srep (sp_entry_at s) t \<Longrightarrow> t \<noteq> Leaf \<Longrightarrow> sp_left_loop s (sroot t) = Some (first_or 0 (inorder t))"
proof (induction t)
  case (Node l x r)
  have "SPLAY_LEFT s x = sroot l" using Node(3) by (simp add: SPLAY_LEFT_def)
  moreover have "first_or x (inorder l) = first_or 0 (inorder l)" if "l \<noteq> Leaf"
    using first_last_other(1) [of "inorder l" x] that by simp
  ultimately show ?case using Node(1,3) sroot_zero [of "sp_entry_at s" l]
    by (subst sp_left_loop.simps) (cases "l = Leaf"; simp)
qed simp

lemma splay_next_home:
  assumes s: "splay_home nd s t" and cmp: "orders cmp" "in_order cmp (inorder t)" and t: "inorder t = ys @ e # zs"
  obtains s' t' where "SPLAY_NEXT nd cmp s e = Some (first_or 0 zs, s')" "splay_home nd s' t'" "inorder t' = inorder t"
    "sp_kept s s' (insert nd (set_tree t))"
proof -
  have ne: "t \<noteq> Leaf" using t by auto
  obtain s' a x b where k: "SPLAY nd cmp s e = Some s'" "splay_home nd s' (Node a x b)" "inorder a @ x # inorder b = inorder t"
    "\<forall>y \<in> set_tree a. 0 < cmp e y" "\<forall>z \<in> set_tree b. cmp e z < 0" "sp_kept s s' (insert nd (set_tree t))"
    by (rule splay_key [OF s ne cmp])
  have "e \<in> set (inorder a @ x # inorder b)" using k(3) t by simp
  then have e: "e = x" using k(4,5) orders_swap(3) [OF cmp(1), of e] by auto
  have at: "srep (sp_entry_at s') (Node a x b)" "distinct (inorder t)"
    using k(2,3) s by (simp_all add: splay_home_def splay_at_def)
  then have "inorder b = zs" using k(3) e unfolding t by (metis append_Cons_eq_iff distinct.simps(2) distinct_append not_distinct_conv_prefix)
  moreover have "SPLAY_RIGHT s' e = sroot b" "srep (sp_entry_at s') b" using home_root [OF k(2)] at(1) e by simp_all
  ultimately have "SPLAY_NEXT nd cmp s e = Some (first_or 0 zs, s')"
    using k(1) sp_left_loop_first sroot_zero by (cases "b = Leaf") (auto simp: SPLAY_NEXT_def)
  then show ?thesis using that k(2,3,6) by simp
qed

lemma splay_ends:
  assumes s: "splay_home nd s t"
  obtains s1 t1 s2 t2 where "SPLAY_MIN nd s = Some (first_or 0 (inorder t), s1)" "SPLAY_MAX nd s = Some (last_or 0 (inorder t), s2)"
    "splay_home nd s1 t1" "splay_home nd s2 t2" "inorder t1 = inorder t" "inorder t2 = inorder t"
    "sp_kept s s1 (insert nd (set_tree t))" "sp_kept s s2 (insert nd (set_tree t))"
proof (cases "t = Leaf")
  case True
  then show ?thesis using that [of s s t t] s home_empty [OF s] by (simp add: SPLAY_MIN_def SPLAY_MAX_def SPLAY_MIN_MAX_def)
next
  case False
  obtain s1 t1 where 1: "SPLAY_MINMAX nd s (-1) = Some s1" "splay_home nd s1 t1" "inorder t1 = inorder t"
    "sph_root s1 = (if (-1::int) < 0 then first_or 0 (inorder t) else last_or 0 (inorder t))" "sp_kept s s1 (insert nd (set_tree t))"
    by (rule splay_end [OF s False, of "-1"]) simp_all
  obtain s2 t2 where 2: "SPLAY_MINMAX nd s 1 = Some s2" "splay_home nd s2 t2" "inorder t2 = inorder t"
    "sph_root s2 = (if (1::int) < 0 then first_or 0 (inorder t) else last_or 0 (inorder t))" "sp_kept s s2 (insert nd (set_tree t))"
    by (rule splay_end [OF s False, of 1]) simp_all
  show ?thesis using that [of s1 s2 t1 t2] 1 2 home_empty [OF s] False by (simp add: SPLAY_MIN_def SPLAY_MAX_def SPLAY_MIN_MAX_def)
qed

lemma splay_foreach_walks:
  assumes cmp: "orders cmp"
  shows "splay_home nd s t \<Longrightarrow> in_order cmp (inorder t) \<Longrightarrow> inorder t = ys @ zs \<Longrightarrow>
    \<exists>s' t'. splay_foreach_loop nd cmp s (first_or 0 zs) = Some (zs, s') \<and> splay_home nd s' t' \<and> inorder t' = inorder t \<and>
      sp_kept s s' (insert nd (set_tree t))"
proof (induction zs arbitrary: s t ys)
  case Nil
  then show ?case by (subst splay_foreach_loop.simps) auto
next
  case (Cons z zs)
  obtain s1 t1 where n: "SPLAY_NEXT nd cmp s z = Some (first_or 0 zs, s1)" "splay_home nd s1 t1" "inorder t1 = inorder t"
    "sp_kept s s1 (insert nd (set_tree t))"
    by (rule splay_next_home [OF Cons(2) cmp Cons(3,4)])
  have set: "set_tree t1 = set_tree t" using arg_cong [OF n(3), of set] by simp
  obtain s' t' where w: "splay_foreach_loop nd cmp s1 (first_or 0 zs) = Some (zs, s')" "splay_home nd s' t'" "inorder t' = inorder t"
    "sp_kept s1 s' (insert nd (set_tree t))"
    using Cons(1) [OF n(2), of "ys @ [z]"] Cons(3,4) n(3) set by auto
  have "z \<in> set_tree t" using arg_cong [OF Cons(4), of set] by simp
  then have "z \<noteq> 0" using Cons(2) srep_nonzero [of "sp_entry_at s" t] by (auto simp: splay_home_def splay_at_def)
  then show ?case using n(1) w sp_kept_trans [OF n(4) w(4)] by (subst splay_foreach_loop.simps) auto
qed

text \<open>
  C34: a \<open>SPLAY_FOREACH\<close> loop, which splays the tree at its start and in every step, ends, visits
  every element once and in order, and leaves the elements and their order as they were.
\<close>

theorem splay_foreach_visits:
  assumes s: "splay_at s t" "nd \<noteq> 0" "nd \<notin> set_tree t" and cmp: "orders cmp" "in_order cmp (inorder t)"
  shows "\<exists>s' t'. SPLAY_FOREACH nd cmp s = Some (inorder t, s') \<and> splay_at s' t' \<and> inorder t' = inorder t \<and>
    sp_kept s s' (insert nd (set_tree t))"
proof -
  have home: "splay_home nd s t" using s by (simp add: splay_home_def)
  obtain s1 t1 where m: "SPLAY_MIN nd s = Some (first_or 0 (inorder t), s1)" "splay_home nd s1 t1" "inorder t1 = inorder t"
    "sp_kept s s1 (insert nd (set_tree t))"
    by (rule splay_ends [OF home])
  have set: "set_tree t1 = set_tree t" using arg_cong [OF m(3), of set] by simp
  obtain s' t' where w: "splay_foreach_loop nd cmp s1 (first_or 0 (inorder t)) = Some (inorder t, s')" "splay_home nd s' t'"
    "inorder t' = inorder t" "sp_kept s1 s' (insert nd (set_tree t))"
    using splay_foreach_walks [OF cmp(1) m(2), of "[]" "inorder t"] cmp(2) m(3) set by auto
  then show ?thesis using m(1) sp_kept_trans [OF m(4) w(4)] by (auto simp: SPLAY_FOREACH_def splay_home_def)
qed

theorem splay_foreach_visits_witness:
  "\<exists>s' t'. SPLAY_FOREACH 4096 by_address splay_example = Some ([8, 16, 24], s') \<and> splay_at s' t' \<and>
    inorder t' = [8, 16, 24] \<and> sp_kept splay_example s' {4096, 8, 16, 24}"
  using splay_foreach_visits [OF splay_example_at(1) _ _ orders_by_address splay_example_at(4), of 4096]
  by (auto simp: splay_example_at(2,3))

end
