(* ===== verification/Spec2Isabelle.thy ===== *)
theory Spec2Isabelle
  imports KernelBoot RbProps SplayOps
begin

text \<open>
  A verification library of the MoltarOS kernel, a 32-bit x86 kernel in C and assembly under
  src/src/kernel, with the small C library under src/src/libc. The theories translate the sources
  into executable definitions and prove what the components promise, separately and together.

  \<^bold>\<open>The program.\<close> boot.asm enters \<open>kernel_init\<close>, which brings up the console, the descriptor tables, the
  timer, and, after a look at the boot loader's memory map, the page allocator and the heap;
  \<open>kernel_main\<close> then makes the running code the first task, creates the thread of the clock, and
  registers the keyboard. From there on the kernel is driven by interrupts: the timer's end in
  \<open>task_switch\<close>, which gives every task 50 ticks in turn, the keyboard's show the name of a key or
  scroll the console, and the clock thread redraws the time and yields. Everything dynamic lives
  in one heap: the task records, the array of the console's lines, and the lines themselves.

  \<^bold>\<open>The model.\<close> Memory is a function from 32-bit addresses to bytes; structs are read and written at
  their offsets with little-endian loads and stores, so aliasing, layout and wrap-around are the
  machine's. Integers keep their width. State is passed explicitly, in records that follow the
  static variables of each file: \<open>memheap\<close> and \<open>palloc\<close> (mm/heap.c, mm/alloc.c) in \<open>kmem\<close>
  (kernel/mem.c), \<open>gdt\<close> and \<open>idt\<close> (x86), \<open>vga\<close> (drivers/vga.c), \<open>sched\<close> (sched/task.c), and
  \<open>kernel\<close> for the whole. A panic, a null dereference, an access out of bounds, a read of an
  unassigned variable and a loop that does not end are values of the error type of Prelude. Port
  output is a trace of events; what a port read returns is decided by a parameter, the device,
  which may depend on everything sent before. The values that C reads from registers (the stack,
  base and instruction pointers in task.c), the addresses that the linker chooses and the pushed
  registers of an interrupt are parameters too.

  \<^bold>\<open>The theories\<close>, from the bottom up, with the files they translate and what their lemmas show.

  \<^item> Prelude: types, errors, memory, bit-vector lemmas. LibcString: string.h (libc/string); each
    function against lists of bytes, overlapping copies included.
  \<^item> BitmapRuns, Heap, HeapProps: mm/heap.c. A superblock's bytes are abstracted to a map from
    block numbers to identifiers, and the allocations to its runs; allocation claims a fresh run,
    the first that fits, deallocation returns it, and neither touches a byte of anyone else. The
    runs of a heap (\<open>heap_run\<close>) carry a ledger of the addresses and sizes that were handed out and
    are not yet freed; those objects stay disjoint. The case of a superblock that ends with the
    address space, in which \<open>memheap_free\<close> does nothing (\<open>reaches_top\<close>), is part of the statements.
  \<^item> PageAlloc: mm/alloc.c. Two present pages never share a frame; a new page is fresh and zeroed;
    the 1021 pages after boot, and the exact conditions of both panics.
  \<^item> Allocator: the contract of the kernel's memory as the clients see it, locale \<open>allocator\<close>, and
    its extension \<open>paged\<close> by memory of static variables and single pages. KMem (kernel/mem.c):
    \<open>kmalloc\<close> and \<open>kfree\<close>, the invariant \<open>kmem_inv\<close>, and the interpretation of the contract. KPages:
    the interpretation of \<open>paged\<close>.
  \<^item> DynArray: ds/array.c, over any allocator of the contract, refined to lists.
  \<^item> Printf: libc/stdio/printf.c, formatting against a specification of fields and decimal numbers.
  \<^item> Descriptors, Interrupts: x86/gdt.c, x86/idt.c, x86/exceptions.c, drivers/timer.c; the
    tables as the processor reads them, dispatch and acknowledgement. Rtc: drivers/rtc.c,
    against the twelve-hour clock of its time zone and the hours at which it shows another.
  \<^item> Multiboot: include/kernel/multiboot.h, the walk of the memory map, also on tables on which
    it does not end.
  \<^item> Vga, VgaProps, VgaCursor: drivers/vga.c. Screen and saved lines are abstracted to lists of
    cells; scrolling moves a window over them; \<open>vga_putc\<close> equals a reference without its recursion;
    the cursor stays on the screen. Kbd, KbdProps: drivers/kbd.c with its tables and names.
  \<^item> Queue: the LIST macros of include/sys/queue.h, as doubly linked lists in memory.
  \<^item> Task, TaskProps, TaskRun, TaskStack, TaskCreate, TaskInit: sched/task.c and task_helper.asm.
    The list of task records is refined to round robin; preempted contexts come back; every task
    of \<open>n\<close> has its turn within 51 \<open>n\<close> ticks of any reachable state; stacks are
    copied and the pointers into them relocated; the invariant \<open>sched_ok\<close> holds in every state
    the events \<open>sched_step\<close> reach.
  \<^item> ConsoleMem: the console among the other users of the heap. The heap keeps its contract under the
    stronger invariant \<open>sealed\<close>, a second interpretation, so that what was proved of the array against
    the contract also says that the static memory is left alone.
  \<^item> Kernel, KernelLog, KernelRun, KernelBoot: kernel/kernel.c, include/kernel/logger.h,
    x86/idt_handler.asm and libc/stdio/putchar.c. The events of a running kernel are the relation
    \<open>kernel_step\<close>: interrupts of any line, the clock, yielding, log messages, and what threads do
    to memory. \<open>kernel_ok\<close> joins the invariants of console, scheduler, heap and interrupt table; it
    is what \<open>kernel_init\<close> and \<open>kernel_main\<close> establish and every event keeps.

  \<^item> TreeOrder, RbTree, RbMoves, RbInsert, RbRemove, RbSearch, RbProps: the red-black trees of
    include/sys/tree.h. A state is the entries by address and the root; it holds a tree when the
    pointers have its shape, and the place of a node in it is a list of frames, so that a rotation
    changes one of them. Every state that the operations reach (\<open>rb_reach\<close>) is a red-black tree of
    the ordered elements; all operations return in it. SplayTree, SplayOps: the splay trees, whose
    loop takes a tree apart into two chains (\<open>loop_at\<close>) that \<open>SPLAY_ASSEMBLE\<close> joins; no operation
    depends on the shape of the tree, and a loop over its elements visits each in order. The comparison function and the address of the local
    variable of a splay are parameters.

  \<^bold>\<open>Loops and bounds.\<close> Loops whose end the code guarantees are recursive functions with a termination
  proof. Those that malformed memory could keep going (the walks over lists, superblocks and the
  memory map, the copying loops of the stacks, \<open>vga_putc\<close>'s call of itself, the loops of the trees) are partial functions
  into an option, and a property that one returns says so; the only fuel is that of \<open>find_rounds\<close>,
  which counts the rounds of a search: twice the logarithm of the size is enough. Success of an
  allocation is stated where it can be: a request of 1 to 3932128 bytes succeeds while the kernel
  has handed out fewer than 1021 pages (\<open>running\<close> counts them); starting the kernel takes at most thirty.

  \<^bold>\<open>Not modelled.\<close>

  \<^item> Interrupts between two statements. An operation of the model runs as a whole; where the code
    encloses it in \<open>cli\<close> and \<open>sti\<close> (the log, the clock, the task list) that is what it asks for. The
    heap is not protected in this way, and the keyboard's handler may enter it.
  \<^item> The instruction sequences of the assembly stubs (pushing and restoring registers, loading table
    registers); boot.asm is represented by the page directory it builds.
  \<^item> debug_pd in mm/alloc.c, the wide port accesses of io_port.h, KERROR and KFRAME, which nothing
    calls; the warning of \<open>array_get\<close>, a log message; zone.c, whose only function is empty; the
    functions kbd_hal.h declares, which do not exist.
  \<^item> The other list families of include/sys/queue.h, a header of the BSD system of which the kernel
    uses the LIST family only. (include/sys/tree.h, of the same origin, is used by no file.)
\<close>

end
